(* ===== verification/Omni_Prelude.thy ===== *)
theory Omni_Prelude
  imports Main "HOL-Library.Signed_Division"
begin

text \<open>
  Shared ground of the development: the outcome type of C code that may abort, the C conversions
  between integer types, C division and remainder (truncating, \<open>sdiv\<close> and \<open>smod\<close> of the
  library), and the sets of integers that triplets \<open>l:u:s\<close> and counted loops stand for.

  Conventions used by every theory.
  \<^item> A C value of type \<open>int\<close>, \<open>long long\<close> or \<open>unsigned long long\<close> is an \<open>int\<close>.
    Conversions that change the value are written out (\<open>int32\<close>, \<open>int64\<close>, \<open>uint32\<close>,
    \<open>uint64\<close>), and so is the wrap-around of unsigned arithmetic. Overflow of signed
    arithmetic is undefined in C; there the model has the mathematical value, except in the loop
    schedules of the OpenMP runtime, where sums and products of type \<open>int\<close> are kept at 32 bits.
  \<^item> Division by zero is undefined in C; \<open>x sdiv 0 = 0\<close> and \<open>x smod 0 = x\<close> here, and
    the theorems assume a divisor that is not zero; in the loop schedules of the OpenMP runtime
    it is the error \<open>BadArith\<close>.
  \<^item> A call of \<open>_XMP_fatal\<close>, \<open>_ACC_fatal\<close> or \<open>ompc_fatal\<close> ends the process: the
    result is \<open>Inl (Fatal msg)\<close>. The other errors are uses of memory that C leaves undefined, among them
    \<open>memcpy\<close> on overlapping blocks, calls that do not return, and shifts and quotients that C leaves undefined
    (\<open>BadArith\<close>).
\<close>

subsection \<open>Outcomes\<close>

datatype omni_error =
    Fatal string
  | NullDeref
  | OutOfBounds
  | AssertFail
  | VaArgMissing
  | NoReturn
  | Overlap
  | BadArith

type_synonym 'a res = "omni_error + 'a"

definition bind_res :: "'a res \<Rightarrow> ('a \<Rightarrow> 'b res) \<Rightarrow> 'b res" where
  "bind_res m f = (case m of Inl e \<Rightarrow> Inl e | Inr x \<Rightarrow> f x)"

definition guard_res :: "bool \<Rightarrow> omni_error \<Rightarrow> 'a res \<Rightarrow> 'a res" where
  "guard_res b e k = (if b then k else Inl e)"

named_theorems c_simps \<open>C operators and conversions on values in range\<close>

lemma bind_res_simps [simp]:
  "bind_res (Inl e) f = Inl e"
  "bind_res (Inr x) f = f x"
  by (simp_all add: bind_res_def)

lemma bind_res_eq_Inr:
  "(bind_res m f = Inr y) = (\<exists>x. m = Inr x \<and> f x = Inr y)"
  by (cases m) auto

lemma bind_res_eq_Inl:
  "(bind_res m f = Inl e) = (m = Inl e \<or> (\<exists>x. m = Inr x \<and> f x = Inl e))"
  by (cases m) auto

lemma guard_res_simps [simp]:
  "guard_res True e k = k"
  "guard_res False e k = Inl e"
  by (simp_all add: guard_res_def)

lemma guard_res_eq_Inr: "(guard_res b e k = Inr y) = (b \<and> k = Inr y)"
  by (simp add: guard_res_def)

lemma guard_res_eq_Inl: "(guard_res b e k = Inl d) = (\<not> b \<and> d = e \<or> b \<and> k = Inl d)"
  by (auto simp: guard_res_def)

definition is_ok :: "'a res \<Rightarrow> bool" where
  "is_ok r = (case r of Inl e \<Rightarrow> False | Inr x \<Rightarrow> True)"

lemma is_okD: "is_ok r \<Longrightarrow> \<exists>x. r = Inr x"
  by (cases r) (auto simp: is_ok_def)

lemmas res_eqs = bind_res_eq_Inr bind_res_eq_Inl guard_res_eq_Inr guard_res_eq_Inl

text \<open>A loop over a list whose body may fail.\<close>

fun fold_res :: "('s \<Rightarrow> 'x \<Rightarrow> 's res) \<Rightarrow> 's \<Rightarrow> 'x list \<Rightarrow> 's res" where
  "fold_res f s [] = Inr s"
| "fold_res f s (x # xs) = bind_res (f s x) (\<lambda>s'. fold_res f s' xs)"

lemma fold_res_append: "fold_res f s (xs @ ys) = bind_res (fold_res f s xs) (\<lambda>s'. fold_res f s' ys)"
  by (induction xs arbitrary: s) (simp_all add: bind_res_def split: sum.split)

lemma fold_res_inv:
  assumes "P s" and "\<And>s x. P s \<Longrightarrow> x \<in> set xs \<Longrightarrow> \<exists>s'. f s x = Inr s' \<and> P s'"
  shows "\<exists>s'. fold_res f s xs = Inr s' \<and> P s'"
  using assms
proof (induction xs arbitrary: s)
  case (Cons x xs)
  obtain s1 where "f s x = Inr s1" "P s1" using Cons.prems by fastforce
  with Cons.IH [of s1] Cons.prems(2) show ?case by simp
qed simp

lemma fold_res_case:
  assumes "P s" and "\<And>s x. P s \<Longrightarrow> x \<in> set xs \<Longrightarrow> case f s x of Inl e \<Rightarrow> Q e | Inr s' \<Rightarrow> P s'"
  shows "case fold_res f s xs of Inl e \<Rightarrow> Q e | Inr s' \<Rightarrow> P s'"
  using assms
proof (induction xs arbitrary: s)
  case (Cons x xs)
  have "case f s x of Inl e \<Rightarrow> Q e | Inr s' \<Rightarrow> P s'" using Cons.prems by simp
  with Cons.IH Cons.prems(2) show ?case by (cases "f s x") auto
qed simp

text \<open>Calls that may fail or not return.\<close>

definition bind_ro :: "'a res option \<Rightarrow> ('a \<Rightarrow> 'b res option) \<Rightarrow> 'b res option" where
  "bind_ro m f = Option.bind m (\<lambda>r. case r of Inl e \<Rightarrow> Some (Inl e) | Inr x \<Rightarrow> f x)"

lemma bind_ro_simps [simp]:
  "bind_ro None f = None" "bind_ro (Some (Inl e)) f = Some (Inl e)" "bind_ro (Some (Inr x)) f = f x"
  by (simp_all add: bind_ro_def)

lemma bind_ro_mono [partial_function_mono]:
  assumes "mono_option B" and "\<And>y. mono_option (C y)"
  shows "mono_option (\<lambda>f. bind_ro (B f) (\<lambda>y. C y f))"
proof -
  have "mono_option (\<lambda>f. case r of Inl e \<Rightarrow> Some (Inl e) | Inr x \<Rightarrow> C x f)" for r
    by (cases r) (simp_all add: assms(2) option.const_mono)
  then show ?thesis unfolding bind_ro_def by (intro bind_mono assms(1))
qed

subsection \<open>Conversions between C integer types\<close>

definition int32 :: "int \<Rightarrow> int" where
  "int32 x = (x + 2147483648) mod 4294967296 - 2147483648"

definition uint32 :: "int \<Rightarrow> int" where
  "uint32 x = x mod 4294967296"

definition int64 :: "int \<Rightarrow> int" where
  "int64 x = (x + 9223372036854775808) mod 18446744073709551616 - 9223372036854775808"

definition uint64 :: "int \<Rightarrow> int" where
  "uint64 x = x mod 18446744073709551616"

definition fits32 :: "int \<Rightarrow> bool" where
  "fits32 x \<longleftrightarrow> - 2147483648 \<le> x \<and> x < 2147483648"

definition fits64 :: "int \<Rightarrow> bool" where
  "fits64 x \<longleftrightarrow> - 9223372036854775808 \<le> x \<and> x < 9223372036854775808"

definition fitsu64 :: "int \<Rightarrow> bool" where
  "fitsu64 x \<longleftrightarrow> 0 \<le> x \<and> x < 18446744073709551616"

lemma int32_id [simp, c_simps]: "fits32 x \<Longrightarrow> int32 x = x"
  unfolding int32_def fits32_def by (subst mod_pos_pos_trivial) auto

lemma int64_id [simp, c_simps]: "fits64 x \<Longrightarrow> int64 x = x"
  unfolding int64_def fits64_def by (subst mod_pos_pos_trivial) auto

lemma uint64_id [simp, c_simps]: "fitsu64 x \<Longrightarrow> uint64 x = x"
  unfolding uint64_def fitsu64_def by (rule mod_pos_pos_trivial) auto

lemma int32_range: "fits32 (int32 x)"
proof -
  have "0 \<le> (x + 2147483648) mod 4294967296" "(x + 2147483648) mod 4294967296 < 4294967296"
    by simp_all
  then show ?thesis unfolding int32_def fits32_def by linarith
qed

lemma uint64_range: "fitsu64 (uint64 x)"
  by (simp add: uint64_def fitsu64_def)

lemma int64_uint64 [simp]: "int64 (uint64 x) = int64 x"
  by (simp add: int64_def uint64_def mod_simps)

lemma uint64_add_left [simp]: "uint64 (uint64 x + y) = uint64 (x + y)"
  by (simp add: uint64_def mod_simps)

lemma uint64_add_right [simp]: "uint64 (x + uint64 y) = uint64 (x + y)"
  by (simp add: uint64_def mod_simps)

lemma uint64_add_diff_left [simp]: "uint64 (uint64 x + y - z) = uint64 (x + y - z)"
  using uint64_add_left [of x "y - z"] by (simp add: add_diff_eq)

lemma uint64_mult_left [simp]: "uint64 (uint64 x * y) = uint64 (x * y)"
  by (simp add: uint64_def mod_simps)

lemma fits32_fits64: "fits32 x \<Longrightarrow> fits64 x"
  by (simp add: fits32_def fits64_def)

lemma fits32_mod: "0 < c \<Longrightarrow> fits32 c \<Longrightarrow> fits32 (x mod c)" "0 < c \<Longrightarrow> fits32 c \<Longrightarrow> fits32 (- (x mod c))"
proof -
  assume c: "0 < c" "fits32 c"
  have "0 \<le> x mod c" "x mod c < c" using c by simp_all
  with c(2) show "fits32 (x mod c)" "fits32 (- (x mod c))" unfolding fits32_def by linarith+
qed

subsection \<open>C division and remainder\<close>

lemma sdiv_nonneg [simp, c_simps]: "0 \<le> a \<Longrightarrow> 0 < b \<Longrightarrow> (a::int) sdiv b = a div b"
  by (auto simp: signed_divide_int_def sgn_if)

lemma smod_nonneg [simp, c_simps]: "0 \<le> a \<Longrightarrow> 0 < b \<Longrightarrow> (a::int) smod b = a mod b"
  by (auto simp: signed_modulo_int_def sgn_if)

lemma sdiv_neg: "a < 0 \<Longrightarrow> 0 < b \<Longrightarrow> (a::int) sdiv b = - ((- a) div b)"
  by (simp add: signed_divide_int_def)

lemma smod_neg: "a < 0 \<Longrightarrow> 0 < b \<Longrightarrow> (a::int) smod b = - ((- a) mod b)"
  by (simp add: signed_modulo_int_def)

lemma smod_eq_0_iff: "((a::int) smod b = 0) = (b dvd a)"
  by (auto simp: signed_modulo_int_def sgn_if dvd_eq_mod_eq_0 [symmetric])

lemma smod_abs_less: "b \<noteq> 0 \<Longrightarrow> \<bar>(a::int) smod b\<bar> < \<bar>b\<bar>"
  using smod_int_range [of b a] by auto

lemma le_div_iff: "0 < b \<Longrightarrow> (k \<le> a div b) = (k * b \<le> (a::int))"
proof
  assume b: "0 < b" and "k \<le> a div b"
  then have "k * b \<le> a div b * b" by simp
  also have "\<dots> \<le> a" using b by (simp add: minus_mod_eq_div_mult [symmetric])
  finally show "k * b \<le> a" .
next
  assume b: "0 < b" and "k * b \<le> a"
  then have "k * b div b \<le> a div b" by (intro zdiv_mono1) auto
  with b show "k \<le> a div b" by simp
qed

lemma div_less_iff: "0 < b \<Longrightarrow> (a div b < k) = ((a::int) < k * b)"
  using le_div_iff [of b k a] by linarith

lemma ceil_le_iff: "0 < b \<Longrightarrow> (- ((- a) div b) \<le> k) = ((a::int) \<le> k * b)"
  using le_div_iff [of b "- k" "- a"] by linarith

lemma less_ceil_iff: "0 < b \<Longrightarrow> (k < - ((- a) div b)) = (k * b < (a::int))"
  using ceil_le_iff [of b a k] by linarith

subsection \<open>Triplets and counted loops\<close>

text \<open>The integers of a triplet \<open>l:u:s\<close> with a positive stride.\<close>

definition trip :: "int \<Rightarrow> int \<Rightarrow> int \<Rightarrow> int set" where
  "trip l u s = {i. l \<le> i \<and> i \<le> u \<and> s dvd (i - l)}"

text \<open>
  The values a C loop \<open>for (i = init; i < cond; i += step)\<close> gives to its variable
  (\<open>i > cond\<close> in place of \<open>i < cond\<close> when the step is negative).
\<close>

definition loop_iters :: "int \<Rightarrow> int \<Rightarrow> int \<Rightarrow> int set" where
  "loop_iters init cond step =
     (if step > 0 then {i. init \<le> i \<and> i < cond \<and> step dvd (i - init)}
      else {i. cond < i \<and> i \<le> init \<and> step dvd (i - init)})"

lemma dvd_diff_shift: "s dvd (a - b) \<Longrightarrow> s dvd (i - b) \<longleftrightarrow> s dvd (i - a)" for s :: int
  using dvd_add_right_iff [of s "a - b" "i - a"] by simp

lemma mem_trip: "i \<in> trip l u s \<longleftrightarrow> l \<le> i \<and> i \<le> u \<and> s dvd (i - l)"
  by (simp add: trip_def)

lemma trip_1: "trip l u 1 = {l..u}"
  by (auto simp: trip_def)

lemma trip_empty: "u < l \<Longrightarrow> trip l u s = {}"
  by (auto simp: trip_def)

lemma finite_trip [simp]: "finite (trip l u s)"
  by (rule finite_subset [of _ "{l..u}"]) (auto simp: trip_def)

lemma loop_iters_up: "0 < s \<Longrightarrow> loop_iters a b s = trip a (b - 1) s"
  by (auto simp: loop_iters_def trip_def)

lemma trip_Cons:
  assumes "0 < s" and "l \<le> u"
  shows "trip l u s = insert l (trip (l + s) u s)"
proof (rule set_eqI)
  fix i
  have shift: "s dvd (i - (l + s)) \<longleftrightarrow> s dvd (i - l)"
    using dvd_add_right_iff [of s "- s" "i - l"] by (simp add: algebra_simps)
  have "l + s \<le> i" if "l < i" "s dvd (i - l)"
    using zdvd_imp_le [OF that(2)] that(1) by simp
  then show "i \<in> trip l u s \<longleftrightarrow> i \<in> insert l (trip (l + s) u s)"
    using assms shift by (auto simp: mem_trip)
qed

lemma trip_image:
  assumes "0 < s"
  shows "trip l u s = (\<lambda>k. l + k * s) ` {0..(u - l) div s}"
proof (intro set_eqI iffI)
  fix i assume "i \<in> trip l u s"
  then have i: "l \<le> i" "i \<le> u" "s dvd (i - l)" by (auto simp: trip_def)
  then obtain k where k: "i - l = s * k" by (auto simp: dvd_def)
  have "0 \<le> s * k" using i k by linarith
  then have "0 \<le> k" using assms by (simp add: zero_le_mult_iff)
  moreover have "s * k div s \<le> (u - l) div s"
    using k i assms by (intro zdiv_mono1) auto
  then have "k \<le> (u - l) div s" using assms by simp
  ultimately show "i \<in> (\<lambda>k. l + k * s) ` {0..(u - l) div s}"
    using k by (intro image_eqI [of _ _ k]) (auto simp: algebra_simps)
next
  fix i assume "i \<in> (\<lambda>k. l + k * s) ` {0..(u - l) div s}"
  then obtain k where "i = l + k * s" and "k \<in> {0..(u - l) div s}" by blast
  then have k: "i = l + k * s" "0 \<le> k" "k \<le> (u - l) div s" by auto
  have "k * s \<le> (u - l) div s * s" using k assms by simp
  also have "\<dots> \<le> u - l" 
    using assms by (simp add: minus_mod_eq_div_mult [symmetric])
  finally show "i \<in> trip l u s" using k assms by (auto simp: trip_def)
qed

lemma trip_cut:
  assumes "0 < s" and "i \<le> u"
  shows "trip i (i + s * ((u - i) sdiv s)) s = trip i u s"
proof -
  have "(u - i) sdiv s = (u - i) div s" using assms by simp
  moreover have "k \<le> i + s * ((u - i) div s) \<longleftrightarrow> k \<le> u" if d: "s dvd (k - i)" for k
  proof -
    obtain q where q: "k - i = s * q" using d by (auto elim: dvdE)
    have "k \<le> u \<longleftrightarrow> q \<le> (u - i) div s"
      using assms(1) q by (simp add: le_div_iff mult.commute) linarith
    moreover have "k \<le> i + s * ((u - i) div s) \<longleftrightarrow> s * q \<le> s * ((u - i) div s)"
      using q by linarith
    ultimately show ?thesis using assms(1) by simp
  qed
  ultimately show ?thesis by (auto simp: trip_def)
qed

text \<open>Bounds trimmed to the last, respectively the first, element of a triplet.\<close>

lemma smod_trim:
  assumes "0 < s" "l \<le> (u::int)"
  shows "l \<le> u - (u - l) smod s" "u - (u - l) smod s \<le> u" "s dvd (u - (u - l) smod s - l)"
    "l + (u - l) smod s \<le> u" "l \<le> l + (u - l) smod s" "s dvd (u - (l + (u - l) smod s))"
proof -
  have m: "(u - l) smod s = (u - l) mod s" using assms by simp
  have le: "(u - l) mod s \<le> u - l" using assms by (simp add: zmod_le_nonneg_dividend)
  have ge: "0 \<le> (u - l) mod s" using assms by simp
  have d: "s dvd (u - l) - (u - l) mod s" by (rule dvd_minus_mod)
  then show "s dvd (u - (u - l) smod s - l)" "s dvd (u - (l + (u - l) smod s))"
    by (simp_all add: m algebra_simps)
  show "l \<le> u - (u - l) smod s" "u - (u - l) smod s \<le> u"
    "l + (u - l) smod s \<le> u" "l \<le> l + (u - l) smod s" using le ge m by auto
qed

lemma trim_upper:
  assumes "0 < s" "l \<le> u"
  shows "trip l (u - (u - l) smod s) s = trip l u s"
proof -
  have "u - (u - l) smod s = l + s * ((u - l) sdiv s)"
    using assms by (simp add: minus_mod_eq_mult_div [symmetric])
  then show ?thesis using trip_cut [OF assms] by simp
qed

lemma trim_lower:
  assumes "0 < s" "l \<le> u"
  shows "trip (l + (u - l) smod s) u s = {i. l \<le> i \<and> i \<le> u \<and> s dvd (i - u)}"
proof (rule set_eqI)
  fix i
  let ?l = "l + (u - l) smod s"
  have d: "s dvd (i - ?l) \<longleftrightarrow> s dvd (i - u)"
    by (rule dvd_diff_shift [OF smod_trim(6) [OF assms]])
  have "?l \<le> i" if "l \<le> i" "s dvd (i - ?l)"
  proof (rule ccontr)
    assume "\<not> ?l \<le> i"
    then have "0 < ?l - i" "s dvd (?l - i)" using that(2) by (simp_all add: dvd_diff_commute)
    then have "s \<le> ?l - i" by (simp add: zdvd_imp_le)
    moreover have "(u - l) smod s < s" using assms by simp
    ultimately show False using that(1) by linarith
  qed
  then show "i \<in> trip ?l u s \<longleftrightarrow> i \<in> {i. l \<le> i \<and> i \<le> u \<and> s dvd (i - u)}"
    using d smod_trim(5) [OF assms] by (auto simp: mem_trip)
qed

lemma card_trip: "0 < s \<Longrightarrow> l \<le> u \<Longrightarrow> int (card (trip l u s)) = (u - l) div s + 1"
proof -
  assume s: "0 < s" "l \<le> u"
  have "inj_on (\<lambda>k. l + k * s) {0..(u - l) div s}" using s by (auto simp: inj_on_def)
  then have "card (trip l u s) = card {0..(u - l) div s}" using s by (simp add: trip_image card_image)
  moreover have "0 \<le> (u - l) div s" using s by (simp add: pos_imp_zdiv_nonneg_iff)
  ultimately show ?thesis by simp
qed

subsection \<open>Array access\<close>

text \<open>Reading \<open>xs[i]\<close> and storing there; outside the array both are errors.\<close>

definition fetch :: "'a list \<Rightarrow> int \<Rightarrow> 'a res" where
  "fetch xs i = (if 0 \<le> i \<and> i < int (length xs) then Inr (xs ! nat i) else Inl OutOfBounds)"

definition put :: "'a list \<Rightarrow> int \<Rightarrow> 'a \<Rightarrow> 'a list res" where
  "put xs i v = (if 0 \<le> i \<and> i < int (length xs) then Inr (xs[nat i := v]) else Inl OutOfBounds)"

lemma fetch_ok [simp]: "i < length xs \<Longrightarrow> fetch xs (int i) = Inr (xs ! i)"
  by (simp add: fetch_def)

lemma fetch_eq_Inr: "(fetch xs i = Inr x) = (0 \<le> i \<and> i < int (length xs) \<and> x = xs ! nat i)"
  by (auto simp: fetch_def)

lemma put_ok [simp]: "i < length xs \<Longrightarrow> put xs (int i) v = Inr (xs[i := v])"
  by (simp add: put_def)

subsection \<open>Codings\<close>

text \<open>
  The contract of a pair of inverse translations between two finite index spaces: \<open>src n\<close> and
  \<open>tgt n\<close> for every well-formed descriptor \<open>n\<close>. It is what the runtime promises of node
  coordinates and linear ranks, and of global indices and their owner with a local index.
\<close>

locale coding =
  fixes wf :: "'n \<Rightarrow> bool"
    and src :: "'n \<Rightarrow> 'a set"
    and tgt :: "'n \<Rightarrow> 'b set"
    and enc :: "'n \<Rightarrow> 'a \<Rightarrow> 'b"
    and dec :: "'n \<Rightarrow> 'b \<Rightarrow> 'a"
  assumes enc_mem: "wf n \<Longrightarrow> a \<in> src n \<Longrightarrow> enc n a \<in> tgt n"
    and dec_mem: "wf n \<Longrightarrow> b \<in> tgt n \<Longrightarrow> dec n b \<in> src n"
    and dec_enc: "wf n \<Longrightarrow> a \<in> src n \<Longrightarrow> dec n (enc n a) = a"
    and enc_dec: "wf n \<Longrightarrow> b \<in> tgt n \<Longrightarrow> enc n (dec n b) = b"
begin

lemma enc_bij: "wf n \<Longrightarrow> bij_betw (enc n) (src n) (tgt n)"
  by (rule bij_betw_byWitness [where f' = "dec n"]) (auto simp: enc_mem dec_mem dec_enc enc_dec)

lemma dec_bij: "wf n \<Longrightarrow> bij_betw (dec n) (tgt n) (src n)"
  by (rule bij_betw_byWitness [where f' = "enc n"]) (auto simp: enc_mem dec_mem dec_enc enc_dec)

lemma card_eq: "wf n \<Longrightarrow> card (src n) = card (tgt n)"
  by (rule bij_betw_same_card [OF enc_bij])

lemma unique: "wf n \<Longrightarrow> b \<in> tgt n \<Longrightarrow> \<exists>!a. a \<in> src n \<and> enc n a = b"
  using enc_bij [of n] by (force simp: bij_betw_def inj_on_def)

end

subsection \<open>Distributions\<close>

text \<open>
  The contract of a distribution of an index space over processes or threads: the indices \<open>part d r\<close> of
  every rank \<open>r\<close> are those of the space whose owner is \<open>r\<close>. The templates of the XcalableMP runtime and the
  loop schedules of the OpenMP runtime provide it.
\<close>

locale distribution =
  fixes ok :: "'d \<Rightarrow> bool"
    and space :: "'d \<Rightarrow> int set"
    and ranks :: "'d \<Rightarrow> int set"
    and part :: "'d \<Rightarrow> int \<Rightarrow> int set"
    and owner :: "'d \<Rightarrow> int \<Rightarrow> int"
  assumes part_iff: "ok d \<Longrightarrow> r \<in> ranks d \<Longrightarrow> g \<in> space d \<Longrightarrow> g \<in> part d r \<longleftrightarrow> owner d g = r"
    and part_space: "ok d \<Longrightarrow> r \<in> ranks d \<Longrightarrow> part d r \<subseteq> space d"
    and owner_rank: "ok d \<Longrightarrow> g \<in> space d \<Longrightarrow> owner d g \<in> ranks d"
begin

lemma in_own_part: "ok d \<Longrightarrow> g \<in> space d \<Longrightarrow> g \<in> part d (owner d g)"
  by (simp add: part_iff owner_rank)

lemma cover: "ok d \<Longrightarrow> (\<Union>r \<in> ranks d. part d r) = space d"
  using part_space [of d] in_own_part [of d] owner_rank [of d] by (intro equalityI UN_least subsetI UN_I) auto

lemma apart:
  assumes "ok d" "r \<in> ranks d" "s \<in> ranks d" "r \<noteq> s"
  shows "part d r \<inter> part d s = {}"
proof -
  have "owner d g = r \<and> owner d g = s" if "g \<in> part d r" "g \<in> part d s" for g
    using that assms part_space [OF assms(1,2)] part_iff [OF assms(1,2)] part_iff [OF assms(1,3)] by auto
  with assms(4) show ?thesis by auto
qed

lemma one_owner: "ok d \<Longrightarrow> g \<in> space d \<Longrightarrow> \<exists>!r. r \<in> ranks d \<and> g \<in> part d r"
  using part_iff owner_rank by metis

end

end
