(* ===== verification/Xmp_Math.thy ===== *)
theory Xmp_Math
  imports Omni_Prelude
begin

text \<open>
  Integer helpers of the XcalableMP runtime: \<open>src/libxmp/src/xmp_math_function.c\<close>, the counting
  macros of \<open>src/libxmp/include/xmp_math_function.h\<close> and the overlap test of two triplets in
  \<open>src/libxmp/src/xmp_util.c\<close>.
\<close>

definition XMP_modi_ll_i :: "int \<Rightarrow> int \<Rightarrow> int" where
  "XMP_modi_ll_i value cycle =
     (let m = int32 (value smod cycle)
      in if m < 0 then (m + cycle) smod cycle else m)"

definition XMP_modi_i_i :: "int \<Rightarrow> int \<Rightarrow> int" where
  "XMP_modi_i_i value cycle =
     (let m = value smod cycle
      in if m < 0 then (m + cycle) smod cycle else m)"

definition XMP_ceili :: "int \<Rightarrow> int \<Rightarrow> int" where
  "XMP_ceili a b =
     (let d = a sdiv b
      in if a < 0 \<or> b < 0 then d
         else if a smod b = 0 then d
         else d + 1)"

definition XMP_floori :: "int \<Rightarrow> int \<Rightarrow> int" where
  "XMP_floori a b =
     (let d = a sdiv b
      in if a < 0 \<or> b < 0 then (if a smod b = 0 then d else d - 1)
         else d)"

function XMP_gcd :: "int \<Rightarrow> int \<Rightarrow> int" where
  "XMP_gcd a b = (let r = a smod b in if r = 0 then b else XMP_gcd b r)"
  by pat_completeness auto
termination
proof (relation "measure (\<lambda>(a, b). if b = 0 then nat \<bar>a\<bar> + 1 else nat \<bar>b\<bar>)", goal_cases)
  case 1
  show ?case by simp
next
  case (2 a b r)
  then show ?case using smod_abs_less [of b a] by (auto split: if_splits)
qed

declare XMP_gcd.simps [simp del]

definition XMP_lcm :: "int \<Rightarrow> int \<Rightarrow> int" where
  "XMP_lcm a b = (a * b) sdiv XMP_gcd a b"

text \<open>The macros, at signed arguments.\<close>

definition XMP_M_CEILi :: "int \<Rightarrow> int \<Rightarrow> int" where
  "XMP_M_CEILi a b = (if a smod b = 0 then a sdiv b else a sdiv b + 1)"

definition XMP_M_FLOORi :: "int \<Rightarrow> int \<Rightarrow> int" where
  "XMP_M_FLOORi a b = a sdiv b"

definition XMP_M_COUNTi :: "int \<Rightarrow> int \<Rightarrow> int" where
  "XMP_M_COUNTi a b = b - a + 1"

definition XMP_M_COUNT_TRIPLETi :: "int \<Rightarrow> int \<Rightarrow> int \<Rightarrow> int" where
  "XMP_M_COUNT_TRIPLETi l u s = XMP_M_FLOORi (u - l) s + 1"

text \<open>
  The loop of \<open>union_triplet\<close>: \<open>for (i = lb2; i <= ub2; i += st2) if ((i - lb3) % st3 == 0)
  return true;\<close>. The stride is positive where the runtime calls it; with any other stride the C
  loop does not end, which is the value \<open>None\<close>.
\<close>

partial_function (option) union_triplet_loop :: "int \<Rightarrow> int \<Rightarrow> int \<Rightarrow> int \<Rightarrow> int \<Rightarrow> bool option" where
  "union_triplet_loop i ub2 st2 lb3 st3 =
     (if i \<le> ub2
      then (if (i - lb3) smod st3 = 0 then Some True
            else union_triplet_loop (i + st2) ub2 st2 lb3 st3)
      else Some False)"

definition union_triplet :: "int \<Rightarrow> int \<Rightarrow> int \<Rightarrow> int \<Rightarrow> int \<Rightarrow> int \<Rightarrow> bool option" where
  "union_triplet lb0 ub0 st0 lb1 ub1 st1 =
     (if ub0 < lb0 \<or> ub1 < lb0 then Some False
      else
        let (lb2, lb3, st2, st3) =
              (if lb0 > lb1 then (lb0, lb1, st0, st1) else (lb1, lb0, st1, st0));
            ub2 = (if ub0 > ub1 then ub1 else ub0)
        in union_triplet_loop lb2 ub2 st2 lb3 st3)"

subsection \<open>Rounding\<close>

lemma XMP_ceili_pos: "0 < b \<Longrightarrow> XMP_ceili a b = - ((- a) div b)"
proof (cases "a < 0")
  case True
  assume "0 < b"
  with True show ?thesis by (simp add: XMP_ceili_def sdiv_neg)
next
  case False
  assume b: "0 < b"
  show ?thesis
  proof (cases "a mod b = 0")
    case True
    with False b show ?thesis by (simp add: XMP_ceili_def zdiv_zminus1_eq_if)
  next
    case no: False
    with False b show ?thesis by (simp add: XMP_ceili_def zdiv_zminus1_eq_if)
  qed
qed

lemma XMP_floori_pos: "0 < b \<Longrightarrow> XMP_floori a b = a div b"
proof (cases "a < 0")
  case True
  assume b: "0 < b"
  show ?thesis
  proof (cases "b dvd a")
    case True
    with \<open>a < 0\<close> b show ?thesis
      by (auto simp: XMP_floori_def sdiv_neg smod_eq_0_iff zdiv_zminus1_eq_if dvd_eq_mod_eq_0)
  next
    case False
    with \<open>a < 0\<close> b show ?thesis
      by (auto simp: XMP_floori_def sdiv_neg smod_eq_0_iff zdiv_zminus1_eq_if dvd_eq_mod_eq_0)
  qed
next
  case False
  assume "0 < b"
  with False show ?thesis by (simp add: XMP_floori_def)
qed

lemma XMP_M_CEILi_pos: "0 \<le> a \<Longrightarrow> 0 < b \<Longrightarrow> XMP_M_CEILi a b = - ((- a) div b)"
  by (simp add: XMP_M_CEILi_def zdiv_zminus1_eq_if)

lemma XMP_modi_ll_i_pos: "0 < c \<Longrightarrow> fits32 c \<Longrightarrow> XMP_modi_ll_i x c = x mod c"
proof (cases "0 \<le> x")
  case True
  assume c: "0 < c" "fits32 c"
  have m: "0 \<le> x mod c" "x mod c < c" using c by simp_all
  moreover have "int32 (x mod c) = x mod c" using c by (intro int32_id fits32_mod)
  ultimately show ?thesis using True c by (simp add: XMP_modi_ll_i_def Let_def)
next
  case False
  assume c: "0 < c" "fits32 c"
  have m: "0 \<le> (- x) mod c" "(- x) mod c < c" using c by simp_all
  have sm: "x smod c = - ((- x) mod c)" using False c by (simp add: smod_neg)
  moreover have "int32 (- ((- x) mod c)) = - ((- x) mod c)" using c by (intro int32_id fits32_mod)
  moreover have xm: "x mod c = (if (- x) mod c = 0 then 0 else c - (- x) mod c)"
    using zmod_zminus1_eq_if [of "- x" c] by simp
  moreover have "(c - (- x) mod c) smod c = c - (- x) mod c" if "(- x) mod c \<noteq> 0"
  proof -
    have "0 \<le> c - (- x) mod c" "c - (- x) mod c < c" using m that by linarith+
    then show ?thesis unfolding smod_nonneg [OF \<open>0 \<le> c - (- x) mod c\<close> c(1)] by (rule mod_pos_pos_trivial)
  qed
  moreover have "(- x) mod c = 0 \<or> 0 < (- x) mod c" using m(1) by linarith
  ultimately show ?thesis using c by (auto simp: XMP_modi_ll_i_def Let_def)
qed

text \<open>
  For a positive divisor, \<open>_XMP_ceili\<close> and \<open>_XMP_floori\<close> round up and down: the
  quotient returned is the least integer at or above, respectively the greatest at or below, the
  exact quotient, for negative dividends too.
\<close>

theorem ceili_floori_round:
  assumes "0 < b"
  shows "(XMP_ceili a b \<le> k \<longleftrightarrow> a \<le> k * b) \<and> (k \<le> XMP_floori a b \<longleftrightarrow> k * b \<le> a)"
  using assms by (simp add: XMP_ceili_pos XMP_floori_pos ceil_le_iff le_div_iff)

theorem ceili_floori_round_witness:
  "(XMP_ceili (- 7) 2 \<le> - 3 \<longleftrightarrow> - 7 \<le> - 3 * (2::int)) \<and>
   (- 4 \<le> XMP_floori (- 7) 2 \<longleftrightarrow> - 4 * 2 \<le> (- 7 :: int))"
  using ceili_floori_round [of 2 "- 7" "- 3"] ceili_floori_round [of 2 "- 7" "- 4"] by simp

subsection \<open>Greatest common divisor and least common multiple\<close>

lemma gcd_smod: "gcd b (a smod b) = gcd a (b::int)"
proof -
  have "gcd b (a smod b) = gcd b (a sdiv b * b + a smod b)"
    by (metis gcd_add_mult mult.commute)
  also have "\<dots> = gcd a b" by (simp add: sdiv_mult_smod_eq gcd.commute)
  finally show ?thesis .
qed

lemma XMP_gcd_abs: "\<bar>XMP_gcd a b\<bar> = gcd a b"
proof (induction a b rule: XMP_gcd.induct)
  case (1 a b)
  show ?case
  proof (cases "a smod b = 0")
    case True
    then show ?thesis using gcd_smod [of b a] by (simp add: XMP_gcd.simps [of a b])
  next
    case False
    then show ?thesis using "1.IH" gcd_smod [of b a] by (simp add: XMP_gcd.simps [of a b] Let_def)
  qed
qed

lemma XMP_gcd_pos_sign: "0 \<le> a \<Longrightarrow> 0 < b \<Longrightarrow> 0 < XMP_gcd a b"
proof (induction a b rule: XMP_gcd.induct)
  case (1 a b)
  then show ?case by (subst XMP_gcd.simps) (auto simp: Let_def less_le)
qed

lemma XMP_gcd_eq: "0 \<le> a \<Longrightarrow> 0 < b \<Longrightarrow> XMP_gcd a b = gcd a b"
  using XMP_gcd_abs [of a b] XMP_gcd_pos_sign [of a b] by simp

lemma XMP_lcm_eq: "0 < a \<Longrightarrow> 0 < b \<Longrightarrow> XMP_lcm a b = lcm a b"
proof -
  assume ab: "0 < a" "0 < b"
  have "XMP_lcm a b = a * b div gcd a b"
    using ab by (simp add: XMP_lcm_def XMP_gcd_eq gcd_pos_int)
  moreover have "0 \<le> a * b div gcd a b" using ab by (simp add: pos_imp_zdiv_nonneg_iff)
  ultimately show ?thesis using ab by (simp add: lcm_gcd)
qed

text \<open>
  On positive arguments \<open>_XMP_gcd\<close> ends and returns the greatest common divisor, and
  \<open>_XMP_lcm\<close> the least common multiple.
\<close>

theorem gcd_lcm_correct:
  assumes "0 < a" and "0 < b"
  shows "XMP_gcd a b = gcd a b \<and> XMP_lcm a b = lcm a b"
  using assms by (simp add: XMP_gcd_eq XMP_lcm_eq)

theorem gcd_lcm_correct_witness: "XMP_gcd 12 18 = gcd 12 18 \<and> XMP_lcm 12 18 = lcm 12 18"
  using gcd_lcm_correct [of 12 18] by simp

subsection \<open>Overlap of two triplets\<close>

lemma union_triplet_loop_eq:
  assumes "0 < st2"
  shows "union_triplet_loop i ub2 st2 lb3 st3 = Some (\<exists>j \<in> trip i ub2 st2. st3 dvd (j - lb3))"
proof (induction "nat (ub2 - i + 1)" arbitrary: i rule: less_induct)
  case less
  show ?case
  proof (cases "i \<le> ub2")
    case True
    with assms less [of "i + st2"] show ?thesis
      by (simp add: union_triplet_loop.simps [of i] trip_Cons smod_eq_0_iff)
  next
    case False
    then show ?thesis by (simp add: union_triplet_loop.simps trip_empty)
  qed
qed

text \<open>
  For positive strides the overlap test \<open>union_triplet\<close> returns, and it returns true exactly
  when the two triplets have an element in common.
\<close>

theorem union_triplet_overlap:
  assumes "0 < st0" and "0 < st1"
  shows "union_triplet lb0 ub0 st0 lb1 ub1 st1 =
    Some (trip lb0 ub0 st0 \<inter> trip lb1 ub1 st1 \<noteq> {})"
proof (cases "ub0 < lb0 \<or> ub1 < lb0")
  case True
  then have "trip lb0 ub0 st0 \<inter> trip lb1 ub1 st1 = {}" by (auto simp: mem_trip)
  with True show ?thesis by (simp add: union_triplet_def)
next
  case False
  show ?thesis
  proof (cases "lb0 > lb1")
    case True
    then have "trip lb0 ub0 st0 \<inter> trip lb1 ub1 st1 =
        {j \<in> trip lb0 (if ub0 > ub1 then ub1 else ub0) st0. st1 dvd (j - lb1)}"
      by (auto simp: mem_trip)
    with True False assms show ?thesis
      by (auto simp: union_triplet_def union_triplet_loop_eq)
  next
    case le: False
    then have "trip lb0 ub0 st0 \<inter> trip lb1 ub1 st1 =
        {j \<in> trip lb1 (if ub0 > ub1 then ub1 else ub0) st1. st0 dvd (j - lb0)}"
      by (auto simp: mem_trip)
    with le False assms show ?thesis
      by (auto simp: union_triplet_def union_triplet_loop_eq)
  qed
qed

theorem union_triplet_overlap_witness:
  "union_triplet 0 10 4 2 9 3 = Some (trip 0 10 4 \<inter> trip 2 9 3 \<noteq> {})"
  using union_triplet_overlap [of 4 3 0 10 2 9] by simp

end
