(* ===== verification/Xmp_Section.thy ===== *)
theory Xmp_Section
  imports Xmp_Math
begin

text \<open>
  Section descriptors (\<open>src/libxmp/src/xmp_section_desc.c\<close>): regular sections (RSD), basic sections
  (BSD, block-cyclic), common sections (CSD) and communication sets, the index sets from which the
  gmove directive computes what each pair of nodes exchanges. A null pointer is \<open>None\<close>; the
  chained list of a communication set is a list of its cells in order. Memory that \<open>_XMP_alloc\<close>
  returns holds a value \<open>junk\<close> that is a parameter of the operations that read it.
\<close>

record rsd =
  rsd_l :: int
  rsd_u :: int
  rsd_s :: int

record bsd =
  bsd_l :: int
  bsd_u :: int
  bsd_b :: int
  bsd_c :: int

record csd =
  csd_l :: "int list"
  csd_u :: "int list"
  csd_n :: int
  csd_s :: int

type_synonym comm_set = "(int \<times> int) list"

subsection \<open>Operations\<close>

text \<open>The search loop of \<open>intersection_rsds\<close>; \<open>None\<close> when it does not end.\<close>

partial_function (option) rsd_search :: "int \<Rightarrow> int \<Rightarrow> int \<Rightarrow> int \<Rightarrow> int \<Rightarrow> int option option" where
  "rsd_search i u2 s2 l1 s1 =
     (if i \<le> u2
      then (if (i - l1) smod s1 = 0 then Some (Some i)
            else rsd_search (i + s2) u2 s2 l1 s1)
      else Some None)"

definition intersection_rsds :: "rsd option \<Rightarrow> rsd option \<Rightarrow> rsd option option" where
  "intersection_rsds p1 p2 =
     (case (p1, p2) of
        (Some q1, Some q2) \<Rightarrow>
          let (r1, r2) = (if rsd_l q1 \<le> rsd_l q2 then (q1, q2) else (q2, q1))
          in if rsd_l r2 \<le> rsd_u r1
             then (case rsd_search (rsd_l r2) (rsd_u r2) (rsd_s r2) (rsd_l r1) (rsd_s r1) of
                     None \<Rightarrow> None
                   | Some None \<Rightarrow> Some None
                   | Some (Some i) \<Rightarrow>
                       let s = XMP_lcm (rsd_s r1) (rsd_s r2);
                           t = (min (rsd_u r1) (rsd_u r2) - i) sdiv s
                       in Some (Some \<lparr>rsd_l = i, rsd_u = i + s * t, rsd_s = s\<rparr>))
             else Some None
      | _ \<Rightarrow> Some None)"

definition alloc_csd :: "int \<Rightarrow> int \<Rightarrow> csd" where
  "alloc_csd junk n =
     \<lparr>csd_l = replicate (nat n) junk, csd_u = replicate (nat n) junk, csd_n = n, csd_s = junk\<rparr>"

definition swap :: "int list \<Rightarrow> nat \<Rightarrow> int list" where
  "swap xs p = xs[p - 1 := xs ! p, p := xs ! (p - 1)]"

text \<open>
  \<open>while (csd0->l[p-1] > tmp->l && p > 0) { swap entries p-1 and p; p--; }\<close>. The array is read
  before \<open>p\<close> is tested, so at \<open>p = 0\<close> the word before the block is read.
\<close>

fun csd_sink :: "int \<Rightarrow> int \<Rightarrow> nat \<Rightarrow> int list \<Rightarrow> int list \<Rightarrow> int list \<times> int list" where
  "csd_sink junk x 0 ls us = (if junk > x \<and> (0::nat) > 0 then (swap ls 0, swap us 0) else (ls, us))"
| "csd_sink junk x (Suc p) ls us =
     (if ls ! p > x then csd_sink junk x p (swap ls (Suc p)) (swap us (Suc p)) else (ls, us))"

text \<open>One round of the inner loop of \<open>intersection_csds\<close>; the state holds \<open>csd0\<close> and \<open>k\<close>.\<close>

definition csds_pair :: "int \<Rightarrow> csd \<Rightarrow> csd \<Rightarrow> nat \<times> nat \<Rightarrow> csd \<times> int \<Rightarrow> (csd \<times> int) res" where
  "csds_pair junk c1 c2 ij st =
     (let (i, j) = ij; (c0, k) = st;
          r1 = \<lparr>rsd_l = csd_l c1 ! i, rsd_u = csd_u c1 ! i, rsd_s = csd_s c1\<rparr>;
          r2 = \<lparr>rsd_l = csd_l c2 ! j, rsd_u = csd_u c2 ! j, rsd_s = csd_s c2\<rparr>
      in case intersection_rsds (Some r1) (Some r2) of
           None \<Rightarrow> Inl NoReturn
         | Some None \<Rightarrow> Inr (c0, k)
         | Some (Some t) \<Rightarrow>
             bind_res (put (csd_l c0) k (rsd_l t)) (\<lambda>ls.
             bind_res (put (csd_u c0) k (rsd_u t)) (\<lambda>us.
               let (ls', us') = csd_sink junk (rsd_l t) (nat k) ls us
               in Inr (c0\<lparr>csd_l := ls', csd_u := us', csd_n := csd_n c0 + 1, csd_s := rsd_s t\<rparr>, k + 1))))"

fun csds_pairs :: "int \<Rightarrow> csd \<Rightarrow> csd \<Rightarrow> (nat \<times> nat) list \<Rightarrow> csd \<times> int \<Rightarrow> (csd \<times> int) res" where
  "csds_pairs junk c1 c2 [] st = Inr st"
| "csds_pairs junk c1 c2 (ij # ijs) st =
     bind_res (csds_pair junk c1 c2 ij st) (csds_pairs junk c1 c2 ijs)"

definition intersection_csds :: "int \<Rightarrow> csd option \<Rightarrow> csd option \<Rightarrow> csd option res" where
  "intersection_csds junk p1 p2 =
     (case (p1, p2) of
        (Some c1, Some c2) \<Rightarrow>
          let c0 = (alloc_csd junk (max (csd_n c1) (csd_n c2)))\<lparr>csd_n := 0\<rparr>;
              ijs = List.product [0..<nat (csd_n c1)] [0..<nat (csd_n c2)]
          in bind_res (csds_pairs junk c1 c2 ijs (c0, 0)) (\<lambda>(c, k). Inr (Some c))
      | _ \<Rightarrow> Inr None)"

definition copy_csd :: "csd \<Rightarrow> csd" where
  "copy_csd c = \<lparr>csd_l = take (nat (csd_n c)) (csd_l c), csd_u = take (nat (csd_n c)) (csd_u c),
                 csd_n = csd_n c, csd_s = csd_s c\<rparr>"

definition get_csd_size :: "csd \<Rightarrow> int" where
  "get_csd_size c =
     (\<Sum>i\<leftarrow>[0..<nat (csd_n c)]. XMP_M_COUNT_TRIPLETi (csd_l c ! i) (csd_u c ! i) (csd_s c))"

definition rsd2csd :: "rsd option \<Rightarrow> csd option" where
  "rsd2csd p =
     (case p of None \<Rightarrow> None
      | Some r \<Rightarrow> Some \<lparr>csd_l = [rsd_l r], csd_u = [rsd_u r], csd_n = 1, csd_s = rsd_s r\<rparr>)"

definition bsd2csd :: "bsd option \<Rightarrow> csd option" where
  "bsd2csd p =
     (case p of None \<Rightarrow> None
      | Some d \<Rightarrow>
          let ls = map (\<lambda>i. bsd_l d + int i) [0..<nat (bsd_b d)];
              us = map (\<lambda>l. let t = (bsd_u d - l) sdiv bsd_c d in l + bsd_c d * t) ls
          in Some \<lparr>csd_l = ls, csd_u = us, csd_n = bsd_b d, csd_s = bsd_c d\<rparr>)"

text \<open>
  \<open>csd2comm_set\<close> appends cells at the end of the chain and only ever updates the last one; the
  chain is kept with its last cell first and reversed at the end.
\<close>

fun comm_set_visit :: "int \<Rightarrow> comm_set \<Rightarrow> comm_set" where
  "comm_set_visit l ((a, b) # rest) =
     (if l = b + 1 then (a, l) # rest
      else if l \<le> b then (a, b) # rest
      else (l, l) # (a, b) # rest)"
| "comm_set_visit l [] = [(l, l)]"

fun comm_set_round :: "int \<Rightarrow> (int \<times> int) list \<Rightarrow> comm_set \<Rightarrow> comm_set" where
  "comm_set_round j [] acc = acc"
| "comm_set_round j ((l, u) # lus) acc =
     comm_set_round j lus (if l + j > u then acc else comm_set_visit (l + j) acc)"

partial_function (option) comm_set_rounds ::
    "int \<Rightarrow> csd \<Rightarrow> comm_set \<Rightarrow> comm_set option" where
  "comm_set_rounds j c acc =
     (if csd_l c ! 0 + j \<le> csd_u c ! 0
      then comm_set_rounds (j + csd_s c) c
             (comm_set_round j (take (nat (csd_n c)) (zip (csd_l c) (csd_u c))) acc)
      else Some acc)"

definition csd2comm_set :: "csd option \<Rightarrow> comm_set option" where
  "csd2comm_set p =
     (case p of None \<Rightarrow> Some []
      | Some c \<Rightarrow>
          if csd_n c = 0 then Some []
          else map_option rev (comm_set_rounds 0 c [(csd_l c ! 0, csd_l c ! 0)]))"

definition reduce_csd :: "csd option list \<Rightarrow> nat \<Rightarrow> csd option list" where
  "reduce_csd cs ndims =
     (if (\<exists>p \<in> set (take ndims cs). case p of None \<Rightarrow> True | Some c \<Rightarrow> csd_n c = 0)
      then replicate (length (take ndims cs)) None @ drop ndims cs
      else cs)"

subsection \<open>The sets of indices the descriptors stand for\<close>

definition rsd_set :: "rsd \<Rightarrow> int set" where
  "rsd_set r = trip (rsd_l r) (rsd_u r) (rsd_s r)"

definition bsd_set :: "bsd \<Rightarrow> int set" where
  "bsd_set d = {x. bsd_l d \<le> x \<and> x \<le> bsd_u d \<and> (x - bsd_l d) mod bsd_c d < bsd_b d}"

definition csd_set :: "csd \<Rightarrow> int set" where
  "csd_set c = (\<Union>i<nat (csd_n c). trip (csd_l c ! i) (csd_u c ! i) (csd_s c))"

definition comm_set_set :: "comm_set \<Rightarrow> int set" where
  "comm_set_set cs = (\<Union>(a, b) \<in> set cs. {a..b})"

text \<open>What a result of \<open>intersection_rsds\<close> says of the two sections.\<close>

definition rsds_result :: "rsd \<Rightarrow> rsd \<Rightarrow> rsd option \<Rightarrow> bool" where
  "rsds_result r1 r2 r =
     (case r of
        None \<Rightarrow> rsd_set r1 \<inter> rsd_set r2 = {}
      | Some r0 \<Rightarrow> rsd_s r0 = lcm (rsd_s r1) (rsd_s r2) \<and>
          (if rsd_l r0 \<le> min (rsd_u r1) (rsd_u r2) then rsd_set r0 = rsd_set r1 \<inter> rsd_set r2
           else rsd_set r1 \<inter> rsd_set r2 = {}))"

subsection \<open>Intersection of regular sections\<close>

lemma rsds_result_sym: "rsds_result r2 r1 r \<Longrightarrow> rsds_result r1 r2 r"
  by (cases r) (auto simp: rsds_result_def min.commute lcm.commute split: if_splits)

lemma rsd_search_returns:
  assumes "0 < s2"
  shows "\<exists>r. rsd_search i u2 s2 l1 s1 = Some r \<and>
    (case r of
       None \<Rightarrow> \<forall>k \<in> trip i u2 s2. \<not> s1 dvd (k - l1)
     | Some j \<Rightarrow> j \<in> trip i u2 s2 \<and> s1 dvd (j - l1) \<and>
         (\<forall>k \<in> trip i u2 s2. s1 dvd (k - l1) \<longrightarrow> j \<le> k))"
proof (induction "nat (u2 - i + 1)" arbitrary: i rule: less_induct)
  case less
  show ?case
  proof (cases "i \<le> u2")
    case False
    then show ?thesis by (simp add: rsd_search.simps trip_empty)
  next
    case le: True
    show ?thesis
    proof (cases "s1 dvd (i - l1)")
      case True
      with le assms show ?thesis
        by (simp add: rsd_search.simps [of i] smod_eq_0_iff) (auto simp: mem_trip)
    next
      case False
      from le assms have "nat (u2 - (i + s2) + 1) < nat (u2 - i + 1)" by linarith
      from less [OF this] obtain r where r: "rsd_search (i + s2) u2 s2 l1 s1 = Some r"
        "case r of None \<Rightarrow> \<forall>k \<in> trip (i + s2) u2 s2. \<not> s1 dvd (k - l1)
         | Some j \<Rightarrow> j \<in> trip (i + s2) u2 s2 \<and> s1 dvd (j - l1) \<and>
             (\<forall>k \<in> trip (i + s2) u2 s2. s1 dvd (k - l1) \<longrightarrow> j \<le> k)" by auto
      from False le r(1) have "rsd_search i u2 s2 l1 s1 = Some r"
        by (simp add: rsd_search.simps [of i] smod_eq_0_iff)
      with r(2) False le assms show ?thesis by (auto simp: trip_Cons split: option.splits)
    qed
  qed
qed

text \<open>Two positive triplets with a common element \<open>i\<close> meet, from \<open>i\<close> on, in a triplet.\<close>

lemma trip_inter_from:
  assumes i: "l2 \<le> i" "s1 dvd (i - l1)" "s2 dvd (i - l2)" "l1 \<le> l2"
    and least: "\<And>k. k \<in> trip l2 u2 s2 \<Longrightarrow> s1 dvd (k - l1) \<Longrightarrow> i \<le> k"
  shows "trip l1 u1 s1 \<inter> trip l2 u2 s2 = trip i (min u1 u2) (lcm s1 s2)"
proof (rule set_eqI)
  fix k
  have "s1 dvd (k - l1) \<longleftrightarrow> s1 dvd (k - i)"
    using dvd_add_left_iff [OF i(2), of "k - i"] by simp
  moreover have "s2 dvd (k - l2) \<longleftrightarrow> s2 dvd (k - i)"
    using dvd_add_left_iff [OF i(3), of "k - i"] by simp
  ultimately show "k \<in> trip l1 u1 s1 \<inter> trip l2 u2 s2 \<longleftrightarrow> k \<in> trip i (min u1 u2) (lcm s1 s2)"
    using i least [of k] by (auto simp: mem_trip)
qed

text \<open>What \<open>intersection_rsds\<close> returns, for ordered arguments.\<close>

lemma intersection_rsds_ordered:
  assumes s: "0 < rsd_s r1" "0 < rsd_s r2" and le: "rsd_l r1 \<le> rsd_l r2"
  shows "\<exists>r. intersection_rsds (Some r1) (Some r2) = Some r \<and> rsds_result r1 r2 r"
proof (cases "rsd_l r2 \<le> rsd_u r1")
  case False
  then have "rsd_set r1 \<inter> rsd_set r2 = {}" by (auto simp: rsd_set_def mem_trip)
  with False le show ?thesis by (simp add: intersection_rsds_def rsds_result_def)
next
  case True
  obtain f where f: "rsd_search (rsd_l r2) (rsd_u r2) (rsd_s r2) (rsd_l r1) (rsd_s r1) = Some f"
    and spec: "case f of
       None \<Rightarrow> \<forall>k \<in> trip (rsd_l r2) (rsd_u r2) (rsd_s r2). \<not> rsd_s r1 dvd (k - rsd_l r1)
     | Some j \<Rightarrow> j \<in> trip (rsd_l r2) (rsd_u r2) (rsd_s r2) \<and> rsd_s r1 dvd (j - rsd_l r1) \<and>
         (\<forall>k \<in> trip (rsd_l r2) (rsd_u r2) (rsd_s r2). rsd_s r1 dvd (k - rsd_l r1) \<longrightarrow> j \<le> k)"
    using rsd_search_returns [OF s(2)] by blast
  show ?thesis
  proof (cases f)
    case None
    with spec have "rsd_set r1 \<inter> rsd_set r2 = {}" by (auto simp: rsd_set_def mem_trip)
    with None f le True show ?thesis by (simp add: intersection_rsds_def rsds_result_def)
  next
    case (Some i)
    with spec have inter: "rsd_set r1 \<inter> rsd_set r2 =
        trip i (min (rsd_u r1) (rsd_u r2)) (lcm (rsd_s r1) (rsd_s r2))"
      unfolding rsd_set_def using le by (intro trip_inter_from) (auto simp: mem_trip)
    have "0 < lcm (rsd_s r1) (rsd_s r2)" using s by (simp add: lcm_pos_int)
    with inter trip_cut [of "lcm (rsd_s r1) (rsd_s r2)" i "min (rsd_u r1) (rsd_u r2)"]
    show ?thesis
      using Some f le True s
      by (auto simp: intersection_rsds_def rsds_result_def XMP_lcm_eq Let_def rsd_set_def trip_empty)
  qed
qed

lemma intersection_rsds_returns:
  assumes "0 < rsd_s r1" "0 < rsd_s r2"
  shows "\<exists>r. intersection_rsds (Some r1) (Some r2) = Some r \<and> rsds_result r1 r2 r"
proof (cases "rsd_l r1 \<le> rsd_l r2")
  case True
  with assms show ?thesis by (rule intersection_rsds_ordered)
next
  case False
  then have "intersection_rsds (Some r1) (Some r2) = intersection_rsds (Some r2) (Some r1)"
    by (simp add: intersection_rsds_def)
  moreover have "rsd_l r2 \<le> rsd_l r1" using False by simp
  note intersection_rsds_ordered [OF assms(2,1) this]
  ultimately show ?thesis using rsds_result_sym by fastforce
qed

text \<open>
  For positive strides \<open>intersection_rsds\<close> returns. A null result means that the sections do not
  meet. A section whose lower bound is within both upper bounds is exactly the intersection; any
  other section is returned only where the intersection is empty.
\<close>

theorem intersection_rsds_correct:
  assumes "0 < rsd_s r1" and "0 < rsd_s r2"
  shows "\<exists>r. intersection_rsds (Some r1) (Some r2) = Some r \<and> rsds_result r1 r2 r"
  using assms by (rule intersection_rsds_returns)

theorem intersection_rsds_correct_witness:
  "\<exists>r. intersection_rsds (Some \<lparr>rsd_l = 0, rsd_u = 20, rsd_s = 4\<rparr>)
        (Some \<lparr>rsd_l = 2, rsd_u = 23, rsd_s = 3\<rparr>) = Some r \<and>
     rsds_result \<lparr>rsd_l = 0, rsd_u = 20, rsd_s = 4\<rparr> \<lparr>rsd_l = 2, rsd_u = 23, rsd_s = 3\<rparr> r"
  by (rule intersection_rsds_correct) simp_all

text \<open>
  The search of \<open>intersection_rsds\<close> runs to the upper bound of one section only. For the
  sections \<open>0:2:2\<close> and \<open>1:4:3\<close>, which are disjoint, it returns the section \<open>4:4:6\<close>, whose
  element 4 is not in the first section.
\<close>

theorem intersection_rsds_spurious:
  "intersection_rsds (Some \<lparr>rsd_l = 0, rsd_u = 2, rsd_s = 2\<rparr>) (Some \<lparr>rsd_l = 1, rsd_u = 4, rsd_s = 3\<rparr>) =
     Some (Some \<lparr>rsd_l = 4, rsd_u = 4, rsd_s = 6\<rparr>) \<and>
   rsd_set \<lparr>rsd_l = 0, rsd_u = 2, rsd_s = 2\<rparr> \<inter> rsd_set \<lparr>rsd_l = 1, rsd_u = 4, rsd_s = 3\<rparr> = {}"
proof -
  have "intersection_rsds (Some \<lparr>rsd_l = 0, rsd_u = 2, rsd_s = 2\<rparr>) (Some \<lparr>rsd_l = 1, rsd_u = 4, rsd_s = 3\<rparr>) =
     Some (Some \<lparr>rsd_l = 4, rsd_u = 4, rsd_s = 6\<rparr>)"
    by (simp add: intersection_rsds_def rsd_search.simps XMP_lcm_def XMP_gcd.simps signed_divide_int_def
        signed_modulo_int_def)
  moreover have "rsd_set \<lparr>rsd_l = 0, rsd_u = 2, rsd_s = 2\<rparr> \<inter> rsd_set \<lparr>rsd_l = 1, rsd_u = 4, rsd_s = 3\<rparr> = {}"
    by (auto simp: rsd_set_def trip_def) presburger
  ultimately show ?thesis by blast
qed

subsection \<open>Block-cyclic sections\<close>

lemma trip_class:
  assumes c: "0 < c" and k: "0 \<le> k" "k < c"
  shows "trip (l + k) u c = {x. l \<le> x \<and> x \<le> u \<and> (x - l) mod c = k}"
proof (rule set_eqI)
  fix x
  have mod: "c dvd (x - (l + k)) \<longleftrightarrow> (x - l) mod c = k"
    using mod_eq_dvd_iff [of "x - l" c k] k c by (simp add: algebra_simps)
  have "l + k \<le> x" if "l \<le> x" "(x - l) mod c = k"
    using that zmod_le_nonneg_dividend [of "x - l" c] by simp
  then show "x \<in> trip (l + k) u c \<longleftrightarrow> x \<in> {x. l \<le> x \<and> x \<le> u \<and> (x - l) mod c = k}"
    using mod k by (auto simp: mem_trip)
qed

text \<open>
  The common section that \<open>bsd2csd\<close> builds from a block-cyclic section whose first block
  lies within the bounds has exactly the indices of the section: those whose offset in their cycle is less
  than the block width.
\<close>

theorem bsd2csd_indices:
  assumes "0 < bsd_b d" and "bsd_b d \<le> bsd_c d" and "bsd_l d + bsd_b d - 1 \<le> bsd_u d"
  shows "\<exists>c. bsd2csd (Some d) = Some c \<and> csd_set c = bsd_set d"
proof -
  let ?b = "nat (bsd_b d)"
  let ?l = "\<lambda>i. bsd_l d + int i"
  have cut: "trip (?l i) (?l i + bsd_c d * ((bsd_u d - ?l i) sdiv bsd_c d)) (bsd_c d) =
      {x. bsd_l d \<le> x \<and> x \<le> bsd_u d \<and> (x - bsd_l d) mod bsd_c d = int i}" if "i < ?b" for i
    using that assms by (subst trip_cut) (auto simp: trip_class)
  have "bsd_set d = (\<Union>i<?b. {x. bsd_l d \<le> x \<and> x \<le> bsd_u d \<and> (x - bsd_l d) mod bsd_c d = int i})"
  proof (intro set_eqI iffI)
    fix x assume x: "x \<in> bsd_set d"
    have "0 \<le> (x - bsd_l d) mod bsd_c d" using assms by simp
    with x show "x \<in> (\<Union>i<?b. {x. bsd_l d \<le> x \<and> x \<le> bsd_u d \<and> (x - bsd_l d) mod bsd_c d = int i})"
      by (auto simp: bsd_set_def intro!: bexI [of _ "nat ((x - bsd_l d) mod bsd_c d)"])
  qed (auto simp: bsd_set_def)
  with cut show ?thesis by (simp add: bsd2csd_def csd_set_def Let_def)
qed

theorem bsd2csd_indices_witness:
  "\<exists>c. bsd2csd (Some \<lparr>bsd_l = 0, bsd_u = 14, bsd_b = 2, bsd_c = 6\<rparr>) = Some c \<and>
     csd_set c = bsd_set \<lparr>bsd_l = 0, bsd_u = 14, bsd_b = 2, bsd_c = 6\<rparr>"
  by (rule bsd2csd_indices) simp_all

subsection \<open>Intersection of common sections\<close>

lemma swap_append:
  "length as = p \<Longrightarrow> swap (as @ a # x # bs) (Suc p) = as @ x # a # bs"
  by (simp add: swap_def list_update_append nth_append)

text \<open>The inner while loop moves the new entry left past the entries with a larger lower bound.\<close>

lemma csd_sink_split:
  "length as = p \<Longrightarrow> length cs = p \<Longrightarrow>
   \<exists>as1 as2 cs1 cs2. as = as1 @ as2 \<and> cs = cs1 @ cs2 \<and> length as1 = length cs1 \<and>
     (\<forall>a \<in> set as2. x < a) \<and> (as1 = [] \<or> last as1 \<le> x) \<and>
     csd_sink junk x p (as @ x # bs) (cs @ y # ds) = (as1 @ x # as2 @ bs, cs1 @ y # cs2 @ ds)"
proof (induction p arbitrary: as cs bs ds)
  case 0
  then show ?case by auto
next
  case (Suc p)
  obtain as' a where as: "as = as' @ [a]" using Suc.prems(1) by (cases as rule: rev_cases) auto
  obtain cs' c where cs: "cs = cs' @ [c]" using Suc.prems(2) by (cases cs rule: rev_cases) auto
  have len: "length as' = p" "length cs' = p" using Suc.prems as cs by auto
  show ?case
  proof (cases "x < a")
    case False
    with as cs len show ?thesis
      by (intro exI [of _ as] exI [of _ "[]"] exI [of _ cs]) (simp add: nth_append)
  next
    case True
    obtain as1 as2 cs1 cs2 where IH: "as' = as1 @ as2" "cs' = cs1 @ cs2" "length as1 = length cs1"
      "\<forall>a \<in> set as2. x < a" "as1 = [] \<or> last as1 \<le> x"
      "csd_sink junk x p (as' @ x # a # bs) (cs' @ y # c # ds) =
         (as1 @ x # as2 @ a # bs, cs1 @ y # cs2 @ c # ds)"
      using Suc.IH [OF len, of "a # bs" "c # ds"] by blast
    have "csd_sink junk x (Suc p) (as @ x # bs) (cs @ y # ds) =
        csd_sink junk x p (as' @ x # a # bs) (cs' @ y # c # ds)"
      using True as cs len by (simp add: nth_append swap_append)
    with IH True as cs show ?thesis
      by (intro exI [of _ as1] exI [of _ "as2 @ [a]"] exI [of _ cs1] exI [of _ "cs2 @ [c]"]) auto
  qed
qed

lemma sorted_insert_last:
  assumes "sorted (as1 @ as2)" and "\<forall>a \<in> set as2. x < a" and "as1 = [] \<or> last as1 \<le> (x::int)"
  shows "sorted (as1 @ x # as2)"
proof (cases as1 rule: rev_cases)
  case Nil
  with assms show ?thesis by auto
next
  case (snoc ys z)
  with assms show ?thesis by (fastforce simp: sorted_append)
qed

text \<open>A pair of sections on which the search cannot run past the common part.\<close>

definition rsd_clean :: "rsd \<Rightarrow> rsd \<Rightarrow> bool" where
  "rsd_clean r1 r2 \<longleftrightarrow> rsd_set r1 \<inter> rsd_set r2 \<noteq> {} \<or>
     (if rsd_l r1 \<le> rsd_l r2 then rsd_u r2 \<le> rsd_u r1 else rsd_u r1 \<le> rsd_u r2)"

lemma rsd_search_le: "0 < s2 \<Longrightarrow> rsd_search i u2 s2 l1 s1 = Some (Some j) \<Longrightarrow> j \<le> u2"
  using rsd_search_returns [of s2 i u2 l1 s1] by (auto simp: mem_trip)

lemma intersection_rsds_upper:
  assumes "intersection_rsds (Some r1) (Some r2) = Some (Some t)" and "0 < rsd_s r1" "0 < rsd_s r2"
  shows "rsd_l t \<le> (if rsd_l r1 \<le> rsd_l r2 then rsd_u r2 else rsd_u r1)"
proof (cases "rsd_l r1 \<le> rsd_l r2")
  case True
  with assms(1) have "rsd_search (rsd_l r2) (rsd_u r2) (rsd_s r2) (rsd_l r1) (rsd_s r1) = Some (Some (rsd_l t))"
    by (auto simp: intersection_rsds_def Let_def split: if_splits option.splits)
  from rsd_search_le [OF assms(3) this] True show ?thesis by simp
next
  case False
  with assms(1) have "rsd_search (rsd_l r1) (rsd_u r1) (rsd_s r1) (rsd_l r2) (rsd_s r2) = Some (Some (rsd_l t))"
    by (auto simp: intersection_rsds_def Let_def split: if_splits option.splits)
  from rsd_search_le [OF assms(2) this] False show ?thesis by simp
qed

lemma intersection_rsds_clean:
  assumes s: "0 < rsd_s r1" "0 < rsd_s r2" and clean: "rsd_clean r1 r2"
  shows "intersection_rsds (Some r1) (Some r2) = Some None \<and> rsd_set r1 \<inter> rsd_set r2 = {} \<or>
    (\<exists>t. intersection_rsds (Some r1) (Some r2) = Some (Some t) \<and>
       rsd_s t = lcm (rsd_s r1) (rsd_s r2) \<and> rsd_set t = rsd_set r1 \<inter> rsd_set r2)"
proof -
  obtain r where r: "intersection_rsds (Some r1) (Some r2) = Some r" "rsds_result r1 r2 r"
    using intersection_rsds_returns [OF s] by blast
  show ?thesis
  proof (cases r)
    case None
    with r show ?thesis by (simp add: rsds_result_def)
  next
    case (Some t)
    have "rsd_l t \<le> (if rsd_l r1 \<le> rsd_l r2 then rsd_u r2 else rsd_u r1)"
      using r Some s by (intro intersection_rsds_upper) simp_all
    with clean have "rsd_set r1 \<inter> rsd_set r2 = {} \<longrightarrow> rsd_l t \<le> rsd_u r1 \<and> rsd_l t \<le> rsd_u r2"
      by (cases "rsd_l r1 \<le> rsd_l r2") (auto simp only: rsd_clean_def if_True if_False)
    moreover have "rsd_s t = lcm (rsd_s r1) (rsd_s r2) \<and>
        (if rsd_l t \<le> min (rsd_u r1) (rsd_u r2) then rsd_set t = rsd_set r1 \<inter> rsd_set r2
         else rsd_set r1 \<inter> rsd_set r2 = {})"
      using r(2) unfolding Some rsds_result_def option.case .
    ultimately have "rsd_set t = rsd_set r1 \<inter> rsd_set r2 \<and> rsd_s t = lcm (rsd_s r1) (rsd_s r2)"
      by (metis min_le_iff_disj min_def)
    with r(1) Some show ?thesis by blast
  qed
qed

text \<open>The sections of a descriptor that are in use, and the section of an index.\<close>

definition csd_rsd :: "csd \<Rightarrow> nat \<Rightarrow> rsd" where
  "csd_rsd c i = \<lparr>rsd_l = csd_l c ! i, rsd_u = csd_u c ! i, rsd_s = csd_s c\<rparr>"

text \<open>The entries written so far are sorted and stand for the pairs already visited.\<close>

definition csds_inv :: "int \<Rightarrow> int set \<Rightarrow> nat \<Rightarrow> csd \<times> int \<Rightarrow> bool" where
  "csds_inv s A room st = (\<exists>as bs cs ds.
     csd_l (fst st) = as @ bs \<and> csd_u (fst st) = cs @ ds \<and>
     length as = nat (snd st) \<and> length cs = nat (snd st) \<and> 0 \<le> snd st \<and>
     csd_n (fst st) = snd st \<and> length ds = length bs \<and> room \<le> length bs \<and> sorted as \<and>
     (snd st > 0 \<longrightarrow> csd_s (fst st) = s) \<and>
     A = (\<Union>(l, u) \<in> set (zip as cs). trip l u s))"

lemma csds_pair_inv:
  assumes inv: "csds_inv s A (Suc room) st" and s: "s = lcm (csd_s c1) (csd_s c2)"
    and pos: "0 < csd_s c1" "0 < csd_s c2" and clean: "rsd_clean (csd_rsd c1 i) (csd_rsd c2 j)"
  shows "\<exists>st'. csds_pair junk c1 c2 (i, j) st = Inr st' \<and>
    csds_inv s (A \<union> (rsd_set (csd_rsd c1 i) \<inter> rsd_set (csd_rsd c2 j))) room st'"
proof -
  obtain c0 k where st: "st = (c0, k)" by (cases st)
  obtain as bs cs ds where I: "csd_l c0 = as @ bs" "csd_u c0 = cs @ ds" "length as = nat k"
    "length cs = nat k" "0 \<le> k" "csd_n c0 = k" "length ds = length bs" "Suc room \<le> length bs"
    "sorted as" "k > 0 \<longrightarrow> csd_s c0 = s" "A = (\<Union>(l, u) \<in> set (zip as cs). trip l u s)"
    using inv st by (auto simp: csds_inv_def)
  consider (none) "intersection_rsds (Some (csd_rsd c1 i)) (Some (csd_rsd c2 j)) = Some None"
      "rsd_set (csd_rsd c1 i) \<inter> rsd_set (csd_rsd c2 j) = {}"
    | (some) t where "intersection_rsds (Some (csd_rsd c1 i)) (Some (csd_rsd c2 j)) = Some (Some t)"
      "rsd_s t = s" "rsd_set t = rsd_set (csd_rsd c1 i) \<inter> rsd_set (csd_rsd c2 j)"
    using intersection_rsds_clean [of "csd_rsd c1 i" "csd_rsd c2 j"] clean pos s
    by (auto simp: csd_rsd_def)
  then show ?thesis
  proof cases
    case none
    then have "csds_pair junk c1 c2 (i, j) st = Inr st"
      using st by (simp add: csds_pair_def csd_rsd_def)
    moreover have "csds_inv s A room st"
      using I st by (fastforce simp: csds_inv_def)
    ultimately show ?thesis using none by simp
  next
    case some
    obtain b bs' where bs: "bs = b # bs'" using I(8) by (cases bs) auto
    obtain d ds' where ds: "ds = d # ds'" using I(7) bs by (cases ds) auto
    obtain as1 as2 cs1 cs2 where sink: "as = as1 @ as2" "cs = cs1 @ cs2" "length as1 = length cs1"
      "\<forall>a \<in> set as2. rsd_l t < a" "as1 = [] \<or> last as1 \<le> rsd_l t"
      "csd_sink junk (rsd_l t) (nat k) (as @ rsd_l t # bs') (cs @ rsd_u t # ds') =
         (as1 @ rsd_l t # as2 @ bs', cs1 @ rsd_u t # cs2 @ ds')"
      using csd_sink_split [OF I(3,4), of "rsd_l t" junk bs' "rsd_u t" ds'] by blast
    let ?st = "(c0\<lparr>csd_l := as1 @ rsd_l t # as2 @ bs', csd_u := cs1 @ rsd_u t # cs2 @ ds',
        csd_n := csd_n c0 + 1, csd_s := s\<rparr>, k + 1)"
    have "csds_pair junk c1 c2 (i, j) st = Inr ?st"
      using st some I sink bs ds
      by (simp add: csds_pair_def csd_rsd_def put_def list_update_append)
    moreover have "csds_inv s (A \<union> rsd_set t) room ?st"
      unfolding csds_inv_def
    proof (intro exI conjI)
      show "csd_l (fst ?st) = (as1 @ rsd_l t # as2) @ bs'" by simp
      show "csd_u (fst ?st) = (cs1 @ rsd_u t # cs2) @ ds'" by simp
      show "sorted (as1 @ rsd_l t # as2)" using I(9) sink by (intro sorted_insert_last) auto
      show "A \<union> rsd_set t = (\<Union>(l, u) \<in> set (zip (as1 @ rsd_l t # as2) (cs1 @ rsd_u t # cs2)). trip l u s)"
        using I(11) sink(1-3) some(2) by (auto simp: rsd_set_def)
    qed (use I sink(1,2) bs ds in auto)
    ultimately show ?thesis using some by auto
  qed
qed

lemma csds_pairs_inv:
  assumes s: "s = lcm (csd_s c1) (csd_s c2)" and pos: "0 < csd_s c1" "0 < csd_s c2"
  shows "csds_inv s A (length ijs) st \<Longrightarrow> \<forall>(i, j) \<in> set ijs. rsd_clean (csd_rsd c1 i) (csd_rsd c2 j) \<Longrightarrow>
    \<exists>st'. csds_pairs junk c1 c2 ijs st = Inr st' \<and>
      csds_inv s (A \<union> (\<Union>(i, j) \<in> set ijs. rsd_set (csd_rsd c1 i) \<inter> rsd_set (csd_rsd c2 j))) 0 st'"
proof (induction ijs arbitrary: A st)
  case Nil
  then show ?case by simp
next
  case (Cons ij ijs)
  obtain i j where ij: "ij = (i, j)" by (cases ij)
  let ?B = "rsd_set (csd_rsd c1 i) \<inter> rsd_set (csd_rsd c2 j)"
  obtain st1 where st1: "csds_pair junk c1 c2 (i, j) st = Inr st1" "csds_inv s (A \<union> ?B) (length ijs) st1"
    using csds_pair_inv [OF _ s pos, of A "length ijs" st i j junk] Cons.prems ij by auto
  from Cons.IH [OF st1(2)] Cons.prems(2)
  obtain st2 where "csds_pairs junk c1 c2 ijs st1 = Inr st2"
    "csds_inv s (A \<union> ?B \<union> (\<Union>(i, j) \<in> set ijs. rsd_set (csd_rsd c1 i) \<inter> rsd_set (csd_rsd c2 j))) 0 st2"
    by auto
  with st1 ij show ?case by (simp add: Un_assoc)
qed

lemma csd_set_rsds: "csd_set c = (\<Union>i<nat (csd_n c). rsd_set (csd_rsd c i))"
  by (simp add: csd_set_def csd_rsd_def rsd_set_def)

lemma csds_inv_set:
  assumes "csds_inv s A room (c, k)"
  shows "csd_set c = A \<and> sorted (take (nat (csd_n c)) (csd_l c))"
proof -
  obtain as bs cs ds where I: "csd_l c = as @ bs" "csd_u c = cs @ ds" "length as = nat k"
    "length cs = nat k" "csd_n c = k" "sorted as" "k > 0 \<longrightarrow> csd_s c = s"
    "A = (\<Union>(l, u) \<in> set (zip as cs). trip l u s)"
    using assms by (auto simp: csds_inv_def)
  have "set (zip as cs) = (\<lambda>i. (csd_l c ! i, csd_u c ! i)) ` {..<nat k}"
    using I(1-4) by (auto simp: set_zip nth_append)
  with I have "csd_set c = A" by (auto simp: csd_set_def)
  with I show ?thesis by simp
qed

lemma csds_inv_start:
  "0 \<le> csd_n c1 \<Longrightarrow> 0 \<le> csd_n c2 \<Longrightarrow> csd_n c1 \<le> 1 \<or> csd_n c2 \<le> 1 \<Longrightarrow>
   csds_inv s {} (nat (csd_n c1) * nat (csd_n c2)) ((alloc_csd junk (max (csd_n c1) (csd_n c2)))\<lparr>csd_n := 0\<rparr>, 0)"
proof -
  assume n: "0 \<le> csd_n c1" "0 \<le> csd_n c2" "csd_n c1 \<le> 1 \<or> csd_n c2 \<le> 1"
  have "csd_n c1 * csd_n c2 \<le> max (csd_n c1) (csd_n c2)"
  proof (cases "csd_n c1 \<le> 1")
    case True
    with n show ?thesis using mult_right_mono [of "csd_n c1" 1 "csd_n c2"] by linarith
  next
    case False
    with n show ?thesis using mult_left_mono [of "csd_n c2" 1 "csd_n c1"] by linarith
  qed
  with n show ?thesis
    by (auto simp: csds_inv_def alloc_csd_def nat_mult_distrib [symmetric])
qed

text \<open>
  C30. Where one of the two common sections has a single section (the shape the library builds from
  a regular section) and no pair of sections lets the search overrun, \<open>intersection_csds\<close> succeeds:
  its result has exactly the common indices, and its sections are sorted by their lower bounds.
\<close>

theorem intersection_csds_correct:
  assumes "0 < csd_s c1" and "0 < csd_s c2" and "0 \<le> csd_n c1" and "0 \<le> csd_n c2"
    and "csd_n c1 \<le> 1 \<or> csd_n c2 \<le> 1"
    and "\<forall>i < nat (csd_n c1). \<forall>j < nat (csd_n c2). rsd_clean (csd_rsd c1 i) (csd_rsd c2 j)"
  shows "\<exists>c. intersection_csds junk (Some c1) (Some c2) = Inr (Some c) \<and>
    csd_set c = csd_set c1 \<inter> csd_set c2 \<and> sorted (take (nat (csd_n c)) (csd_l c))"
proof -
  let ?ijs = "List.product [0..<nat (csd_n c1)] [0..<nat (csd_n c2)]"
  let ?c0 = "(alloc_csd junk (max (csd_n c1) (csd_n c2)))\<lparr>csd_n := 0\<rparr>"
  let ?A = "\<Union>(i, j) \<in> set ?ijs. rsd_set (csd_rsd c1 i) \<inter> rsd_set (csd_rsd c2 j)"
  have "csds_inv (lcm (csd_s c1) (csd_s c2)) {} (length ?ijs) (?c0, 0)"
    using csds_inv_start [OF assms(3-5)] by simp
  moreover have "\<forall>(i, j) \<in> set ?ijs. rsd_clean (csd_rsd c1 i) (csd_rsd c2 j)" using assms(6) by auto
  ultimately obtain c k where r: "csds_pairs junk c1 c2 ?ijs (?c0, 0) = Inr (c, k)"
    "csds_inv (lcm (csd_s c1) (csd_s c2)) ({} \<union> ?A) 0 (c, k)"
    using csds_pairs_inv [OF refl assms(1,2)] by (metis surj_pair)
  have "?A = csd_set c1 \<inter> csd_set c2" by (auto simp: csd_set_rsds atLeast0LessThan)
  with csds_inv_set [OF r(2)] r(1) show ?thesis by (simp add: intersection_csds_def)
qed

theorem intersection_csds_correct_witness:
  "\<exists>c. intersection_csds 0
      (Some \<lparr>csd_l = [0], csd_u = [12], csd_n = 1, csd_s = 1\<rparr>)
      (Some \<lparr>csd_l = [2, 3], csd_u = [10, 11], csd_n = 2, csd_s = 4\<rparr>) = Inr (Some c) \<and>
    csd_set c = csd_set \<lparr>csd_l = [0], csd_u = [12], csd_n = 1, csd_s = 1\<rparr> \<inter>
      csd_set \<lparr>csd_l = [2, 3], csd_u = [10, 11], csd_n = 2, csd_s = 4\<rparr> \<and>
    sorted (take (nat (csd_n c)) (csd_l c))"
  by (rule intersection_csds_correct) (auto simp: rsd_clean_def csd_rsd_def less_Suc_eq numeral_2_eq_2)

text \<open>
  The result of \<open>intersection_csds\<close> is allocated for as many sections as the larger argument
  has, and one section is stored for each pair that meets. For the block-cyclic sections
  \<open>0:35\<close> with blocks of 2 in cycles of 4 and blocks of 3 in cycles of 9, six pairs meet and three sections
  fit: the fourth store is outside the block.
\<close>

theorem intersection_csds_overrun:
  "intersection_csds junk
     (bsd2csd (Some \<lparr>bsd_l = 0, bsd_u = 35, bsd_b = 2, bsd_c = 4\<rparr>))
     (bsd2csd (Some \<lparr>bsd_l = 0, bsd_u = 35, bsd_b = 3, bsd_c = 9\<rparr>)) = Inl OutOfBounds"
  by (simp add: intersection_csds_def bsd2csd_def alloc_csd_def csds_pair_def intersection_rsds_def
      rsd_search.simps XMP_lcm_def XMP_gcd.simps signed_divide_int_def signed_modulo_int_def put_def
      swap_def upt_rec numeral_2_eq_2 numeral_3_eq_3 eval_nat_numeral)

subsection \<open>Communication sets\<close>

text \<open>
  A common section whose sections start within one period, in increasing order, and do not run longer
  than the first: the shape that \<open>bsd2csd\<close> and cuts of it by a common interval have.
\<close>

definition csd_wf :: "csd \<Rightarrow> bool" where
  "csd_wf c \<longleftrightarrow> 0 < csd_s c \<and> 0 \<le> csd_n c \<and> csd_n c = int (length (csd_l c)) \<and>
     length (csd_u c) = length (csd_l c) \<and> sorted_wrt (<) (csd_l c) \<and>
     (\<forall>i < length (csd_l c). csd_l c ! i < csd_l c ! 0 + csd_s c \<and> csd_l c ! i \<le> csd_u c ! i \<and>
        csd_u c ! i - csd_l c ! i \<le> csd_u c ! 0 - csd_l c ! 0)"

text \<open>Cells in reverse order, separated by gaps, ending at or before \<open>m\<close>.\<close>

definition cells_upto :: "int \<Rightarrow> comm_set \<Rightarrow> bool" where
  "cells_upto m acc \<longleftrightarrow> acc \<noteq> [] \<and> snd (hd acc) \<le> m \<and> (\<forall>(a, b) \<in> set acc. a \<le> b) \<and>
     sorted_wrt (\<lambda>(a, b) (c, d). d + 1 < a) acc"

lemma cells_upto_mono: "cells_upto m acc \<Longrightarrow> m \<le> m' \<Longrightarrow> cells_upto m' acc"
  by (simp add: cells_upto_def)

lemma comm_set_visit_cells:
  assumes "cells_upto l acc"
  shows "cells_upto l (comm_set_visit l acc)"
    and "comm_set_set (comm_set_visit l acc) = insert l (comm_set_set acc)"
proof -
  obtain a b rest where acc: "acc = (a, b) # rest" using assms by (cases acc) (auto simp: cells_upto_def)
  have ab: "a \<le> b" "b \<le> l" "\<forall>(c, d) \<in> set rest. d + 1 < a" using assms acc by (auto simp: cells_upto_def)
  have *: "d + 1 < l" if "b < l" "(c, d) \<in> set rest" for c d using that ab by auto
  show "cells_upto l (comm_set_visit l acc)" using assms acc ab * by (auto simp: cells_upto_def)
  show "comm_set_set (comm_set_visit l acc) = insert l (comm_set_set acc)"
    using acc ab by (auto simp: comm_set_set_def)
qed

lemma comm_set_round_cells:
  "cells_upto m acc \<Longrightarrow> sorted (map fst lus) \<Longrightarrow> \<forall>(l, u) \<in> set lus. m \<le> l + j \<and> l + j \<le> M \<Longrightarrow> m \<le> M \<Longrightarrow>
   cells_upto M (comm_set_round j lus acc) \<and>
   comm_set_set (comm_set_round j lus acc) =
     comm_set_set acc \<union> {l + j |l u. (l, u) \<in> set lus \<and> l + j \<le> u}"
proof (induction lus arbitrary: m acc)
  case Nil
  then show ?case by (auto intro: cells_upto_mono)
next
  case (Cons lu lus)
  obtain l u where lu: "lu = (l, u)" by (cases lu)
  have rest: "sorted (map fst lus)" "\<forall>(l', u') \<in> set lus. l \<le> l'" "\<forall>(l', u') \<in> set lus. l' + j \<le> M"
    "m \<le> l + j" "l + j \<le> M" using Cons.prems lu by auto
  have up: "\<forall>(l', u') \<in> set lus. l + j \<le> l' + j \<and> l' + j \<le> M" using rest by auto
  have acc: "cells_upto (l + j) acc" using Cons.prems(1) rest(4) by (rule cells_upto_mono)
  show ?case
  proof (cases "l + j \<le> u")
    case True
    from Cons.IH [OF comm_set_visit_cells(1) [OF acc] rest(1) up rest(5)] True lu
    show ?thesis by (auto simp: comm_set_visit_cells(2) [OF acc])
  next
    case False
    from Cons.IH [OF acc rest(1) up rest(5)] False lu show ?thesis by auto
  qed
qed

lemma comm_set_rounds_cells:
  assumes "0 < csd_s c" and lus: "lus = take (nat (csd_n c)) (zip (csd_l c) (csd_u c))"
    and sorted: "sorted (map fst lus)"
    and within: "\<forall>(l, u) \<in> set lus. csd_l c ! 0 \<le> l \<and> l < csd_l c ! 0 + csd_s c"
  shows "cells_upto (csd_l c ! 0 + j) acc \<Longrightarrow>
    \<exists>r m. comm_set_rounds j c acc = Some r \<and> cells_upto m r \<and>
      comm_set_set r = comm_set_set acc \<union>
        {l + i |l u i. (l, u) \<in> set lus \<and> l + i \<le> u \<and> j \<le> i \<and> csd_s c dvd (i - j) \<and> csd_l c ! 0 + i \<le> csd_u c ! 0}"
proof (induction "nat (csd_u c ! 0 - csd_l c ! 0 - j + 1)" arbitrary: j acc rule: less_induct)
  case less
  let ?l0 = "csd_l c ! 0" and ?u0 = "csd_u c ! 0" and ?s = "csd_s c"
  show ?case
  proof (cases "?l0 + j \<le> ?u0")
    case False
    with less.prems show ?thesis by (subst comm_set_rounds.simps) auto
  next
    case True
    have "\<forall>(l, u) \<in> set lus. ?l0 + j \<le> l + j \<and> l + j \<le> ?l0 + (j + ?s)" using within by auto
    from comm_set_round_cells [OF less.prems sorted this] assms(1)
    have round: "cells_upto (?l0 + (j + ?s)) (comm_set_round j lus acc)"
      "comm_set_set (comm_set_round j lus acc) =
         comm_set_set acc \<union> {l + j |l u. (l, u) \<in> set lus \<and> l + j \<le> u}" by auto
    have "nat (?u0 - ?l0 - (j + ?s) + 1) < nat (?u0 - ?l0 - j + 1)" using True assms(1) by linarith
    from less.hyps [OF this round(1)] obtain r m where r:
      "comm_set_rounds (j + ?s) c (comm_set_round j lus acc) = Some r" "cells_upto m r"
      "comm_set_set r = comm_set_set (comm_set_round j lus acc) \<union>
         {l + i |l u i. (l, u) \<in> set lus \<and> l + i \<le> u \<and> j + ?s \<le> i \<and> ?s dvd (i - (j + ?s)) \<and> ?l0 + i \<le> ?u0}"
      by auto
    have step: "(j \<le> i \<and> ?s dvd (i - j) \<and> ?l0 + i \<le> ?u0) =
        (i = j \<or> (j + ?s \<le> i \<and> ?s dvd (i - (j + ?s)) \<and> ?l0 + i \<le> ?u0))" for i
    proof -
      have "i \<in> trip j (?u0 - ?l0) ?s \<longleftrightarrow> i \<in> insert j (trip (j + ?s) (?u0 - ?l0) ?s)"
        using True by (subst trip_Cons [OF assms(1)]) simp_all
      then show ?thesis by (simp add: mem_trip le_diff_eq add.commute conj_ac)
    qed
    have "comm_set_rounds j c acc = Some r" using r(1) True lus by (subst comm_set_rounds.simps) simp
    moreover have "comm_set_set r = comm_set_set acc \<union>
        {l + i |l u i. (l, u) \<in> set lus \<and> l + i \<le> u \<and> j \<le> i \<and> ?s dvd (i - j) \<and> ?l0 + i \<le> ?u0}"
      unfolding r(3) round(2) step by blast
    ultimately show ?thesis using r(2) by blast
  qed
qed

lemma csd_wf_lower: "csd_wf c \<Longrightarrow> i < length (csd_l c) \<Longrightarrow> csd_l c ! 0 \<le> csd_l c ! i"
  by (cases i) (auto simp: csd_wf_def sorted_wrt_iff_nth_less intro: less_imp_le)

text \<open>The indices of a section descriptor, as the rounds of \<open>csd2comm_set\<close> count them: shifts of the first indices by multiples of the stride.\<close>

lemma csd_set_shifts:
  assumes "csd_wf c" and "csd_l c \<noteq> []"
  shows "csd_set c = {l + i |l u i. (l, u) \<in> set (zip (csd_l c) (csd_u c)) \<and> l + i \<le> u \<and> 0 \<le> i \<and> csd_s c dvd i \<and>
    csd_l c ! 0 + i \<le> csd_u c ! 0}" (is "_ = ?R")
proof -
  let ?lus = "zip (csd_l c) (csd_u c)"
  have b: "u - l \<le> csd_u c ! 0 - csd_l c ! 0" if "(l, u) \<in> set ?lus" for l u
    using that assms by (auto simp: csd_wf_def set_zip)
  have "csd_set c = (\<Union>(l, u) \<in> set ?lus. trip l u (csd_s c))"
    using assms by (force simp: csd_wf_def csd_set_def set_zip)
  also have "\<dots> = ?R"
  proof (intro set_eqI iffI)
    fix x assume "x \<in> (\<Union>(l, u) \<in> set ?lus. trip l u (csd_s c))"
    then obtain l u where "(l, u) \<in> set ?lus" "x \<in> trip l u (csd_s c)" by blast
    with b [of l u] show "x \<in> ?R"
      by (intro CollectI exI [of _ l] exI [of _ u] exI [of _ "x - l"]) (auto simp: mem_trip)
  next
    fix x assume "x \<in> ?R"
    then obtain l u i where "x = l + i" "(l, u) \<in> set ?lus" "l + i \<le> u" "0 \<le> i" "csd_s c dvd i" by blast
    then show "x \<in> (\<Union>(l, u) \<in> set ?lus. trip l u (csd_s c))"
      by (intro UN_I [of "(l, u)"]) (auto simp: mem_trip)
  qed
  finally show ?thesis .
qed

text \<open>
  C31. For such a section \<open>csd2comm_set\<close> returns the same indices as a chain of intervals that are not
  empty, in increasing order, with a gap between each two of them: no message is split in two.
\<close>

theorem csd2comm_set_correct:
  assumes "csd_wf c"
  shows "\<exists>cs. csd2comm_set (Some c) = Some cs \<and> comm_set_set cs = csd_set c \<and>
    (\<forall>(a, b) \<in> set cs. a \<le> b) \<and> sorted_wrt (\<lambda>(a, b) (a', b'). b + 1 < a') cs"
proof (cases "csd_n c = 0")
  case True
  then show ?thesis by (simp add: csd2comm_set_def comm_set_set_def csd_set_def)
next
  case False
  let ?lus = "zip (csd_l c) (csd_u c)" and ?l0 = "csd_l c ! 0"
  have wf: "0 < csd_s c" "csd_n c = int (length (csd_l c))" "length (csd_u c) = length (csd_l c)"
    "sorted_wrt (<) (csd_l c)" and ne: "csd_l c \<noteq> []" using assms False by (auto simp: csd_wf_def)
  have bounds: "l < ?l0 + csd_s c" "?l0 \<le> l" "l \<le> u" "u - l \<le> csd_u c ! 0 - ?l0"
    if "(l, u) \<in> set ?lus" for l u
    using that assms csd_wf_lower [OF assms] by (auto simp: csd_wf_def set_zip)
  have start: "cells_upto (?l0 + 0) [(?l0, ?l0)]" by (simp add: cells_upto_def)
  have lus: "?lus = take (nat (csd_n c)) ?lus" "sorted (map fst ?lus)"
    "\<forall>(l, u) \<in> set ?lus. ?l0 \<le> l \<and> l < ?l0 + csd_s c"
    using wf bounds(1,2) by (auto simp: strict_sorted_imp_sorted)
  obtain r m where
    r: "comm_set_rounds 0 c [(?l0, ?l0)] = Some r" "cells_upto m r"
      "comm_set_set r = comm_set_set [(?l0, ?l0)] \<union>
        {l + i |l u i. (l, u) \<in> set ?lus \<and> l + i \<le> u \<and> 0 \<le> i \<and> csd_s c dvd (i - 0) \<and> ?l0 + i \<le> csd_u c ! 0}"
    using comm_set_rounds_cells [OF wf(1) lus start] by (elim exE conjE)
  have first: "(?l0, csd_u c ! 0) \<in> set ?lus" using ne wf(3) by (auto simp: set_zip)
  have "csd_set c = comm_set_set r"
  proof -
    have "\<exists>l u i. ?l0 = l + i \<and> (l, u) \<in> set ?lus \<and> l + i \<le> u \<and> 0 \<le> i \<and> csd_s c dvd i \<and> ?l0 + i \<le> csd_u c ! 0"
      using first bounds(3) [OF first] by (intro exI [of _ ?l0] exI [of _ "csd_u c ! 0"] exI [of _ 0]) simp
    then show ?thesis unfolding csd_set_shifts [OF assms ne] r(3) by (auto simp: comm_set_set_def)
  qed
  then show ?thesis using r(1,2) False by (auto simp: csd2comm_set_def cells_upto_def sorted_wrt_rev case_prod_unfold comm_set_set_def)
qed

theorem csd2comm_set_correct_witness:
  "\<exists>cs. csd2comm_set (Some \<lparr>csd_l = [0, 1], csd_u = [12, 7], csd_n = 2, csd_s = 6\<rparr>) = Some cs \<and>
    comm_set_set cs = csd_set \<lparr>csd_l = [0, 1], csd_u = [12, 7], csd_n = 2, csd_s = 6\<rparr> \<and>
    (\<forall>(a, b) \<in> set cs. a \<le> b) \<and> sorted_wrt (\<lambda>(a, b) (a', b'). b + 1 < a') cs"
  by (rule csd2comm_set_correct) (simp add: csd_wf_def numeral_2_eq_2 less_Suc_eq)

lemma csd_wf_disjoint:
  assumes "csd_wf c" and "i < length (csd_l c)" "j < length (csd_l c)" "i \<noteq> j"
  shows "trip (csd_l c ! i) (csd_u c ! i) (csd_s c) \<inter> trip (csd_l c ! j) (csd_u c ! j) (csd_s c) = {}"
proof -
  have d: "\<bar>csd_l c ! i - csd_l c ! j\<bar> < csd_s c"
    using assms csd_wf_lower [OF assms(1,2)] csd_wf_lower [OF assms(1,3)] by (auto simp: csd_wf_def abs_if)
  have ne: "csd_l c ! i \<noteq> csd_l c ! j"
    using assms(2-4) assms(1)[unfolded csd_wf_def sorted_wrt_iff_nth_less] by (metis nat_neq_iff less_irrefl)
  have "csd_s c dvd (csd_l c ! i - csd_l c ! j)"
    if "csd_s c dvd (x - csd_l c ! i)" "csd_s c dvd (x - csd_l c ! j)" for x
    using dvd_diff [OF that(2,1)] by simp
  then show ?thesis using d ne dvd_imp_le_int [of "csd_l c ! i - csd_l c ! j" "csd_s c"]
    by (fastforce simp: mem_trip)
qed

text \<open>\<open>get_csd_size\<close> is the number of indices of such a section.\<close>

theorem get_csd_size_card:
  assumes "csd_wf c"
  shows "get_csd_size c = int (card (csd_set c))"
proof -
  let ?n = "length (csd_l c)"
  let ?T = "\<lambda>i. trip (csd_l c ! i) (csd_u c ! i) (csd_s c)"
  have n: "nat (csd_n c) = ?n" and s: "0 < csd_s c" using assms by (auto simp: csd_wf_def)
  have "XMP_M_COUNT_TRIPLETi (csd_l c ! i) (csd_u c ! i) (csd_s c) = int (card (?T i))" if "i < ?n" for i
    using that assms s by (auto simp: csd_wf_def card_trip XMP_M_COUNT_TRIPLETi_def XMP_M_FLOORi_def)
  then have "get_csd_size c = (\<Sum>i<?n. int (card (?T i)))"
    by (simp add: get_csd_size_def n sum_list_sum_nth atLeast0LessThan)
  also have "\<dots> = int (card (\<Union>i<?n. ?T i))"
    using csd_wf_disjoint [OF assms] by (subst card_UN_disjoint) auto
  finally show ?thesis by (simp add: csd_set_def n)
qed

theorem get_csd_size_card_witness:
  "get_csd_size \<lparr>csd_l = [0, 1], csd_u = [12, 7], csd_n = 2, csd_s = 6\<rparr> =
     int (card (csd_set \<lparr>csd_l = [0, 1], csd_u = [12, 7], csd_n = 2, csd_s = 6\<rparr>))"
  by (rule get_csd_size_card) (simp add: csd_wf_def numeral_2_eq_2 less_Suc_eq)

end
