(* ===== verification/Xmp_Nodes.thy ===== *)
theory Xmp_Nodes
  imports Xmp_Math
begin

text \<open>
  Node sets of the XcalableMP runtime: \<open>src/libxmp/src/xmp_nodes.c\<close>, the stack of executing node
  sets (\<open>xmp_nodes_stack.c\<close>), the world node set (\<open>xmp_world.c\<close>) and the counter of reference ids
  (\<open>xmp_util.c\<close>).

  Descriptors are shared through pointers (\<open>inherit_nodes\<close>, the stack), so they live in a heap:
  a map from addresses to descriptors. Memory that \<open>malloc\<close> returns holds unknown values, the
  \<open>junk\<close> components of the environment. MPI is not part of the repository: a communicator is the
  term of the MPI calls that made it, and the size of it and the rank of the process in it are
  functions of the environment. Lists that the C code receives through \<open>...\<close> are list arguments,
  and pointers it stores results to are results.
\<close>

subsection \<open>Data\<close>

datatype comm = World | Self | Dup comm | Split comm int int

record nodes_info =
  ni_size :: int
  ni_rank :: int
  ni_multiplier :: int

record inherit_info =
  ii_shrink :: bool
  ii_lower :: int
  ii_upper :: int
  ii_stride :: int
  ii_size :: int

datatype nodes_attr = ENTIRE_NODES | EXECUTING_NODES | PRIMARY_NODES | EQUIVALENCE_NODES

record nodes =
  n_on_ref_id :: int
  n_is_member :: bool
  n_dim :: nat
  n_comm_size :: int
  n_attr :: nodes_attr
  n_comm_rank :: int
  n_comm :: comm
  n_subcomm :: "comm list"
  n_use_subcomm :: bool
  n_inherit_nodes :: "nat option"
  n_inherit_info :: "inherit_info list"
  n_info :: "nodes_info list"

record task_desc =
  td_nodes :: "nat option"
  td_execute :: bool
  td_on_ref_id :: int
  td_ref_lower :: "int list"
  td_ref_upper :: "int list"
  td_ref_stride :: "int list"

record nodes_ref =
  nr_nodes :: nat
  nr_ref :: "int list"
  nr_shrink_nodes_size :: int

text \<open>What the code cannot decide: MPI, the process environment and uninitialised memory.\<close>

record xmp_env =
  csize :: "comm \<Rightarrow> int"
  crank :: "comm \<Rightarrow> int"
  node_size_env :: "nat \<Rightarrow> int option"
  junk_nodes :: nodes
  junk_info :: nodes_info
  junk_inherit :: inherit_info
  junk_task :: task_desc

text \<open>The variables of the library that the operations read and write.\<close>

record xmp_state =
  on_ref_id_count :: int
  nodes_heap :: "nat \<Rightarrow> nodes option"
  next_ptr :: nat
  nodes_stack :: "nat list"
  world_size :: int
  world_rank :: int
  world_nodes :: "nat option"
  freed_comms :: "comm list"

type_synonym 'a xmp = "xmp_state \<Rightarrow> ('a \<times> xmp_state) res"

definition XMP_N_INVALID_RANK :: int where
  "XMP_N_INVALID_RANK = - 1"

definition XMP_N_UNSPECIFIED_RANK :: int where
  "XMP_N_UNSPECIFIED_RANK = - 2"

definition XMP_N_MAX_DIM :: nat where
  "XMP_N_MAX_DIM = 7"

subsection \<open>Sequencing and the heap\<close>

definition ret :: "'a \<Rightarrow> 'a xmp" where
  "ret x st = Inr (x, st)"

definition fail :: "omni_error \<Rightarrow> 'a xmp" where
  "fail e st = Inl e"

definition andthen :: "'a xmp \<Rightarrow> ('a \<Rightarrow> 'b xmp) \<Rightarrow> 'b xmp" where
  "andthen m f st = bind_res (m st) (\<lambda>(x, st'). f x st')"

definition lift :: "'a res \<Rightarrow> 'a xmp" where
  "lift r st = bind_res r (\<lambda>x. Inr (x, st))"

definition deref :: "nat option \<Rightarrow> nodes xmp" where
  "deref p st = (case p of None \<Rightarrow> Inl NullDeref
     | Some a \<Rightarrow> (case nodes_heap st a of None \<Rightarrow> Inl NullDeref | Some n \<Rightarrow> Inr (n, st)))"

definition new_nodes :: "nodes \<Rightarrow> nat xmp" where
  "new_nodes n st = Inr (next_ptr st, st\<lparr>nodes_heap := (nodes_heap st)(next_ptr st \<mapsto> n), next_ptr := next_ptr st + 1\<rparr>)"

lemma xmp_simps [simp]:
  "ret x st = Inr (x, st)"
  "fail e st = Inl e"
  "lift (Inr x) st = Inr (x, st)"
  "lift (Inl e) st = Inl e"
  by (simp_all add: ret_def fail_def lift_def)

lemma andthen_Inr: "m st = Inr (x, st') \<Longrightarrow> andthen m f st = f x st'"
  by (simp add: andthen_def)

lemma andthen_Inl: "m st = Inl e \<Longrightarrow> andthen m f st = Inl e"
  by (simp add: andthen_def)

lemma andthen_eq_Inr:
  "(andthen m f st = Inr r) = (\<exists>x st'. m st = Inr (x, st') \<and> f x st' = Inr r)"
  by (auto simp: andthen_def bind_res_eq_Inr)

lemma andthenE:
  assumes "andthen m f st = Inr r"
  obtains x st' where "m st = Inr (x, st')" "f x st' = Inr r"
  using assms by (auto simp: andthen_eq_Inr)

lemma lift_eq_Inr: "(lift r st = Inr (x, st')) = (r = Inr x \<and> st' = st)"
  by (cases r) auto

subsection \<open>The counter of reference ids and the stack\<close>

definition XMP_get_on_ref_id :: "int xmp" where
  "XMP_get_on_ref_id st =
     (if on_ref_id_count st = 18446744073709551615
      then Inl (Fatal ''cannot create a new nodes/template: too many'')
      else Inr (on_ref_id_count st, st\<lparr>on_ref_id_count := on_ref_id_count st + 1\<rparr>))"

definition XMP_push_nodes :: "nat \<Rightarrow> unit xmp" where
  "XMP_push_nodes p st = Inr ((), st\<lparr>nodes_stack := p # nodes_stack st\<rparr>)"

definition XMP_pop_nodes :: "unit xmp" where
  "XMP_pop_nodes st =
     (case nodes_stack st of [] \<Rightarrow> Inl NullDeref
      | p # ps \<Rightarrow> Inr ((), st\<lparr>nodes_stack := ps\<rparr>))"

definition XMP_get_execution_nodes :: "nat xmp" where
  "XMP_get_execution_nodes st =
     (case nodes_stack st of [] \<Rightarrow> Inl NullDeref | p # ps \<Rightarrow> Inr (p, st))"

definition XMP_get_execution_nodes_rank :: "int xmp" where
  "XMP_get_execution_nodes_rank =
     andthen XMP_get_execution_nodes (\<lambda>p. andthen (deref (Some p)) (\<lambda>n. ret (n_comm_rank n)))"

definition XMP_finalize_comm :: "comm \<Rightarrow> unit xmp" where
  "XMP_finalize_comm c st = Inr ((), st\<lparr>freed_comms := c # freed_comms st\<rparr>)"

definition free_nodes :: "nat \<Rightarrow> unit xmp" where
  "free_nodes p st = Inr ((), st\<lparr>nodes_heap := (nodes_heap st)(p := None)\<rparr>)"

definition XMP_finalize_nodes :: "nat \<Rightarrow> unit xmp" where
  "XMP_finalize_nodes p =
     andthen (deref (Some p)) (\<lambda>n.
     andthen (if \<not> n_use_subcomm n then XMP_finalize_comm (n_comm n) else ret ()) (\<lambda>_.
     free_nodes p))"

definition XMP_pop_n_free_nodes :: "unit xmp" where
  "XMP_pop_n_free_nodes =
     andthen XMP_get_execution_nodes (\<lambda>p.
     andthen XMP_pop_nodes (\<lambda>_.
     XMP_finalize_nodes p))"

definition XMP_pop_n_free_nodes_wo_finalize_comm :: "unit xmp" where
  "XMP_pop_n_free_nodes_wo_finalize_comm =
     andthen XMP_get_execution_nodes (\<lambda>p.
     andthen XMP_pop_nodes (\<lambda>_.
     free_nodes p))"

subsection \<open>Descriptors\<close>

text \<open>Not yet stored in the heap: its caller completes the descriptor first.\<close>

definition XMP_create_new_nodes :: "xmp_env \<Rightarrow> bool \<Rightarrow> nat \<Rightarrow> int \<Rightarrow> comm \<Rightarrow> nodes xmp" where
  "XMP_create_new_nodes env is_member dim comm_size comm =
     andthen XMP_get_on_ref_id (\<lambda>i.
       let n = (junk_nodes env)\<lparr>n_on_ref_id := i, n_is_member := is_member, n_dim := dim,
                 n_comm_size := comm_size, n_comm := comm, n_info := replicate dim (junk_info env)\<rparr>
       in if is_member then
            (if csize env comm \<noteq> comm_size
             then fail (Fatal ''cannot create a new nodes descriptor: communicator size is not correct'')
             else ret (n\<lparr>n_comm_rank := crank env comm\<rparr>))
          else ret (n\<lparr>n_comm_rank := XMP_N_INVALID_RANK\<rparr>))"

definition XMP_validate_nodes_ref :: "int \<Rightarrow> int \<Rightarrow> int \<Rightarrow> int \<Rightarrow> (int \<times> int \<times> int) res" where
  "XMP_validate_nodes_ref lower upper stride sz =
     (if stride = 0 then Inl (Fatal ''the stride of <nodes-ref> is 0'')
      else
        let (l, u) = (if stride > 0 then (lower, upper) else (upper, lower))
        in if 1 > l then Inl (Fatal ''<nodes-ref> is out of bounds, <ref-lower> is less than 1'')
           else if l > u
           then Inl (Fatal ''<nodes-ref> is out of bounds, <ref-upper> is less than <ref-lower>'')
           else if u > sz
           then Inl (Fatal ''<nodes-ref> is out of bounds, <ref-upper> is greater than the node size'')
           else if stride > 0 then Inr (lower - 1, u - (u - l) smod stride - 1, stride)
           else let s = - stride in Inr (l + (u - l) smod s - 1, u - 1, s))"

definition XMP_check_nodes_ref_inclusion :: "int \<Rightarrow> int \<Rightarrow> int \<Rightarrow> int \<Rightarrow> int \<Rightarrow> bool" where
  "XMP_check_nodes_ref_inclusion lower upper stride sz rank =
     (if rank < lower \<or> rank > upper \<or> (rank - lower) smod stride \<noteq> 0 then False else True)"

definition XMP_calc_inherit_info :: "nodes \<Rightarrow> inherit_info list" where
  "XMP_calc_inherit_info n =
     map (\<lambda>i. \<lparr>ii_shrink = False, ii_lower = 0, ii_upper = ni_size (n_info n ! i) - 1, ii_stride = 1,
               ii_size = ni_size (n_info n ! i)\<rparr>) [0..<n_dim n]"

definition XMP_calc_inherit_info_by_ref ::
    "xmp_env \<Rightarrow> nodes \<Rightarrow> bool list \<Rightarrow> int list \<Rightarrow> int list \<Rightarrow> int list \<Rightarrow> inherit_info list" where
  "XMP_calc_inherit_info_by_ref env n shrink lower upper stride =
     map (\<lambda>i. (if shrink ! i then (junk_inherit env)\<lparr>ii_shrink := True\<rparr>
               else (junk_inherit env)\<lparr>ii_shrink := False, ii_lower := lower ! i, ii_upper := upper ! i,
                                       ii_stride := stride ! i\<rparr>)\<lparr>ii_size := ni_size (n_info n ! i)\<rparr>) [0..<n_dim n]"

text \<open>The loop that splits the rank in the communicator into one rank per dimension.\<close>

fun set_ranks :: "int \<Rightarrow> int \<Rightarrow> nodes_info list \<Rightarrow> nodes_info list" where
  "set_ranks comm_rank acc_size [] = []"
| "set_ranks comm_rank acc_size (x # xs) =
     x\<lparr>ni_rank := (comm_rank sdiv acc_size) smod ni_size x\<rparr> # set_ranks comm_rank (acc_size * ni_size x) xs"

definition XMP_init_nodes_info :: "nodes \<Rightarrow> int list \<Rightarrow> bool \<Rightarrow> nodes res" where
  "XMP_init_nodes_info n dim_size is_static =
     (let dim = n_dim n;
          linear_size = n_comm_size n;
          acc_size = (\<Prod>i\<leftarrow>[0..<dim - 1]. dim_size ! i);
          sizes = map (\<lambda>i. dim_size ! i) [0..<dim - 1];
          finish = (\<lambda>last_size.
            let infos = map (\<lambda>(x, s). x\<lparr>ni_size := s\<rparr>) (zip (n_info n) (sizes @ [last_size]))
            in Inr (n\<lparr>n_info := if n_is_member n then set_ranks (n_comm_rank n) 1 infos else infos\<rparr>))
      in if is_static then
           (if acc_size * dim_size ! (dim - 1) \<noteq> linear_size then Inl (Fatal ''incorrect communicator size'')
            else finish (dim_size ! (dim - 1)))
         else if acc_size > linear_size
         then Inl (Fatal ''indicated communicator size is bigger than the actual communicator size'')
         else if linear_size smod acc_size \<noteq> 0
         then Inl (Fatal ''cannot determine communicator size dynamically'')
         else finish (linear_size sdiv acc_size))"

text \<open>\<open>multiplier\<close> of dimension \<open>i\<close>: 1, then the previous one times the previous size.\<close>

primrec multiplier :: "int list \<Rightarrow> nat \<Rightarrow> int" where
  "multiplier dim_size 0 = 1"
| "multiplier dim_size (Suc i) = multiplier dim_size i * dim_size ! i"

definition set_multipliers :: "nodes \<Rightarrow> int list \<Rightarrow> nodes" where
  "set_multipliers n dim_size =
     n\<lparr>n_info := map (\<lambda>(i, x). x\<lparr>ni_multiplier := multiplier dim_size i\<rparr>) (zip [0..<n_dim n] (n_info n))\<rparr>"

definition XMP_create_temporary_nodes :: "xmp_env \<Rightarrow> nat \<Rightarrow> nat xmp" where
  "XMP_create_temporary_nodes env p =
     andthen (deref (Some p)) (\<lambda>n.
     andthen (XMP_create_new_nodes env (n_is_member n) (n_dim n) (n_comm_size n) (n_comm n)) (\<lambda>m.
       let dim_size = map (\<lambda>i. ni_size (n_info n ! i)) [0..<n_dim n];
           inherit = map (\<lambda>i. (junk_inherit env)\<lparr>ii_shrink := False, ii_lower := 1,
                       ii_upper := ni_size (n_info n ! i), ii_stride := 1\<rparr>) [0..<n_dim n]
       in (\<lambda>st. andthen (lift (XMP_init_nodes_info
                        (m\<lparr>n_inherit_nodes := Some (next_ptr st), n_inherit_info := inherit\<rparr>) dim_size True))
                (\<lambda>m'. new_nodes (set_multipliers m' dim_size)) st)))"

subsection \<open>Sub-communicators\<close>

fun subcomm_color :: "int \<Rightarrow> int \<Rightarrow> (nodes_info \<times> bool) list \<Rightarrow> int" where
  "subcomm_color acc_nodes_size color [] = color"
| "subcomm_color acc_nodes_size color ((x, sh) # xs) =
     subcomm_color (acc_nodes_size * ni_size x) (if sh then color + acc_nodes_size * ni_rank x else color) xs"

definition get_subcomm_color :: "nodes \<Rightarrow> bool list \<Rightarrow> int" where
  "get_subcomm_color n shrink = subcomm_color 1 1 (zip (take (n_dim n) (n_info n)) shrink)"

definition shrink_bits :: "nat \<Rightarrow> nat \<Rightarrow> bool list" where
  "shrink_bits dim i = map (\<lambda>j. (i div 2 ^ j) mod 2 = 1) [0..<dim]"

definition create_subcomm :: "int \<Rightarrow> nodes \<Rightarrow> comm list res" where
  "create_subcomm rank n =
     (if n_attr n \<noteq> ENTIRE_NODES
      then Inl (Fatal ''Sub communicators are made from only XMP entire node set.'')
      else
        let num_comms = 2 ^ n_dim n
        in Inr ((map (\<lambda>i. if 1 \<le> i \<and> i < num_comms - 1
                          then Split (n_comm n) (get_subcomm_color n (shrink_bits (n_dim n) i)) rank
                          else Dup (n_comm n)) [0..<num_comms]) [num_comms - 1 := Dup Self]))"

definition check_subcomm :: "nodes \<Rightarrow> int list \<Rightarrow> int list \<Rightarrow> int list \<Rightarrow> bool list \<Rightarrow> bool" where
  "check_subcomm n lower upper stride shrink =
     (n_attr n = ENTIRE_NODES \<and>
      (\<forall>i \<in> set [0..<n_dim n]. shrink ! i \<or>
        (let len = (upper ! i - lower ! i + 1) sdiv (stride ! i)
         in len = 1 \<or> len = ni_size (n_info n ! i))))"

definition get_subcomm :: "nodes \<Rightarrow> int list \<Rightarrow> int list \<Rightarrow> int list \<Rightarrow> bool list \<Rightarrow> comm res" where
  "get_subcomm n lower upper stride shrink =
     (let acc = (\<Sum>i\<leftarrow>[0..<n_dim n].
                  if shrink ! i then 2 ^ i
                  else if (upper ! i - lower ! i + 1) sdiv (stride ! i) = 1 then 2 ^ i else 0)
      in fetch (n_subcomm n) acc)"

subsection \<open>Making node sets\<close>

text \<open>The dimensions of a node set whose sizes come from \<open>XMP_NODE_SIZE<i>\<close>.\<close>

fun env_dim_sizes :: "xmp_env \<Rightarrow> int \<Rightarrow> nat \<Rightarrow> nat \<Rightarrow> int list \<Rightarrow> (int list \<times> bool) res" where
  "env_dim_sizes env wsize dim i [] = Inr ([], True)"
| "env_dim_sizes env wsize dim i (d # ds) =
     (if d = - 1 then
        (case node_size_env env i of
           None \<Rightarrow> if i = dim - 1 then Inr (d # ds, False)
                   else Inl (Fatal ''XMP_NODE_SIZE not specified although '*' is in the dimension of a node array'')
         | Some v \<Rightarrow> if v \<le> 0 \<or> v > wsize then Inl (Fatal ''Wrong value in XMP_NODE_SIZE'')
                     else bind_res (env_dim_sizes env wsize dim (i + 1) ds) (\<lambda>(r, b). Inr (v # r, b)))
      else bind_res (env_dim_sizes env wsize dim (i + 1) ds) (\<lambda>(r, b). Inr (d # r, b)))"

definition XMP_init_nodes_struct_GLOBAL :: "xmp_env \<Rightarrow> nat \<Rightarrow> int list \<Rightarrow> bool \<Rightarrow> nat xmp" where
  "XMP_init_nodes_struct_GLOBAL env dim dim_size is_static st =
     andthen (XMP_create_new_nodes env True dim (world_size st) (Dup World)) (\<lambda>n.
     andthen (lift (if \<not> is_static then env_dim_sizes env (world_size st) dim 0 dim_size
                    else Inr (dim_size, True))) (\<lambda>(sizes, static).
     andthen (lift (XMP_init_nodes_info
        (n\<lparr>n_inherit_nodes := None, n_inherit_info := [], n_attr := ENTIRE_NODES\<rparr>) sizes static)) (\<lambda>n.
       let n' = set_multipliers n sizes
       in andthen (lift (create_subcomm (world_rank st) n')) (\<lambda>sc.
          new_nodes (n'\<lparr>n_subcomm := sc\<rparr>))))) st"

definition XMP_init_nodes_struct_EXEC :: "xmp_env \<Rightarrow> nat \<Rightarrow> int list \<Rightarrow> bool \<Rightarrow> nat xmp" where
  "XMP_init_nodes_struct_EXEC env dim dim_size is_static =
     andthen XMP_get_execution_nodes (\<lambda>p.
     andthen (deref (Some p)) (\<lambda>exec.
     andthen (XMP_create_new_nodes env True dim (n_comm_size exec) (Dup (n_comm exec))) (\<lambda>n.
     andthen (lift (XMP_init_nodes_info
        (n\<lparr>n_inherit_nodes := Some p, n_inherit_info := XMP_calc_inherit_info exec,
           n_attr := EXECUTING_NODES\<rparr>) dim_size is_static)) (\<lambda>n.
     new_nodes (set_multipliers n dim_size)))))"

definition XMP_init_nodes_struct_NODES_NUMBER ::
    "xmp_env \<Rightarrow> nat \<Rightarrow> int \<Rightarrow> int \<Rightarrow> int \<Rightarrow> int list \<Rightarrow> bool \<Rightarrow> nat xmp" where
  "XMP_init_nodes_struct_NODES_NUMBER env dim ref_lower ref_upper ref_stride dim_size is_static st =
     andthen (lift (XMP_validate_nodes_ref ref_lower ref_upper ref_stride (world_size st))) (\<lambda>(l, u, s).
       let is_member = XMP_check_nodes_ref_inclusion l u s (world_size st) (world_rank st)
       in andthen XMP_get_execution_nodes (\<lambda>p.
          andthen (deref (Some p)) (\<lambda>exec.
          andthen (XMP_create_new_nodes env is_member dim (XMP_M_COUNT_TRIPLETi l u s)
                     (Split (n_comm exec) (if is_member then 1 else 0) (world_rank st))) (\<lambda>n.
          andthen (deref (world_nodes st)) (\<lambda>w.
          andthen (lift (XMP_init_nodes_info
             (n\<lparr>n_inherit_nodes := world_nodes st,
                n_inherit_info := XMP_calc_inherit_info_by_ref env w [False] [l] [u] [s],
                n_attr := ENTIRE_NODES\<rparr>) dim_size is_static)) (\<lambda>n.
            let n' = set_multipliers n dim_size
            in andthen (lift (create_subcomm (world_rank st) n')) (\<lambda>sc.
               new_nodes (n'\<lparr>n_subcomm := sc\<rparr>)))))))) st"

text \<open>
  The loop of \<open>NODES_NAMED\<close> over the dimensions of the referenced node set: it validates the
  reference in place, and computes the colour and whether the process is a member.
\<close>

fun named_loop :: "int \<Rightarrow> int \<Rightarrow> bool \<Rightarrow> (nodes_info \<times> bool \<times> int \<times> int \<times> int) list \<Rightarrow>
    (int \<times> bool \<times> (int \<times> int \<times> int) list) res" where
  "named_loop acc_nodes_size color is_member [] = Inr (color, is_member, [])"
| "named_loop acc_nodes_size color is_member ((x, sh, l, u, s) # xs) =
     (if sh then
        bind_res (named_loop (acc_nodes_size * ni_size x) (color + acc_nodes_size * ni_rank x) is_member xs)
          (\<lambda>(c, m, refs). Inr (c, m, (l, u, s) # refs))
      else
        bind_res (XMP_validate_nodes_ref l u s (ni_size x)) (\<lambda>(l', u', s').
        bind_res (named_loop (acc_nodes_size * ni_size x) color
            (is_member \<and> XMP_check_nodes_ref_inclusion l' u' s' (ni_size x) (ni_rank x)) xs)
          (\<lambda>(c, m, refs). Inr (c, m, (l', u', s') # refs))))"

definition named_comm_size :: "bool list \<Rightarrow> (int \<times> int \<times> int) list \<Rightarrow> int" where
  "named_comm_size shrink refs =
     (\<Prod>(sh, l, u, s)\<leftarrow>zip shrink refs. if sh then 1 else XMP_M_COUNT_TRIPLETi l u s)"

text \<open>The result has the new descriptor and the reference as the call leaves it.\<close>

definition XMP_init_nodes_struct_NODES_NAMED ::
    "xmp_env \<Rightarrow> nat \<Rightarrow> nat \<Rightarrow> bool list \<Rightarrow> (int \<times> int \<times> int) list \<Rightarrow> int list \<Rightarrow> bool \<Rightarrow>
     (nat \<times> (int \<times> int \<times> int) list) xmp" where
  "XMP_init_nodes_struct_NODES_NAMED env dim ref_p shrink refs dim_size is_static st =
     andthen (deref (Some ref_p)) (\<lambda>ref_nodes.
     andthen (lift (if n_is_member ref_nodes
                    then bind_res (named_loop 1 1 True (zip (take (n_dim ref_nodes) (n_info ref_nodes)) (zip shrink refs)))
                           (\<lambda>(c, m, refs'). Inr (if m then c else 0, m, refs'))
                    else Inr (0, False, refs))) (\<lambda>(color, is_member, refs').
       let comm_size = named_comm_size shrink refs';
           ls = map fst refs'; us = map (fst \<circ> snd) refs'; ss = map (snd \<circ> snd) refs';
           use_subcomm = check_subcomm ref_nodes ls us ss shrink
       in andthen (lift (if use_subcomm then get_subcomm ref_nodes ls us ss shrink
                         else if comm_size = 1 then Inr (Dup Self)
                         else Inr (Split (n_comm ref_nodes) color (world_rank st)))) (\<lambda>comm.
          andthen (XMP_create_new_nodes env is_member dim comm_size comm) (\<lambda>n.
          andthen (lift (XMP_init_nodes_info
             (n\<lparr>n_inherit_nodes := Some ref_p,
                n_inherit_info := XMP_calc_inherit_info_by_ref env ref_nodes shrink ls us ss,
                n_attr := EQUIVALENCE_NODES, n_use_subcomm := use_subcomm\<rparr>) dim_size is_static)) (\<lambda>n.
          andthen (new_nodes (set_multipliers n dim_size)) (\<lambda>p.
          ret (p, refs'))))))) st"

subsection \<open>Entry points of the compiler\<close>

text \<open>
  The entry points take the sizes and the addresses of the rank variables as variable arguments. The
  sizes are a list; of the addresses only their number \<open>given\<close> matters: an argument that is
  read but was not passed is an error.
\<close>

definition check_sizes :: "string \<Rightarrow> int list \<Rightarrow> unit res" where
  "check_sizes msg sizes = (if \<exists>d \<in> set sizes. d \<le> 0 then Inl (Fatal msg) else Inr ())"

definition store_ranks :: "nat \<Rightarrow> nodes \<Rightarrow> int list res" where
  "store_ranks given n =
     (if given < n_dim n then Inl VaArgMissing else Inr (map (\<lambda>i. ni_rank (n_info n ! i)) [0..<n_dim n]))"

definition XMP_init_nodes_STATIC_GLOBAL :: "xmp_env \<Rightarrow> int list \<Rightarrow> nat \<Rightarrow> (nat \<times> int list) xmp" where
  "XMP_init_nodes_STATIC_GLOBAL env sizes given =
     andthen (lift (check_sizes ''<nodes-size> should be more than zero'' sizes)) (\<lambda>_.
     andthen (XMP_init_nodes_struct_GLOBAL env (length sizes) sizes True) (\<lambda>p.
     andthen (deref (Some p)) (\<lambda>n.
     andthen (lift (store_ranks given n)) (\<lambda>rs. ret (p, rs)))))"

definition XMP_init_nodes_DYNAMIC_GLOBAL ::
    "xmp_env \<Rightarrow> int list \<Rightarrow> nat \<Rightarrow> (nat \<times> (nat \<times> int) list \<times> int list) xmp" where
  "XMP_init_nodes_DYNAMIC_GLOBAL env sizes given =
     andthen (lift (check_sizes ''<nodes-size> should be more than zero'' (filter (\<lambda>d. d \<noteq> - 1) sizes))) (\<lambda>_.
     andthen (XMP_init_nodes_struct_GLOBAL env (length sizes) sizes False) (\<lambda>p.
     andthen (deref (Some p)) (\<lambda>n.
     andthen (lift (store_ranks given n)) (\<lambda>rs.
     ret (p, map (\<lambda>i. (i, ni_size (n_info n ! i))) (filter (\<lambda>i. sizes ! i = - 1) [0..<length sizes]), rs)))))"

definition XMP_init_nodes_STATIC_EXEC :: "xmp_env \<Rightarrow> int list \<Rightarrow> nat \<Rightarrow> (nat \<times> int list) xmp" where
  "XMP_init_nodes_STATIC_EXEC env sizes given =
     andthen (lift (check_sizes ''<nodes-size> should be less or equal to zero'' sizes)) (\<lambda>_.
     andthen (XMP_init_nodes_struct_EXEC env (length sizes) sizes True) (\<lambda>p.
     andthen (deref (Some p)) (\<lambda>n.
     andthen (lift (store_ranks given n)) (\<lambda>rs. ret (p, rs)))))"

definition XMP_init_nodes_DYNAMIC_EXEC :: "xmp_env \<Rightarrow> int list \<Rightarrow> nat \<Rightarrow> (nat \<times> int \<times> int list) xmp" where
  "XMP_init_nodes_DYNAMIC_EXEC env sizes given =
     andthen (lift (check_sizes ''<nodes-size> should be less or equal to zero'' sizes)) (\<lambda>_.
     andthen (XMP_init_nodes_struct_EXEC env (length sizes + 1) sizes False) (\<lambda>p.
     andthen (deref (Some p)) (\<lambda>n.
     andthen (lift (store_ranks given n)) (\<lambda>rs. ret (p, ni_size (n_info n ! length sizes), rs)))))"

definition XMP_init_nodes_STATIC_NODES_NUMBER ::
    "xmp_env \<Rightarrow> int \<Rightarrow> int \<Rightarrow> int \<Rightarrow> int list \<Rightarrow> nat \<Rightarrow> (nat \<times> int list) xmp" where
  "XMP_init_nodes_STATIC_NODES_NUMBER env ref_lower ref_upper ref_stride sizes given =
     andthen (lift (check_sizes ''<nodes-size> should be less or equal to zero'' sizes)) (\<lambda>_.
     andthen (XMP_init_nodes_struct_NODES_NUMBER env (length sizes) ref_lower ref_upper ref_stride sizes True) (\<lambda>p.
     andthen (deref (Some p)) (\<lambda>n.
     andthen (lift (store_ranks given n)) (\<lambda>rs. ret (p, rs)))))"

definition XMP_init_nodes_DYNAMIC_NODES_NUMBER ::
    "xmp_env \<Rightarrow> int \<Rightarrow> int \<Rightarrow> int \<Rightarrow> int list \<Rightarrow> nat \<Rightarrow> (nat \<times> int \<times> int list) xmp" where
  "XMP_init_nodes_DYNAMIC_NODES_NUMBER env ref_lower ref_upper ref_stride sizes given =
     andthen (lift (check_sizes ''<nodes-size> should be less or equal to zero'' sizes)) (\<lambda>_.
     andthen (XMP_init_nodes_struct_NODES_NUMBER env (length sizes + 1) ref_lower ref_upper ref_stride sizes False) (\<lambda>p.
     andthen (deref (Some p)) (\<lambda>n.
     andthen (lift (store_ranks given n)) (\<lambda>rs. ret (p, ni_size (n_info n ! length sizes), rs)))))"

definition XMP_init_nodes_STATIC_NODES_NAMED ::
    "xmp_env \<Rightarrow> nat \<Rightarrow> bool list \<Rightarrow> (int \<times> int \<times> int) list \<Rightarrow> int list \<Rightarrow> nat \<Rightarrow> (nat \<times> int list) xmp" where
  "XMP_init_nodes_STATIC_NODES_NAMED env ref_p shrink refs sizes given =
     andthen (lift (check_sizes ''<nodes-size> should be less or equal to zero'' sizes)) (\<lambda>_.
     andthen (XMP_init_nodes_struct_NODES_NAMED env (length sizes) ref_p shrink refs sizes True) (\<lambda>(p, refs').
     andthen (deref (Some p)) (\<lambda>n.
     andthen (lift (store_ranks given n)) (\<lambda>rs. ret (p, rs)))))"

definition XMP_init_nodes_DYNAMIC_NODES_NAMED ::
    "xmp_env \<Rightarrow> nat \<Rightarrow> bool list \<Rightarrow> (int \<times> int \<times> int) list \<Rightarrow> int list \<Rightarrow> nat \<Rightarrow> (nat \<times> int \<times> int list) xmp" where
  "XMP_init_nodes_DYNAMIC_NODES_NAMED env ref_p shrink refs sizes given =
     andthen (lift (check_sizes ''<nodes-size> should be less or equal to zero'' sizes)) (\<lambda>_.
     andthen (XMP_init_nodes_struct_NODES_NAMED env (length sizes + 1) ref_p shrink refs sizes False) (\<lambda>(p, refs').
     andthen (deref (Some p)) (\<lambda>n.
     andthen (lift (store_ranks given n)) (\<lambda>rs. ret (p, ni_size (n_info n ! length sizes), rs)))))"

definition XMP_create_nodes_by_comm :: "xmp_env \<Rightarrow> bool \<Rightarrow> comm \<Rightarrow> nodes xmp" where
  "XMP_create_nodes_by_comm env is_member c =
     andthen (XMP_create_new_nodes env is_member 1 (csize env c) c) (\<lambda>n.
       let x = (hd (n_info n))\<lparr>ni_size := csize env c, ni_multiplier := 1\<rparr>;
           x' = (if is_member then x\<lparr>ni_rank := crank env c\<rparr> else x)
       in ret (n\<lparr>n_info := [x'], n_inherit_nodes := None, n_inherit_info := []\<rparr>))"

definition XMP_push_comm :: "xmp_env \<Rightarrow> comm \<Rightarrow> unit xmp" where
  "XMP_push_comm env c =
     andthen (XMP_create_nodes_by_comm env True c) (\<lambda>n.
     andthen (new_nodes n) (\<lambda>p. XMP_push_nodes p))"

definition XMP_init_world :: "xmp_env \<Rightarrow> unit xmp" where
  "XMP_init_world env =
     andthen (XMP_create_nodes_by_comm env True (Dup World)) (\<lambda>n.
     andthen (new_nodes (n\<lparr>n_attr := ENTIRE_NODES\<rparr>)) (\<lambda>p st.
     XMP_push_nodes p (st\<lparr>world_size := n_comm_size n, world_rank := n_comm_rank n, world_nodes := Some p\<rparr>)))"

definition XMP_split_world_by_color :: "xmp_env \<Rightarrow> int \<Rightarrow> int xmp" where
  "XMP_split_world_by_color env color st =
     (let c = Split World color (world_rank st)
      in Inr (crank env c, st\<lparr>freed_comms := c # freed_comms st\<rparr>))"

subsection \<open>Tasks\<close>

definition XMP_set_task_desc :: "task_desc \<Rightarrow> nat \<Rightarrow> bool \<Rightarrow> nodes \<Rightarrow> (int \<times> int \<times> int) list \<Rightarrow> task_desc" where
  "XMP_set_task_desc desc p execute ref_nodes refs =
     (let d = n_dim ref_nodes; over = (\<lambda>f old. take d (map f refs) @ drop d old)
      in desc\<lparr>td_nodes := Some p, td_execute := execute, td_on_ref_id := n_on_ref_id ref_nodes,
              td_ref_lower := over fst (td_ref_lower desc),
              td_ref_upper := over (fst \<circ> snd) (td_ref_upper desc),
              td_ref_stride := over (snd \<circ> snd) (td_ref_stride desc)\<rparr>)"

definition XMP_compare_task_exec_cond :: "task_desc \<Rightarrow> nodes \<Rightarrow> (int \<times> int \<times> int) list \<Rightarrow> bool" where
  "XMP_compare_task_exec_cond desc ref_nodes refs =
     (n_on_ref_id ref_nodes = td_on_ref_id desc \<and>
      (\<forall>i \<in> set [0..<n_dim ref_nodes].
        case refs ! i of (l, u, s) \<Rightarrow>
          td_ref_stride desc ! i = - 1 \<and> s = - 1 \<or>
          td_ref_lower desc ! i = l - 1 \<and> td_ref_upper desc ! i = u - 1 \<and> td_ref_stride desc ! i = s))"

text \<open>
  The part the task functions share: reuse the node set of the descriptor when the reference is the
  same, release it and make a new one otherwise. The result says whether the process executes the task.
\<close>

definition exec_task_with ::
    "xmp_env \<Rightarrow> task_desc option \<Rightarrow> (task_desc \<Rightarrow> bool) \<Rightarrow>
     (task_desc \<Rightarrow> nat \<Rightarrow> bool \<Rightarrow> (int \<times> int \<times> int) list \<Rightarrow> task_desc) \<Rightarrow>
     (nat \<times> (int \<times> int \<times> int) list) xmp \<Rightarrow> (bool \<times> task_desc) xmp" where
  "exec_task_with env task same set_desc init =
     (let create = (\<lambda>desc.
            andthen init (\<lambda>(p, refs').
            andthen (deref (Some p)) (\<lambda>n.
              let desc' = set_desc desc p (n_is_member n) refs'
              in if n_is_member n then andthen (XMP_push_nodes p) (\<lambda>_. ret (True, desc'))
                 else ret (False, desc'))))
      in case task of
           None \<Rightarrow> create (junk_task env)
         | Some desc \<Rightarrow>
             if same desc then
               (if td_execute desc
                then (case td_nodes desc of None \<Rightarrow> fail NullDeref
                      | Some p \<Rightarrow> andthen (XMP_push_nodes p) (\<lambda>_. ret (True, desc)))
                else ret (False, desc))
             else (case td_nodes desc of None \<Rightarrow> create desc
                   | Some p \<Rightarrow> andthen (XMP_finalize_nodes p) (\<lambda>_. create desc)))"

definition XMP_exec_task_GLOBAL_PART ::
    "xmp_env \<Rightarrow> task_desc option \<Rightarrow> int \<Rightarrow> int \<Rightarrow> int \<Rightarrow> (bool \<times> task_desc) xmp" where
  "XMP_exec_task_GLOBAL_PART env task ref_lower ref_upper ref_stride st =
     andthen (deref (world_nodes st)) (\<lambda>w.
     exec_task_with env task (\<lambda>d. XMP_compare_task_exec_cond d w [(ref_lower, ref_upper, ref_stride)])
       (\<lambda>d p e refs. XMP_set_task_desc d p e w refs)
       (andthen (XMP_init_nodes_STATIC_NODES_NUMBER env ref_lower ref_upper ref_stride
                  [XMP_M_COUNT_TRIPLETi ref_lower ref_upper ref_stride] 0)
          (\<lambda>(p, rs). ret (p, [(ref_lower, ref_upper, ref_stride)])))) st"

definition XMP_exec_task_NODES_ENTIRE :: "nat \<Rightarrow> bool xmp" where
  "XMP_exec_task_NODES_ENTIRE ref_p =
     andthen (deref (Some ref_p)) (\<lambda>n.
       if n_is_member n then andthen (XMP_push_nodes ref_p) (\<lambda>_. ret True) else ret False)"

definition XMP_exec_task_NODES_ENTIRE_nocomm :: "nat \<Rightarrow> bool xmp" where
  "XMP_exec_task_NODES_ENTIRE_nocomm ref_p = andthen (deref (Some ref_p)) (\<lambda>n. ret (n_is_member n))"

definition XMP_exec_task_NODES_PART ::
    "xmp_env \<Rightarrow> task_desc option \<Rightarrow> nat \<Rightarrow> (bool \<times> int \<times> int \<times> int) list \<Rightarrow> (bool \<times> task_desc) xmp" where
  "XMP_exec_task_NODES_PART env task ref_p args =
     andthen (deref (Some ref_p)) (\<lambda>ref_nodes.
       let refs = map (\<lambda>(sh, l, u, s). if sh then (0, 0, - 1) else (l, u, s)) args;
           acc_dim_size = (\<Prod>(sh, l, u, s)\<leftarrow>args. if sh then 1 else XMP_M_COUNT_TRIPLETi l u s)
       in exec_task_with env task (\<lambda>d. XMP_compare_task_exec_cond d ref_nodes refs)
            (\<lambda>d p e refs'. XMP_set_task_desc d p e ref_nodes refs')
            (XMP_init_nodes_struct_NODES_NAMED env 1 ref_p (map fst args) refs [acc_dim_size] True))"

definition XMP_exec_task_NODES_PART_nocomm :: "nat \<Rightarrow> (bool \<times> int \<times> int \<times> int) list \<Rightarrow> bool xmp" where
  "XMP_exec_task_NODES_PART_nocomm ref_p args =
     andthen (deref (Some ref_p)) (\<lambda>n.
       ret (n_is_member n \<and>
         (\<forall>(x, sh, l, u, s) \<in> set (zip (n_info n) args).
            sh \<or> (let me = ni_rank x + 1 in \<not> (me < l \<or> u < me) \<and> (me - l) smod s = 0))))"

subsection \<open>Ranks and coordinates\<close>

fun rank_array_loop :: "nodes_info list \<Rightarrow> int \<Rightarrow> int list" where
  "rank_array_loop [] j = []"
| "rank_array_loop (x # xs) j = j sdiv ni_multiplier x # rank_array_loop xs (j smod ni_multiplier x)"

definition XMP_calc_rank_array :: "nodes \<Rightarrow> int \<Rightarrow> int list" where
  "XMP_calc_rank_array n linear_rank = rev (rank_array_loop (rev (take (n_dim n) (n_info n))) linear_rank)"

fun linear_rank_loop :: "int \<Rightarrow> int \<Rightarrow> (nodes_info \<times> int) list \<Rightarrow> int" where
  "linear_rank_loop acc_rank acc_nodes_size [] = acc_rank"
| "linear_rank_loop acc_rank acc_nodes_size ((x, r) # xs) =
     linear_rank_loop (acc_rank + r * acc_nodes_size) (acc_nodes_size * ni_size x) xs"

definition XMP_calc_linear_rank :: "nodes \<Rightarrow> int list \<Rightarrow> int" where
  "XMP_calc_linear_rank n rank_array = linear_rank_loop 0 1 (zip (take (n_dim n) (n_info n)) rank_array)"

definition XMP_compare_nodes :: "xmp_state \<Rightarrow> nodes \<Rightarrow> nodes \<Rightarrow> bool res" where
  "XMP_compare_nodes st a b =
     (if n_on_ref_id a = n_on_ref_id b then Inr True
      else if n_comm_size a = world_size st \<and> n_comm_size a = n_comm_size b then Inr True
      else if n_dim a \<noteq> n_dim b then Inr False
      else if \<exists>i \<in> set [0..<n_dim a]. ni_size (n_info a ! i) \<noteq> ni_size (n_info b ! i) then Inr False
      else if n_inherit_nodes a \<noteq> n_inherit_nodes b then Inr False
      else case n_inherit_nodes a of
             None \<Rightarrow> Inr True
           | Some p \<Rightarrow> bind_res (deref (Some p) st) (\<lambda>(q, _).
               Inr (\<forall>i \<in> set [0..<n_dim q].
                 let x = n_inherit_info a ! i; y = n_inherit_info b ! i
                 in ii_shrink x = ii_shrink y \<and>
                    (ii_shrink x \<or> ii_lower x = ii_lower y \<and> ii_upper x = ii_upper y \<and> ii_stride x = ii_stride y))))"

text \<open>The coordinates in the inherited node set; \<open>w\<close> is what a shrunk dimension gets.\<close>

fun inherit_ranks :: "int \<Rightarrow> inherit_info list \<Rightarrow> int list \<Rightarrow> int list" where
  "inherit_ranks w [] rs = []"
| "inherit_ranks w (x # xs) rs =
     (if ii_shrink x then w # inherit_ranks w xs rs
      else (ii_stride x * hd rs + ii_lower x) # inherit_ranks w xs (tl rs))"

text \<open>\<open>None\<close> when the recursion over the inherited node sets does not end.\<close>

partial_function (option) XMP_calc_linear_rank_on_target_nodes ::
    "xmp_state \<Rightarrow> nodes \<Rightarrow> int list \<Rightarrow> nodes \<Rightarrow> int res option" where
  "XMP_calc_linear_rank_on_target_nodes st n rank_array target =
     (case XMP_compare_nodes st n target of
        Inl e \<Rightarrow> Some (Inl e)
      | Inr b \<Rightarrow>
          if b then Some (Inr (XMP_calc_linear_rank n rank_array))
          else (case n_inherit_nodes n of
                  None \<Rightarrow> Some (Inl (Fatal ''unsupported case: gmove''))
                | Some p \<Rightarrow>
                    (case deref (Some p) st of
                       Inl e \<Rightarrow> Some (Inl e)
                     | Inr r \<Rightarrow> XMP_calc_linear_rank_on_target_nodes st (fst r)
                         (inherit_ranks 0 (take (n_dim (fst r)) (n_inherit_info n)) rank_array) target)))"

definition XMP_init_nodes_ref :: "nat \<Rightarrow> nodes \<Rightarrow> int list \<Rightarrow> nodes_ref" where
  "XMP_init_nodes_ref p n rank_array =
     \<lparr>nr_nodes = p, nr_ref = take (n_dim n) rank_array,
      nr_shrink_nodes_size = (\<Prod>(x, r)\<leftarrow>zip (take (n_dim n) (n_info n)) rank_array.
        if r = XMP_N_UNSPECIFIED_RANK then ni_size x else 1)\<rparr>"

partial_function (option) XMP_create_nodes_ref_for_target_nodes ::
    "xmp_state \<Rightarrow> nat \<Rightarrow> int list \<Rightarrow> nodes \<Rightarrow> nodes_ref res option" where
  "XMP_create_nodes_ref_for_target_nodes st p rank_array target =
     (case deref (Some p) st of
        Inl e \<Rightarrow> Some (Inl e)
      | Inr m \<Rightarrow>
         (case XMP_compare_nodes st (fst m) target of
            Inl e \<Rightarrow> Some (Inl e)
          | Inr b \<Rightarrow>
              if b then Some (Inr (XMP_init_nodes_ref p (fst m) rank_array))
              else (case n_inherit_nodes (fst m) of
                      None \<Rightarrow> Some (Inl (Fatal ''unsupported case: gmove''))
                    | Some q \<Rightarrow>
                        (case deref (Some q) st of
                           Inl e \<Rightarrow> Some (Inl e)
                         | Inr r \<Rightarrow> XMP_create_nodes_ref_for_target_nodes st q
                             (inherit_ranks XMP_N_UNSPECIFIED_RANK (take (n_dim (fst r)) (n_inherit_info (fst m))) rank_array)
                             target))))"

text \<open>The rank in a node set of a coordinate of the node set it inherits from.\<close>

fun target_rank_loop :: "int \<Rightarrow> int \<Rightarrow> (inherit_info \<times> int) list \<Rightarrow> int" where
  "target_rank_loop rank mult [] = rank"
| "target_rank_loop rank mult ((x, c) # xs) =
     (if ii_shrink x then target_rank_loop rank mult xs
      else target_rank_loop (rank + mult * ((c - ii_lower x) sdiv ii_stride x)) (mult * ii_size x) xs)"

partial_function (option) XMP_calc_coord_on_target_nodes2 ::
    "xmp_state \<Rightarrow> nat \<Rightarrow> int list \<Rightarrow> nat \<Rightarrow> int list option res option" where
  "XMP_calc_coord_on_target_nodes2 st np ncoord tp =
     (case (nodes_heap st np, nodes_heap st tp) of
        (Some n, Some t) \<Rightarrow>
          if np = tp then Some (Inr (Some (take (n_dim n) ncoord)))
          else if n_attr n = ENTIRE_NODES \<and> n_attr t = ENTIRE_NODES
          then Some (Inr (Some (XMP_calc_rank_array t (XMP_calc_linear_rank n ncoord))))
          else (case n_inherit_nodes t of
                  None \<Rightarrow> Some (Inr None)
                | Some q \<Rightarrow>
                    Option.bind (XMP_calc_coord_on_target_nodes2 st np ncoord q) (\<lambda>r.
                      case r of
                        Inr (Some pcoord) \<Rightarrow>
                          (case nodes_heap st q of
                             None \<Rightarrow> Some (Inl NullDeref)
                           | Some tq \<Rightarrow> Some (Inr (Some (XMP_calc_rank_array t
                               (target_rank_loop 0 1 (zip (take (n_dim tq) (n_inherit_info t)) pcoord))))))
                      | _ \<Rightarrow> Some r))
      | _ \<Rightarrow> Some (Inl NullDeref))"

text \<open>
  The loop of \<open>_XMP_calc_coord_on_target_nodes\<close> runs down from \<open>i = dim\<close>; \<open>inherit_info\<close> and
  the multipliers have entries below \<open>dim\<close> only.
\<close>

fun coord_down :: "inherit_info list \<Rightarrow> nodes_info list \<Rightarrow> int list \<Rightarrow> nat \<Rightarrow> int \<Rightarrow> int list \<Rightarrow> int list res" where
  "coord_down inherit infos mults 0 j pcoord = Inr pcoord"
| "coord_down inherit infos mults (Suc i) j pcoord =
     bind_res (fetch inherit (int i)) (\<lambda>x.
       if ii_shrink x
       then bind_res (fetch infos (int i)) (\<lambda>y. coord_down inherit infos mults i j (ni_rank y # pcoord))
       else bind_res (fetch mults (int i)) (\<lambda>m.
              coord_down inherit infos mults i (j smod m) ((ii_stride x * (j sdiv m) + ii_lower x) # pcoord)))"

primrec coord_multiplier :: "inherit_info list \<Rightarrow> nat \<Rightarrow> int" where
  "coord_multiplier inherit 0 = 1"
| "coord_multiplier inherit (Suc i) = coord_multiplier inherit i * ii_size (inherit ! Suc i)"

partial_function (option) XMP_calc_coord_on_target_nodes ::
    "xmp_state \<Rightarrow> nat \<Rightarrow> int list \<Rightarrow> nat \<Rightarrow> int list option res option" where
  "XMP_calc_coord_on_target_nodes st np ncoord tp =
     Option.bind (XMP_calc_coord_on_target_nodes2 st np ncoord tp) (\<lambda>r.
       case r of
         Inr None \<Rightarrow>
           (case nodes_heap st np of
              None \<Rightarrow> Some (Inl NullDeref)
            | Some n \<Rightarrow>
               (case n_inherit_nodes n of
                  None \<Rightarrow> Some (Inr None)
                | Some q \<Rightarrow>
                   (case nodes_heap st q of
                      None \<Rightarrow> Some (Inl NullDeref)
                    | Some p \<Rightarrow>
                       (case coord_down (n_inherit_info n) (n_info p)
                               (map (coord_multiplier (n_inherit_info n)) [0..<n_dim p])
                               (Suc (n_dim p)) (XMP_calc_linear_rank n ncoord) [] of
                          Inl e \<Rightarrow> Some (Inl e)
                        | Inr pcoord \<Rightarrow> XMP_calc_coord_on_target_nodes st q pcoord tp))))
       | _ \<Rightarrow> Some r)"

text \<open>
  \<open>ranks\<close> is the output array and \<open>off\<close> the place in it the call writes to; the rank array is
  changed in place. Every recursive call replaces an unspecified rank, so a depth of more than the
  number of dimensions is enough.
\<close>

fun translate_ranks :: "nat \<Rightarrow> nodes \<Rightarrow> int list \<Rightarrow> int \<Rightarrow> int list \<Rightarrow> int \<Rightarrow> (int list \<times> int list) res" where
  "translate_ranks 0 n ranks off rank_array sz = Inl NoReturn"
| "translate_ranks (Suc fuel) n ranks off rank_array sz =
     bind_res
       (fold_res (\<lambda>(flag, ranks, ra) i.
          if ra ! i = XMP_N_UNSPECIFIED_RANK then
            let nodes_size = ni_size (n_info n ! i); new_sz = sz sdiv nodes_size
            in bind_res
                 (fold_res (\<lambda>(ranks, ra) j. translate_ranks fuel n ranks (off + int j * new_sz) (ra[i := int j]) new_sz)
                    (ranks, ra) [0..<nat nodes_size])
                 (\<lambda>(ranks, ra). Inr (False, ranks, ra))
          else Inr (flag, ranks, ra)) (True, ranks, rank_array) [0..<n_dim n])
       (\<lambda>(flag, ranks, ra).
          if flag then bind_res (put ranks off (XMP_calc_linear_rank n ra)) (\<lambda>ranks. Inr (ranks, ra))
          else Inr (ranks, ra))"

definition XMP_translate_nodes_rank_array_to_ranks ::
    "nodes \<Rightarrow> int list \<Rightarrow> int list \<Rightarrow> int \<Rightarrow> (int list \<times> int list) res" where
  "XMP_translate_nodes_rank_array_to_ranks n ranks rank_array shrink_nodes_size =
     translate_ranks (Suc (n_dim n)) n ranks 0 rank_array shrink_nodes_size"

fun next_rank :: "(nodes_info \<times> int) list \<Rightarrow> int list \<times> bool" where
  "next_rank [] = ([], False)"
| "next_rank ((x, r) # xs) =
     (if r + 1 = ni_size x
      then (let (rs, b) = next_rank xs in (0 # rs, b))
      else ((r + 1) # map snd xs, True))"

definition XMP_get_next_rank :: "nodes \<Rightarrow> int list \<Rightarrow> int list \<times> bool" where
  "XMP_get_next_rank n rank_array = next_rank (zip (take (n_dim n) (n_info n)) rank_array)"

fun nodes_index_loop :: "inherit_info list \<Rightarrow> int \<Rightarrow> int \<Rightarrow> int res" where
  "nodes_index_loop [] k nodes_index = Inl (Fatal ''the function does not reach here'')"
| "nodes_index_loop (x # xs) k nodes_index =
     (if k = 0 then Inr nodes_index
      else nodes_index_loop xs (k - 1) (if \<not> ii_shrink x then nodes_index + 1 else nodes_index))"

definition XMP_calc_nodes_index_from_inherit_nodes_index :: "xmp_state \<Rightarrow> nodes \<Rightarrow> int \<Rightarrow> int res" where
  "XMP_calc_nodes_index_from_inherit_nodes_index st n inherit_nodes_index =
     (case n_inherit_nodes n of
        None \<Rightarrow> Inl (Fatal ''inherit nodes is NULL'')
      | Some p \<Rightarrow> bind_res (deref (Some p) st) (\<lambda>(q, _).
          nodes_index_loop (take (n_dim q) (n_inherit_info n)) inherit_nodes_index 0))"

end
