(* ===== verification/Xmp_Template.thy ===== *)
theory Xmp_Template
  imports Xmp_Nodes
begin

text \<open>
  Templates and their distribution onto node sets: \<open>src/libxmp/src/xmp_template.c\<close>. A template is a
  record that the operations return changed; the node set it is distributed onto is a pointer into
  the heap of \<open>Xmp_Nodes\<close>, and \<open>onto_nodes_info\<close>, a pointer to an entry that does not change, is
  a copy of the entry. \<open>_XMP_ASSERT\<close> has no effect unless \<open>DEBUG\<close> is defined and is left out.
\<close>

subsection \<open>Data\<close>

datatype dist_manner = DUPLICATION | BLOCK | CYCLIC | BLOCK_CYCLIC | GBLOCK | UNKNOWN_DIST

record template_info =
  ser_lower :: int
  ser_upper :: int
  ser_size :: int

record template_chunk =
  par_lower :: int
  par_upper :: int
  par_width :: int
  par_stride :: int
  par_chunk_width :: int
  dist_manner :: dist_manner
  mapping_array :: "int list"
  is_regular_chunk :: bool
  onto_nodes_index :: int
  onto_nodes_info :: "nodes_info option"

record template =
  t_on_ref_id :: int
  t_is_fixed :: bool
  t_is_distributed :: bool
  t_is_owner :: bool
  t_dim :: nat
  t_onto_nodes :: "nat option"
  t_chunk :: "template_chunk list"
  t_info :: "template_info list"

definition XMP_N_NO_ONTO_NODES :: int where
  "XMP_N_NO_ONTO_NODES = - 1"

subsection \<open>Making templates\<close>

text \<open>\<open>junk\<close> is what the allocated block holds.\<close>

definition XMP_create_template_desc :: "template_info \<Rightarrow> nat \<Rightarrow> bool \<Rightarrow> template xmp" where
  "XMP_create_template_desc junk dim is_fixed =
     andthen XMP_get_on_ref_id (\<lambda>i.
     ret \<lparr>t_on_ref_id = i, t_is_fixed = is_fixed, t_is_distributed = False, t_is_owner = False, t_dim = dim,
          t_onto_nodes = None, t_chunk = [], t_info = replicate dim junk\<rparr>)"

definition template_size_entry :: "template_info \<Rightarrow> template_info res" where
  "template_size_entry x =
     (let lo = int32 (ser_lower x); up = int32 (ser_upper x)
      in if lo > up
         then Inl (Fatal ''the lower bound of template should be less than or equal to the upper bound'')
         else Inr (x\<lparr>ser_size := uint64 (XMP_M_COUNTi lo up)\<rparr>))"

fun template_sizes :: "nat \<Rightarrow> template_info list \<Rightarrow> template_info list res" where
  "template_sizes 0 xs = Inr xs"
| "template_sizes (Suc k) [] = Inl OutOfBounds"
| "template_sizes (Suc k) (x # xs) =
     bind_res (template_size_entry x) (\<lambda>x'. bind_res (template_sizes k xs) (\<lambda>xs'. Inr (x' # xs')))"

definition XMP_calc_template_size :: "template \<Rightarrow> template res" where
  "XMP_calc_template_size t =
     bind_res (template_sizes (if t_is_fixed t then t_dim t else t_dim t - 1) (t_info t))
       (\<lambda>xs. Inr (t\<lparr>t_info := xs\<rparr>))"

definition set_bounds :: "template \<Rightarrow> (int \<times> int) list \<Rightarrow> template" where
  "set_bounds t bounds =
     t\<lparr>t_info := map (\<lambda>(x, l, u). x\<lparr>ser_lower := l, ser_upper := u\<rparr>) (zip (t_info t) bounds)
                 @ drop (length bounds) (t_info t)\<rparr>"

definition XMP_init_template_FIXED :: "template_info \<Rightarrow> (int \<times> int) list \<Rightarrow> template xmp" where
  "XMP_init_template_FIXED junk bounds =
     andthen (XMP_create_template_desc junk (length bounds) True) (\<lambda>t.
     lift (XMP_calc_template_size (set_bounds t bounds)))"

definition XMP_init_template_UNFIXED :: "template_info \<Rightarrow> nat \<Rightarrow> template xmp" where
  "XMP_init_template_UNFIXED junk dim = XMP_create_template_desc junk dim False"

definition XMP_set_template_size :: "template \<Rightarrow> (int \<times> int) list \<Rightarrow> template res" where
  "XMP_set_template_size t bounds = XMP_calc_template_size ((set_bounds t bounds)\<lparr>t_is_fixed := True\<rparr>)"

definition XMP_init_template_chunk :: "template_chunk \<Rightarrow> template \<Rightarrow> nat \<Rightarrow> template xmp" where
  "XMP_init_template_chunk junk t p =
     andthen (deref (Some p)) (\<lambda>nodes.
     ret (t\<lparr>t_is_distributed := True, t_is_owner := n_is_member nodes, t_onto_nodes := Some p,
            t_chunk := replicate (t_dim t) junk\<rparr>))"

subsection \<open>Distribution\<close>

definition set_chunk :: "template \<Rightarrow> nat \<Rightarrow> template_chunk \<Rightarrow> template" where
  "set_chunk t i c = t\<lparr>t_chunk := (t_chunk t)[i := c]\<rparr>"

definition XMP_dist_template_DUPLICATION :: "template \<Rightarrow> nat \<Rightarrow> template" where
  "XMP_dist_template_DUPLICATION t i =
     (let ti = t_info t ! i
      in set_chunk t i ((t_chunk t ! i)\<lparr>par_lower := ser_lower ti, par_upper := ser_upper ti, par_width := 1,
           par_stride := 1, par_chunk_width := ser_size ti, dist_manner := DUPLICATION,
           is_regular_chunk := True, onto_nodes_index := XMP_N_NO_ONTO_NODES, onto_nodes_info := None\<rparr>))"

text \<open>
  Products and sums of \<open>unsigned long long\<close> values are taken modulo \<open>2^64\<close>, and are converted
  where they are stored. \<open>ni_size\<close> and \<open>ni_rank\<close> are converted from \<open>int\<close>.
\<close>

definition dist_BLOCK :: "nodes \<Rightarrow> template \<Rightarrow> nat \<Rightarrow> nat \<Rightarrow> template" where
  "dist_BLOCK nodes t i nodes_index =
     (let chunk = t_chunk t ! i; ti = t_info t ! i; ni = n_info nodes ! nodes_index;
          nodes_size = uint64 (ni_size ni);
          chunk_width = XMP_M_CEILi (ser_size ti) nodes_size;
          (chunk, owner) =
            (if n_is_member nodes then
               let nodes_rank = uint64 (ni_rank ni);
                   owner_nodes_size = XMP_M_CEILi (ser_size ti) chunk_width;
                   lo = int64 (uint64 (nodes_rank * chunk_width + uint64 (ser_lower ti)));
                   chunk = chunk\<lparr>par_lower := lo\<rparr>
               in if nodes_rank = uint64 (owner_nodes_size - 1)
                  then (chunk\<lparr>par_upper := ser_upper ti\<rparr>, t_is_owner t)
                  else if nodes_rank \<ge> owner_nodes_size then (chunk, False)
                  else (chunk\<lparr>par_upper := int64 (uint64 (uint64 lo + chunk_width - 1))\<rparr>, t_is_owner t)
             else (chunk, t_is_owner t))
      in set_chunk (t\<lparr>t_is_owner := owner\<rparr>) i
           (chunk\<lparr>par_width := 1, par_stride := 1, par_chunk_width := chunk_width, dist_manner := BLOCK,
                  is_regular_chunk := (ser_size ti smod nodes_size = 0),
                  onto_nodes_index := int nodes_index, onto_nodes_info := Some ni\<rparr>))"

definition XMP_dist_template_BLOCK :: "template \<Rightarrow> nat \<Rightarrow> nat \<Rightarrow> template xmp" where
  "XMP_dist_template_BLOCK t i nodes_index =
     andthen (deref (t_onto_nodes t)) (\<lambda>nodes. ret (dist_BLOCK nodes t i nodes_index))"

definition dist_CYCLIC_WIDTH :: "nodes \<Rightarrow> template \<Rightarrow> nat \<Rightarrow> nat \<Rightarrow> int \<Rightarrow> template" where
  "dist_CYCLIC_WIDTH nodes t i nodes_index width =
     (let chunk = t_chunk t ! i; ti = t_info t ! i; ni = n_info nodes ! nodes_index;
          nodes_size = uint64 (ni_size ni);
          template_size = XMP_M_CEILi (ser_size ti) width;
          (chunk, owner) =
            (if n_is_member nodes then
               let nodes_rank = uint64 (ni_rank ni)
               in if template_size < nodes_size then
                    (if nodes_rank < template_size then
                       let par_index = int64 (uint64 (uint64 (ser_lower ti) + uint64 (nodes_rank * width)))
                       in (chunk\<lparr>par_lower := par_index, par_upper := par_index\<rparr>, t_is_owner t)
                     else (chunk, False))
                  else
                    let d = template_size div nodes_size; m = template_size mod nodes_size;
                        par_size = (if m = 0 then d else if nodes_rank \<ge> m then d else d + 1);
                        lo = int64 (uint64 (uint64 (ser_lower ti) + uint64 (nodes_rank * width)))
                    in (chunk\<lparr>par_lower := lo,
                              par_upper := int64 (uint64 (uint64 lo + uint64 (uint64 (nodes_size * uint64 (par_size - 1)) * width)))\<rparr>,
                        t_is_owner t)
             else (chunk, t_is_owner t))
      in set_chunk (t\<lparr>t_is_owner := owner\<rparr>) i
           (chunk\<lparr>par_width := width, par_stride := int32 (uint64 (nodes_size * width)),
                  par_chunk_width := uint64 (XMP_M_CEILi template_size nodes_size * width),
                  dist_manner := if width = 1 then CYCLIC else BLOCK_CYCLIC,
                  is_regular_chunk := (template_size smod nodes_size = 0),
                  onto_nodes_index := int nodes_index, onto_nodes_info := Some ni\<rparr>))"

definition XMP_dist_template_CYCLIC_WIDTH :: "template \<Rightarrow> nat \<Rightarrow> nat \<Rightarrow> int \<Rightarrow> template xmp" where
  "XMP_dist_template_CYCLIC_WIDTH t i nodes_index width =
     andthen (deref (t_onto_nodes t)) (\<lambda>nodes. ret (dist_CYCLIC_WIDTH nodes t i nodes_index width))"

definition XMP_dist_template_CYCLIC :: "template \<Rightarrow> nat \<Rightarrow> nat \<Rightarrow> template xmp" where
  "XMP_dist_template_CYCLIC t i nodes_index = XMP_dist_template_CYCLIC_WIDTH t i nodes_index 1"

definition XMP_dist_template_BLOCK_CYCLIC :: "template \<Rightarrow> nat \<Rightarrow> nat \<Rightarrow> int \<Rightarrow> template xmp" where
  "XMP_dist_template_BLOCK_CYCLIC t i nodes_index width = XMP_dist_template_CYCLIC_WIDTH t i nodes_index width"

text \<open>\<open>rsum_array\<close>: the first index of every node, and the end.\<close>

fun rsums :: "int \<Rightarrow> int list \<Rightarrow> int list" where
  "rsums a [] = [a]"
| "rsums a (x # xs) = a # rsums (a + x) xs"

text \<open>The second result is \<open>*temp0\<close>.\<close>

definition dist_GBLOCK :: "nodes \<Rightarrow> template \<Rightarrow> nat \<Rightarrow> nat \<Rightarrow> int list option \<Rightarrow> (template \<times> int) res" where
  "dist_GBLOCK nodes t i nodes_index mapping =
     (let chunk = t_chunk t ! i; ti = t_info t ! i; ni = n_info nodes ! nodes_index;
          finish = (\<lambda>t (chunk :: template_chunk).
            let chunk = chunk\<lparr>dist_manner := GBLOCK, is_regular_chunk := False,
                              onto_nodes_index := int nodes_index, onto_nodes_info := Some ni\<rparr>
            in Inr (set_chunk t i chunk, int32 (par_lower chunk)))
      in case mapping of
           None \<Rightarrow> finish (t\<lparr>t_is_fixed := False\<rparr>) chunk
         | Some m \<Rightarrow>
             if length m < nat (ni_size ni) then Inl OutOfBounds
             else
               let rs = rsums (ser_lower ti) (take (nat (ni_size ni)) m);
                   chunk = chunk\<lparr>mapping_array := rs\<rparr>
               in if ser_upper ti \<ge> rs ! nat (ni_size ni)
                  then Inl (Fatal ''The size of the template exceeds the sum of the mapping array.'')
                  else
                    let r = nat (ni_rank ni);
                        (chunk, owner) =
                          (if n_is_member nodes \<and> rs ! (r + 1) \<noteq> rs ! r then
                             let chunk = chunk\<lparr>par_lower := rs ! r\<rparr>
                             in if par_lower chunk \<le> ser_upper ti
                                then (chunk\<lparr>par_upper := min (ser_upper ti) (rs ! (r + 1) - 1)\<rparr>, True)
                                else (chunk, False)
                           else (chunk, False))
                    in finish (t\<lparr>t_is_owner := owner\<rparr>)
                         (chunk\<lparr>par_width := 1, par_stride := 1,
                                par_chunk_width := uint64 (par_upper chunk - par_lower chunk + 1)\<rparr>))"

definition XMP_dist_template_GBLOCK :: "template \<Rightarrow> nat \<Rightarrow> nat \<Rightarrow> int list option \<Rightarrow> (template \<times> int) xmp" where
  "XMP_dist_template_GBLOCK t i nodes_index mapping =
     andthen (deref (t_onto_nodes t)) (\<lambda>nodes. lift (dist_GBLOCK nodes t i nodes_index mapping))"

subsection \<open>References to templates\<close>

definition XMP_validate_template_ref :: "int \<Rightarrow> int \<Rightarrow> int \<Rightarrow> int \<Rightarrow> int \<Rightarrow> (int \<times> int \<times> int) res" where
  "XMP_validate_template_ref lower upper stride lb ub =
     (if stride = 0 then Inl (Fatal ''the stride of <template-ref> is 0'')
      else
        let (l, u) = (if stride > 0 then (lower, upper) else (upper, lower))
        in if lb > l
           then Inl (Fatal ''<template-ref> is out of bounds, <ref-lower> is less than the template lower bound'')
           else if l > u
           then Inl (Fatal ''<template-ref> is out of bounds, <ref-upper> is less than <ref-lower>'')
           else if u > ub
           then Inl (Fatal ''<template-ref> is out of bounds, <ref-upper> is greater than the template upper bound'')
           else if stride > 0 then Inr (lower, u - (u - l) smod stride, stride)
           else let s = - stride in Inr (l + (u - l) smod s, u, s))"

definition XMP_check_template_ref_inclusion_width_1 ::
    "int \<Rightarrow> int \<Rightarrow> int \<Rightarrow> int \<Rightarrow> int \<Rightarrow> int \<Rightarrow> bool res" where
  "XMP_check_template_ref_inclusion_width_1 ref_lower ref_upper ref_stride t_lower t_upper t_stride =
     (if ref_stride \<noteq> 1 then Inl (Fatal ''ref stride is not 1, -1: unsupported case'')
      else
        let x_max = XMP_floori (t_upper - t_lower) t_stride;
            x_st = XMP_ceili (ref_lower - t_lower) t_stride;
            x_ed = XMP_floori (ref_upper - t_lower) t_stride
        in Inr (if x_st > x_max then False else if x_ed < 0 then False else x_st \<le> x_ed))"

definition XMP_check_template_ref_inclusion_width_N :: "int \<Rightarrow> int \<Rightarrow> int \<Rightarrow> template \<Rightarrow> nat \<Rightarrow> bool res" where
  "XMP_check_template_ref_inclusion_width_N ref_lower ref_upper ref_stride t i =
     (let lo = int32 (ser_lower (t_info t ! i));
          chunk = t_chunk t ! i;
          width = int32 (par_width chunk);
          rl = (ref_lower - lo) sdiv width + lo;
          ru = (ref_upper - lo) sdiv width + lo;
          tl = (int32 (par_lower chunk) - lo) sdiv width + lo;
          tu = (int32 (par_upper chunk) - lo) sdiv width + lo;
          ts = par_stride chunk sdiv width
      in XMP_check_template_ref_inclusion_width_1 rl ru 1 tl tu ts)"

definition XMP_check_template_ref_inclusion :: "int \<Rightarrow> int \<Rightarrow> int \<Rightarrow> template \<Rightarrow> nat \<Rightarrow> bool res" where
  "XMP_check_template_ref_inclusion ref_lower ref_upper ref_stride t i =
     bind_res (XMP_validate_template_ref ref_lower ref_upper ref_stride
                 (int32 (ser_lower (t_info t ! i))) (int32 (ser_upper (t_info t ! i)))) (\<lambda>(l, u, s).
       let chunk = t_chunk t ! i
       in case dist_manner chunk of
            DUPLICATION \<Rightarrow> Inr True
          | BLOCK \<Rightarrow> XMP_check_template_ref_inclusion_width_1 l u s
                       (int32 (par_lower chunk)) (int32 (par_upper chunk)) (par_stride chunk)
          | CYCLIC \<Rightarrow> XMP_check_template_ref_inclusion_width_1 l u s
                       (int32 (par_lower chunk)) (int32 (par_upper chunk)) (par_stride chunk)
          | BLOCK_CYCLIC \<Rightarrow> XMP_check_template_ref_inclusion_width_N l u s t i
          | _ \<Rightarrow> Inl (Fatal ''unknown distribution manner''))"

subsection \<open>Owners\<close>

fun gblock_owner :: "int \<Rightarrow> int list \<Rightarrow> int \<Rightarrow> nat \<Rightarrow> int" where
  "gblock_owner g (a # b # m) i (Suc n) = (if a \<le> g \<and> g < b then i else gblock_owner g (b # m) (i + 1) n)"
| "gblock_owner g _ i _ = XMP_N_INVALID_RANK"

text \<open>The first division has an operand of type \<open>unsigned long long\<close>; the results are converted to \<open>int\<close>.\<close>

definition XMP_calc_template_owner_SCALAR :: "template \<Rightarrow> nat \<Rightarrow> int \<Rightarrow> int res" where
  "XMP_calc_template_owner_SCALAR t i ref_index =
     (let info = t_info t ! i; chunk = t_chunk t ! i
      in case dist_manner chunk of
           BLOCK \<Rightarrow> Inr (int32 (uint64 (ref_index - ser_lower info) div par_chunk_width chunk))
         | CYCLIC \<Rightarrow> Inr (int32 ((ref_index - ser_lower info) smod par_stride chunk))
         | BLOCK_CYCLIC \<Rightarrow>
             let width = int32 (par_width chunk)
             in Inr (int32 (((ref_index - ser_lower info) sdiv width) smod (par_stride chunk sdiv width)))
         | GBLOCK \<Rightarrow>
             (case onto_nodes_info chunk of None \<Rightarrow> Inl NullDeref
              | Some ni \<Rightarrow> Inr (gblock_owner ref_index (mapping_array chunk) 0 (nat (ni_size ni))))
         | _ \<Rightarrow> Inl (Fatal ''unknown distribute manner''))"

text \<open>\<open>None\<close> where the function returns false.\<close>

definition XMP_calc_template_par_triplet :: "template \<Rightarrow> nat \<Rightarrow> int \<Rightarrow> (int \<times> int \<times> int) option res" where
  "XMP_calc_template_par_triplet t i nodes_rank =
     (let ti = t_info t ! i; tc = t_chunk t ! i;
          lo = int32 (ser_lower ti); up = int32 (ser_upper ti); sz = int32 (ser_size ti);
          width = int32 (par_width tc); chunk_width = int32 (par_chunk_width tc);
          cyclic =
            (case onto_nodes_info tc of None \<Rightarrow> Inl NullDeref
             | Some ni \<Rightarrow>
                 let nodes_size = ni_size ni;
                     template_size = XMP_M_CEILi sz width
                 in if template_size < nodes_size then
                      (if nodes_rank < template_size then
                         let par_index = lo + nodes_rank * width
                         in Inr (Some (par_index, par_index, nodes_size * width))
                       else Inr None)
                    else
                      let d = template_size sdiv nodes_size; m = template_size smod nodes_size;
                          par_size = (if m = 0 then d else if nodes_rank \<ge> m then d else d + 1);
                          pl = lo + nodes_rank * width
                      in Inr (Some (pl, pl + nodes_size * (par_size - 1) * width, nodes_size * width)))
      in case dist_manner tc of
           DUPLICATION \<Rightarrow> Inr (Some (lo, up, 1))
         | BLOCK \<Rightarrow>
             let pl = nodes_rank * chunk_width + lo;
                 owner_nodes_size = XMP_M_CEILi sz chunk_width
             in if nodes_rank = owner_nodes_size - 1 then Inr (Some (pl, up, 1))
                else if nodes_rank \<ge> owner_nodes_size then Inr None
                else Inr (Some (pl, pl + chunk_width - 1, 1))
         | CYCLIC \<Rightarrow> cyclic
         | BLOCK_CYCLIC \<Rightarrow> cyclic
         | _ \<Rightarrow> Inl (Fatal ''unknown distribution manner''))"

subsection \<open>Tasks on templates\<close>

text \<open>
  One round of the loop of \<open>_XMP_create_nodes_by_template_ref\<close>: the state has the shrink marks and the
  reference for the node set, and the sizes of the new node set. Entries of the reference that
  are not assigned are zero here; they belong to shrunk dimensions and are not used.
\<close>

definition nodes_ref_round ::
    "template \<Rightarrow> bool list \<times> (int \<times> int \<times> int) list \<times> int list \<Rightarrow> nat \<times> bool \<times> int \<times> int \<times> int \<Rightarrow>
     (bool list \<times> (int \<times> int \<times> int) list \<times> int list) res" where
  "nodes_ref_round t st arg =
     (case (st, arg) of ((sh, refs, sizes), (i, skip, l, u, s)) \<Rightarrow>
        if skip then Inr st
        else
          let chunk = t_chunk t ! i; k = onto_nodes_index chunk
          in if k = XMP_N_NO_ONTO_NODES then Inr st
             else (case onto_nodes_info chunk of None \<Rightarrow> Inl NullDeref
                   | Some ni \<Rightarrow>
                       bind_res (put sh k False) (\<lambda>sh'.
                         if XMP_M_COUNT_TRIPLETi l u s = 1 then
                           bind_res (XMP_calc_template_owner_SCALAR t i l) (\<lambda>own.
                           bind_res (put refs k (own + 1, own + 1, 1)) (\<lambda>refs'.
                           Inr (sh', refs', sizes @ [1])))
                         else
                           bind_res (put refs k (1, ni_size ni, 1)) (\<lambda>refs'.
                           Inr (sh', refs', sizes @ [ni_size ni])))))"

definition XMP_create_nodes_by_template_ref ::
    "xmp_env \<Rightarrow> template \<Rightarrow> (bool \<times> int \<times> int \<times> int) list \<Rightarrow> nat xmp" where
  "XMP_create_nodes_by_template_ref env t args =
     andthen (deref (t_onto_nodes t)) (\<lambda>onto.
     andthen (lift (fold_res (nodes_ref_round t)
                (replicate (n_dim onto) True, replicate (n_dim onto) (0, 0, 0), []) (zip [0..<t_dim t] args)))
       (\<lambda>(sh, refs, sizes).
     andthen (XMP_init_nodes_struct_NODES_NAMED env (length sizes) (the (t_onto_nodes t)) sh refs sizes True)
       (\<lambda>(p, refs'). ret p)))"

definition XMP_set_task_desc_template ::
    "task_desc \<Rightarrow> nat \<Rightarrow> bool \<Rightarrow> template \<Rightarrow> (int \<times> int \<times> int) list \<Rightarrow> task_desc" where
  "XMP_set_task_desc_template desc p execute t refs =
     (let d = t_dim t; over = (\<lambda>f old. take d (map (int32 \<circ> f) refs) @ drop d old)
      in desc\<lparr>td_nodes := Some p, td_execute := execute, td_on_ref_id := t_on_ref_id t,
              td_ref_lower := over fst (td_ref_lower desc),
              td_ref_upper := over (fst \<circ> snd) (td_ref_upper desc),
              td_ref_stride := over (snd \<circ> snd) (td_ref_stride desc)\<rparr>)"

definition XMP_compare_task_exec_cond_template :: "task_desc \<Rightarrow> template \<Rightarrow> (int \<times> int \<times> int) list \<Rightarrow> bool" where
  "XMP_compare_task_exec_cond_template desc t refs =
     (t_on_ref_id t = td_on_ref_id desc \<and>
      (\<forall>i \<in> set [0..<t_dim t].
        case refs ! i of (l, u, s) \<Rightarrow>
          td_ref_lower desc ! i = int32 l \<and> td_ref_upper desc ! i = int32 u \<and> td_ref_stride desc ! i = int32 s))"

definition XMP_exec_task_TEMPLATE_PART ::
    "xmp_env \<Rightarrow> task_desc option \<Rightarrow> template \<Rightarrow> (bool \<times> int \<times> int \<times> int) list \<Rightarrow> (bool \<times> task_desc) xmp" where
  "XMP_exec_task_TEMPLATE_PART env task t args =
     exec_task_with env task (\<lambda>d. XMP_compare_task_exec_cond_template d t (map snd args))
       (\<lambda>d p e refs. XMP_set_task_desc_template d p e t refs)
       (andthen (XMP_create_nodes_by_template_ref env t args) (\<lambda>p. ret (p, map snd args)))"

text \<open>
  The test of one dimension. In the block-cyclic case the loop over the width declares a second
  \<open>i\<close>, which also indexes \<open>lower\<close>, \<open>upper\<close> and \<open>stride\<close>.
\<close>

definition overlap :: "int \<Rightarrow> int \<Rightarrow> int \<Rightarrow> int \<Rightarrow> int \<Rightarrow> int \<Rightarrow> bool res" where
  "overlap l u s pl pu ps =
     (case union_triplet (int32 l) (int32 u) (int32 s) (int32 pl) (int32 pu) ps of
        None \<Rightarrow> Inl NoReturn | Some b \<Rightarrow> Inr b)"

definition nocomm_dim :: "template \<Rightarrow> (bool \<times> int \<times> int \<times> int) list \<Rightarrow> nat \<Rightarrow> bool res" where
  "nocomm_dim t args i =
     (case args ! i of (skip, l, u, s) \<Rightarrow>
        if skip then Inr True
        else
          let chunk = t_chunk t ! i; plb = par_lower chunk; pub = par_upper chunk; pst = par_stride chunk
          in case dist_manner chunk of
               DUPLICATION \<Rightarrow> Inr True
             | BLOCK \<Rightarrow> Inr (\<not> (pub < l \<or> u < plb))
             | GBLOCK \<Rightarrow> Inr (\<not> (pub < l \<or> u < plb))
             | CYCLIC \<Rightarrow> overlap l u s plb pub pst
             | BLOCK_CYCLIC \<Rightarrow>
                 fold_res (\<lambda>found j.
                   if found then Inr True
                   else bind_res (fetch args (int j)) (\<lambda>(sh', l', u', s').
                        overlap l' u' s' (plb + int j) pub pst)) False [0..<nat (par_width chunk)]
             | UNKNOWN_DIST \<Rightarrow> Inl (Fatal ''_XMP_exec_task_TEMPLATE_PART_nocomm: unknown dist_manner''))"

definition XMP_exec_task_TEMPLATE_PART_nocomm :: "template \<Rightarrow> (bool \<times> int \<times> int \<times> int) list \<Rightarrow> bool res" where
  "XMP_exec_task_TEMPLATE_PART_nocomm t args =
     (if \<not> t_is_owner t then Inr False
      else fold_res (\<lambda>b i. if b then nocomm_dim t args i else Inr False) True [0..<t_dim t])"

end
