(* ===== verification/Xmp_Nodes_Laws.thy ===== *)
theory Xmp_Nodes_Laws
  imports Xmp_Nodes
begin

text \<open>
  Properties of node sets: references, the numbering of the nodes of a set by coordinates and by linear
  ranks, sub-communicators, tasks and the stack.
\<close>

subsection \<open>References to nodes\<close>

text \<open>The nodes, from 1, of a reference \<open>lower:upper:stride\<close> of the language.\<close>

definition ref_set :: "int \<Rightarrow> int \<Rightarrow> int \<Rightarrow> int set" where
  "ref_set lower upper stride =
     (if stride > 0 then trip lower upper stride else {i. upper \<le> i \<and> i \<le> lower \<and> stride dvd (i - lower)})"

lemma inclusion_trip: "XMP_check_nodes_ref_inclusion l u s sz r \<longleftrightarrow> r \<in> trip l u s"
  by (auto simp: XMP_check_nodes_ref_inclusion_def mem_trip smod_eq_0_iff)

lemma trip_shift: "r \<in> trip (a - 1) (b - 1) s \<longleftrightarrow> r + 1 \<in> trip a b s"
  by (auto simp: mem_trip algebra_simps)

lemma validate_nodes_ref_spec:
  assumes "XMP_validate_nodes_ref l u s sz = Inr (l', u', s')"
  shows "0 < s'" "0 \<le> l'" "l' \<le> u'" "u' < sz" "s' dvd (u' - l')"
    "r \<in> trip l' u' s' \<longleftrightarrow> r + 1 \<in> ref_set l u s"
proof -
  have "0 < s' \<and> 0 \<le> l' \<and> l' \<le> u' \<and> u' < sz \<and> s' dvd (u' - l') \<and> (r \<in> trip l' u' s' \<longleftrightarrow> r + 1 \<in> ref_set l u s)"
  proof (cases "s > 0")
    case True
    with assms have b: "1 \<le> l" "l \<le> u" "u \<le> sz" "l' = l - 1" "s' = s" "u' = u - (u - l) smod s - 1"
      by (auto simp: XMP_validate_nodes_ref_def Let_def split: if_splits)
    have "r \<in> trip l' u' s' \<longleftrightarrow> r + 1 \<in> trip l (u - (u - l) smod s) s"
      unfolding b(4-6) by (rule trip_shift)
    also have "trip l (u - (u - l) smod s) s = ref_set l u s"
      using True b by (simp only: trim_upper ref_set_def if_True)
    finally have "r \<in> trip l' u' s' \<longleftrightarrow> r + 1 \<in> ref_set l u s" .
    moreover have "l' \<le> u'" "u' < sz" "0 \<le> l'" using b smod_trim(1,2) [OF True b(2)] by linarith+
    moreover have "u' - l' = u - (u - l) smod s - l" using b(4,6) by linarith
    then have "s' dvd (u' - l')" using b(5) smod_trim(3) [OF True b(2)] by simp
    ultimately show ?thesis using True b(5) by simp
  next
    case False
    with assms have neg: "s < 0" by (auto simp: XMP_validate_nodes_ref_def split: if_splits)
    with assms have b: "1 \<le> u" "u \<le> l" "l \<le> sz" "l' = u + (l - u) smod (- s) - 1" "s' = - s" "u' = l - 1"
      by (auto simp: XMP_validate_nodes_ref_def Let_def split: if_splits)
    have "r \<in> trip l' u' s' \<longleftrightarrow> r + 1 \<in> trip (u + (l - u) smod (- s)) l (- s)"
      unfolding b(4-6) by (rule trip_shift)
    also have "trip (u + (l - u) smod (- s)) l (- s) = ref_set l u s"
      using neg b trim_lower [of "- s" u l] by (simp add: ref_set_def)
    finally have "r \<in> trip l' u' s' \<longleftrightarrow> r + 1 \<in> ref_set l u s" .
    moreover have pos: "0 < - s" using neg by simp
    moreover have "l' \<le> u'" "u' < sz" "0 \<le> l'" using b smod_trim(4,5) [OF pos b(2)] by linarith+
    moreover have "u' - l' = l - (u + (l - u) smod (- s))" using b(4,6) by linarith
    then have "s' dvd (u' - l')" using b(5) smod_trim(6) [OF pos b(2)] by simp
    ultimately show ?thesis using b(5) by simp
  qed
  then show "0 < s'" "0 \<le> l'" "l' \<le> u'" "u' < sz" "s' dvd (u' - l')"
    "r \<in> trip l' u' s' \<longleftrightarrow> r + 1 \<in> ref_set l u s" by blast+
qed

text \<open>
  \<open>_XMP_validate_nodes_ref\<close> accepts exactly the references with a stride that is not zero, in order and
  within \<open>1..size\<close>. It returns a triplet from 0 with a positive stride that ends at its upper bound,
  and \<open>_XMP_check_nodes_ref_inclusion\<close> on it holds exactly for the nodes that the reference, of either
  direction, names.
\<close>

theorem validate_nodes_ref_correct:
  "(case XMP_validate_nodes_ref l u s sz of
      Inl e \<Rightarrow> s = 0 \<or> min l u < 1 \<or> sz < max l u \<or> (s > 0 \<and> u < l) \<or> (s < 0 \<and> l < u)
    | Inr (l', u', s') \<Rightarrow> s \<noteq> 0 \<and> 0 < s' \<and> 0 \<le> l' \<and> l' \<le> u' \<and> u' < sz \<and> s' dvd (u' - l') \<and>
        {r. XMP_check_nodes_ref_inclusion l' u' s' sz r} = (\<lambda>i. i - 1) ` ref_set l u s)"
proof (cases "XMP_validate_nodes_ref l u s sz")
  case (Inl e)
  then show ?thesis by (auto simp: XMP_validate_nodes_ref_def Let_def split: if_splits)
next
  case (Inr r)
  obtain l' u' s' where r: "r = (l', u', s')" by (cases r)
  from Inr r have v: "XMP_validate_nodes_ref l u s sz = Inr (l', u', s')" by simp
  have "s \<noteq> 0" using v by (auto simp: XMP_validate_nodes_ref_def)
  moreover have "{i. XMP_check_nodes_ref_inclusion l' u' s' sz i} = (\<lambda>i. i - 1) ` ref_set l u s"
    using validate_nodes_ref_spec(6) [OF v] by (auto simp: inclusion_trip image_iff) force
  ultimately show ?thesis using validate_nodes_ref_spec(1-5) [OF v] v by simp
qed

subsection \<open>Coordinates and linear ranks\<close>

text \<open>The linear rank as a number with one digit per dimension, the first the least significant.\<close>

fun digits :: "nodes_info list \<Rightarrow> int list \<Rightarrow> int" where
  "digits (x # xs) (r # rs) = r + ni_size x * digits xs rs"
| "digits _ _ = 0"

definition nsize :: "nodes_info list \<Rightarrow> int" where
  "nsize xs = (\<Prod>x\<leftarrow>xs. ni_size x)"

definition in_dims :: "nodes_info list \<Rightarrow> int list \<Rightarrow> bool" where
  "in_dims = list_all2 (\<lambda>x r. 0 \<le> r \<and> r < ni_size x)"

definition mults_ok :: "nodes_info list \<Rightarrow> bool" where
  "mults_ok xs \<longleftrightarrow> (\<forall>i < length xs. ni_multiplier (xs ! i) = nsize (take i xs))"

text \<open>A descriptor as the constructors leave it, and the coordinates of its nodes.\<close>

definition nodes_wf :: "nodes \<Rightarrow> bool" where
  "nodes_wf n \<longleftrightarrow> n_dim n = length (n_info n) \<and> (\<forall>x \<in> set (n_info n). 0 < ni_size x) \<and> mults_ok (n_info n)"

definition coords :: "nodes \<Rightarrow> int list set" where
  "coords n = {rs. in_dims (n_info n) rs}"

lemma in_dims_simps [simp]:
  "in_dims [] rs = (rs = [])"
  "in_dims (x # xs) (r # rs) = (0 \<le> r \<and> r < ni_size x \<and> in_dims xs rs)"
  "in_dims (x # xs) [] = False"
  by (auto simp: in_dims_def)

lemma in_dims_Cons: "in_dims (x # xs) rs = (\<exists>r rs'. rs = r # rs' \<and> 0 \<le> r \<and> r < ni_size x \<and> in_dims xs rs')"
  by (cases rs) auto

lemma in_dims_snoc [simp]:
  "in_dims (xs @ [x]) (rs @ [r]) = (in_dims xs rs \<and> 0 \<le> r \<and> r < ni_size x)"
proof (cases "length xs = length rs")
  case False
  then show ?thesis using list_all2_lengthD by (fastforce simp: in_dims_def)
qed (simp add: in_dims_def list_all2_append)

lemma in_dims_length: "in_dims xs rs \<Longrightarrow> length rs = length xs"
  by (simp add: in_dims_def list_all2_lengthD)

lemma nsize_simps [simp]:
  "nsize [] = 1" "nsize (x # xs) = ni_size x * nsize xs" "nsize (xs @ ys) = nsize xs * nsize ys"
  by (simp_all add: nsize_def)

lemma nsize_pos: "\<forall>x \<in> set xs. 0 < ni_size x \<Longrightarrow> 0 < nsize xs"
  by (induction xs) auto

lemma linear_rank_loop_digits:
  "linear_rank_loop a s (zip xs rs) = a + s * digits xs rs"
proof (induction xs arbitrary: a s rs)
  case (Cons x xs)
  then show ?case by (cases rs) (auto simp: algebra_simps)
qed simp

lemma linear_rank_digits: "nodes_wf n \<Longrightarrow> XMP_calc_linear_rank n rs = digits (n_info n) rs"
  by (simp add: XMP_calc_linear_rank_def nodes_wf_def linear_rank_loop_digits)

lemma digits_range: "in_dims xs rs \<Longrightarrow> 0 \<le> digits xs rs \<and> digits xs rs < nsize xs"
proof (induction xs arbitrary: rs)
  case (Cons x xs)
  obtain r rs' where rs: "rs = r # rs'" "0 \<le> r" "r < ni_size x" "in_dims xs rs'"
    using Cons.prems by (auto simp: in_dims_Cons)
  have d: "0 \<le> digits xs rs'" "digits xs rs' + 1 \<le> nsize xs" using Cons.IH [OF rs(4)] by auto
  have "ni_size x * (digits xs rs' + 1) \<le> ni_size x * nsize xs" using rs d by (intro mult_left_mono) auto
  then have "r + ni_size x * digits xs rs' < ni_size x * nsize xs" using rs by (simp add: algebra_simps)
  then show ?case using rs d by simp
qed simp

lemma digits_inj: "in_dims xs rs \<Longrightarrow> in_dims xs qs \<Longrightarrow> digits xs rs = digits xs qs \<Longrightarrow> rs = qs"
proof (induction xs arbitrary: rs qs)
  case (Cons x xs)
  obtain r rs' q qs' where e: "rs = r # rs'" "0 \<le> r" "r < ni_size x" "in_dims xs rs'"
    "qs = q # qs'" "0 \<le> q" "q < ni_size x" "in_dims xs qs'"
    using Cons.prems(1,2) by (auto simp: in_dims_Cons)
  have eq: "r + ni_size x * digits xs rs' = q + ni_size x * digits xs qs'" using Cons.prems(3) e by simp
  have "r = (r + ni_size x * digits xs rs') mod ni_size x" using e by simp
  also have "\<dots> = q" using eq e by simp
  finally have "r = q" .
  with eq e have "digits xs rs' = digits xs qs'" by simp
  with \<open>r = q\<close> e Cons.IH show ?case by simp
qed simp

lemma digits_snoc: "length rs = length xs \<Longrightarrow> digits (xs @ [x]) (rs @ [r]) = digits xs rs + nsize xs * r"
proof (induction xs arbitrary: rs)
  case (Cons y xs)
  then obtain q rs' where "rs = q # rs'" by (cases rs) auto
  with Cons show ?case by (simp add: algebra_simps)
qed simp

lemma mults_ok_snoc: "mults_ok (xs @ [x]) \<longleftrightarrow> mults_ok xs \<and> ni_multiplier x = nsize xs"
  by (auto simp: mults_ok_def nth_append less_Suc_eq)

text \<open>The loop of \<open>_XMP_calc_rank_array\<close> divides by the multipliers, the largest first.\<close>

lemma rank_array_loop_digits:
  "mults_ok xs \<Longrightarrow> \<forall>x \<in> set xs. 0 < ni_size x \<Longrightarrow> 0 \<le> j \<Longrightarrow> j < nsize xs \<Longrightarrow>
   in_dims xs (rev (rank_array_loop (rev xs) j)) \<and> digits xs (rev (rank_array_loop (rev xs) j)) = j"
proof (induction xs arbitrary: j rule: rev_induct)
  case (snoc x xs)
  have m: "ni_multiplier x = nsize xs" "mults_ok xs" using snoc.prems(1) by (auto simp: mults_ok_snoc)
  have pos: "0 < nsize xs" "0 < ni_size x" using snoc.prems(2) by (auto intro: nsize_pos)
  have IH: "in_dims xs (rev (rank_array_loop (rev xs) (j mod nsize xs)))"
    "digits xs (rev (rank_array_loop (rev xs) (j mod nsize xs))) = j mod nsize xs"
    using snoc.IH [of "j mod nsize xs"] m pos snoc.prems(2) by auto
  have "j div nsize xs < ni_size x" using snoc.prems(4) pos by (simp add: div_less_iff mult.commute)
  moreover have "0 \<le> j div nsize xs" using snoc.prems(3) pos by (simp add: pos_imp_zdiv_nonneg_iff)
  ultimately show ?case
    using IH m snoc.prems(3) pos in_dims_length [OF IH(1)] by (simp add: digits_snoc)
qed simp

lemma calc_rank_array_spec:
  "nodes_wf n \<Longrightarrow> 0 \<le> j \<Longrightarrow> j < nsize (n_info n) \<Longrightarrow>
   XMP_calc_rank_array n j \<in> coords n \<and> XMP_calc_linear_rank n (XMP_calc_rank_array n j) = j"
  using rank_array_loop_digits [of "n_info n" j]
  by (auto simp: XMP_calc_rank_array_def nodes_wf_def coords_def linear_rank_digits)

lemma calc_rank_array_inverse:
  assumes "nodes_wf n" "rs \<in> coords n"
  shows "XMP_calc_rank_array n (XMP_calc_linear_rank n rs) = rs"
proof -
  have r: "in_dims (n_info n) rs" using assms by (simp add: coords_def)
  have "0 \<le> XMP_calc_linear_rank n rs" "XMP_calc_linear_rank n rs < nsize (n_info n)"
    using digits_range [OF r] assms(1) by (simp_all add: linear_rank_digits)
  from calc_rank_array_spec [OF assms(1) this] show ?thesis
    using digits_inj [OF _ r] assms(1) by (simp add: coords_def linear_rank_digits)
qed

lemma linear_rank_range:
  "nodes_wf n \<Longrightarrow> rs \<in> coords n \<Longrightarrow> 0 \<le> XMP_calc_linear_rank n rs \<and> XMP_calc_linear_rank n rs < nsize (n_info n)"
  by (simp add: linear_rank_digits coords_def digits_range)

interpretation nodes_code: coding nodes_wf coords "\<lambda>n. {0..<nsize (n_info n)}"
  XMP_calc_linear_rank XMP_calc_rank_array
  by unfold_locales
    (auto simp: calc_rank_array_spec calc_rank_array_inverse linear_rank_range)

text \<open>
  C33. On a well-formed node set \<open>_XMP_calc_linear_rank\<close> numbers the coordinates of the nodes from 0 to
  the size of the set without gaps or repetitions, and \<open>_XMP_calc_rank_array\<close> is its inverse.
\<close>

theorem linear_rank_bijection:
  assumes "nodes_wf n"
  shows "bij_betw (XMP_calc_linear_rank n) (coords n) {0..<nsize (n_info n)} \<and>
    (\<forall>rs \<in> coords n. XMP_calc_rank_array n (XMP_calc_linear_rank n rs) = rs) \<and>
    (\<forall>j \<in> {0..<nsize (n_info n)}. XMP_calc_linear_rank n (XMP_calc_rank_array n j) = j)"
  using nodes_code.enc_bij [OF assms] nodes_code.dec_enc [OF assms] nodes_code.enc_dec [OF assms] by blast

text \<open>A node set \<open>p(2,3)\<close> seen from its node with coordinates 1 and 2, for examples.\<close>

definition p23 :: nodes where
  "p23 = \<lparr>n_on_ref_id = 1, n_is_member = True, n_dim = 2, n_comm_size = 6, n_attr = ENTIRE_NODES,
     n_comm_rank = 5, n_comm = Dup World, n_subcomm = [], n_use_subcomm = False, n_inherit_nodes = None,
     n_inherit_info = [], n_info = [\<lparr>ni_size = 2, ni_rank = 1, ni_multiplier = 1\<rparr>,
                                   \<lparr>ni_size = 3, ni_rank = 2, ni_multiplier = 2\<rparr>]\<rparr>"

lemma p23_wf: "nodes_wf p23"
  by (simp add: p23_def nodes_wf_def mults_ok_def less_Suc_eq)

theorem linear_rank_bijection_witness:
  "bij_betw (XMP_calc_linear_rank p23) (coords p23) {0..<nsize (n_info p23)} \<and>
    XMP_calc_rank_array p23 (XMP_calc_linear_rank p23 [1, 2]) = [1, 2] \<and>
    XMP_calc_linear_rank p23 (XMP_calc_rank_array p23 4) = 4"
  using linear_rank_bijection [OF p23_wf] by (simp add: coords_def p23_def)

lemma set_ranks_digits:
  "\<forall>x \<in> set xs. 0 < ni_size x \<Longrightarrow> 0 \<le> c \<Longrightarrow> 0 < acc \<Longrightarrow>
   in_dims xs (map ni_rank (set_ranks c acc xs)) \<and>
   digits xs (map ni_rank (set_ranks c acc xs)) = (c div acc) mod nsize xs"
proof (induction xs arbitrary: acc)
  case (Cons x xs)
  have pos: "0 < ni_size x" using Cons.prems by simp
  have q: "0 \<le> c div acc" using Cons.prems by (simp add: pos_imp_zdiv_nonneg_iff)
  have IH: "in_dims xs (map ni_rank (set_ranks c (acc * ni_size x) xs))"
    "digits xs (map ni_rank (set_ranks c (acc * ni_size x) xs)) = (c div (acc * ni_size x)) mod nsize xs"
    using Cons.IH [of "acc * ni_size x"] Cons.prems pos by auto
  have "c div (acc * ni_size x) = c div acc div ni_size x"
    using pos by (intro zdiv_zmult2_eq) simp
  with IH q pos Cons.prems show ?case
    using zmod_zmult2_eq [of "nsize xs" "c div acc" "ni_size x"] nsize_pos [of xs] by auto
qed simp

lemma set_ranks_sizes [simp]:
  "map ni_size (set_ranks c acc xs) = map ni_size xs" "length (set_ranks c acc xs) = length xs"
  by (induction xs arbitrary: acc) auto

lemma nsize_map: "nsize xs = prod_list (map ni_size xs)"
  by (simp add: nsize_def)

lemma digits_sizes: "map ni_size xs = map ni_size ys \<Longrightarrow> digits xs rs = digits ys rs"
proof (induction xs arbitrary: ys rs)
  case (Cons x xs)
  then obtain y ys' where "ys = y # ys'" "ni_size x = ni_size y" "map ni_size xs = map ni_size ys'"
    by (cases ys) auto
  with Cons.IH show ?case by (cases rs) auto
qed simp

lemma in_dims_sizes: "map ni_size xs = map ni_size ys \<Longrightarrow> in_dims xs rs = in_dims ys rs"
proof (induction xs arbitrary: ys rs)
  case (Cons x xs)
  then obtain y ys' where "ys = y # ys'" "ni_size x = ni_size y" "map ni_size xs = map ni_size ys'"
    by (cases ys) auto
  with Cons.IH show ?case by (cases rs) auto
qed simp

text \<open>The sizes that \<open>_XMP_init_nodes_info\<close> gives to the dimensions.\<close>

definition final_sizes :: "nat \<Rightarrow> int list \<Rightarrow> int \<Rightarrow> bool \<Rightarrow> int list" where
  "final_sizes dim dim_size tot is_static =
     (let ds = map ((!) dim_size) [0..<dim - 1]
      in ds @ [if is_static then dim_size ! (dim - 1) else tot sdiv prod_list ds])"

lemma init_nodes_info_sizes:
  assumes "XMP_init_nodes_info n ds static = Inr m" and "length (n_info n) = n_dim n" "0 < n_dim n"
  shows "map ni_size (n_info m) = final_sizes (n_dim n) ds (n_comm_size n) static"
    "m = n\<lparr>n_info := n_info m\<rparr>"
    "n_is_member n \<Longrightarrow> \<exists>xs. n_info m = set_ranks (n_comm_rank n) 1 xs \<and> map ni_size xs = map ni_size (n_info m)"
proof -
  let ?sizes = "map ((!) ds) [0..<n_dim n - 1]"
  let ?last = "if static then ds ! (n_dim n - 1) else n_comm_size n sdiv prod_list ?sizes"
  let ?infos = "map (\<lambda>(x, s). x\<lparr>ni_size := s\<rparr>) (zip (n_info n) (?sizes @ [?last]))"
  have m: "m = n\<lparr>n_info := if n_is_member n then set_ranks (n_comm_rank n) 1 ?infos else ?infos\<rparr>"
    using assms(1) by (auto simp: XMP_init_nodes_info_def Let_def split: if_splits)
  have len: "length (?sizes @ [?last]) = length (n_info n)" using assms(2,3) by simp
  have "map ni_size ?infos = map snd (zip (n_info n) (?sizes @ [?last]))" by (simp add: case_prod_unfold comp_def)
  also have "\<dots> = ?sizes @ [?last]" using len by (rule map_snd_zip [OF sym])
  finally have s: "map ni_size ?infos = ?sizes @ [?last]" .
  show "map ni_size (n_info m) = final_sizes (n_dim n) ds (n_comm_size n) static"
    using m s by (simp add: final_sizes_def Let_def)
  show "m = n\<lparr>n_info := n_info m\<rparr>" using m by simp
  show "\<exists>xs. n_info m = set_ranks (n_comm_rank n) 1 xs \<and> map ni_size xs = map ni_size (n_info m)"
    if "n_is_member n" using m that by (intro exI [of _ ?infos]) simp
qed

lemma init_nodes_info_total:
  assumes "XMP_init_nodes_info n ds static = Inr m" "length (n_info n) = n_dim n" "0 < n_dim n"
  shows "nsize (n_info m) = n_comm_size n"
proof -
  let ?P = "prod_list (map ((!) ds) [0..<n_dim n - 1])"
  have "?P * (n_comm_size n sdiv ?P) = n_comm_size n" if "n_comm_size n smod ?P = 0"
    using mult_sdiv_smod_eq [of ?P "n_comm_size n"] that by simp
  then show ?thesis
    using assms(1) init_nodes_info_sizes(1) [OF assms]
    by (auto simp: nsize_map final_sizes_def XMP_init_nodes_info_def Let_def split: if_splits)
qed

lemma prod_list_pos: "\<forall>d \<in> set ds. 0 < d \<Longrightarrow> 0 < prod_list ds" for ds :: "int list"
  by (induction ds) auto

lemma init_nodes_info_pos:
  assumes "XMP_init_nodes_info n ds static = Inr m" "length (n_info n) = n_dim n" "0 < n_dim n"
    and "\<forall>i < n_dim n - 1. 0 < ds ! i" and "0 < n_comm_size n"
  shows "\<forall>x \<in> set (n_info m). 0 < ni_size x"
proof -
  let ?ds = "map ((!) ds) [0..<n_dim n - 1]"
  obtain last where s: "map ni_size (n_info m) = ?ds @ [last]"
    using init_nodes_info_sizes(1) [OF assms(1-3)] by (auto simp: final_sizes_def Let_def)
  have P: "0 < prod_list ?ds" using assms(4) by (intro prod_list_pos) auto
  have "prod_list ?ds * last = n_comm_size n"
    using init_nodes_info_total [OF assms(1-3)] s by (simp add: nsize_map)
  with P assms(5) have "0 < last" by (metis zero_less_mult_pos)
  then have "\<forall>d \<in> set (map ni_size (n_info m)). 0 < d" unfolding s using assms(4) by auto
  then show ?thesis by simp
qed

text \<open>
  When \<open>_XMP_init_nodes_info\<close> accepts the sizes of a node set, the number of nodes is the size of the
  communicator, the rank it stores for each dimension is within the size of the dimension, and the linear
  rank of these coordinates is the rank in the communicator. This holds for sizes that are all given
  and for a last size that is computed.
\<close>

theorem init_nodes_info_ranks:
  assumes "XMP_init_nodes_info n ds static = Inr m"
    and "length (n_info n) = n_dim n" and "0 < n_dim n" and "\<forall>i < n_dim n - 1. 0 < ds ! i"
    and "n_is_member n" and "0 \<le> n_comm_rank n" and "n_comm_rank n < n_comm_size n"
  shows "nsize (n_info m) = n_comm_size m \<and> in_dims (n_info m) (map ni_rank (n_info m)) \<and>
    XMP_calc_linear_rank m (map ni_rank (n_info m)) = n_comm_rank m"
proof -
  have tot: "nsize (n_info m) = n_comm_size n" by (rule init_nodes_info_total [OF assms(1-3)])
  have pos: "\<forall>x \<in> set (n_info m). 0 < ni_size x"
    using assms(6,7) by (intro init_nodes_info_pos [OF assms(1-4)]) simp
  obtain xs where xs: "n_info m = set_ranks (n_comm_rank n) 1 xs" "map ni_size xs = map ni_size (n_info m)"
    using init_nodes_info_sizes(3) [OF assms(1-3,5)] by blast
  have m: "m = n\<lparr>n_info := n_info m\<rparr>" by (rule init_nodes_info_sizes(2) [OF assms(1-3)])
  then have same: "n_comm_size m = n_comm_size n" "n_comm_rank m = n_comm_rank n" "n_dim m = n_dim n"
    by (metis nodes.select_convs nodes.surjective nodes.update_convs(12))+
  have "\<forall>d \<in> set (map ni_size xs). 0 < d" unfolding xs(2) using pos by simp
  then have posx: "\<forall>x \<in> set xs. 0 < ni_size x" by simp
  have "nsize xs = n_comm_size n" using tot xs(2) by (simp add: nsize_map)
  with set_ranks_digits [OF posx assms(6), of 1] assms(6,7)
  have "in_dims xs (map ni_rank (n_info m))" "digits xs (map ni_rank (n_info m)) = n_comm_rank n"
    by (simp_all add: xs(1))
  then have "in_dims (n_info m) (map ni_rank (n_info m))" "digits (n_info m) (map ni_rank (n_info m)) = n_comm_rank n"
    using in_dims_sizes [OF xs(2)] digits_sizes [OF xs(2)] by simp_all
  moreover have "length (n_info m) = n_dim m"
    using init_nodes_info_sizes(1) [OF assms(1-3)] assms(3) same(3)
    by (metis final_sizes_def length_append_singleton length_map length_upt Suc_diff_1 diff_zero)
  ultimately show ?thesis
    using tot same by (simp add: XMP_calc_linear_rank_def linear_rank_loop_digits)
qed

theorem init_nodes_info_ranks_witness:
  "\<exists>m. XMP_init_nodes_info p23 [2] False = Inr m \<and> nsize (n_info m) = n_comm_size m \<and>
    in_dims (n_info m) (map ni_rank (n_info m)) \<and>
    XMP_calc_linear_rank m (map ni_rank (n_info m)) = n_comm_rank m"
proof -
  obtain m where m: "XMP_init_nodes_info p23 [2] False = Inr m"
    by (simp add: XMP_init_nodes_info_def p23_def)
  then show ?thesis using init_nodes_info_ranks [OF m] by (simp add: p23_def)
qed

subsection \<open>Stepping through the nodes\<close>

lemma next_rank_digits:
  "in_dims xs rs \<Longrightarrow> case next_rank (zip xs rs) of (qs, b) \<Rightarrow> in_dims xs qs \<and>
     (if b then digits xs qs = digits xs rs + 1
      else digits xs rs = nsize xs - 1 \<and> qs = replicate (length xs) 0)"
proof (induction xs arbitrary: rs)
  case (Cons x xs)
  obtain r rs' where rs: "rs = r # rs'" "0 \<le> r" "r < ni_size x" "in_dims xs rs'"
    using Cons.prems by (auto simp: in_dims_Cons)
  have len: "map snd (zip xs rs') = rs'" using in_dims_length [OF rs(4)] by simp
  obtain qs b where q: "next_rank (zip xs rs') = (qs, b)" by (cases "next_rank (zip xs rs')")
  have IH: "in_dims xs qs" "b \<Longrightarrow> digits xs qs = digits xs rs' + 1"
    "\<not> b \<Longrightarrow> digits xs rs' = nsize xs - 1 \<and> qs = replicate (length xs) 0"
    using Cons.IH [OF rs(4)] q by auto
  show ?case
  proof (cases "r + 1 = ni_size x")
    case True
    then have size: "ni_size x = r + 1" by simp
    show ?thesis
    proof (cases b)
      case True
      then show ?thesis using rs(1,2,4) size q IH(1,2) by (simp add: algebra_simps)
    next
      case False
      then have n: "nsize xs = digits xs rs' + 1" "qs = replicate (length xs) 0" using IH(3) by auto
      show ?thesis using rs(1,2,4) size q IH(1) False unfolding n(2) by (simp add: n(1) algebra_simps)
    qed
  next
    case False
    then show ?thesis using rs len by simp
  qed
qed simp

text \<open>
  \<open>_XMP_get_next_rank\<close> steps through the nodes in the order of their linear ranks: where it
  returns true the linear rank grows by one, and it returns false exactly at the last node, where the
  coordinates start again at zero.
\<close>

theorem get_next_rank_step:
  assumes "nodes_wf n" and "rs \<in> coords n"
  shows "case XMP_get_next_rank n rs of (qs, b) \<Rightarrow> qs \<in> coords n \<and>
     (b \<longleftrightarrow> XMP_calc_linear_rank n rs < nsize (n_info n) - 1) \<and>
     XMP_calc_linear_rank n qs = (if b then XMP_calc_linear_rank n rs + 1 else 0)"
proof -
  have r: "in_dims (n_info n) rs" using assms(2) by (simp add: coords_def)
  obtain qs b where q: "XMP_get_next_rank n rs = (qs, b)" by (cases "XMP_get_next_rank n rs")
  have z: "next_rank (zip (n_info n) rs) = (qs, b)" using q assms(1) by (simp add: XMP_get_next_rank_def nodes_wf_def)
  have zero: "digits xs (replicate (length xs) 0) = 0" for xs by (induction xs) auto
  have spec: "in_dims (n_info n) qs" "if b then digits (n_info n) qs = digits (n_info n) rs + 1
      else digits (n_info n) rs = nsize (n_info n) - 1 \<and> qs = replicate (length (n_info n)) 0"
    using next_rank_digits [OF r] z by auto
  have "b \<longleftrightarrow> digits (n_info n) rs < nsize (n_info n) - 1"
    using spec digits_range [OF spec(1)] by (cases b) auto
  with q spec assms(1) zero show ?thesis by (cases b) (simp_all add: coords_def linear_rank_digits)
qed

theorem get_next_rank_step_witness:
  "case XMP_get_next_rank p23 [1, 1] of (qs, b) \<Rightarrow> qs \<in> coords p23 \<and>
     (b \<longleftrightarrow> XMP_calc_linear_rank p23 [1, 1] < nsize (n_info p23) - 1) \<and>
     XMP_calc_linear_rank p23 qs = (if b then XMP_calc_linear_rank p23 [1, 1] + 1 else 0)"
  by (rule get_next_rank_step [OF p23_wf]) (simp add: coords_def p23_def)

subsection \<open>Colours of sub-communicators\<close>

fun mask :: "bool list \<Rightarrow> int list \<Rightarrow> int list" where
  "mask (b # bs) (r # rs) = (if b then r else 0) # mask bs rs"
| "mask _ _ = []"

lemma mask_in_dims: "in_dims xs rs \<Longrightarrow> length bs = length xs \<Longrightarrow> in_dims xs (mask bs rs)"
proof (induction xs arbitrary: rs bs)
  case (Cons x xs)
  then obtain b bs' where "bs = b # bs'" by (cases bs) auto
  with Cons show ?case by (auto simp: in_dims_Cons)
qed simp

lemma mask_eq_iff:
  "length rs = length bs \<Longrightarrow> length qs = length bs \<Longrightarrow>
   (mask bs rs = mask bs qs) = (\<forall>i < length bs. bs ! i \<longrightarrow> rs ! i = qs ! i)"
proof (induction bs arbitrary: rs qs)
  case (Cons b bs)
  obtain r rs' q qs' where "rs = r # rs'" "qs = q # qs'" using Cons.prems by (cases rs; cases qs) auto
  with Cons show ?case by (auto simp: All_less_Suc2)
qed simp

lemma subcomm_color_digits:
  "length bs = length xs \<Longrightarrow> subcomm_color a c (zip xs bs) = c + a * digits xs (mask bs (map ni_rank xs))"
proof (induction xs arbitrary: a c bs)
  case (Cons x xs)
  then obtain b bs' where "bs = b # bs'" by (cases bs) auto
  with Cons show ?case by (simp add: algebra_simps)
qed simp

text \<open>
  Two processes of a node set get the same colour for a sub-communicator exactly when they have the
  same rank in every dimension that the sub-communicator fixes. So \<open>MPI_Comm_split\<close> in
  \<open>create_subcomm\<close> puts into one communicator the nodes of one section.
\<close>

theorem subcomm_color_section:
  assumes "nodes_wf n" and "nodes_wf m" and "map ni_size (n_info n) = map ni_size (n_info m)"
    and "in_dims (n_info n) (map ni_rank (n_info n))" and "in_dims (n_info m) (map ni_rank (n_info m))"
    and "length shrink = n_dim n"
  shows "get_subcomm_color n shrink = get_subcomm_color m shrink \<longleftrightarrow>
    (\<forall>i < n_dim n. shrink ! i \<longrightarrow> ni_rank (n_info n ! i) = ni_rank (n_info m ! i))"
proof -
  let ?xs = "n_info n" and ?ys = "n_info m"
  have len: "length ?ys = length ?xs" using assms(3) by (metis length_map)
  have dims: "n_dim n = length ?xs" "n_dim m = length ?ys" using assms(1,2) by (simp_all add: nodes_wf_def)
  have "get_subcomm_color n shrink = get_subcomm_color m shrink \<longleftrightarrow>
      digits ?xs (mask shrink (map ni_rank ?xs)) = digits ?ys (mask shrink (map ni_rank ?ys))"
    using assms(6) len dims by (simp add: get_subcomm_color_def subcomm_color_digits)
  also have "\<dots> \<longleftrightarrow> digits ?xs (mask shrink (map ni_rank ?xs)) = digits ?xs (mask shrink (map ni_rank ?ys))"
    by (simp add: digits_sizes [OF assms(3)])
  also have "\<dots> \<longleftrightarrow> mask shrink (map ni_rank ?xs) = mask shrink (map ni_rank ?ys)"
    using digits_inj [of ?xs] mask_in_dims [OF assms(4)] mask_in_dims [of ?xs "map ni_rank ?ys"]
      assms(5,6) dims in_dims_sizes [OF assms(3)] by (metis (full_types))
  also have "\<dots> \<longleftrightarrow> (\<forall>i < n_dim n. shrink ! i \<longrightarrow> ni_rank (?xs ! i) = ni_rank (?ys ! i))"
    using assms(6) len dims by (subst mask_eq_iff) auto
  finally show ?thesis .
qed

theorem subcomm_color_section_witness:
  "get_subcomm_color p23 [True, False] =
     get_subcomm_color (p23\<lparr>n_info := [\<lparr>ni_size = 2, ni_rank = 1, ni_multiplier = 1\<rparr>, \<lparr>ni_size = 3, ni_rank = 0, ni_multiplier = 2\<rparr>]\<rparr>) [True, False] \<longleftrightarrow>
   (\<forall>i < n_dim p23. [True, False] ! i \<longrightarrow> ni_rank (n_info p23 ! i) = ni_rank (
      [\<lparr>ni_size = 2, ni_rank = 1, ni_multiplier = 1\<rparr>, \<lparr>ni_size = 3, ni_rank = 0, ni_multiplier = 2\<rparr>] ! i))"
  using subcomm_color_section [of p23 "p23\<lparr>n_info := [\<lparr>ni_size = 2, ni_rank = 1, ni_multiplier = 1\<rparr>, \<lparr>ni_size = 3, ni_rank = 0, ni_multiplier = 2\<rparr>]\<rparr>" "[True, False]"]
  by (simp add: p23_def nodes_wf_def mults_ok_def less_Suc_eq)

subsection \<open>Node sets that name a section of another set\<close>

text \<open>
  The coordinates of the nodes that a reference names, seen from a node: those of the node itself in
  the dimensions marked \<open>*\<close> and those of the triplets elsewhere.
\<close>

fun in_section :: "nodes_info list \<Rightarrow> bool list \<Rightarrow> (int \<times> int \<times> int) list \<Rightarrow> int list \<Rightarrow> bool" where
  "in_section [] [] [] [] = True"
| "in_section (x # xs) (b # bs) ((l, u, s) # refs) (r # rs) =
     (0 \<le> r \<and> r < ni_size x \<and> (if b then r = ni_rank x else r + 1 \<in> ref_set l u s) \<and> in_section xs bs refs rs)"
| "in_section _ _ _ _ = False"

lemma in_section_Cons:
  "{rs. in_section (x # xs) (b # bs) ((l, u, s) # refs) rs} =
   (\<lambda>(r, rs). r # rs) ` ({r. 0 \<le> r \<and> r < ni_size x \<and> (if b then r = ni_rank x else r + 1 \<in> ref_set l u s)} \<times>
     {rs. in_section xs bs refs rs})"
proof (intro set_eqI iffI)
  fix ys assume "ys \<in> {rs. in_section (x # xs) (b # bs) ((l, u, s) # refs) rs}"
  then show "ys \<in> (\<lambda>(r, rs). r # rs) ` ({r. 0 \<le> r \<and> r < ni_size x \<and> (if b then r = ni_rank x else r + 1 \<in> ref_set l u s)} \<times>
     {rs. in_section xs bs refs rs})"
    by (cases ys) (auto split: if_splits)
qed auto

lemma card_in_section_Cons:
  "card {rs. in_section (x # xs) (b # bs) ((l, u, s) # refs) rs} =
   card {r. 0 \<le> r \<and> r < ni_size x \<and> (if b then r = ni_rank x else r + 1 \<in> ref_set l u s)} *
   card {rs. in_section xs bs refs rs}"
  unfolding in_section_Cons by (subst card_image) (auto simp: inj_on_def card_cartesian_product)

lemma card_validated:
  assumes "XMP_validate_nodes_ref l u s sz = Inr (l', u', s')"
  shows "int (card {r. 0 \<le> r \<and> r < sz \<and> r + 1 \<in> ref_set l u s}) = XMP_M_COUNT_TRIPLETi l' u' s'"
proof -
  note v = validate_nodes_ref_spec [OF assms]
  have "{r. 0 \<le> r \<and> r < sz \<and> r + 1 \<in> ref_set l u s} = trip l' u' s'"
    using v(2,4) by (auto simp: v(6) [symmetric] mem_trip)
  then show ?thesis using v(1,3) by (simp add: card_trip XMP_M_COUNT_TRIPLETi_def XMP_M_FLOORi_def)
qed

lemma named_loop_section:
  "named_loop a c m0 (zip xs (zip bs refs)) = Inr (c', m', refs') \<Longrightarrow> length bs = length xs \<Longrightarrow>
   length refs = length xs \<Longrightarrow> in_dims xs (map ni_rank xs) \<Longrightarrow>
   (m' \<longleftrightarrow> m0 \<and> in_section xs bs refs (map ni_rank xs)) \<and> length refs' = length xs \<and>
   named_comm_size bs refs' = int (card {rs. in_section xs bs refs rs}) \<and>
   c' = subcomm_color a c (zip xs bs)"
proof (induction xs arbitrary: a c m0 bs refs c' m' refs')
  case Nil
  have "{rs. in_section [] [] [] rs} = {[]}" by (auto elim: in_section.elims)
  with Nil show ?case by (simp add: named_comm_size_def)
next
  case (Cons x xs)
  obtain b bs' where bs: "bs = b # bs'" "length bs' = length xs" using Cons.prems(2) by (cases bs) auto
  obtain l u s refs1 where refs: "refs = (l, u, s) # refs1" "length refs1 = length xs"
    using Cons.prems(3) by (cases refs) auto
  have dims: "0 \<le> ni_rank x" "ni_rank x < ni_size x" "in_dims xs (map ni_rank xs)" using Cons.prems(4) by auto
  show ?case
  proof (cases b)
    case True
    with Cons.prems(1) bs refs obtain refs2 where l:
      "named_loop (a * ni_size x) (c + a * ni_rank x) m0 (zip xs (zip bs' refs1)) = Inr (c', m', refs2)"
      "refs' = (l, u, s) # refs2" by (auto simp: bind_res_eq_Inr)
    have one: "{r. 0 \<le> r \<and> r < ni_size x \<and> r = ni_rank x} = {ni_rank x}" using dims by auto
    from Cons.IH [OF l(1) bs(2) refs(2) dims(3)] show ?thesis
      using True bs refs l(2) dims by (auto simp: card_in_section_Cons one named_comm_size_def)
  next
    case False
    with Cons.prems(1) bs refs obtain l' u' s' refs2 where l:
      "XMP_validate_nodes_ref l u s (ni_size x) = Inr (l', u', s')"
      "named_loop (a * ni_size x) c (m0 \<and> XMP_check_nodes_ref_inclusion l' u' s' (ni_size x) (ni_rank x))
         (zip xs (zip bs' refs1)) = Inr (c', m', refs2)"
      "refs' = (l', u', s') # refs2" by (auto simp: bind_res_eq_Inr)
    have mem: "XMP_check_nodes_ref_inclusion l' u' s' (ni_size x) (ni_rank x) \<longleftrightarrow> ni_rank x + 1 \<in> ref_set l u s"
      using validate_nodes_ref_spec(6) [OF l(1)] by (simp add: inclusion_trip)
    from Cons.IH [OF l(2) bs(2) refs(2) dims(3)] show ?thesis
      using False bs refs l(3) dims mem card_validated [OF l(1)]
      by (auto simp: card_in_section_Cons named_comm_size_def)
  qed
qed

lemma init_nodes_info_only: "XMP_init_nodes_info n ds static = Inr m \<Longrightarrow> \<exists>xs. m = n\<lparr>n_info := xs\<rparr>"
  by (auto simp: XMP_init_nodes_info_def Let_def split: if_splits)

lemma create_new_nodes_Inr:
  assumes "XMP_create_new_nodes env b d sz c st = Inr (n, st')"
  shows "n_is_member n = b \<and> n_dim n = d \<and> n_comm_size n = sz \<and> n_comm n = c \<and> (b \<longrightarrow> csize env c = sz) \<and>
    length (n_info n) = d \<and> nodes_heap st' = nodes_heap st \<and> next_ptr st' = next_ptr st"
  using assms
  by (auto simp: XMP_create_new_nodes_def XMP_get_on_ref_id_def andthen_eq_Inr Let_def split: if_splits)

text \<open>
  C32. When a member of a node set makes a node set from a reference to it
  (\<open>_XMP_init_nodes_struct_NODES_NAMED\<close>), the descriptor says that the process is a member exactly
  when its coordinates are in the section that the reference names, and its size is the number of
  nodes of the section. The communicator of a member has that many processes.
\<close>

theorem nodes_named_section:
  assumes "XMP_init_nodes_struct_NODES_NAMED env dim ref_p shrink refs dim_size static st = Inr ((p, refs'), st')"
    and "nodes_heap st ref_p = Some n" and "nodes_wf n" and "n_is_member n"
    and "in_dims (n_info n) (map ni_rank (n_info n))"
    and "length shrink = n_dim n" and "length refs = n_dim n"
  shows "\<exists>m. nodes_heap st' p = Some m \<and> n_inherit_nodes m = Some ref_p \<and>
    (n_is_member m \<longleftrightarrow> in_section (n_info n) shrink refs (map ni_rank (n_info n))) \<and>
    n_comm_size m = int (card {rs. in_section (n_info n) shrink refs rs}) \<and>
    (n_is_member m \<longrightarrow> csize env (n_comm m) = n_comm_size m)"
proof -
  have dim: "n_dim n = length (n_info n)" using assms(3) by (simp add: nodes_wf_def)
  from assms(1,2,4) obtain c m refs1 comm k st1 k1 where
    loop: "named_loop 1 1 True (zip (take (n_dim n) (n_info n)) (zip shrink refs)) = Inr (c, m, refs1)"
    and k: "XMP_create_new_nodes env m dim (named_comm_size shrink refs1) comm st = Inr (k, st1)"
    and i: "\<exists>inh us. XMP_init_nodes_info (k\<lparr>n_inherit_nodes := Some ref_p, n_inherit_info := inh,
        n_attr := EQUIVALENCE_NODES, n_use_subcomm := us\<rparr>) dim_size static = Inr k1"
    and p: "new_nodes (set_multipliers k1 dim_size) st1 = Inr (p, st')"
    unfolding XMP_init_nodes_struct_NODES_NAMED_def Let_def
    by (auto elim!: andthenE simp: lift_eq_Inr deref_def bind_res_eq_Inr) blast
  note s = named_loop_section [OF loop [unfolded dim take_all_iff [THEN iffD2, OF le_refl]]]
  note kk = create_new_nodes_Inr [OF k]
  obtain inh us xs where k1: "k1 = k\<lparr>n_inherit_nodes := Some ref_p, n_inherit_info := inh,
        n_attr := EQUIVALENCE_NODES, n_use_subcomm := us, n_info := xs\<rparr>"
    using i init_nodes_info_only by fastforce
  have "nodes_heap st' p = Some (set_multipliers k1 dim_size)" using p by (auto simp: new_nodes_def)
  then show ?thesis using k1 kk s assms(5-7) dim by (simp add: set_multipliers_def)
qed

text \<open>An environment and a state around the example, where every communicator has \<open>k\<close> processes.\<close>

definition env_k :: "int \<Rightarrow> xmp_env" where
  "env_k k = \<lparr>csize = (\<lambda>c. k), crank = (\<lambda>c. 0), node_size_env = (\<lambda>i. None), junk_nodes = p23,
     junk_info = \<lparr>ni_size = 0, ni_rank = 0, ni_multiplier = 0\<rparr>,
     junk_inherit = \<lparr>ii_shrink = False, ii_lower = 0, ii_upper = 0, ii_stride = 0, ii_size = 0\<rparr>,
     junk_task = \<lparr>td_nodes = None, td_execute = False, td_on_ref_id = 0, td_ref_lower = replicate 7 0,
       td_ref_upper = replicate 7 0, td_ref_stride = replicate 7 0\<rparr>\<rparr>"

definition st_p23 :: xmp_state where
  "st_p23 = \<lparr>on_ref_id_count = 5, nodes_heap = [1 \<mapsto> p23], next_ptr = 2, nodes_stack = [1], world_size = 6,
     world_rank = 5, world_nodes = None, freed_comms = []\<rparr>"

theorem nodes_named_section_witness:
  "\<exists>p refs' st' m. XMP_init_nodes_struct_NODES_NAMED (env_k 2) 1 1 [True, False] [(0, 0, - 1), (2, 3, 1)] [2] True st_p23 =
      Inr ((p, refs'), st') \<and> nodes_heap st' p = Some m \<and> n_inherit_nodes m = Some 1 \<and>
    (n_is_member m \<longleftrightarrow> in_section (n_info p23) [True, False] [(0, 0, - 1), (2, 3, 1)] (map ni_rank (n_info p23))) \<and>
    n_comm_size m = int (card {rs. in_section (n_info p23) [True, False] [(0, 0, - 1), (2, 3, 1)] rs}) \<and>
    (n_is_member m \<longrightarrow> csize (env_k 2) (n_comm m) = n_comm_size m)"
proof -
  let ?call = "XMP_init_nodes_struct_NODES_NAMED (env_k 2) 1 1 [True, False] [(0, 0, - 1), (2, 3, 1)] [2] True st_p23"
  have "is_ok ?call" by code_simp
  then obtain p refs' st' where call: "?call = Inr ((p, refs'), st')" by (auto dest!: is_okD)
  from nodes_named_section [OF call, of p23] call show ?thesis
    using p23_wf by (auto simp: st_p23_def p23_def)
qed

subsection \<open>Strided references and sub-communicators\<close>

text \<open>A node set \<open>p(4)\<close> with its sub-communicators, on node 0, and the sizes MPI gives to its communicators.\<close>

primrec comm_procs :: "int \<Rightarrow> comm \<Rightarrow> int" where
  "comm_procs k World = k"
| "comm_procs k Self = 1"
| "comm_procs k (Dup c) = comm_procs k c"
| "comm_procs k (Split c color key) = comm_procs k c"

definition p4 :: nodes where
  "p4 = \<lparr>n_on_ref_id = 1, n_is_member = True, n_dim = 1, n_comm_size = 4, n_attr = ENTIRE_NODES,
     n_comm_rank = 0, n_comm = Dup World, n_subcomm = [Dup (Dup World), Dup Self], n_use_subcomm = False,
     n_inherit_nodes = None, n_inherit_info = [], n_info = [\<lparr>ni_size = 4, ni_rank = 0, ni_multiplier = 1\<rparr>]\<rparr>"

definition st_p4 :: xmp_state where
  "st_p4 = \<lparr>on_ref_id_count = 5, nodes_heap = [1 \<mapsto> p4], next_ptr = 2, nodes_stack = [1], world_size = 4,
     world_rank = 0, world_nodes = Some 1, freed_comms = []\<rparr>"

text \<open>
  \<open>check_subcomm\<close> and \<open>get_subcomm\<close> take the number of nodes of a triplet to be
  \<open>(upper - lower + 1) / stride\<close>. For the reference \<open>p(1:3:2)\<close> to \<open>p(4)\<close>, which names two nodes,
  this is 1: the communicator of the single process is chosen, and the call ends the program.
\<close>

theorem strided_ref_fatal:
  "XMP_init_nodes_struct_NODES_NAMED ((env_k 4)\<lparr>csize := comm_procs 4\<rparr>) 1 1 [False] [(1, 3, 2)] [2] True st_p4 =
     Inl (Fatal ''cannot create a new nodes descriptor: communicator size is not correct'')"
proof -
  let ?call = "XMP_init_nodes_struct_NODES_NAMED ((env_k 4)\<lparr>csize := comm_procs 4\<rparr>) 1 1 [False] [(1, 3, 2)] [2] True st_p4"
  have "(case ?call of Inl e \<Rightarrow> e = Fatal ''cannot create a new nodes descriptor: communicator size is not correct''
      | Inr x \<Rightarrow> False)"
    by code_simp
  then show ?thesis by (cases ?call) auto
qed

subsection \<open>Tasks\<close>

text \<open>
  \<open>_XMP_exec_task_GLOBAL_PART\<close> remembers the reference of a task counted from 1, and
  \<open>_XMP_compare_task_exec_cond\<close> expects it counted from 0. After a task on the nodes \<open>l:u:s\<close> a task
  on the nodes \<open>(l+1):(u+1):s\<close> is taken for the same one, and runs on the node set of the first.
\<close>

theorem global_part_wrong_reuse:
  assumes "world_nodes st = Some w" and "nodes_heap st w = Some n" and "n_dim n = 1"
  shows "XMP_exec_task_GLOBAL_PART env (Some (XMP_set_task_desc d p True n [(l, u, s)])) (l + 1) (u + 1) s st =
    Inr ((True, XMP_set_task_desc d p True n [(l, u, s)]), st\<lparr>nodes_stack := p # nodes_stack st\<rparr>)"
  using assms
  by (simp add: XMP_exec_task_GLOBAL_PART_def exec_task_with_def andthen_def deref_def XMP_push_nodes_def
      XMP_compare_task_exec_cond_def XMP_set_task_desc_def)

theorem global_part_wrong_reuse_witness:
  "XMP_exec_task_GLOBAL_PART (env_k 4) (Some (XMP_set_task_desc (junk_task (env_k 4)) 7 True p4 [(1, 2, 1)])) (1 + 1) (2 + 1) 1 st_p4 =
    Inr ((True, XMP_set_task_desc (junk_task (env_k 4)) 7 True p4 [(1, 2, 1)]), st_p4\<lparr>nodes_stack := 7 # nodes_stack st_p4\<rparr>)"
  by (rule global_part_wrong_reuse [where w = 1]) (simp_all add: st_p4_def p4_def)

lemma number_dim:
  assumes "XMP_init_nodes_struct_NODES_NUMBER env dim l u s ds b st = Inr (p, st')"
  shows "\<exists>n. nodes_heap st' p = Some n \<and> n_dim n = dim"
proof -
  from assms obtain k st1 k1 sc inh wp where
    k: "\<exists>m sz c. XMP_create_new_nodes env m dim sz c st = Inr (k, st1)"
    and i: "XMP_init_nodes_info (k\<lparr>n_inherit_nodes := wp, n_inherit_info := inh, n_attr := ENTIRE_NODES\<rparr>) ds b = Inr k1"
    and p: "new_nodes ((set_multipliers k1 ds)\<lparr>n_subcomm := sc\<rparr>) st1 = Inr (p, st')"
    unfolding XMP_init_nodes_struct_NODES_NUMBER_def Let_def
    by (auto elim!: andthenE simp: lift_eq_Inr deref_def XMP_get_execution_nodes_def split: list.splits option.splits) blast+
  have "n_dim k = dim" using k create_new_nodes_Inr by blast
  then have "n_dim k1 = dim" using init_nodes_info_only [OF i] by auto
  then show ?thesis using p by (auto simp: new_nodes_def set_multipliers_def)
qed

text \<open>
  \<open>_XMP_exec_task_GLOBAL_PART\<close> passes no address of a rank variable to
  \<open>_XMP_init_nodes_STATIC_NODES_NUMBER\<close>, which stores the rank of the process through one. So no first
  execution of such a task succeeds.
\<close>

theorem global_part_first_call_fails:
  "XMP_exec_task_GLOBAL_PART env None l u s st \<noteq> Inr r"
proof
  assume "XMP_exec_task_GLOBAL_PART env None l u s st = Inr r"
  then obtain st1 sizes p st2 n where
    "XMP_init_nodes_struct_NODES_NUMBER env 1 l u s sizes True st1 = Inr (p, st2)" "nodes_heap st2 p = Some n"
    "is_ok (store_ranks 0 n)"
    unfolding XMP_exec_task_GLOBAL_PART_def exec_task_with_def XMP_init_nodes_STATIC_NODES_NUMBER_def Let_def
    by (auto elim!: andthenE simp: lift_eq_Inr deref_def is_ok_def split: option.splits)
  with number_dim show False by (fastforce simp: store_ranks_def is_ok_def)
qed

subsection \<open>The descriptors in the heap\<close>

text \<open>Descriptors are below the next address, and a node set is made after the one it inherits from.\<close>

definition heap_ok :: "xmp_state \<Rightarrow> bool" where
  "heap_ok st \<longleftrightarrow> (\<forall>p n. nodes_heap st p = Some n \<longrightarrow>
     p < next_ptr st \<and> (\<forall>q. n_inherit_nodes n = Some q \<longrightarrow> q < p))"

lemma heap_ok_new:
  assumes "heap_ok st" "new_nodes n st = Inr (p, st')" "\<forall>q. n_inherit_nodes n = Some q \<longrightarrow> q < next_ptr st"
  shows "heap_ok st'"
  using assms by (auto simp: heap_ok_def new_nodes_def less_Suc_eq split: if_splits)

lemma heap_ok_same:
  "heap_ok st \<Longrightarrow> nodes_heap st' = nodes_heap st \<Longrightarrow> next_ptr st' = next_ptr st \<Longrightarrow> heap_ok st'"
  by (simp add: heap_ok_def)

lemma heap_okD: "heap_ok st \<Longrightarrow> nodes_heap st p = Some n \<Longrightarrow> p < next_ptr st"
  by (simp add: heap_ok_def)

lemma heap_ok_GLOBAL:
  assumes "heap_ok st" "XMP_init_nodes_struct_GLOBAL env dim ds b st = Inr (p, st')"
  shows "heap_ok st'"
proof -
  from assms(2) obtain k st1 k1 sizes b' sc where
    k: "\<exists>c sz. XMP_create_new_nodes env True dim sz c st = Inr (k, st1)"
    and i: "XMP_init_nodes_info (k\<lparr>n_inherit_nodes := None, n_inherit_info := [], n_attr := ENTIRE_NODES\<rparr>) sizes b' = Inr k1"
    and p: "new_nodes ((set_multipliers k1 sizes)\<lparr>n_subcomm := sc\<rparr>) st1 = Inr (p, st')"
    unfolding XMP_init_nodes_struct_GLOBAL_def Let_def by (auto elim!: andthenE simp: lift_eq_Inr) blast
  have "heap_ok st1" using k create_new_nodes_Inr assms(1) by (blast intro: heap_ok_same)
  then show ?thesis using init_nodes_info_only [OF i] by (intro heap_ok_new [OF _ p]) (auto simp: set_multipliers_def)
qed

lemma heap_ok_EXEC:
  assumes "heap_ok st" "XMP_init_nodes_struct_EXEC env dim ds b st = Inr (p, st')"
  shows "heap_ok st'"
proof -
  from assms(2) obtain q e k st1 k1 inh where
    q: "nodes_heap st q = Some e"
    and k: "\<exists>c sz. XMP_create_new_nodes env True dim sz c st = Inr (k, st1)"
    and i: "XMP_init_nodes_info (k\<lparr>n_inherit_nodes := Some q, n_inherit_info := inh, n_attr := EXECUTING_NODES\<rparr>) ds b = Inr k1"
    and p: "new_nodes (set_multipliers k1 ds) st1 = Inr (p, st')"
    unfolding XMP_init_nodes_struct_EXEC_def
    by (auto elim!: andthenE simp: lift_eq_Inr deref_def XMP_get_execution_nodes_def split: option.splits list.splits) blast
  have st1: "heap_ok st1" "next_ptr st1 = next_ptr st"
    using k create_new_nodes_Inr assms(1) by (blast intro: heap_ok_same)+
  have "n_inherit_nodes k1 = Some q" using init_nodes_info_only [OF i] by auto
  then show ?thesis
    using heap_okD [OF assms(1) q] st1(2) by (intro heap_ok_new [OF st1(1) p]) (simp add: set_multipliers_def)
qed

lemma heap_ok_NUMBER:
  assumes "heap_ok st" "XMP_init_nodes_struct_NODES_NUMBER env dim l u s ds b st = Inr (p, st')"
  shows "heap_ok st'"
proof -
  from assms(2) obtain q w k st1 k1 inh sc where
    q: "nodes_heap st1 q = Some w"
    and k: "\<exists>m c sz. XMP_create_new_nodes env m dim sz c st = Inr (k, st1)"
    and i: "XMP_init_nodes_info (k\<lparr>n_inherit_nodes := Some q, n_inherit_info := inh, n_attr := ENTIRE_NODES\<rparr>) ds b = Inr k1"
    and p: "new_nodes ((set_multipliers k1 ds)\<lparr>n_subcomm := sc\<rparr>) st1 = Inr (p, st')"
    unfolding XMP_init_nodes_struct_NODES_NUMBER_def Let_def
    by (auto elim!: andthenE simp: lift_eq_Inr deref_def XMP_get_execution_nodes_def split: option.splits list.splits) blast+
  have st1: "heap_ok st1" using k create_new_nodes_Inr assms(1) by (blast intro: heap_ok_same)
  have "n_inherit_nodes k1 = Some q" using init_nodes_info_only [OF i] by auto
  then show ?thesis using heap_okD [OF st1 q] by (intro heap_ok_new [OF st1 p]) (simp add: set_multipliers_def)
qed

lemma heap_ok_NAMED:
  assumes "heap_ok st" "XMP_init_nodes_struct_NODES_NAMED env dim q sh refs ds b st = Inr ((p, refs'), st')"
  shows "heap_ok st'"
proof -
  from assms(2) obtain e k st1 k1 inh us where
    q: "nodes_heap st q = Some e"
    and k: "\<exists>m c sz. XMP_create_new_nodes env m dim sz c st = Inr (k, st1)"
    and i: "XMP_init_nodes_info (k\<lparr>n_inherit_nodes := Some q, n_inherit_info := inh, n_attr := EQUIVALENCE_NODES,
        n_use_subcomm := us\<rparr>) ds b = Inr k1"
    and p: "new_nodes (set_multipliers k1 ds) st1 = Inr (p, st')"
    unfolding XMP_init_nodes_struct_NODES_NAMED_def Let_def
    by (auto elim!: andthenE simp: lift_eq_Inr deref_def split: option.splits) blast
  have st1: "heap_ok st1" "next_ptr st1 = next_ptr st"
    using k create_new_nodes_Inr assms(1) by (blast intro: heap_ok_same)+
  have "n_inherit_nodes k1 = Some q" using init_nodes_info_only [OF i] by auto
  then show ?thesis
    using heap_okD [OF assms(1) q] st1(2) by (intro heap_ok_new [OF st1(1) p]) (simp add: set_multipliers_def)
qed

lemma heap_ok_finalize: "heap_ok st \<Longrightarrow> XMP_finalize_nodes p st = Inr (r, st') \<Longrightarrow> heap_ok st'"
  by (auto simp: XMP_finalize_nodes_def XMP_finalize_comm_def free_nodes_def heap_ok_def deref_def
      elim!: andthenE split: if_splits option.splits)

lemma heap_ok_stack:
  "heap_ok st \<Longrightarrow> XMP_push_nodes p st = Inr (r, st') \<Longrightarrow> heap_ok st'"
  "heap_ok st \<Longrightarrow> XMP_pop_nodes st = Inr (r, st') \<Longrightarrow> heap_ok st'"
  by (auto simp: XMP_push_nodes_def XMP_pop_nodes_def heap_ok_def split: list.splits)

lemma heap_ok_world:
  assumes "heap_ok st" "XMP_init_world env st = Inr (r, st')"
  shows "heap_ok st'"
proof -
  from assms(2) obtain k st1 x p st2 where
    k: "\<exists>sz c. XMP_create_new_nodes env True 1 sz c st = Inr (k, st1)"
    and p: "new_nodes (k\<lparr>n_info := [x], n_inherit_nodes := None, n_inherit_info := [], n_attr := ENTIRE_NODES\<rparr>) st1 = Inr (p, st2)"
    and e: "nodes_heap st' = nodes_heap st2" "next_ptr st' = next_ptr st2"
    unfolding XMP_init_world_def XMP_create_nodes_by_comm_def Let_def
    by (auto elim!: andthenE simp: XMP_push_nodes_def) blast
  have "heap_ok st1" using k create_new_nodes_Inr assms(1) by (blast intro: heap_ok_same)
  then have "heap_ok st2" by (rule heap_ok_new [OF _ p]) simp
  then show ?thesis using e by (rule heap_ok_same)
qed

text \<open>The operations on node sets that the compiler calls, as steps of the library.\<close>

inductive nodes_step :: "xmp_env \<Rightarrow> xmp_state \<Rightarrow> xmp_state \<Rightarrow> bool" for env where
  step_GLOBAL: "XMP_init_nodes_struct_GLOBAL env dim ds b st = Inr (p, st') \<Longrightarrow> nodes_step env st st'"
| step_EXEC: "XMP_init_nodes_struct_EXEC env dim ds b st = Inr (p, st') \<Longrightarrow> nodes_step env st st'"
| step_NUMBER: "XMP_init_nodes_struct_NODES_NUMBER env dim l u s ds b st = Inr (p, st') \<Longrightarrow> nodes_step env st st'"
| step_NAMED: "XMP_init_nodes_struct_NODES_NAMED env dim q sh refs ds b st = Inr (r, st') \<Longrightarrow> nodes_step env st st'"
| step_finalize: "XMP_finalize_nodes p st = Inr (r, st') \<Longrightarrow> nodes_step env st st'"
| step_world: "XMP_init_world env st = Inr (r, st') \<Longrightarrow> nodes_step env st st'"
| step_push: "XMP_push_nodes p st = Inr (r, st') \<Longrightarrow> nodes_step env st st'"
| step_pop: "XMP_pop_nodes st = Inr (r, st') \<Longrightarrow> nodes_step env st st'"

inductive nodes_run :: "xmp_env \<Rightarrow> xmp_state \<Rightarrow> xmp_state \<Rightarrow> bool" for env where
  run_refl: "nodes_run env st st"
| run_step: "nodes_run env st st' \<Longrightarrow> nodes_step env st' st'' \<Longrightarrow> nodes_run env st st''"

lemma nodes_step_heap_ok: "nodes_step env st st' \<Longrightarrow> heap_ok st \<Longrightarrow> heap_ok st'"
proof (induction rule: nodes_step.induct)
  case (step_NAMED dim q sh refs ds b st r st')
  then show ?case by (cases r) (auto intro: heap_ok_NAMED)
qed (auto intro: heap_ok_GLOBAL heap_ok_EXEC heap_ok_NUMBER heap_ok_finalize heap_ok_stack heap_ok_world)

lemma nodes_run_heap_ok: "nodes_run env st st' \<Longrightarrow> heap_ok st \<Longrightarrow> heap_ok st'"
  by (induction rule: nodes_run.induct) (auto intro: nodes_step_heap_ok)

lemma target_rank_returns_heap:
  assumes "heap_ok st"
  shows "nodes_heap st p = Some n \<Longrightarrow> \<exists>r. XMP_calc_linear_rank_on_target_nodes st n rs target = Some r"
proof (induction p arbitrary: n rs rule: less_induct)
  case (less p)
  have up: "q < p" if "n_inherit_nodes n = Some q" for q using assms less.prems that by (auto simp: heap_ok_def)
  show ?case
  proof (cases "n_inherit_nodes n")
    case None
    then show ?thesis by (subst XMP_calc_linear_rank_on_target_nodes.simps) (auto split: sum.split)
  next
    case (Some q)
    then show ?thesis
      using less.IH [OF up [OF Some]]
      by (subst XMP_calc_linear_rank_on_target_nodes.simps) (auto simp: deref_def split: sum.split option.split)
  qed
qed

text \<open>
  C34. In every state that the operations on node sets reach from the start of the program, with no
  temporary node set among them, \<open>_XMP_calc_linear_rank_on_target_nodes\<close> ends for every descriptor.
\<close>

theorem target_rank_returns:
  assumes "nodes_run env st0 st" and "nodes_heap st0 = (\<lambda>p. None)" and "nodes_heap st p = Some n"
  shows "\<exists>r. XMP_calc_linear_rank_on_target_nodes st n rs target = Some r"
proof -
  have "heap_ok st0" using assms(2) by (simp add: heap_ok_def)
  with assms(1) have "heap_ok st" by (rule nodes_run_heap_ok)
  then show ?thesis using assms(3) by (rule target_rank_returns_heap)
qed

definition st_start :: xmp_state where
  "st_start = \<lparr>on_ref_id_count = 0, nodes_heap = (\<lambda>p. None), next_ptr = 1, nodes_stack = [], world_size = 0,
     world_rank = 0, world_nodes = None, freed_comms = []\<rparr>"

theorem target_rank_returns_witness:
  "\<exists>st p n. nodes_run (env_k 4) st_start st \<and> nodes_heap st p = Some n \<and>
     (\<exists>r. XMP_calc_linear_rank_on_target_nodes st n [0] p4 = Some r)"
proof -
  let ?call = "XMP_init_world (env_k 4) st_start"
  have ok: "case ?call of Inl e \<Rightarrow> False | Inr (u, st) \<Rightarrow> (case nodes_heap st 1 of None \<Rightarrow> False | Some n \<Rightarrow> True)"
    by code_simp
  then obtain u st n where call: "?call = Inr (u, st)" and n: "nodes_heap st 1 = Some n"
    by (auto split: sum.splits option.splits)
  have run: "nodes_run (env_k 4) st_start st" using call by (auto intro: nodes_run.intros nodes_step.intros)
  show ?thesis using target_rank_returns [OF run _ n, of "[0]" p4] run n by (auto simp: st_start_def)
qed

lemma target_rank_loops:
  assumes "nodes_heap st p = Some m" "n_inherit_nodes m = Some p" "XMP_compare_nodes st m target = Inr False"
  shows "XMP_calc_linear_rank_on_target_nodes st m rs target = None"
proof -
  have "\<not> (st = st \<and> m = m \<and> target = target)"
    if "XMP_calc_linear_rank_on_target_nodes st m rs target = Some r" for r
  proof (rule XMP_calc_linear_rank_on_target_nodes.raw_induct
        [where P = "\<lambda>st' m' rs' t' r'. \<not> (st' = st \<and> m' = m \<and> t' = target)", OF _ that], rule notI, elim conjE)
    fix f st' m' rs' t' r'
    assume IH: "\<And>st' m' rs' t' r'. f st' m' rs' t' = Some r' \<Longrightarrow> \<not> (st' = st \<and> m' = m \<and> t' = target)"
      and eqs: "st' = st" "m' = m" "t' = target"
      and body: "(case XMP_compare_nodes st' m' t' of Inl e \<Rightarrow> Some (Inl e)
      | Inr b \<Rightarrow>
          if b then Some (Inr (XMP_calc_linear_rank m' rs'))
          else (case n_inherit_nodes m' of
               None \<Rightarrow> Some (Inl (Fatal ''unsupported case: gmove''))
               | Some p \<Rightarrow>
                   (case deref (Some p) st' of Inl e \<Rightarrow> Some (Inl e)
                   | Inr r \<Rightarrow> f st' (fst r) (inherit_ranks 0 (take (n_dim (fst r)) (n_inherit_info m')) rs') t'))) = Some r'"
    have "f st m (inherit_ranks 0 (take (n_dim m) (n_inherit_info m)) rs') target = Some r'"
      using body assms by (simp add: eqs deref_def)
    with IH show False by blast
  qed
  then show ?thesis by (cases "XMP_calc_linear_rank_on_target_nodes st m rs target") auto
qed

lemma temporary_self:
  assumes "XMP_create_temporary_nodes env q st = Inr (p, st')"
  shows "\<exists>m. nodes_heap st' p = Some m \<and> n_inherit_nodes m = Some p"
proof -
  from assms obtain k st1 ds k1 inh where
    i: "XMP_init_nodes_info (k\<lparr>n_inherit_nodes := Some (next_ptr st1), n_inherit_info := inh\<rparr>) ds True = Inr k1"
    and p: "new_nodes (set_multipliers k1 ds) st1 = Inr (p, st')"
    unfolding XMP_create_temporary_nodes_def Let_def
    by (auto elim!: andthenE simp: lift_eq_Inr)
  then show ?thesis using init_nodes_info_only [OF i] by (auto simp: new_nodes_def set_multipliers_def)
qed

text \<open>
  C37. A temporary node set (\<open>_XMP_create_temporary_nodes\<close>) inherits from itself. The search of
  \<open>_XMP_calc_linear_rank_on_target_nodes\<close> that starts at it therefore does not end for the targets that
  \<open>_XMP_compare_nodes\<close> does not take the set for, and it ends at once for the others.
\<close>

theorem temporary_nodes_diverge:
  assumes "XMP_create_temporary_nodes env q st = Inr (p, st')"
  shows "\<exists>m. nodes_heap st' p = Some m \<and> n_inherit_nodes m = Some p \<and>
    (XMP_calc_linear_rank_on_target_nodes st' m rs target = None \<longleftrightarrow> XMP_compare_nodes st' m target = Inr False)"
proof -
  obtain m where m: "nodes_heap st' p = Some m" "n_inherit_nodes m = Some p" using temporary_self [OF assms] by blast
  have "XMP_calc_linear_rank_on_target_nodes st' m rs target \<noteq> None" if "XMP_compare_nodes st' m target \<noteq> Inr False"
    using that by (subst XMP_calc_linear_rank_on_target_nodes.simps) (auto split: sum.split)
  with m target_rank_loops [OF m, of target rs] show ?thesis by (intro exI [of _ m]) blast
qed

theorem temporary_nodes_diverge_witness:
  "\<exists>p st' m. XMP_create_temporary_nodes (env_k 6) 1 st_p23 = Inr (p, st') \<and> nodes_heap st' p = Some m \<and> n_inherit_nodes m = Some p \<and>
     XMP_compare_nodes st' m (p23\<lparr>n_comm_size := 3, n_dim := 1\<rparr>) = Inr False \<and>
     XMP_calc_linear_rank_on_target_nodes st' m [0, 0] (p23\<lparr>n_comm_size := 3, n_dim := 1\<rparr>) = None"
proof -
  let ?call = "XMP_create_temporary_nodes (env_k 6) 1 st_p23" and ?t = "p23\<lparr>n_comm_size := 3, n_dim := 1\<rparr>"
  have ok: "case ?call of Inl e \<Rightarrow> False | Inr (p, st) \<Rightarrow> (case nodes_heap st p of None \<Rightarrow> False
      | Some n \<Rightarrow> (case XMP_compare_nodes st n ?t of Inl e \<Rightarrow> False | Inr b \<Rightarrow> \<not> b))"
    by code_simp
  then obtain p st n where call: "?call = Inr (p, st)" "nodes_heap st p = Some n"
    by (auto split: sum.split_asm option.split_asm prod.split_asm)
  with ok have "XMP_compare_nodes st n ?t = Inr False" by (cases "XMP_compare_nodes st n ?t") auto
  with call temporary_nodes_diverge [OF call(1), of "[0, 0]" ?t] show ?thesis by auto
qed

subsection \<open>Translating a node reference into ranks\<close>

definition unspecified :: "nat \<Rightarrow> int list \<Rightarrow> nat set" where
  "unspecified d ra = {i. i < d \<and> i < length ra \<and> ra ! i = XMP_N_UNSPECIFIED_RANK}"

lemma unspecified_update: "unspecified d (ra[i := int j]) \<subseteq> unspecified d ra - {i}"
proof
  fix x assume x: "x \<in> unspecified d (ra[i := int j])"
  show "x \<in> unspecified d ra - {i}"
    using x by (cases "x = i") (auto simp: unspecified_def XMP_N_UNSPECIFIED_RANK_def)
qed

lemma finite_unspecified [simp]: "finite (unspecified d ra)"
  by (rule finite_subset [of _ "{..<d}"]) (auto simp: unspecified_def)

lemma translate_ranks_depth:
  "card (unspecified (n_dim n) ra) < fuel \<Longrightarrow> length ra = n_dim n \<Longrightarrow>
   case translate_ranks fuel n ranks off ra sz of
     Inl e \<Rightarrow> e \<noteq> NoReturn
   | Inr (ranks', ra') \<Rightarrow> unspecified (n_dim n) ra' \<subseteq> unspecified (n_dim n) ra \<and> length ra' = n_dim n"
proof (induction fuel arbitrary: ranks off ra sz)
  case (Suc fuel)
  let ?U = "unspecified (n_dim n)"
  let ?inner = "\<lambda>i new_sz. \<lambda>(ranks, ra) j. translate_ranks fuel n ranks (off + int j * new_sz) (ra[i := int j]) new_sz"
  let ?ok = "\<lambda>(ranks' :: int list, ra'). ?U ra' \<subseteq> ?U ra \<and> length ra' = n_dim n"
  have inner: "case fold_res (?inner i new_sz) (ranks1, ra1) js of Inl e \<Rightarrow> e \<noteq> NoReturn | Inr s \<Rightarrow> ?ok s"
    if "?U ra1 \<subseteq> ?U ra" "length ra1 = n_dim n" "i \<in> ?U ra1" for i new_sz ranks1 ra1 js
  proof (rule fold_res_case)
    show "?ok (ranks1, ra1)" using that by simp
  next
    fix s j assume "?ok s"
    obtain ranks2 ra2 where s: "s = (ranks2, ra2)" by (cases s)
    with \<open>?ok s\<close> have ra2: "?U ra2 \<subseteq> ?U ra" "length ra2 = n_dim n" by auto
    have sub: "?U (ra2[i := int j]) \<subseteq> ?U ra - {i}" using unspecified_update [of "n_dim n" ra2 i j] ra2(1) by blast
    have "i \<in> ?U ra" using that(1,3) by blast
    then have "card (?U (ra2[i := int j])) < card (?U ra)"
      using sub by (intro psubset_card_mono) auto
    then have "card (?U (ra2[i := int j])) < fuel" using Suc.prems(1) by simp
    from Suc.IH [OF this, of ranks2 "off + int j * new_sz" new_sz] ra2(2) sub s
    show "case ?inner i new_sz s j of Inl e \<Rightarrow> e \<noteq> NoReturn | Inr s' \<Rightarrow> ?ok s'"
      by (auto split: sum.splits prod.splits)
  qed
  let ?outer = "\<lambda>(flag, ranks, ra) i.
          if ra ! i = XMP_N_UNSPECIFIED_RANK then
            let nodes_size = ni_size (n_info n ! i); new_sz = sz sdiv nodes_size
            in bind_res (fold_res (?inner i new_sz) (ranks, ra) [0..<nat nodes_size]) (\<lambda>(ranks, ra). Inr (False, ranks, ra))
          else Inr (flag, ranks, ra)"
  have outer: "case fold_res ?outer (True, ranks, ra) [0..<n_dim n] of Inl e \<Rightarrow> e \<noteq> NoReturn | Inr s \<Rightarrow> ?ok (snd s)"
  proof (rule fold_res_case)
    show "?ok (snd (True, ranks, ra))" using Suc.prems by simp
  next
    fix s :: "bool \<times> int list \<times> int list" and i assume P: "?ok (snd s)" and i: "i \<in> set [0..<n_dim n]"
    obtain flag ranks1 ra1 where s: "s = (flag, ranks1, ra1)" by (cases s)
    have "i \<in> ?U ra1" if "ra1 ! i = XMP_N_UNSPECIFIED_RANK" using that i P s by (auto simp: unspecified_def)
    with inner [of ra1 i "sz sdiv ni_size (n_info n ! i)" ranks1 "[0..<nat (ni_size (n_info n ! i))]"] P s
    show "case ?outer s i of Inl e \<Rightarrow> e \<noteq> NoReturn | Inr s' \<Rightarrow> ?ok (snd s')"
      by (auto simp: Let_def bind_res_def split: sum.splits prod.splits)
  qed
  then show ?case by (auto simp: bind_res_def put_def split: sum.splits prod.splits)
qed simp

text \<open>
  The depth of the recursion in \<open>_XMP_translate_nodes_rank_array_to_ranks\<close> is never more than the
  number of dimensions: the model does not run out of it for any arguments.
\<close>

theorem translate_ranks_returns:
  assumes "length ra = n_dim n"
  shows "XMP_translate_nodes_rank_array_to_ranks n ranks ra sz \<noteq> Inl NoReturn"
proof -
  have "card (unspecified (n_dim n) ra) \<le> card {..<n_dim n}"
    by (intro card_mono) (auto simp: unspecified_def)
  then have "card (unspecified (n_dim n) ra) < Suc (n_dim n)" by simp
  from translate_ranks_depth [OF this assms, of ranks 0 sz] show ?thesis
    by (auto simp: XMP_translate_nodes_rank_array_to_ranks_def simp del: translate_ranks.simps)
qed

theorem translate_ranks_returns_witness:
  "XMP_translate_nodes_rank_array_to_ranks p23 [0, 0, 0] [1, XMP_N_UNSPECIFIED_RANK] 3 \<noteq> Inl NoReturn"
  by (rule translate_ranks_returns) (simp add: p23_def)

text \<open>
  The rank array is changed in place and not restored, so only the first of two unspecified dimensions is
  stepped through fully: for all nodes of \<open>p(2,3)\<close> the array gets the ranks 0, 2, 4 and 5 in its first
  four places, and its last two places keep what they held.
\<close>

theorem translate_ranks_two_dims:
  "map_sum id fst (XMP_translate_nodes_rank_array_to_ranks p23 [- 9, - 9, - 9, - 9, - 9, - 9]
     [XMP_N_UNSPECIFIED_RANK, XMP_N_UNSPECIFIED_RANK] 6) = Inr [0, 2, 4, 5, - 9, - 9]"
proof -
  let ?call = "XMP_translate_nodes_rank_array_to_ranks p23 [- 9, - 9, - 9, - 9, - 9, - 9]
     [XMP_N_UNSPECIFIED_RANK, XMP_N_UNSPECIFIED_RANK] 6"
  have "case ?call of Inl e \<Rightarrow> False | Inr (ranks, ra) \<Rightarrow> ranks = [0, 2, 4, 5, - 9, - 9]" by code_simp
  then show ?thesis by (auto split: sum.splits prod.splits)
qed

end
