(* ===== verification/Xmp_Template_Laws.thy ===== *)
theory Xmp_Template_Laws
  imports Xmp_Template Xmp_Nodes_Laws
begin

text \<open>
  The distribution of a template: every index has exactly one owner, and the owner computed by
  \<open>_XMP_calc_template_owner_SCALAR\<close> is the node whose chunk has the index.
\<close>

subsection \<open>Chunks\<close>

text \<open>The indices of a dimension that the process has, as the chunk describes them.\<close>

definition chunk_set :: "template_info \<Rightarrow> template_chunk \<Rightarrow> int set" where
  "chunk_set ti c =
     (case dist_manner c of
        DUPLICATION \<Rightarrow> {par_lower c..par_upper c}
      | BLOCK \<Rightarrow> {par_lower c..par_upper c}
      | GBLOCK \<Rightarrow> {par_lower c..par_upper c}
      | CYCLIC \<Rightarrow> trip (par_lower c) (par_upper c) (par_stride c)
      | BLOCK_CYCLIC \<Rightarrow> {g. par_lower c \<le> g \<and> g \<le> min (ser_upper ti) (par_upper c + par_width c - 1) \<and>
                           (g - par_lower c) mod par_stride c < par_width c}
      | UNKNOWN_DIST \<Rightarrow> {})"

definition owned :: "template \<Rightarrow> nat \<Rightarrow> int set" where
  "owned t i = (if t_is_owner t then chunk_set (t_info t ! i) (t_chunk t ! i) else {})"

text \<open>The node set as the process with rank \<open>r\<close> in dimension \<open>k\<close> sees it.\<close>

definition at_rank :: "nodes \<Rightarrow> nat \<Rightarrow> int \<Rightarrow> nodes" where
  "at_rank n k r = n\<lparr>n_info := (n_info n)[k := (n_info n ! k)\<lparr>ni_rank := r\<rparr>]\<rparr>"

text \<open>Bounds that fit in an \<open>int\<close>, and a node set that the process belongs to.\<close>

definition dist_ok :: "nodes \<times> template \<times> nat \<times> nat \<Rightarrow> bool" where
  "dist_ok d \<longleftrightarrow> (case d of (n, t, i, k) \<Rightarrow>
     i < length (t_info t) \<and> i < length (t_chunk t) \<and> k < length (n_info n) \<and> n_is_member n \<and> t_is_owner t \<and>
     fits32 (ser_lower (t_info t ! i)) \<and> fits32 (ser_upper (t_info t ! i)) \<and>
     ser_lower (t_info t ! i) \<le> ser_upper (t_info t ! i) \<and>
     ser_size (t_info t ! i) = ser_upper (t_info t ! i) - ser_lower (t_info t ! i) + 1 \<and>
     0 < ni_size (n_info n ! k) \<and> fits32 (ni_size (n_info n ! k)))"

definition dist_space :: "nodes \<times> template \<times> nat \<times> nat \<Rightarrow> int set" where
  "dist_space d = (case d of (n, t, i, k) \<Rightarrow> {ser_lower (t_info t ! i)..ser_upper (t_info t ! i)})"

definition dist_ranks :: "nodes \<times> template \<times> nat \<times> nat \<Rightarrow> int set" where
  "dist_ranks d = (case d of (n, t, i, k) \<Rightarrow> {0..<ni_size (n_info n ! k)})"

definition owner_of :: "int res \<Rightarrow> int" where
  "owner_of r = (case r of Inr x \<Rightarrow> x | Inl e \<Rightarrow> XMP_N_INVALID_RANK)"

lemma at_rank_simps [simp]:
  "k < length (n_info n) \<Longrightarrow> n_info (at_rank n k r) ! k = (n_info n ! k)\<lparr>ni_rank := r\<rparr>"
  "n_is_member (at_rank n k r) = n_is_member n"
  by (simp_all add: at_rank_def)

lemma set_chunk_simps [simp]:
  "t_info (set_chunk t i c) = t_info t" "t_is_owner (set_chunk t i c) = t_is_owner t"
  "i < length (t_chunk t) \<Longrightarrow> t_chunk (set_chunk t i c) ! i = c"
  by (simp_all add: set_chunk_def)

lemma uint64_small: "0 \<le> x \<Longrightarrow> x < 4294967296 \<Longrightarrow> uint64 x = x"
  by (rule uint64_id) (simp add: fitsu64_def)

subsection \<open>Block distribution\<close>

lemma ceil_width:
  assumes "0 < N" "0 < P" "w = XMP_M_CEILi N P"
  shows "0 < w" "N \<le> P * w" "P * w < N + P"
proof -
  have w: "w = - ((- N) div P)" using assms by (simp add: XMP_M_CEILi_pos)
  show "0 < w" using less_ceil_iff [OF assms(2), of 0 N] assms(1) by (simp add: w)
  show "N \<le> P * w" using ceil_le_iff [OF assms(2), of N w] by (simp add: w mult.commute)
  have "(w - 1) * P < N" using less_ceil_iff [OF assms(2), of "w - 1" N] by (simp add: w)
  then show "P * w < N + P" by (simp add: algebra_simps)
qed

lemma dist_BLOCK_owned:
  assumes ok: "dist_ok (n, t, i, k)" and r: "0 \<le> r" "r < ni_size (n_info n ! k)"
    and N: "N = ser_size (t_info t ! i)" and w: "w = XMP_M_CEILi N (ni_size (n_info n ! k))"
  shows "owned (dist_BLOCK (at_rank n k r) t i k) i =
      {ser_lower (t_info t ! i) + r * w..min (ser_upper (t_info t ! i)) (ser_lower (t_info t ! i) + (r + 1) * w - 1)}"
    "par_chunk_width (t_chunk (dist_BLOCK (at_rank n k r) t i k) ! i) = w"
    "dist_manner (t_chunk (dist_BLOCK (at_rank n k r) t i k) ! i) = BLOCK"
    "t_info (dist_BLOCK (at_rank n k r) t i k) = t_info t"
    "t_is_owner (dist_BLOCK (at_rank n k r) t i k) \<longleftrightarrow> r * w < N"
    "r * w < N \<Longrightarrow> par_lower (t_chunk (dist_BLOCK (at_rank n k r) t i k) ! i) = ser_lower (t_info t ! i) + r * w"
    "r * w < N \<Longrightarrow> par_upper (t_chunk (dist_BLOCK (at_rank n k r) t i k) ! i) =
       min (ser_upper (t_info t ! i)) (ser_lower (t_info t ! i) + (r + 1) * w - 1)"
    "par_stride (t_chunk (dist_BLOCK (at_rank n k r) t i k) ! i) = 1"
proof -
  let ?P = "ni_size (n_info n ! k)" and ?lo = "ser_lower (t_info t ! i)" and ?hi = "ser_upper (t_info t ! i)"
  let ?T = "dist_BLOCK (at_rank n k r) t i k"
  have b: "- 2147483648 \<le> ?lo" "?hi < 2147483648" "?lo \<le> ?hi" "N = ?hi - ?lo + 1" "0 < ?P" "?P < 2147483648"
    using ok N by (auto simp: dist_ok_def fits32_def)
  have N0: "0 < N" "N \<le> 4294967296" using b by linarith+
  note cw = ceil_width [OF N0(1) b(5) w]
  have rw: "0 \<le> r * w" "(r + 1) * w \<le> ?P * w" using r cw(1) by (auto intro: mult_right_mono)
  have rw2: "(r + 1) * w < 8589934592" using rw(2) cw(3) N0(2) b(6) by linarith
  have w32: "w < 8589934592" using mult_right_mono [of 1 "r + 1" w] r cw(1) rw2 by linarith
  have u: "uint64 ?P = ?P" "uint64 r = r" using r b by (auto intro: uint64_small)
  have own: "XMP_M_CEILi N w = - ((- N) div w)" using N0 cw(1) by (simp add: XMP_M_CEILi_pos)
  let ?q = "- ((- N) div w)"
  have q1: "r < ?q \<longleftrightarrow> r * w < N" using less_ceil_iff [OF cw(1)] by blast
  have q2: "r + 1 < ?q \<longleftrightarrow> (r + 1) * w < N" using less_ceil_iff [OF cw(1)] by blast
  have q0: "0 < ?q" "?q \<le> ?P" using less_ceil_iff [OF cw(1), of 0 N] ceil_le_iff [OF cw(1), of N ?P] N0 cw(2) by auto
  have lo: "int64 (uint64 (r * w + uint64 ?lo)) = ?lo + r * w"
    using rw rw2 cw(1) b by (simp add: fits64_def algebra_simps)
  have up: "int64 (uint64 (uint64 (?lo + r * w) + w - 1)) = ?lo + (r + 1) * w - 1"
    unfolding uint64_add_diff_left using rw rw2 cw(1) b by (simp add: fits64_def algebra_simps)
  have qu: "uint64 (?q - 1) = ?q - 1" using q0 b by (intro uint64_small) auto
  show man: "dist_manner (t_chunk ?T ! i) = BLOCK" and "par_chunk_width (t_chunk ?T ! i) = w"
    "t_info ?T = t_info t" "par_stride (t_chunk ?T ! i) = 1"
    using ok w N u by (simp_all add: dist_BLOCK_def dist_ok_def Let_def split: prod.split)
  show own_iff: "t_is_owner ?T \<longleftrightarrow> r * w < N"
    unfolding q1 [symmetric] using ok w [symmetric] N [symmetric] u own qu
    by (simp add: dist_BLOCK_def dist_ok_def Let_def)
  show lower: "par_lower (t_chunk ?T ! i) = ?lo + r * w" if "r * w < N"
    using iffD2 [OF q1 that] ok w [symmetric] N [symmetric] u own qu lo
    by (cases "r = ?q - 1") (simp_all add: dist_BLOCK_def dist_ok_def Let_def)
  show upper: "par_upper (t_chunk ?T ! i) = min ?hi (?lo + (r + 1) * w - 1)" if "r * w < N"
  proof (cases "r = ?q - 1")
    case True
    with q1 q2 have "N \<le> (r + 1) * w" by simp
    then have "min ?hi (?lo + (r + 1) * w - 1) = ?hi" using b(4) by linarith
    with True show ?thesis using ok w [symmetric] N [symmetric] u own qu
      by (simp add: dist_BLOCK_def dist_ok_def Let_def)
  next
    case False
    with that q1 q2 have "(r + 1) * w < N" "r < ?q" by simp_all
    moreover from this have "min ?hi (?lo + (r + 1) * w - 1) = ?lo + (r + 1) * w - 1" using b(4) by linarith
    ultimately show ?thesis using False ok w [symmetric] N [symmetric] u own qu lo up
      by (simp add: dist_BLOCK_def dist_ok_def Let_def)
  qed
  show "owned ?T i = {?lo + r * w..min ?hi (?lo + (r + 1) * w - 1)}"
  proof (cases "r * w < N")
    case True
    then show ?thesis using own_iff lower upper man by (simp add: owned_def chunk_set_def)
  next
    case False
    then have "{?lo + r * w..min ?hi (?lo + (r + 1) * w - 1)} = {}" using b(4) by auto
    with False show ?thesis using own_iff by (simp add: owned_def)
  qed
qed

definition block_owner :: "nodes \<times> template \<times> nat \<times> nat \<Rightarrow> int \<Rightarrow> int" where
  "block_owner d g = (case d of (n, t, i, k) \<Rightarrow>
     owner_of (XMP_calc_template_owner_SCALAR (dist_BLOCK (at_rank n k 0) t i k) i g))"

definition block_part :: "nodes \<times> template \<times> nat \<times> nat \<Rightarrow> int \<Rightarrow> int set" where
  "block_part d r = (case d of (n, t, i, k) \<Rightarrow> owned (dist_BLOCK (at_rank n k r) t i k) i)"

lemma block_owner_SCALAR:
  assumes ok: "dist_ok (n, t, i, k)" and r: "0 \<le> r" "r < ni_size (n_info n ! k)"
    and w: "w = XMP_M_CEILi (ser_size (t_info t ! i)) (ni_size (n_info n ! k))"
    and g: "g \<in> dist_space (n, t, i, k)"
  shows "XMP_calc_template_owner_SCALAR (dist_BLOCK (at_rank n k r) t i k) i g =
      Inr ((g - ser_lower (t_info t ! i)) div w)"
    "(g - ser_lower (t_info t ! i)) div w \<in> {0..<ni_size (n_info n ! k)}"
proof -
  let ?P = "ni_size (n_info n ! k)" and ?lo = "ser_lower (t_info t ! i)" and ?N = "ser_size (t_info t ! i)"
  have b: "0 < ?N" "?N \<le> 4294967296" "0 < ?P" "?P < 2147483648" "0 \<le> g - ?lo" "g - ?lo < ?N"
    using ok g by (auto simp: dist_ok_def dist_space_def fits32_def)
  note cw = ceil_width [OF b(1,3) w]
  have "g - ?lo < ?P * w" using b(6) cw(2) by linarith
  then have "(g - ?lo) div w < ?P" using cw(1) by (simp add: div_less_iff)
  moreover have "0 \<le> (g - ?lo) div w" using b(5) cw(1) by (simp add: pos_imp_zdiv_nonneg_iff)
  ultimately show range: "(g - ?lo) div w \<in> {0..<?P}" by simp
  note D = dist_BLOCK_owned [OF ok r refl w]
  have "uint64 (g - ?lo) = g - ?lo" using b by (intro uint64_small) auto
  moreover have "int32 ((g - ?lo) div w) = (g - ?lo) div w" using range b(4) by (intro int32_id) (simp add: fits32_def)
  ultimately show "XMP_calc_template_owner_SCALAR (dist_BLOCK (at_rank n k r) t i k) i g = Inr ((g - ?lo) div w)"
    using D(2-4) by (simp add: XMP_calc_template_owner_SCALAR_def Let_def)
qed

lemma between_iff_div: "0 < w \<Longrightarrow> (r * w \<le> x \<and> x < (r + 1) * w) = (x div w = r)" for w :: int
  using le_div_iff [of w r x] div_less_iff [of w x "r + 1"] by auto

interpretation block: distribution dist_ok dist_space dist_ranks block_part block_owner
proof
  fix d :: "nodes \<times> template \<times> nat \<times> nat" and r g
  assume ok': "dist_ok d"
  obtain n t i k where d: "d = (n, t, i, k)" by (cases d)
  let ?w = "XMP_M_CEILi (ser_size (t_info t ! i)) (ni_size (n_info n ! k))"
  let ?lo = "ser_lower (t_info t ! i)" and ?hi = "ser_upper (t_info t ! i)"
  have ok: "dist_ok (n, t, i, k)" using ok' d by simp
  have P: "0 < ni_size (n_info n ! k)" "0 < ser_size (t_info t ! i)" using ok by (auto simp: dist_ok_def)
  note cw = ceil_width [OF P(2,1) refl]
  have part: "block_part d r = {?lo + r * ?w..min ?hi (?lo + (r + 1) * ?w - 1)}" if "r \<in> dist_ranks d" for r
    using that dist_BLOCK_owned(1) [OF ok _ _ refl refl, of r] d by (simp add: block_part_def dist_ranks_def)
  have own: "block_owner d g = (g - ?lo) div ?w" "block_owner d g \<in> dist_ranks d" if "g \<in> dist_space d" for g
    using that block_owner_SCALAR [OF ok _ _ refl, of 0 g] d P(1)
    by (simp_all add: block_owner_def owner_of_def dist_ranks_def)
  show "g \<in> block_part d r \<longleftrightarrow> block_owner d g = r" if "r \<in> dist_ranks d" "g \<in> dist_space d"
  proof -
    have "?lo \<le> g" "g \<le> ?hi" using that(2) by (simp_all add: d dist_space_def)
    then show ?thesis
      unfolding part [OF that(1)] own(1) [OF that(2)] between_iff_div [OF cw(1), symmetric] by auto
  qed
  show "block_part d r \<subseteq> dist_space d" if "r \<in> dist_ranks d"
  proof -
    have "0 \<le> r * ?w" using that d cw(1) by (auto simp: dist_ranks_def)
    then show ?thesis unfolding part [OF that] by (auto simp: d dist_space_def)
  qed
  show "block_owner d g \<in> dist_ranks d" if "g \<in> dist_space d" using own(2) [OF that] .
qed

text \<open>
  C1. \<open>_XMP_dist_template_BLOCK\<close> partitions the indices of a dimension: the chunks that the processes
  compute for their ranks cover it and are disjoint, and on every process
  \<open>_XMP_calc_template_owner_SCALAR\<close> names the process whose chunk has an index.
\<close>

theorem block_distribution_partition:
  assumes "dist_ok (n, t, i, k)"
  shows "(\<Union>r \<in> {0..<ni_size (n_info n ! k)}. owned (dist_BLOCK (at_rank n k r) t i k) i) =
      {ser_lower (t_info t ! i)..ser_upper (t_info t ! i)} \<and>
    (\<forall>g \<in> {ser_lower (t_info t ! i)..ser_upper (t_info t ! i)}. \<forall>r \<in> {0..<ni_size (n_info n ! k)}.
       \<forall>s \<in> {0..<ni_size (n_info n ! k)}. g \<in> owned (dist_BLOCK (at_rank n k r) t i k) i \<longleftrightarrow>
         XMP_calc_template_owner_SCALAR (dist_BLOCK (at_rank n k s) t i k) i g = Inr r)"
proof -
  let ?d = "(n, t, i, k)"
  have same: "XMP_calc_template_owner_SCALAR (dist_BLOCK (at_rank n k s) t i k) i g = Inr (block_owner ?d g)"
    if "g \<in> dist_space ?d" "s \<in> dist_ranks ?d" for g s
  proof -
    have s: "0 \<le> s" "s < ni_size (n_info n ! k)" "0 < ni_size (n_info n ! k)"
      using that(2) by (auto simp: dist_ranks_def)
    show ?thesis
      using block_owner_SCALAR(1) [OF assms s(1,2) refl that(1)] block_owner_SCALAR(1) [OF assms _ s(3) refl that(1)]
      by (simp add: block_owner_def owner_of_def)
  qed
  have "(\<Union>r \<in> dist_ranks ?d. block_part ?d r) = dist_space ?d" by (rule block.cover [OF assms])
  moreover have "g \<in> block_part ?d r \<longleftrightarrow>
      XMP_calc_template_owner_SCALAR (dist_BLOCK (at_rank n k s) t i k) i g = Inr r"
    if "g \<in> dist_space ?d" "r \<in> dist_ranks ?d" "s \<in> dist_ranks ?d" for g r s
    using block.part_iff [OF assms that(2,1)] same [OF that(1,3)] by simp
  ultimately show ?thesis by (simp add: dist_space_def dist_ranks_def block_part_def)
qed

definition t20 :: template where
  "t20 = \<lparr>t_on_ref_id = 2, t_is_fixed = True, t_is_distributed = True, t_is_owner = True, t_dim = 1,
     t_onto_nodes = Some 1,
     t_chunk = [\<lparr>par_lower = 0, par_upper = 0, par_width = 0, par_stride = 0, par_chunk_width = 0,
       dist_manner = UNKNOWN_DIST, mapping_array = [], is_regular_chunk = False, onto_nodes_index = 0,
       onto_nodes_info = None\<rparr>],
     t_info = [\<lparr>ser_lower = 0, ser_upper = 19, ser_size = 20\<rparr>]\<rparr>"

lemma t20_ok: "dist_ok (p4, t20, 0, 0)"
  by (simp add: dist_ok_def p4_def t20_def fits32_def)

theorem block_distribution_partition_witness:
  "dist_ok (p4, t20, 0, 0) \<and>
   (\<Union>r \<in> {0..<ni_size (n_info p4 ! 0)}. owned (dist_BLOCK (at_rank p4 0 r) t20 0 0) 0) =
      {ser_lower (t_info t20 ! 0)..ser_upper (t_info t20 ! 0)}"
  using t20_ok block_distribution_partition [OF t20_ok] by blast

subsection \<open>Cyclic and block-cyclic distribution\<close>

lemma round_robin_last:
  assumes "0 < P" "0 \<le> r" "r < P" and ps: "ps = (if r < M mod P then M div P + 1 else M div P)"
  shows "r + P * (ps - 1) < M" "M \<le> r + P * (ps :: int)"
proof -
  obtain d m where dm: "M div P = d" "M mod P = m" by blast
  have M: "M = P * d + m" using dm mult_div_mod_eq [of P M] by simp
  have m: "0 \<le> m" "m < P" using dm assms(1) by auto
  have ps': "ps = (if r < m then d + 1 else d)" using ps dm by simp
  show "r + P * (ps - 1) < M" "M \<le> r + P * ps"
    using ps' M m assms(2,3) by (cases "r < m"; simp add: algebra_simps)+
qed

lemma round_robin:
  assumes "0 < P" "0 \<le> r" "r < P" "0 \<le> q" and ps: "ps = (if r < M mod P then M div P + 1 else M div P)"
  shows "q mod P = r \<and> q < M \<longleftrightarrow> r \<le> q \<and> P dvd (q - r) \<and> q \<le> r + P * (ps - (1::int))"
proof -
  have key: "r + P * j < M \<longleftrightarrow> j \<le> ps - 1" for j
  proof (cases "j \<le> ps - 1")
    case True
    then have "P * j \<le> P * (ps - 1)" using assms(1) by simp
    with round_robin_last(1) [OF assms(1-3) ps] True show ?thesis by linarith
  next
    case False
    then have "P * ps \<le> P * j" using assms(1) by simp
    with round_robin_last(2) [OF assms(1-3) ps] False show ?thesis by linarith
  qed
  have "q mod P = r \<longleftrightarrow> r \<le> q \<and> P dvd (q - r)"
    using assms(1-4) mod_eq_dvd_iff [of q P r] zmod_le_nonneg_dividend [OF assms(4), of P] by auto
  moreover have "q < M \<longleftrightarrow> q \<le> r + P * (ps - 1)" if d: "P dvd (q - r)"
  proof -
    obtain j where j: "q = r + P * j" using d by (auto simp: dvd_def algebra_simps)
    have "P * j \<le> P * (ps - 1) \<longleftrightarrow> j \<le> ps - 1" using assms(1) by simp
    with key [of j] j show ?thesis by linarith
  qed
  ultimately show ?thesis by blast
qed

lemma block_offset:
  assumes "0 < b" "0 < P"
  shows "(x - r * b) mod (P * b) < b \<longleftrightarrow> P dvd (x div b - (r::int))"
proof -
  have "(x - r * b) div b = x div b - r" using assms(1) div_mult_self3 [of b "- r" x] by simp
  moreover have "(x - r * b) mod (b * P) = b * ((x - r * b) div b mod P) + (x - r * b) mod b"
    using assms by (intro zmod_zmult2_eq) simp
  ultimately have e: "(x - r * b) mod (P * b) = b * ((x div b - r) mod P) + (x - r * b) mod b"
    by (simp add: mult.commute)
  have j: "0 \<le> (x - r * b) mod b" "(x - r * b) mod b < b" using assms(1) by simp_all
  have z: "0 \<le> (x div b - r) mod P" using assms(2) by simp
  show ?thesis
  proof (cases "(x div b - r) mod P = 0")
    case True
    then show ?thesis using e j by auto
  next
    case False
    then have "b * 1 \<le> b * ((x div b - r) mod P)" using z assms(1) by (intro mult_left_mono) auto
    then have "\<not> (x - r * b) mod (P * b) < b" using e j by linarith
    then show ?thesis using False by (simp add: dvd_eq_mod_eq_0)
  qed
qed

text \<open>The chunk that starts at block \<open>r\<close> and has \<open>ps\<close> blocks, one every \<open>P\<close>.\<close>

lemma cyclic_chunk_set:
  assumes "0 < P" "0 \<le> r" "r < P" "0 < b" "N = hi - lo + 1" "0 < N" "M = - ((- N) div b)"
    and ps: "ps = (if r < M mod P then M div P + 1 else M div P)"
    and man: "dist_manner c = (if b = 1 then CYCLIC else BLOCK_CYCLIC)"
    and c: "par_lower c = lo + r * b" "par_upper c = lo + r * b + P * (ps - 1) * b" "par_stride c = P * b"
      "par_width c = b" "ser_upper ti = hi"
  shows "chunk_set ti c = {g. lo \<le> g \<and> g \<le> hi \<and> ((g - lo) div b) mod P = r}"
proof (rule set_eqI)
  fix g
  let ?q = "(g - lo) div b" and ?u = "lo + r * b + P * (ps - 1) * b"
  have low: "lo + r * b \<le> g \<longleftrightarrow> r \<le> ?q" using le_div_iff [OF assms(4), of r "g - lo"] by auto
  have "g \<le> ?u + b - 1 \<longleftrightarrow> g - lo < (r + P * (ps - 1) + 1) * b" by (auto simp: algebra_simps)
  then have up: "g \<le> ?u + b - 1 \<longleftrightarrow> ?q \<le> r + P * (ps - 1)"
    using div_less_iff [OF assms(4), of "g - lo" "r + P * (ps - 1) + 1"] by auto
  have off: "(g - (lo + r * b)) mod (P * b) < b \<longleftrightarrow> P dvd (?q - r)"
    using block_offset [OF assms(4,1), of "g - lo" r] by (simp add: algebra_simps)
  have cnt: "?q < M \<longleftrightarrow> ?q * b < N" using less_ceil_iff [OF assms(4)] assms(7) by blast
  have qb: "?q * b \<le> g - lo" using le_div_iff [OF assms(4)] by blast
  have rr: "?q mod P = r \<and> ?q < M \<longleftrightarrow> r \<le> ?q \<and> P dvd (?q - r) \<and> ?q \<le> r + P * (ps - 1)" if "0 \<le> ?q"
    by (rule round_robin [OF assms(1-3) that ps])
  have nn: "lo \<le> g \<longleftrightarrow> 0 \<le> ?q" using assms(4) by (simp add: pos_imp_zdiv_nonneg_iff)
  have lt: "g \<le> hi \<Longrightarrow> ?q < M" using cnt qb assms(5) by linarith
  have eq: "lo + r * b \<le> g \<and> g \<le> hi \<and> g \<le> ?u + b - 1 \<and> (g - (lo + r * b)) mod (P * b) < b \<longleftrightarrow>
      lo \<le> g \<and> g \<le> hi \<and> ?q mod P = r"
    using low up off rr nn lt assms(2) by (smt (verit, ccfv_threshold))
  show "g \<in> chunk_set ti c \<longleftrightarrow> g \<in> {g. lo \<le> g \<and> g \<le> hi \<and> ((g - lo) div b) mod P = r}"
  proof (cases "b = 1")
    case True
    have "g \<in> chunk_set ti c \<longleftrightarrow> lo + r \<le> g \<and> g \<le> ?u \<and> P dvd (g - (lo + r))"
      using True man c by (simp add: chunk_set_def mem_trip)
    also have "\<dots> \<longleftrightarrow> r \<le> g - lo \<and> P dvd (g - lo - r) \<and> g - lo \<le> r + P * (ps - 1)"
      using True by (auto simp: algebra_simps)
    also have "\<dots> \<longleftrightarrow> 0 \<le> g - lo \<and> (g - lo) mod P = r \<and> g - lo < M"
      using rr True assms(2) by auto
    also have "\<dots> \<longleftrightarrow> lo \<le> g \<and> g \<le> hi \<and> (g - lo) mod P = r" using True assms(5,7) by auto
    finally show ?thesis using True by simp
  next
    case False
    then have "g \<in> chunk_set ti c \<longleftrightarrow>
        lo + r * b \<le> g \<and> g \<le> hi \<and> g \<le> ?u + b - 1 \<and> (g - (lo + r * b)) mod (P * b) < b"
      using man c by (auto simp: chunk_set_def)
    with eq show ?thesis by simp
  qed
qed

definition width_ok :: "nodes \<times> template \<times> nat \<times> nat \<Rightarrow> int \<Rightarrow> bool" where
  "width_ok d b \<longleftrightarrow> dist_ok d \<and> 0 < b \<and> (case d of (n, t, i, k) \<Rightarrow> fits32 (ni_size (n_info n ! k) * b))"

text \<open>The arithmetic modulo \<open>2^64\<close> for the last index does not wrap.\<close>

lemma cyclic_top:
  assumes "0 < P" "0 \<le> r" "r < P" "0 < b" "P \<le> M" "(M - 1) * b < N" "N \<le> 4294967296"
    and ps: "ps = (if r < M mod P then M div P + 1 else M div P)"
    and lo: "- 2147483648 \<le> lo" "lo < 2147483648" and rb: "0 \<le> r * b" "r * b < 2147483648"
  shows "int64 (uint64 (uint64 (lo + r * b) + uint64 (uint64 (P * uint64 (ps - 1)) * b))) =
    lo + r * b + P * (ps - 1) * b"
proof -
  have "1 \<le> M div P" using le_div_iff [OF assms(1), of 1 M] assms(5) by simp
  then have p0: "0 \<le> ps - 1" using ps by simp
  then have P0: "0 \<le> P * (ps - 1)" using assms(1) by simp
  have "P * (ps - 1) \<le> M - 1" using round_robin_last(1) [OF assms(1-3) ps] assms(2) by linarith
  then have "P * (ps - 1) * b \<le> (M - 1) * b" using assms(4) by (intro mult_right_mono) auto
  then have top: "0 \<le> P * (ps - 1) * b" "P * (ps - 1) * b < 4294967296"
    using P0 assms(4,6,7) by (simp, linarith)
  have "1 * (ps - 1) \<le> P * (ps - 1)" using p0 assms(1) by (intro mult_right_mono) auto
  moreover have "P * (ps - 1) * 1 \<le> P * (ps - 1) * b" using assms(4) by (intro mult_left_mono [OF _ P0]) simp
  ultimately have "ps - 1 < 4294967296" using top(2) unfolding mult_1 mult_1_right by (rule le_less_trans [OF order_trans])
  with p0 have ps1: "uint64 (ps - 1) = ps - 1" by (rule uint64_small)
  show ?thesis
    unfolding ps1 uint64_mult_left uint64_add_left uint64_add_right int64_uint64
    using rb top lo by (intro int64_id) (simp add: fits64_def)
qed

lemma dist_CYCLIC_large:
  assumes "n_is_member n" "i < length (t_chunk t)" "k < length (n_info n)"
    and "uint64 (ni_size (n_info n ! k)) = P" "uint64 r = r" "XMP_M_CEILi (ser_size (t_info t ! i)) b = M" "P \<le> M"
    and ps: "ps = (if M mod P = 0 then M div P else if r \<ge> M mod P then M div P else M div P + 1)"
    and lo: "lo = int64 (uint64 (uint64 (ser_lower (t_info t ! i)) + uint64 (r * b)))"
  shows "par_lower (t_chunk (dist_CYCLIC_WIDTH (at_rank n k r) t i k b) ! i) = lo"
    "par_upper (t_chunk (dist_CYCLIC_WIDTH (at_rank n k r) t i k b) ! i) =
       int64 (uint64 (uint64 lo + uint64 (uint64 (P * uint64 (ps - 1)) * b)))"
    "t_is_owner (dist_CYCLIC_WIDTH (at_rank n k r) t i k b) = t_is_owner t"
  using assms(1-7) unfolding ps lo
  by (simp_all add: dist_CYCLIC_WIDTH_def Let_def
      del: int64_uint64 uint64_add_left uint64_add_right uint64_mult_left uint64_add_diff_left)

lemma dist_CYCLIC_chunk:
  assumes ok: "width_ok (n, t, i, k) b" and r: "0 \<le> r" "r < ni_size (n_info n ! k)"
    and P: "P = ni_size (n_info n ! k)" and lo: "lo = ser_lower (t_info t ! i)"
    and M: "M = - ((- ser_size (t_info t ! i)) div b)"
    and ps: "ps = (if r < M mod P then M div P + 1 else M div P)"
    and c: "c = t_chunk (dist_CYCLIC_WIDTH (at_rank n k r) t i k b) ! i"
  shows "par_stride c = P * b" "par_width c = b"
    "dist_manner c = (if b = 1 then CYCLIC else BLOCK_CYCLIC)"
    "t_info (dist_CYCLIC_WIDTH (at_rank n k r) t i k b) = t_info t"
    "onto_nodes_info c = Some ((n_info n ! k)\<lparr>ni_rank := r\<rparr>)"
    "t_is_owner (dist_CYCLIC_WIDTH (at_rank n k r) t i k b) \<longleftrightarrow> r < M"
    "r < M \<Longrightarrow> par_lower c = lo + r * b"
    "r < M \<Longrightarrow> par_upper c = lo + r * b + P * (ps - 1) * b"
    "r < M \<Longrightarrow> 0 < ps"
proof -
  let ?hi = "ser_upper (t_info t ! i)" and ?N = "ser_size (t_info t ! i)"
  let ?T = "dist_CYCLIC_WIDTH (at_rank n k r) t i k b"
  have b: "- 2147483648 \<le> lo" "?hi < 2147483648" "lo \<le> ?hi" "?N = ?hi - lo + 1" "0 < P" "P < 2147483648"
    "0 < b" "P * b < 2147483648" "i < length (t_chunk t)" "k < length (n_info n)" "n_is_member n" "t_is_owner t"
    using ok P lo by (auto simp: width_ok_def dist_ok_def fits32_def)
  have rP: "r < P" using r P by simp
  have N0: "0 < ?N" "?N \<le> 4294967296" using b by linarith+
  have CM: "XMP_M_CEILi ?N b = M" using N0 b M by (simp add: XMP_M_CEILi_pos)
  have M1: "0 < M" using less_ceil_iff [OF b(7), of 0 ?N] N0 M by simp
  have M2: "(M - 1) * b < ?N" using less_ceil_iff [OF b(7), of "M - 1" ?N] M by simp
  have u: "uint64 (ni_size (n_info n ! k)) = P" "uint64 r = r" using r b P by (auto intro: uint64_small)
  have "r * b \<le> P * b" using rP b(7) by (intro mult_right_mono) auto
  then have rb2: "r * b < 2147483648" using b(8) by linarith
  have rb: "0 \<le> r * b" "r * b < 2147483648" using r b(7) rb2 by simp_all
  have L0: "lo + r * b = int64 (uint64 (uint64 (ser_lower (t_info t ! i)) + uint64 (r * b)))"
    using rb b lo by (simp add: fits64_def)
  have Pb: "0 < P * b" using b(5,7) by simp
  then have "uint64 (P * b) = P * b" "fits32 (P * b)" using b(8) by (auto simp: fits32_def intro: uint64_small)
  then have st: "int32 (uint64 (P * b)) = P * b" by simp
  show "par_stride c = P * b" "par_width c = b" "dist_manner c = (if b = 1 then CYCLIC else BLOCK_CYCLIC)"
    "t_info ?T = t_info t" "onto_nodes_info c = Some ((n_info n ! k)\<lparr>ni_rank := r\<rparr>)"
    unfolding c using b u st P [symmetric] by (simp_all add: dist_CYCLIC_WIDTH_def Let_def split: prod.split)
  have "(t_is_owner ?T \<longleftrightarrow> r < M) \<and> (r < M \<longrightarrow> par_lower c = lo + r * b) \<and>
      (r < M \<longrightarrow> par_upper c = lo + r * b + P * (ps - 1) * b) \<and> (r < M \<longrightarrow> 0 < ps)"
  proof (cases "M < P")
    case small: True
    then have ps1: "ps = 1" if "r < M" using ps M1 that by simp
    show ?thesis
      unfolding c using b u CM small L0 [symmetric] ps1 by (simp add: dist_CYCLIC_WIDTH_def Let_def)
  next
    case False
    then have PM: "P \<le> M" by simp
    have lo32: "- 2147483648 \<le> lo" "lo < 2147483648" using b(1-3) by linarith+
    note up = cyclic_top [OF b(5) r(1) rP b(7) PM M2 N0(2) ps lo32 rb]
    have psC: "ps = (if M mod P = 0 then M div P else if M mod P \<le> r then M div P else M div P + 1)"
      using r ps by auto
    note L = dist_CYCLIC_large [OF b(11,9,10) u CM PM psC L0]
    have "0 < M div P" using le_div_iff [OF b(5), of 1 M] PM by simp
    then have "0 < ps" using ps by simp
    moreover have "r < M" using rP PM by simp
    ultimately show ?thesis
      unfolding c L up using b(12) by simp
  qed
  then show "t_is_owner ?T \<longleftrightarrow> r < M" "r < M \<Longrightarrow> par_lower c = lo + r * b"
    "r < M \<Longrightarrow> par_upper c = lo + r * b + P * (ps - 1) * b" "r < M \<Longrightarrow> 0 < ps" by blast+
qed

lemma dist_CYCLIC_owned:
  assumes ok: "width_ok (n, t, i, k) b" and r: "0 \<le> r" "r < ni_size (n_info n ! k)"
  shows "owned (dist_CYCLIC_WIDTH (at_rank n k r) t i k b) i =
      {g. ser_lower (t_info t ! i) \<le> g \<and> g \<le> ser_upper (t_info t ! i) \<and>
          ((g - ser_lower (t_info t ! i)) div b) mod ni_size (n_info n ! k) = r}"
proof -
  let ?P = "ni_size (n_info n ! k)" and ?lo = "ser_lower (t_info t ! i)" and ?hi = "ser_upper (t_info t ! i)"
  let ?N = "ser_size (t_info t ! i)" and ?M = "- ((- ser_size (t_info t ! i)) div b)"
  let ?T = "dist_CYCLIC_WIDTH (at_rank n k r) t i k b"
  have b: "?N = ?hi - ?lo + 1" "0 < ?P" "0 < b" "0 < ?N" using ok by (auto simp: width_ok_def dist_ok_def)
  note C = dist_CYCLIC_chunk [OF ok r refl refl refl refl refl]
  show ?thesis
  proof (cases "r < ?M")
    case True
    then have "owned ?T i = chunk_set (t_info t ! i) (t_chunk ?T ! i)" using C(4,6) by (simp add: owned_def)
    also have "\<dots> = {g. ?lo \<le> g \<and> g \<le> ?hi \<and> ((g - ?lo) div b) mod ?P = r}"
      by (rule cyclic_chunk_set [OF b(2) r b(3,1,4) refl refl C(3) C(7,8) [OF True] C(1,2) refl])
    finally show ?thesis .
  next
    case False
    have "((g - ?lo) div b) mod ?P \<noteq> r" if "?lo \<le> g" "g \<le> ?hi" for g
    proof -
      have q: "0 \<le> (g - ?lo) div b" using that b by (simp add: pos_imp_zdiv_nonneg_iff)
      have "(g - ?lo) div b * b < ?N" using le_div_iff [OF b(3), of "(g - ?lo) div b" "g - ?lo"] that b(1) by linarith
      then have "(g - ?lo) div b < ?M" using less_ceil_iff [OF b(3)] by blast
      then show ?thesis using q False r by simp
    qed
    moreover have "owned ?T i = {}" using C(6) False by (simp add: owned_def)
    ultimately show ?thesis by auto
  qed
qed

lemma cyclic_owner_SCALAR:
  assumes ok: "width_ok (n, t, i, k) b" and r: "0 \<le> r" "r < ni_size (n_info n ! k)"
    and g: "g \<in> dist_space (n, t, i, k)"
  shows "XMP_calc_template_owner_SCALAR (dist_CYCLIC_WIDTH (at_rank n k r) t i k b) i g =
      Inr (((g - ser_lower (t_info t ! i)) div b) mod ni_size (n_info n ! k))"
proof -
  let ?P = "ni_size (n_info n ! k)" and ?x = "g - ser_lower (t_info t ! i)"
  have b: "0 < ?P" "?P < 2147483648" "0 < b" "?P * b < 2147483648" "0 \<le> ?x"
    using ok g by (auto simp: width_ok_def dist_ok_def dist_space_def fits32_def)
  have "1 * b \<le> ?P * b" using b by (intro mult_right_mono) auto
  then have "b < 2147483648" using b(4) by linarith
  then have b32: "int32 b = b" using b(3) by (intro int32_id) (simp add: fits32_def)
  have x: "0 \<le> ?x div b" using b by (simp add: pos_imp_zdiv_nonneg_iff)
  have "0 \<le> ?x div b mod ?P" "?x div b mod ?P < ?P" using b(1) by simp_all
  then have m: "int32 (?x div b mod ?P) = ?x div b mod ?P" using b(2) by (intro int32_id) (simp add: fits32_def)
  have Pb: "0 \<le> ?P * b" using b by simp
  note D = dist_CYCLIC_chunk(1-5) [OF ok r refl refl refl refl refl]
  show ?thesis
  proof (cases "b = 1")
    case True
    then show ?thesis using D b(1,5) m by (simp add: XMP_calc_template_owner_SCALAR_def Let_def)
  next
    case False
    then show ?thesis
      using D b Pb x m b32 by (simp add: XMP_calc_template_owner_SCALAR_def Let_def)
  qed
qed

definition cyclic_part :: "(nodes \<times> template \<times> nat \<times> nat) \<times> int \<Rightarrow> int \<Rightarrow> int set" where
  "cyclic_part d r = (case d of ((n, t, i, k), b) \<Rightarrow> owned (dist_CYCLIC_WIDTH (at_rank n k r) t i k b) i)"

definition cyclic_owner :: "(nodes \<times> template \<times> nat \<times> nat) \<times> int \<Rightarrow> int \<Rightarrow> int" where
  "cyclic_owner d g = (case d of ((n, t, i, k), b) \<Rightarrow>
     owner_of (XMP_calc_template_owner_SCALAR (dist_CYCLIC_WIDTH (at_rank n k 0) t i k b) i g))"

interpretation cyclic: distribution "\<lambda>(d, b). width_ok d b" "\<lambda>(d, b). dist_space d" "\<lambda>(d, b). dist_ranks d"
  cyclic_part cyclic_owner
proof
  fix d :: "(nodes \<times> template \<times> nat \<times> nat) \<times> int" and r g
  obtain n t i k b where d: "d = ((n, t, i, k), b)" by (cases d) auto
  assume "case d of (d, b) \<Rightarrow> width_ok d b"
  then have ok: "width_ok (n, t, i, k) b" using d by simp
  have P: "0 < ni_size (n_info n ! k)" using ok by (auto simp: width_ok_def dist_ok_def)
  have own: "cyclic_owner d g = ((g - ser_lower (t_info t ! i)) div b) mod ni_size (n_info n ! k)"
    if "g \<in> dist_space (n, t, i, k)" for g
    using cyclic_owner_SCALAR [OF ok _ P that] d by (simp add: cyclic_owner_def owner_of_def)
  show "g \<in> cyclic_part d r \<longleftrightarrow> cyclic_owner d g = r"
    if "r \<in> (case d of (d, b) \<Rightarrow> dist_ranks d)" "g \<in> (case d of (d, b) \<Rightarrow> dist_space d)"
    using that dist_CYCLIC_owned(1) [OF ok, of r] own d by (auto simp: cyclic_part_def dist_ranks_def dist_space_def)
  show "cyclic_part d r \<subseteq> (case d of (d, b) \<Rightarrow> dist_space d)" if "r \<in> (case d of (d, b) \<Rightarrow> dist_ranks d)"
    using that dist_CYCLIC_owned(1) [OF ok, of r] d by (auto simp: cyclic_part_def dist_ranks_def dist_space_def)
  show "cyclic_owner d g \<in> (case d of (d, b) \<Rightarrow> dist_ranks d)" if "g \<in> (case d of (d, b) \<Rightarrow> dist_space d)"
    using that own P d by (simp add: dist_ranks_def)
qed

text \<open>
  C2. \<open>_XMP_dist_template_CYCLIC_WIDTH\<close>, the cyclic (width 1) and the block-cyclic distribution, partitions
  the indices of a dimension, and on every process \<open>_XMP_calc_template_owner_SCALAR\<close> names the process
  whose chunk has an index.
\<close>

theorem cyclic_distribution_partition:
  assumes "width_ok (n, t, i, k) b"
  shows "(\<Union>r \<in> {0..<ni_size (n_info n ! k)}. owned (dist_CYCLIC_WIDTH (at_rank n k r) t i k b) i) =
      {ser_lower (t_info t ! i)..ser_upper (t_info t ! i)} \<and>
    (\<forall>g \<in> {ser_lower (t_info t ! i)..ser_upper (t_info t ! i)}. \<forall>r \<in> {0..<ni_size (n_info n ! k)}.
       \<forall>s \<in> {0..<ni_size (n_info n ! k)}. g \<in> owned (dist_CYCLIC_WIDTH (at_rank n k r) t i k b) i \<longleftrightarrow>
         XMP_calc_template_owner_SCALAR (dist_CYCLIC_WIDTH (at_rank n k s) t i k b) i g = Inr r)"
proof -
  let ?d = "((n, t, i, k), b)"
  have P: "0 < ni_size (n_info n ! k)" using assms by (auto simp: width_ok_def dist_ok_def)
  have same: "XMP_calc_template_owner_SCALAR (dist_CYCLIC_WIDTH (at_rank n k s) t i k b) i g = Inr (cyclic_owner ?d g)"
    if "g \<in> dist_space (n, t, i, k)" "0 \<le> s" "s < ni_size (n_info n ! k)" for g s
    using cyclic_owner_SCALAR [OF assms that(2,3,1)] cyclic_owner_SCALAR [OF assms _ P that(1)]
    by (simp add: cyclic_owner_def owner_of_def)
  have "(\<Union>r \<in> dist_ranks (n, t, i, k). cyclic_part ?d r) = dist_space (n, t, i, k)"
    using cyclic.cover [of ?d] assms by simp
  moreover have "g \<in> cyclic_part ?d r \<longleftrightarrow>
      XMP_calc_template_owner_SCALAR (dist_CYCLIC_WIDTH (at_rank n k s) t i k b) i g = Inr r"
    if "g \<in> dist_space (n, t, i, k)" "r \<in> dist_ranks (n, t, i, k)" "s \<in> dist_ranks (n, t, i, k)" for g r s
    using cyclic.part_iff [of ?d r g] assms that same [OF that(1)] by (simp add: dist_ranks_def)
  ultimately show ?thesis by (simp add: dist_space_def dist_ranks_def cyclic_part_def)
qed

theorem cyclic_distribution_partition_witness:
  "width_ok (p4, t20, 0, 0) 3 \<and>
   (\<Union>r \<in> {0..<ni_size (n_info p4 ! 0)}. owned (dist_CYCLIC_WIDTH (at_rank p4 0 r) t20 0 0 3) 0) =
      {ser_lower (t_info t20 ! 0)..ser_upper (t_info t20 ! 0)}"
proof -
  have ok: "width_ok (p4, t20, 0, 0) 3" using t20_ok by (simp add: width_ok_def p4_def fits32_def)
  with cyclic_distribution_partition [OF ok] show ?thesis by blast
qed

subsection \<open>General block distribution\<close>

lemma rsums_nth: "j \<le> length m \<Longrightarrow> rsums a m ! j = a + sum_list (take j m)"
proof (induction m arbitrary: a j)
  case (Cons x m)
  then show ?case by (cases j) auto
qed simp

lemma rsums_length [simp]: "length (rsums a m) = Suc (length m)"
  by (induction m arbitrary: a) auto

lemma rsums_mono:
  assumes "\<forall>x \<in> set m. 0 \<le> x" "i \<le> j" "j \<le> length m"
  shows "rsums a m ! i \<le> rsums a m ! (j::nat)"
proof -
  have "take j m = take i m @ take (j - i) (drop i m)" using assms(2) by (metis le_add_diff_inverse take_add)
  moreover have "0 \<le> sum_list (take (j - i) (drop i m))"
    using assms(1) by (intro sum_list_nonneg) (auto dest!: in_set_takeD in_set_dropD)
  ultimately show ?thesis using assms by (simp add: rsums_nth)
qed

lemma gblock_owner_shift:
  "length rs = Suc c \<Longrightarrow> (\<forall>i < c. rs ! i \<le> rs ! Suc i) \<Longrightarrow> rs ! 0 \<le> g \<Longrightarrow> g < rs ! c \<Longrightarrow>
   \<exists>j < c. gblock_owner g rs i c = i + int j \<and> rs ! j \<le> g \<and> g < rs ! Suc j"
proof (induction c arbitrary: rs i)
  case (Suc c)
  obtain a b m where rs: "rs = a # b # m" using Suc.prems(1) by (cases rs; cases "tl rs") auto
  show ?case
  proof (cases "g < b")
    case True
    then show ?thesis using rs Suc.prems(3) by (intro exI [of _ 0]) simp
  next
    case False
    have "\<forall>i < c. (b # m) ! i \<le> (b # m) ! Suc i" using Suc.prems(2) rs by fastforce
    with Suc.IH [of "b # m" "i + 1"] Suc.prems rs False obtain j where
      "j < c" "gblock_owner g (b # m) (i + 1) c = i + 1 + int j" "(b # m) ! j \<le> g" "g < (b # m) ! Suc j"
      by auto
    with rs False show ?thesis by (intro exI [of _ "Suc j"]) auto
  qed
qed simp

text \<open>A mapping array with one length for every node, which together cover the dimension.\<close>

definition map_ok :: "nodes \<times> template \<times> nat \<times> nat \<Rightarrow> int list \<Rightarrow> bool" where
  "map_ok d m \<longleftrightarrow> dist_ok d \<and> (case d of (n, t, i, k) \<Rightarrow>
     int (length m) = ni_size (n_info n ! k) \<and> (\<forall>x \<in> set m. 0 \<le> x) \<and>
     ser_upper (t_info t ! i) < ser_lower (t_info t ! i) + sum_list m)"

definition gblock_template :: "(nodes \<times> template \<times> nat \<times> nat) \<times> int list \<Rightarrow> int \<Rightarrow> template" where
  "gblock_template d r = (case d of ((n, t, i, k), m) \<Rightarrow>
     (case dist_GBLOCK (at_rank n k r) t i k (Some m) of Inr (T, x) \<Rightarrow> T | Inl e \<Rightarrow> t))"

definition gblock_chunk :: "template \<Rightarrow> nat \<Rightarrow> int list \<Rightarrow> nodes_info \<Rightarrow> bool" where
  "gblock_chunk T i rs ni \<longleftrightarrow> (let c = t_chunk T ! i in
     dist_manner c = GBLOCK \<and> mapping_array c = rs \<and> onto_nodes_info c = Some ni \<and> par_stride c = 1 \<and>
     (t_is_owner T \<longrightarrow> par_lower c = rs ! nat (ni_rank ni) \<and> par_lower c \<le> par_upper c \<and>
        par_upper c \<le> ser_upper (t_info T ! i)))"

lemma dist_GBLOCK_owned:
  assumes ok: "map_ok (n, t, i, k) m" and r: "0 \<le> r" "r < ni_size (n_info n ! k)"
    and rs: "rs = rsums (ser_lower (t_info t ! i)) m"
  shows "\<exists>x. dist_GBLOCK (at_rank n k r) t i k (Some m) = Inr (gblock_template ((n, t, i, k), m) r, x)"
    "owned (gblock_template ((n, t, i, k), m) r) i =
      {g. rs ! nat r \<le> g \<and> g < rs ! Suc (nat r) \<and> g \<le> ser_upper (t_info t ! i)}"
    "XMP_calc_template_owner_SCALAR (gblock_template ((n, t, i, k), m) r) i g = Inr (gblock_owner g rs 0 (length m))"
    "gblock_chunk (gblock_template ((n, t, i, k), m) r) i rs ((n_info n ! k)\<lparr>ni_rank := r\<rparr>)"
proof -
  let ?c = "t_chunk t ! i" and ?lo = "ser_lower (t_info t ! i)" and ?hi = "ser_upper (t_info t ! i)"
  have b: "i < length (t_chunk t)" "k < length (n_info n)" "n_is_member n" "ni_size (n_info n ! k) = int (length m)"
    "\<forall>x \<in> set m. 0 \<le> x" "?hi < ?lo + sum_list m"
    using ok by (auto simp: map_ok_def dist_ok_def)
  have len: "nat r < length m" using r b(4) by linarith
  have top: "rs ! length m = ?lo + sum_list m" using rs by (simp add: rsums_nth)
  have mono: "rs ! nat r \<le> rs ! Suc (nat r)" unfolding rs using b(5) len by (intro rsums_mono) auto
  have "\<exists>T x. dist_GBLOCK (at_rank n k r) t i k (Some m) = Inr (T, x) \<and>
      owned T i = {g. rs ! nat r \<le> g \<and> g < rs ! Suc (nat r) \<and> g \<le> ?hi} \<and>
      gblock_chunk T i rs ((n_info n ! k)\<lparr>ni_rank := r\<rparr>)"
    using b len top mono rs
    by (auto simp: dist_GBLOCK_def Let_def owned_def chunk_set_def gblock_chunk_def not_le)
  then obtain T x where T: "dist_GBLOCK (at_rank n k r) t i k (Some m) = Inr (T, x)"
    "owned T i = {g. rs ! nat r \<le> g \<and> g < rs ! Suc (nat r) \<and> g \<le> ?hi}"
    "gblock_chunk T i rs ((n_info n ! k)\<lparr>ni_rank := r\<rparr>)" by blast
  then have eq: "gblock_template ((n, t, i, k), m) r = T" by (simp add: gblock_template_def)
  show "\<exists>x. dist_GBLOCK (at_rank n k r) t i k (Some m) = Inr (gblock_template ((n, t, i, k), m) r, x)"
    using T(1) eq by simp
  show "owned (gblock_template ((n, t, i, k), m) r) i =
      {g. rs ! nat r \<le> g \<and> g < rs ! Suc (nat r) \<and> g \<le> ?hi}" using T(2) eq by simp
  show "XMP_calc_template_owner_SCALAR (gblock_template ((n, t, i, k), m) r) i g = Inr (gblock_owner g rs 0 (length m))"
    using T(3) eq b(4) by (auto simp: XMP_calc_template_owner_SCALAR_def gblock_chunk_def Let_def)
  show "gblock_chunk (gblock_template ((n, t, i, k), m) r) i rs ((n_info n ! k)\<lparr>ni_rank := r\<rparr>)" using T(3) eq by simp
qed

interpretation gblock: distribution "\<lambda>(d, m). map_ok d m" "\<lambda>(d, m). dist_space d" "\<lambda>(d, m). dist_ranks d"
  "\<lambda>((n, t, i, k), m) r. owned (gblock_template ((n, t, i, k), m) r) i"
  "\<lambda>((n, t, i, k), m) g. gblock_owner g (rsums (ser_lower (t_info t ! i)) m) 0 (length m)"
proof (unfold_locales, goal_cases)
  case (1 d r g)
  obtain n t i k m where d: "d = ((n, t, i, k), m)" by (cases d) auto
  let ?rs = "rsums (ser_lower (t_info t ! i)) m"
  have ok: "map_ok (n, t, i, k) m" and r: "0 \<le> r" "r < ni_size (n_info n ! k)"
    and g: "ser_lower (t_info t ! i) \<le> g" "g \<le> ser_upper (t_info t ! i)"
    using 1 d by (auto simp: dist_ranks_def dist_space_def)
  have b: "ni_size (n_info n ! k) = int (length m)" "\<forall>x \<in> set m. 0 \<le> x"
    "ser_upper (t_info t ! i) < ser_lower (t_info t ! i) + sum_list m" using ok by (auto simp: map_ok_def)
  have mono: "?rs ! a \<le> ?rs ! c" if "a \<le> c" "c \<le> length m" for a c using that b(2) by (intro rsums_mono)
  obtain j where j: "j < length m" "gblock_owner g ?rs 0 (length m) = int j" "?rs ! j \<le> g" "g < ?rs ! Suc j"
    using gblock_owner_shift [of ?rs "length m" g 0] g b mono by (auto simp: rsums_nth)
  have "j = nat r" if "?rs ! nat r \<le> g" "g < ?rs ! Suc (nat r)"
  proof (rule ccontr)
    assume "j \<noteq> nat r"
    then consider "Suc j \<le> nat r" | "Suc (nat r) \<le> j" by linarith
    then show False
    proof cases
      case 1
      then have "?rs ! Suc j \<le> ?rs ! nat r" using r b(1) by (intro mono) auto
      then show False using j(4) that(1) by linarith
    next
      case 2
      then have "?rs ! Suc (nat r) \<le> ?rs ! j" using j(1) by (intro mono) auto
      then show False using j(3) that(2) by linarith
    qed
  qed
  then have "g \<in> owned (gblock_template ((n, t, i, k), m) r) i \<longleftrightarrow> int j = r"
    unfolding dist_GBLOCK_owned(2) [OF ok r refl] using j r g by auto
  then show ?case using d j(2) by simp
next
  case (2 d r)
  obtain n t i k m where d: "d = ((n, t, i, k), m)" by (cases d) auto
  let ?rs = "rsums (ser_lower (t_info t ! i)) m"
  have ok: "map_ok (n, t, i, k) m" and r: "0 \<le> r" "r < ni_size (n_info n ! k)" using 2 d by (auto simp: dist_ranks_def)
  then have "?rs ! 0 \<le> ?rs ! nat r" by (intro rsums_mono) (auto simp: map_ok_def)
  then have "ser_lower (t_info t ! i) \<le> ?rs ! nat r" by (simp add: rsums_nth)
  then show ?case unfolding d prod.case dist_GBLOCK_owned(2) [OF ok r refl] dist_space_def by auto
next
  case (3 d g)
  obtain n t i k m where d: "d = ((n, t, i, k), m)" by (cases d) auto
  let ?rs = "rsums (ser_lower (t_info t ! i)) m"
  have ok: "map_ok (n, t, i, k) m" and g: "ser_lower (t_info t ! i) \<le> g" "g \<le> ser_upper (t_info t ! i)"
    using 3 d by (auto simp: dist_space_def)
  have b: "ni_size (n_info n ! k) = int (length m)" "\<forall>x \<in> set m. 0 \<le> x"
    "ser_upper (t_info t ! i) < ser_lower (t_info t ! i) + sum_list m" using ok by (auto simp: map_ok_def)
  have "\<forall>j < length m. ?rs ! j \<le> ?rs ! Suc j" using b(2) by (auto intro: rsums_mono)
  then have "\<exists>j < length m. gblock_owner g ?rs 0 (length m) = int j"
    using gblock_owner_shift [of ?rs "length m" g 0] g b by (auto simp: rsums_nth)
  then show ?case using d b(1) by (auto simp: dist_ranks_def)
qed

text \<open>
  C11. \<open>_XMP_dist_template_GBLOCK\<close> succeeds for a mapping array that covers the dimension, the chunks partition
  the dimension, and \<open>_XMP_calc_template_owner_SCALAR\<close> on every process names the owner of an index.
\<close>

theorem gblock_distribution_partition:
  assumes "map_ok (n, t, i, k) m"
  shows "(\<forall>r \<in> {0..<ni_size (n_info n ! k)}. \<exists>x. dist_GBLOCK (at_rank n k r) t i k (Some m) =
       Inr (gblock_template ((n, t, i, k), m) r, x)) \<and>
    (\<Union>r \<in> {0..<ni_size (n_info n ! k)}. owned (gblock_template ((n, t, i, k), m) r) i) =
      {ser_lower (t_info t ! i)..ser_upper (t_info t ! i)} \<and>
    (\<forall>g \<in> {ser_lower (t_info t ! i)..ser_upper (t_info t ! i)}. \<forall>r \<in> {0..<ni_size (n_info n ! k)}.
       \<forall>s \<in> {0..<ni_size (n_info n ! k)}. g \<in> owned (gblock_template ((n, t, i, k), m) r) i \<longleftrightarrow>
         XMP_calc_template_owner_SCALAR (gblock_template ((n, t, i, k), m) s) i g = Inr r)"
  using dist_GBLOCK_owned(1,3) [OF assms _ _ refl] gblock.cover [of "((n, t, i, k), m)"]
    gblock.part_iff [of "((n, t, i, k), m)"] assms
  by (simp add: dist_ranks_def dist_space_def)

theorem gblock_distribution_partition_witness:
  "map_ok (p4, t20, 0, 0) [3, 0, 7, 10] \<and>
    (\<Union>r \<in> {0..<ni_size (n_info p4 ! 0)}. owned (gblock_template ((p4, t20, 0, 0), [3, 0, 7, 10]) r) 0) =
      {ser_lower (t_info t20 ! 0)..ser_upper (t_info t20 ! 0)}"
proof -
  have ok: "map_ok (p4, t20, 0, 0) [3, 0, 7, 10]" using t20_ok by (simp add: map_ok_def p4_def t20_def)
  with gblock_distribution_partition [OF ok] show ?thesis by blast
qed

end
