(* ===== verification/Xmp_Loop.thy ===== *)
theory Xmp_Loop
  imports Xmp_Template_Laws
begin

text \<open>
  Scheduling of parallel loops (\<open>src/libxmp/src/xmp_loop.c\<close>): from the bounds of a serial loop over a
  distributed dimension, the bounds of the loop that a process runs over its local indices. The
  operations return the three values they store through \<open>par_init\<close>, \<open>par_cond\<close> and \<open>par_step\<close>.
\<close>

subsection \<open>Macros\<close>

definition XMP_SM_GTOL_BLOCK :: "int \<Rightarrow> int \<Rightarrow> int \<Rightarrow> int" where
  "XMP_SM_GTOL_BLOCK i m w = (i - m) smod w"

definition XMP_SM_GTOL_CYCLIC :: "int \<Rightarrow> int \<Rightarrow> int \<Rightarrow> int" where
  "XMP_SM_GTOL_CYCLIC i m P = (i - m) sdiv P"

definition XMP_SM_GTOL_BLOCK_CYCLIC :: "int \<Rightarrow> int \<Rightarrow> int \<Rightarrow> int \<Rightarrow> int" where
  "XMP_SM_GTOL_BLOCK_CYCLIC b i m P = ((i - m) sdiv (P * b)) * b + (i - m) smod b"

definition XMP_SM_GTOL_GBLOCK :: "int \<Rightarrow> int \<Rightarrow> int" where
  "XMP_SM_GTOL_GBLOCK i g = i - g"

definition XMP_SM_NORM_SCHED_PARAMS :: "int \<Rightarrow> int \<Rightarrow> int \<Rightarrow> bool \<Rightarrow> (int \<times> int \<times> int \<times> bool) res" where
  "XMP_SM_NORM_SCHED_PARAMS ser_init ser_cond ser_step reverse_iter =
     (if ser_step = 0 then Inl (Fatal ''loop step is 0'')
      else if ser_step = 1 then Inr (ser_init, ser_cond - 1, ser_step, reverse_iter)
      else if ser_step > 0 then
        let c = ser_cond - 1 in Inr (ser_init, c - (c - ser_init) smod ser_step, ser_step, reverse_iter)
      else
        let s = - ser_step; c = ser_cond + 1; c' = c + (ser_init - c) smod s
        in Inr (c', ser_init, s, True))"

definition XMP_SM_FINALIZE_ITER :: "int \<times> int \<times> int \<Rightarrow> bool \<Rightarrow> int \<times> int \<times> int" where
  "XMP_SM_FINALIZE_ITER par reverse_iter =
     (case par of (i, c, s) \<Rightarrow> if reverse_iter then (c, i - 1, - s) else (i, c + 1, s))"

subsection \<open>The iterations in a triplet of the template\<close>

text \<open>The two searches of the code; \<open>None\<close> when a search does not end.\<close>

partial_function (option) search_up :: "int \<Rightarrow> int \<Rightarrow> int \<Rightarrow> int \<Rightarrow> int \<Rightarrow> int option option" where
  "search_up i up stride ser_init ser_step =
     (if i \<le> up
      then (if i < ser_init then search_up (i + stride) up stride ser_init ser_step
            else if (i - ser_init) smod ser_step = 0 then Some (Some i)
            else search_up (i + stride) up stride ser_init ser_step)
      else Some None)"

partial_function (option) search_down :: "int \<Rightarrow> int \<Rightarrow> int \<Rightarrow> int \<Rightarrow> int \<Rightarrow> int \<Rightarrow> int option option" where
  "search_down i lo stride ser_init ser_cond ser_step =
     (if i \<ge> lo
      then (if i > ser_cond then search_down (i - stride) lo stride ser_init ser_cond ser_step
            else if (i - ser_init) smod ser_step = 0 then Some (Some i)
            else search_down (i - stride) lo stride ser_init ser_cond ser_step)
      else Some None)"

declare search_up.simps [code] search_down.simps [code]

text \<open>\<open>Some None\<close> where the function returns false.\<close>

definition XMP_sched_loop_template_width_1 ::
    "int \<Rightarrow> int \<Rightarrow> int \<Rightarrow> int \<Rightarrow> int \<Rightarrow> int \<Rightarrow> (int \<times> int \<times> int) option option" where
  "XMP_sched_loop_template_width_1 ser_init ser_cond ser_step t_lower t_upper t_stride =
     (let x_max = XMP_floori (t_upper - t_lower) t_stride
      in if ser_step = 1 then
           let x = XMP_ceili (ser_init - t_lower) t_stride;
               y = XMP_floori (ser_cond - t_lower) t_stride;
               par_init = (if x < 0 then t_lower else x * t_stride + t_lower);
               par_cond = (if y > x_max then t_upper else y * t_stride + t_lower)
           in if \<not> x < 0 \<and> x > x_max then Some None
              else if y < 0 then Some None
              else Some (Some (par_init, par_cond, t_stride))
         else if t_upper < ser_init \<or> ser_cond < t_lower then Some None
         else (case search_up t_lower t_upper t_stride ser_init ser_step of
                 None \<Rightarrow> None
               | Some None \<Rightarrow> Some None
               | Some (Some par_init) \<Rightarrow>
                   (case search_down t_upper t_lower t_stride ser_init ser_cond ser_step of
                      None \<Rightarrow> None
                    | Some None \<Rightarrow> Some None
                    | Some (Some par_cond) \<Rightarrow> Some (Some (par_init, par_cond, XMP_lcm ser_step t_stride)))))"

definition XMP_sched_loop_template_width_N ::
    "int \<Rightarrow> int \<Rightarrow> int \<Rightarrow> int \<Rightarrow> int \<Rightarrow> int \<Rightarrow> int \<Rightarrow> int \<Rightarrow> int \<Rightarrow> (int \<times> int \<times> int) option res" where
  "XMP_sched_loop_template_width_N ser_init ser_cond ser_step t_lower t_upper t_stride width t_ser_lower t_ser_upper =
     (let si = (ser_init - t_ser_lower) sdiv width + t_ser_lower;
          sc = (ser_cond - t_ser_lower) sdiv width + t_ser_lower;
          tl = (t_lower - t_ser_lower) sdiv width + t_ser_lower;
          tu = (t_upper - t_ser_lower) sdiv width + t_ser_lower;
          ts = t_stride sdiv width
      in if ser_step \<noteq> 1 then Inl (Fatal ''loop step is not 1, -1: unsupported case'')
         else (case XMP_sched_loop_template_width_1 si sc 1 tl tu ts of
                 None \<Rightarrow> Inl NoReturn
               | Some None \<Rightarrow> Inr None
               | Some (Some (pi, pc, ps)) \<Rightarrow>
                   let it = (pi - t_ser_lower) * width + t_ser_lower;
                       ct = (pc - t_ser_lower) * width + t_ser_lower + width - 1;
                       ct = (if ct > t_ser_upper then t_ser_upper else ct)
                   in Inr (Some (if it < ser_init then ser_init else it,
                                 if ct > ser_cond then ser_cond else ct, ps))))"

subsection \<open>Scheduling by templates\<close>

definition no_iter :: "int \<times> int \<times> int" where
  "no_iter = (0, 0, 1)"

text \<open>
  The frame the functions for the distributions share: no iteration for a process that is no owner,
  the parameters normalised, the global bounds computed by \<open>width_1\<close> and made local by \<open>to_local\<close>.
\<close>

definition sched_with ::
    "int \<Rightarrow> int \<Rightarrow> int \<Rightarrow> template \<Rightarrow> nat \<Rightarrow> (int \<Rightarrow> int \<times> int \<times> int \<Rightarrow> int \<times> int \<times> int) \<Rightarrow> (int \<times> int \<times> int) res" where
  "sched_with ser_init ser_cond ser_step t i to_local =
     (if \<not> t_is_owner t then Inr no_iter
      else
        let c = t_chunk t ! i
        in bind_res (XMP_SM_NORM_SCHED_PARAMS ser_init ser_cond ser_step False) (\<lambda>(si, sc, ss, rev).
           case XMP_sched_loop_template_width_1 si sc ss (int32 (par_lower c)) (int32 (par_upper c)) (par_stride c) of
             None \<Rightarrow> Inl NoReturn
           | Some None \<Rightarrow> Inr no_iter
           | Some (Some par) \<Rightarrow> Inr (XMP_SM_FINALIZE_ITER (to_local ss par) rev)))"

definition XMP_sched_loop_template_DUPLICATION :: "int \<Rightarrow> int \<Rightarrow> int \<Rightarrow> template \<Rightarrow> nat \<Rightarrow> (int \<times> int \<times> int) res" where
  "XMP_sched_loop_template_DUPLICATION ser_init ser_cond ser_step t i =
     sched_with ser_init ser_cond ser_step t i (\<lambda>ss par. par)"

definition XMP_sched_loop_template_BLOCK :: "int \<Rightarrow> int \<Rightarrow> int \<Rightarrow> template \<Rightarrow> nat \<Rightarrow> (int \<times> int \<times> int) res" where
  "XMP_sched_loop_template_BLOCK ser_init ser_cond ser_step t i =
     (let lo = int32 (ser_lower (t_info t ! i)); w = int32 (par_chunk_width (t_chunk t ! i))
      in sched_with ser_init ser_cond ser_step t i
           (\<lambda>ss (pi, pc, ps). (XMP_SM_GTOL_BLOCK pi lo w, XMP_SM_GTOL_BLOCK pc lo w, ss)))"

definition XMP_sched_loop_template_CYCLIC :: "int \<Rightarrow> int \<Rightarrow> int \<Rightarrow> template \<Rightarrow> nat \<Rightarrow> (int \<times> int \<times> int) res" where
  "XMP_sched_loop_template_CYCLIC ser_init ser_cond ser_step t i =
     (if \<not> t_is_owner t then Inr no_iter
      else case onto_nodes_info (t_chunk t ! i) of
        None \<Rightarrow> Inl NullDeref
      | Some ni \<Rightarrow>
          let lo = int32 (ser_lower (t_info t ! i))
          in sched_with ser_init ser_cond ser_step t i
               (\<lambda>ss (pi, pc, ps). (XMP_SM_GTOL_CYCLIC pi lo (ni_size ni), XMP_SM_GTOL_CYCLIC pc lo (ni_size ni), 1)))"

definition XMP_sched_loop_template_BLOCK_CYCLIC :: "int \<Rightarrow> int \<Rightarrow> int \<Rightarrow> template \<Rightarrow> nat \<Rightarrow> (int \<times> int \<times> int) res" where
  "XMP_sched_loop_template_BLOCK_CYCLIC ser_init ser_cond ser_step t i =
     (if \<not> t_is_owner t then Inr no_iter
      else case onto_nodes_info (t_chunk t ! i) of
        None \<Rightarrow> Inl NullDeref
      | Some ni \<Rightarrow>
          let lo = int32 (ser_lower (t_info t ! i)); up = int32 (ser_upper (t_info t ! i));
              c = t_chunk t ! i; width = int32 (par_width c)
          in bind_res (XMP_SM_NORM_SCHED_PARAMS ser_init ser_cond ser_step False) (\<lambda>(si, sc, ss, rev).
             bind_res (XMP_sched_loop_template_width_N si sc ss (int32 (par_lower c)) (int32 (par_upper c))
                         (par_stride c) width lo up) (\<lambda>r.
             case r of
               None \<Rightarrow> Inr no_iter
             | Some (pi, pc, ps) \<Rightarrow>
                 Inr (XMP_SM_FINALIZE_ITER
                   (XMP_SM_GTOL_BLOCK_CYCLIC width pi lo (ni_size ni),
                    XMP_SM_GTOL_BLOCK_CYCLIC width pc lo (ni_size ni), 1) rev))))"

definition XMP_sched_loop_template_GBLOCK :: "int \<Rightarrow> int \<Rightarrow> int \<Rightarrow> template \<Rightarrow> nat \<Rightarrow> (int \<times> int \<times> int) res" where
  "XMP_sched_loop_template_GBLOCK ser_init ser_cond ser_step t i =
     (if \<not> t_is_owner t then Inr no_iter
      else case onto_nodes_info (t_chunk t ! i) of
        None \<Rightarrow> Inl NullDeref
      | Some ni \<Rightarrow>
          let g = mapping_array (t_chunk t ! i) ! nat (ni_rank ni)
          in sched_with ser_init ser_cond ser_step t i
               (\<lambda>ss (pi, pc, ps). (XMP_SM_GTOL_GBLOCK pi g, XMP_SM_GTOL_GBLOCK pc g, ss)))"

subsection \<open>Scheduling by nodes\<close>

definition XMP_sched_loop_nodes :: "int \<Rightarrow> int \<Rightarrow> int \<Rightarrow> nodes \<Rightarrow> nat \<Rightarrow> (int \<times> int \<times> int) res" where
  "XMP_sched_loop_nodes ser_init ser_cond ser_step n k =
     (if \<not> n_is_member n then Inr no_iter
      else bind_res (XMP_SM_NORM_SCHED_PARAMS ser_init ser_cond ser_step True) (\<lambda>(si, sc, ss, rev).
        let rank1O = ni_rank (n_info n ! k) + 1
        in if rank1O < si \<or> rank1O > sc then Inr no_iter
           else if (rank1O - si) smod ss = 0 then Inr (rank1O, rank1O + 1, ss)
           else Inr no_iter))"

end
