(* ===== verification/Xmp_Loop_Laws.thy ===== *)
theory Xmp_Loop_Laws
  imports Xmp_Loop
begin

text \<open>
  A parallel loop runs every iteration of the serial loop exactly once: the local loop of a process is,
  mapped back to global indices, the part of the serial loop that the process owns.
\<close>

subsection \<open>Normal form of a loop\<close>

definition loop_ok :: "int \<times> int \<times> int \<Rightarrow> bool" where
  "loop_ok l \<longleftrightarrow> (case l of (a, b, s) \<Rightarrow> s = 1 \<or> s = - 1 \<or> 1 < s \<and> a < b \<or> s < - 1 \<and> b < a)"

definition iters :: "int \<times> int \<times> int \<Rightarrow> int set" where
  "iters l = (case l of (a, b, s) \<Rightarrow> loop_iters a b s)"

lemma iters_simp: "iters (a, b, s) = loop_iters a b s"
  by (simp add: iters_def)

lemma no_iter_empty [simp]: "iters no_iter = {}"
  by (auto simp: iters_def no_iter_def loop_iters_def)

lemma loop_iters_down: "0 < s \<Longrightarrow> s dvd (c - i) \<Longrightarrow> loop_iters c (i - 1) (- s) = trip i c s"
proof -
  assume s: "0 < s" "s dvd (c - i)"
  have "s dvd (k - c) \<longleftrightarrow> s dvd (k - i)" for k
    using dvd_diff_shift [OF s(2)] by blast
  then show ?thesis using s(1) by (auto simp: loop_iters_def trip_def)
qed

lemma norm_iters:
  assumes "loop_ok (a, b, s)"
  shows "\<exists>si sc ss. XMP_SM_NORM_SCHED_PARAMS a b s rv = Inr (si, sc, ss, rv \<or> s < 0) \<and> ss = \<bar>s\<bar> \<and> 0 < ss \<and>
    ss dvd (sc - si) \<and> trip si sc ss = iters (a, b, s)"
proof -
  consider "s = 1" | "1 < s" "a < b" | "s = - 1" | "s < - 1" "b < a" using assms by (auto simp: loop_ok_def)
  then show ?thesis
  proof cases
    case 1
    then show ?thesis by (simp add: XMP_SM_NORM_SCHED_PARAMS_def iters_def loop_iters_up)
  next
    case 2
    then show ?thesis using trim_upper [of s a "b - 1"] smod_trim(3) [of s a "b - 1"]
      by (simp add: XMP_SM_NORM_SCHED_PARAMS_def Let_def iters_def loop_iters_up)
  next
    case 3
    have "(a - (b + 1)) smod 1 = 0" by (simp add: smod_eq_0_iff)
    with 3 show ?thesis
      by (simp add: XMP_SM_NORM_SCHED_PARAMS_def Let_def iters_def loop_iters_def trip_def) auto
  next
    case 4
    then have s: "0 < - s" "b + 1 \<le> a" by simp_all
    have "trip (b + 1 + (a - (b + 1)) smod - s) a (- s) = iters (a, b, s)"
      unfolding trim_lower [OF s] using 4 by (auto simp: iters_def loop_iters_def)
    then show ?thesis using 4 s smod_trim(6) [OF s]
      by (simp add: XMP_SM_NORM_SCHED_PARAMS_def Let_def)
  qed
qed

subsection \<open>The iterations in a triplet\<close>

lemma search_up_returns:
  assumes "0 < ts"
  shows "\<exists>r. search_up i u ts si ss = Some r \<and>
    (case r of
       None \<Rightarrow> \<forall>k \<in> trip i u ts. si \<le> k \<longrightarrow> \<not> ss dvd (k - si)
     | Some j \<Rightarrow> j \<in> trip i u ts \<and> si \<le> j \<and> ss dvd (j - si) \<and>
         (\<forall>k \<in> trip i u ts. si \<le> k \<longrightarrow> ss dvd (k - si) \<longrightarrow> j \<le> k))"
proof (induction "nat (u - i + 1)" arbitrary: i rule: less_induct)
  case less
  show ?case
  proof (cases "i \<le> u")
    case False
    then show ?thesis by (simp add: search_up.simps trip_empty)
  next
    case le: True
    show ?thesis
    proof (cases "si \<le> i \<and> ss dvd (i - si)")
      case True
      with le assms show ?thesis
        by (simp add: search_up.simps [of i] smod_eq_0_iff) (auto simp: mem_trip)
    next
      case False
      from le assms have "nat (u - (i + ts) + 1) < nat (u - i + 1)" by linarith
      from less [OF this] obtain r where r: "search_up (i + ts) u ts si ss = Some r"
        "case r of None \<Rightarrow> \<forall>k \<in> trip (i + ts) u ts. si \<le> k \<longrightarrow> \<not> ss dvd (k - si)
         | Some j \<Rightarrow> j \<in> trip (i + ts) u ts \<and> si \<le> j \<and> ss dvd (j - si) \<and>
             (\<forall>k \<in> trip (i + ts) u ts. si \<le> k \<longrightarrow> ss dvd (k - si) \<longrightarrow> j \<le> k)" by auto
      from False le r(1) have "search_up i u ts si ss = Some r"
        by (auto simp: search_up.simps [of i] smod_eq_0_iff)
      with r(2) False le assms show ?thesis by (auto simp: trip_Cons split: option.splits)
    qed
  qed
qed

text \<open>The search downwards is the search upwards on the negated numbers.\<close>

lemma search_down_up:
  assumes "0 < ts" and sc: "ss dvd (sc - si)"
  shows "search_down i l ts si sc ss = map_option (map_option uminus) (search_up (- i) (- l) ts (- sc) ss)"
proof (induction "nat (i - l + 1)" arbitrary: i rule: less_induct)
  case less
  have d: "ss dvd (i - si) \<longleftrightarrow> ss dvd (sc - i)"
    using dvd_add_left_iff [OF sc, of "i - sc"] dvd_minus_iff [of ss "i - sc"] by simp
  show ?case
  proof (cases "l \<le> i")
    case True
    with assms have "nat (i - ts - l + 1) < nat (i - l + 1)" by linarith
    from less [OF this] True d show ?thesis
      by (simp add: search_down.simps [of i] search_up.simps [of "- i"] smod_eq_0_iff)
  qed (simp add: search_down.simps search_up.simps)
qed

lemma search_down_returns:
  assumes "0 < ts" and sc: "ss dvd (sc - si)" and al: "ts dvd (i - l)"
  shows "\<exists>r. search_down i l ts si sc ss = Some r \<and>
    (case r of
       None \<Rightarrow> \<forall>k \<in> trip l i ts. k \<le> sc \<longrightarrow> \<not> ss dvd (k - si)
     | Some j \<Rightarrow> j \<in> trip l i ts \<and> j \<le> sc \<and> ss dvd (j - si) \<and>
         (\<forall>k \<in> trip l i ts. k \<le> sc \<longrightarrow> ss dvd (k - si) \<longrightarrow> k \<le> j))"
proof -
  have mem: "- k \<in> trip (- i) (- l) ts \<longleftrightarrow> k \<in> trip l i ts" for k
    using dvd_diff_shift [OF al, of k] dvd_minus_iff [of ts "k - i"] by (auto simp: mem_trip)
  have cls: "ss dvd (sc - k) \<longleftrightarrow> ss dvd (k - si)" for k
    using dvd_diff_shift [OF sc, of k] dvd_minus_iff [of ss "k - sc"] by simp
  obtain r where r: "search_up (- i) (- l) ts (- sc) ss = Some r"
    and spec: "case r of None \<Rightarrow> \<forall>k \<in> trip (- i) (- l) ts. - sc \<le> k \<longrightarrow> \<not> ss dvd (k - - sc)
     | Some j \<Rightarrow> j \<in> trip (- i) (- l) ts \<and> - sc \<le> j \<and> ss dvd (j - - sc) \<and>
         (\<forall>k \<in> trip (- i) (- l) ts. - sc \<le> k \<longrightarrow> ss dvd (k - - sc) \<longrightarrow> j \<le> k)"
    using search_up_returns [OF assms(1)] by blast
  have all: "(\<forall>k \<in> trip (- i) (- l) ts. - sc \<le> k \<longrightarrow> ss dvd (k - - sc) \<longrightarrow> P k) \<longleftrightarrow>
      (\<forall>k \<in> trip l i ts. k \<le> sc \<longrightarrow> ss dvd (k - si) \<longrightarrow> P (- k))" for P
  proof -
    have "(\<forall>k \<in> trip (- i) (- l) ts. Q k) \<longleftrightarrow> (\<forall>k \<in> trip l i ts. Q (- k))" for Q
      using mem by (metis add.inverse_inverse)
    then show ?thesis using cls by simp
  qed
  show ?thesis
  proof (cases r)
    case None
    with spec all [of "\<lambda>k. False"] r show ?thesis by (simp add: search_down_up [OF assms(1,2)])
  next
    case (Some j)
    with spec have j: "j \<in> trip (- i) (- l) ts" "- sc \<le> j" "ss dvd (sc - - j)"
      "\<forall>k \<in> trip (- i) (- l) ts. - sc \<le> k \<longrightarrow> ss dvd (k - - sc) \<longrightarrow> j \<le> k" by (auto simp: add.commute)
    have "- j \<in> trip l i ts" using mem [of "- j"] j(1) by simp
    moreover have "\<forall>k \<in> trip l i ts. k \<le> sc \<longrightarrow> ss dvd (k - si) \<longrightarrow> k \<le> - j"
      using j(4) [unfolded all] by fastforce
    ultimately show ?thesis using Some r j(2) j(3) [unfolded cls] by (simp add: search_down_up [OF assms(1,2)])
  qed
qed

text \<open>What \<open>_XMP_sched_loop_template_width_1\<close> leaves in its three results.\<close>

definition width_1_result :: "int set \<Rightarrow> int \<Rightarrow> (int \<times> int \<times> int) option \<Rightarrow> bool" where
  "width_1_result I q r \<longleftrightarrow>
     (case r of None \<Rightarrow> I = {}
      | Some (pi, pc, ps) \<Rightarrow> I = trip pi pc q \<and> ps = q \<and> q dvd (pc - pi))"

lemma width_1_step_1:
  assumes "0 < ts" "tlo \<le> tu" "ts dvd (tu - tlo)"
  shows "\<exists>r. XMP_sched_loop_template_width_1 si sc 1 tlo tu ts = Some r \<and>
    width_1_result (trip si sc 1 \<inter> trip tlo tu ts) ts r \<and>
    (\<forall>pi pc ps. r = Some (pi, pc, ps) \<longrightarrow> pi \<in> trip tlo tu ts \<and> pc \<in> trip tlo tu ts)"
proof -
  let ?x = "- ((tlo - si) div ts)" and ?y = "(sc - tlo) div ts" and ?m = "(tu - tlo) div ts"
  have tu: "tu = tlo + ?m * ts" using assms(3) by simp
  have m0: "0 \<le> ?m" using assms by (simp add: pos_imp_zdiv_nonneg_iff)
  have T: "trip tlo tu ts = (\<lambda>k. tlo + k * ts) ` {0..?m}" by (rule trip_image [OF assms(1)])
  have lo: "si \<le> tlo + k * ts \<longleftrightarrow> ?x \<le> k" for k
    using ceil_le_iff [OF assms(1), of "si - tlo" k] by auto
  have up: "tlo + k * ts \<le> sc \<longleftrightarrow> k \<le> ?y" for k
    using le_div_iff [OF assms(1), of k "sc - tlo"] by auto
  have I: "trip si sc 1 \<inter> trip tlo tu ts = (\<lambda>k. tlo + k * ts) ` {max 0 ?x..min ?m ?y}"
    unfolding T trip_1 using lo up by auto
  have sub: "trip (tlo + a * ts) (tlo + b * ts) ts = (\<lambda>k. tlo + k * ts) ` {a..b}" for a b
  proof -
    have "(tlo + b * ts - (tlo + a * ts)) div ts = b - a" using assms(1) by (simp add: left_diff_distrib [symmetric])
    then have "trip (tlo + a * ts) (tlo + b * ts) ts = (\<lambda>k. tlo + a * ts + k * ts) ` {0..b - a}"
      by (simp add: trip_image [OF assms(1)])
    also have "\<dots> = (\<lambda>k. tlo + k * ts) ` ((\<lambda>k. k + a) ` {0..b - a})"
      unfolding image_image by (intro image_cong) (auto simp: algebra_simps)
    also have "(\<lambda>k. k + a) ` {0..b - a} = {a..b}" by simp
    finally show ?thesis .
  qed
  have ts: "ts dvd (tlo + b * ts - (tlo + a * ts))" for a b by (simp add: left_diff_distrib [symmetric])
  have inT: "tlo + k * ts \<in> trip tlo tu ts" if "0 \<le> k" "k \<le> ?m" for k unfolding T using that by auto
  show ?thesis
  proof (cases "?x > ?m \<or> ?y < 0")
    case True
    then have "trip si sc 1 \<inter> trip tlo tu ts = {}" unfolding I using m0 by auto
    moreover have "XMP_sched_loop_template_width_1 si sc 1 tlo tu ts = Some None"
      using True assms(1) m0 by (auto simp: XMP_sched_loop_template_width_1_def XMP_ceili_pos XMP_floori_pos Let_def)
    ultimately show ?thesis by (simp add: width_1_result_def)
  next
    case False
    have "XMP_sched_loop_template_width_1 si sc 1 tlo tu ts =
        Some (Some (tlo + max 0 ?x * ts, tlo + min ?m ?y * ts, ts))"
      using False assms(1) tu m0
      by (auto simp: XMP_sched_loop_template_width_1_def XMP_ceili_pos XMP_floori_pos Let_def max_def min_def)
    then show ?thesis unfolding width_1_result_def I using False m0 ts inT sub by auto
  qed
qed

lemma width_1_step:
  assumes t: "0 < ts" "ts dvd (tu - tlo)" and s: "0 < ss" "ss dvd (sc - si)" "ss \<noteq> 1"
  shows "\<exists>r. XMP_sched_loop_template_width_1 si sc ss tlo tu ts = Some r \<and>
    width_1_result (trip si sc ss \<inter> trip tlo tu ts) (lcm ss ts) r \<and>
    (\<forall>pi pc ps. r = Some (pi, pc, ps) \<longrightarrow> pi \<in> trip tlo tu ts \<and> pc \<in> trip tlo tu ts)"
proof (cases "tu < si \<or> sc < tlo")
  case True
  then have "trip si sc ss \<inter> trip tlo tu ts = {}" by (auto simp: mem_trip)
  with True s(3) show ?thesis by (simp add: XMP_sched_loop_template_width_1_def width_1_result_def)
next
  case False
  obtain a where a: "search_up tlo tu ts si ss = Some a"
    and A: "case a of None \<Rightarrow> \<forall>k \<in> trip tlo tu ts. si \<le> k \<longrightarrow> \<not> ss dvd (k - si)
     | Some j \<Rightarrow> j \<in> trip tlo tu ts \<and> si \<le> j \<and> ss dvd (j - si) \<and>
         (\<forall>k \<in> trip tlo tu ts. si \<le> k \<longrightarrow> ss dvd (k - si) \<longrightarrow> j \<le> k)"
    using search_up_returns [OF t(1)] by blast
  obtain b where b: "search_down tu tlo ts si sc ss = Some b"
    and B: "case b of None \<Rightarrow> \<forall>k \<in> trip tlo tu ts. k \<le> sc \<longrightarrow> \<not> ss dvd (k - si)
     | Some j \<Rightarrow> j \<in> trip tlo tu ts \<and> j \<le> sc \<and> ss dvd (j - si) \<and>
         (\<forall>k \<in> trip tlo tu ts. k \<le> sc \<longrightarrow> ss dvd (k - si) \<longrightarrow> k \<le> j)"
    using search_down_returns [OF t(1) s(2) t(2)] by blast
  show ?thesis
  proof (cases "a = None \<or> b = None")
    case True
    then have "trip si sc ss \<inter> trip tlo tu ts = {}" using A B by (auto simp: mem_trip)
    with True False s(3) a b show ?thesis
      by (auto simp: XMP_sched_loop_template_width_1_def width_1_result_def split: option.split)
  next
    case some: False
    then obtain x y where xy: "a = Some x" "b = Some y" by auto
    have X: "x \<in> trip tlo tu ts" "si \<le> x" "ss dvd (x - si)"
      "\<And>k. k \<in> trip tlo tu ts \<Longrightarrow> si \<le> k \<Longrightarrow> ss dvd (k - si) \<Longrightarrow> x \<le> k" using A xy by auto
    have Y: "y \<in> trip tlo tu ts" "y \<le> sc" "ss dvd (y - si)"
      "\<And>k. k \<in> trip tlo tu ts \<Longrightarrow> k \<le> sc \<Longrightarrow> ss dvd (k - si) \<Longrightarrow> k \<le> y" using B xy by auto
    have tx: "ts dvd (x - tlo)" "ts dvd (y - tlo)" using X(1) Y(1) by (simp_all add: mem_trip)
    have "lcm ss ts dvd (y - x)"
      using dvd_diff_shift [OF X(3)] dvd_diff_shift [OF tx(1)] Y(3) tx(2) by (simp add: lcm_least)
    moreover have "k \<in> trip si sc ss \<inter> trip tlo tu ts \<longleftrightarrow> k \<in> trip x y (lcm ss ts)" for k
    proof -
      have "ss dvd (k - si) \<longleftrightarrow> ss dvd (k - x)" "ts dvd (k - tlo) \<longleftrightarrow> ts dvd (k - x)"
        using dvd_diff_shift [OF X(3)] dvd_diff_shift [OF tx(1)] by auto
      then have "lcm ss ts dvd (k - x) \<longleftrightarrow> ss dvd (k - si) \<and> ts dvd (k - tlo)" by simp
      then show ?thesis using X(1,2) Y(1,2) X(4) [of k] Y(4) [of k] unfolding Int_iff mem_trip by auto
    qed
    ultimately show ?thesis using False s xy a b t X(1) Y(1)
      by (auto simp: XMP_sched_loop_template_width_1_def width_1_result_def XMP_lcm_eq)
  qed
qed

subsection \<open>The frame of the schedulers\<close>

lemma affine_trip:
  assumes "0 < q"
  shows "(\<lambda>x. m + x * q) ` trip a b z = trip (m + a * q) (m + b * q) (z * q)"
proof (rule set_eqI, rule iffI)
  fix g assume "g \<in> trip (m + a * q) (m + b * q) (z * q)"
  then have g: "m + a * q \<le> g" "g \<le> m + b * q" "z * q dvd (g - (m + a * q))" by (simp_all add: mem_trip)
  then obtain k where k: "g - (m + a * q) = z * q * k" by (auto elim: dvdE)
  then have eq: "g = m + (a + z * k) * q" by (simp add: algebra_simps)
  then have "a + z * k \<in> trip a b z" using g(1,2) assms by (simp add: mem_trip)
  then show "g \<in> (\<lambda>x. m + x * q) ` trip a b z" using eq by blast
next
  fix g assume "g \<in> (\<lambda>x. m + x * q) ` trip a b z"
  then obtain x where gx: "g = m + x * q" "x \<in> trip a b z" by (rule imageE)
  then have x: "g = m + x * q" "a \<le> x" "x \<le> b" "z dvd (x - a)" by (simp_all only: mem_trip)
  then have "z * q dvd (x - a) * q" by (simp add: mult_dvd_mono)
  then show "g \<in> trip (m + a * q) (m + b * q) (z * q)"
    using x assms by (simp add: mem_trip left_diff_distrib)
qed

text \<open>A chunk with a positive stride, and the translation of its indices to local ones.\<close>

definition chunk_ok :: "template_chunk \<Rightarrow> bool" where
  "chunk_ok c \<longleftrightarrow> fits32 (par_lower c) \<and> fits32 (par_upper c) \<and> 0 < par_stride c \<and>
     par_lower c \<le> par_upper c \<and> par_stride c dvd (par_upper c - par_lower c)"

definition localises :: "(int \<Rightarrow> int \<times> int \<times> int \<Rightarrow> int \<times> int \<times> int) \<Rightarrow> template_chunk \<Rightarrow> int \<Rightarrow> int \<Rightarrow> int \<Rightarrow> bool" where
  "localises f c ss m q \<longleftrightarrow> 0 < q \<and>
     (\<forall>pi \<in> trip (par_lower c) (par_upper c) (par_stride c). \<forall>pc \<in> trip (par_lower c) (par_upper c) (par_stride c).
        \<exists>x y z. f ss (pi, pc, lcm ss (par_stride c)) = (x, y, z) \<and> m + x * q = pi \<and> m + y * q = pc \<and>
          z * q = lcm ss (par_stride c))"

lemma finalize_iters:
  assumes "0 < z" "z dvd (y - x)"
  shows "iters (XMP_SM_FINALIZE_ITER (x, y, z) rv) = trip x y z"
  using assms loop_iters_down [OF assms] by (simp add: XMP_SM_FINALIZE_ITER_def iters_def loop_iters_up)

lemma sched_with_iters:
  assumes l: "loop_ok (a, b, s)" and own: "t_is_owner t" and c: "c = t_chunk t ! i" "chunk_ok c"
    and f: "localises f c \<bar>s\<bar> m q"
  shows "\<exists>par. sched_with a b s t i f = Inr par \<and>
    (\<lambda>x. m + x * q) ` iters par = iters (a, b, s) \<inter> trip (par_lower c) (par_upper c) (par_stride c)"
proof -
  let ?T = "trip (par_lower c) (par_upper c) (par_stride c)" and ?z = "lcm \<bar>s\<bar> (par_stride c)"
  obtain si sc ss where n: "XMP_SM_NORM_SCHED_PARAMS a b s False = Inr (si, sc, ss, s < 0)" "ss = \<bar>s\<bar>" "0 < ss"
    "ss dvd (sc - si)" "trip si sc ss = iters (a, b, s)"
    using norm_iters [OF l, of False] by auto
  have ck: "int32 (par_lower c) = par_lower c" "int32 (par_upper c) = par_upper c" "0 < par_stride c"
    "par_lower c \<le> par_upper c" "par_stride c dvd (par_upper c - par_lower c)"
    using c(2) by (simp_all add: chunk_ok_def)
  obtain r where r: "XMP_sched_loop_template_width_1 si sc ss (par_lower c) (par_upper c) (par_stride c) = Some r"
    "width_1_result (iters (a, b, s) \<inter> ?T) ?z r"
    "\<And>pi pc ps. r = Some (pi, pc, ps) \<Longrightarrow> pi \<in> ?T \<and> pc \<in> ?T"
  proof (cases "ss = 1")
    case True
    then show thesis using that width_1_step_1 [OF ck(3-5), of si sc] n ck(3) by auto
  next
    case False
    then show thesis using that width_1_step [OF ck(3,5) n(3,4)] n(2,5) by auto
  qed
  show ?thesis
  proof (cases r)
    case None
    then show ?thesis using r n own c(1) ck(1,2) by (simp add: sched_with_def width_1_result_def)
  next
    case (Some p)
    obtain pi pc ps where p: "p = (pi, pc, ps)" by (cases p)
    then have R: "iters (a, b, s) \<inter> ?T = trip pi pc ?z" "ps = ?z" "?z dvd (pc - pi)" "pi \<in> ?T" "pc \<in> ?T"
      using r(2,3) Some by (auto simp: width_1_result_def)
    obtain x y z where xyz: "f \<bar>s\<bar> (pi, pc, ?z) = (x, y, z)" "m + x * q = pi" "m + y * q = pc" "z * q = ?z" and q: "0 < q"
      using f R(4,5) unfolding localises_def by blast
    have z: "0 < z * q" unfolding xyz(4) using n(2,3) ck(3) by (simp add: lcm_pos_int)
    then have z0: "0 < z" using q by (simp add: zero_less_mult_iff)
    have "pc - pi = (y - x) * q" using xyz(2,3) by (simp add: left_diff_distrib)
    then have "z dvd (y - x)" using R(3) q unfolding xyz(4) [symmetric] by simp
    then have "(\<lambda>x. m + x * q) ` iters (XMP_SM_FINALIZE_ITER (x, y, z) (s < 0)) = trip pi pc ?z"
      unfolding finalize_iters [OF z0 \<open>z dvd (y - x)\<close>] affine_trip [OF q] xyz(2-4) by simp
    then show ?thesis using r(1) n(1,2) own c(1) ck(1,2) Some p R(1,2) xyz(1) by (simp add: sched_with_def)
  qed
qed

subsection \<open>Scheduling by templates\<close>

text \<open>
  The contract of a parallel loop over a distributed dimension: the global iterations \<open>run d l r\<close> of the
  process with rank \<open>r\<close> are those of the serial loop \<open>l\<close> in its part of the dimension.
\<close>

locale scheduling = distribution ok space ranks part owner
  for ok :: "'d \<Rightarrow> bool" and space :: "'d \<Rightarrow> int set" and ranks :: "'d \<Rightarrow> int set"
    and part :: "'d \<Rightarrow> int \<Rightarrow> int set" and owner :: "'d \<Rightarrow> int \<Rightarrow> int" +
  fixes good :: "'d \<Rightarrow> 'l \<Rightarrow> bool" and serial :: "'l \<Rightarrow> int set" and run :: "'d \<Rightarrow> 'l \<Rightarrow> int \<Rightarrow> int set"
  assumes run_eq: "ok d \<Longrightarrow> good d l \<Longrightarrow> r \<in> ranks d \<Longrightarrow> run d l r = serial l \<inter> part d r"
begin

lemma all_run: "ok d \<Longrightarrow> good d l \<Longrightarrow> (\<Union>r \<in> ranks d. run d l r) = serial l \<inter> space d"
  using cover [of d] by (auto simp: run_eq)

lemma run_once:
  assumes "ok d" "good d l" "g \<in> serial l" "g \<in> space d"
  shows "\<exists>!r. r \<in> ranks d \<and> g \<in> run d l r"
  using one_owner [OF assms(1,4)] assms by (auto simp: run_eq)

lemma run_owner:
  assumes "ok d" "good d l" "r \<in> ranks d" "g \<in> space d"
  shows "g \<in> run d l r \<longleftrightarrow> g \<in> serial l \<and> owner d g = r"
  using assms by (auto simp: run_eq part_iff)

end

text \<open>The local loop a scheduler returns, and its iterations as global indices \<open>m + x * q\<close>.\<close>

definition run_of :: "(int \<times> int \<times> int) res \<Rightarrow> int \<Rightarrow> int \<Rightarrow> int set" where
  "run_of r m q = (case r of Inr par \<Rightarrow> (\<lambda>x. m + x * q) ` iters par | Inl e \<Rightarrow> {})"

lemma run_of_Inr: "run_of (Inr par) m q = (\<lambda>x. m + x * q) ` iters par"
  by (simp add: run_of_def)

lemma sched_with_run:
  assumes "loop_ok (a, b, s)" "t_is_owner t \<longrightarrow> chunk_ok (t_chunk t ! i)"
    and "t_is_owner t \<longrightarrow> localises f (t_chunk t ! i) \<bar>s\<bar> m q"
    and "t_is_owner t \<longrightarrow> owned t i = trip (par_lower (t_chunk t ! i)) (par_upper (t_chunk t ! i)) (par_stride (t_chunk t ! i))"
  shows "is_ok (sched_with a b s t i f) \<and> run_of (sched_with a b s t i f) m q = iters (a, b, s) \<inter> owned t i"
proof (cases "t_is_owner t")
  case True
  with sched_with_iters [OF assms(1) True refl] assms(2-4) obtain par where
    "sched_with a b s t i f = Inr par" "(\<lambda>x. m + x * q) ` iters par = iters (a, b, s) \<inter> owned t i" by metis
  then show ?thesis by (simp add: run_of_Inr is_ok_def)
next
  case False
  then show ?thesis by (simp add: sched_with_def run_of_Inr owned_def is_ok_def)
qed

text \<open>A dimension whose extent fits in an \<open>int\<close>, so that the width of a block does.\<close>

definition sched_ok :: "nodes \<times> template \<times> nat \<times> nat \<Rightarrow> bool" where
  "sched_ok d \<longleftrightarrow> dist_ok d \<and> (case d of (n, t, i, k) \<Rightarrow> fits32 (ser_size (t_info t ! i)))"

definition block_run :: "nodes \<times> template \<times> nat \<times> nat \<Rightarrow> int \<times> int \<times> int \<Rightarrow> int \<Rightarrow> int set" where
  "block_run d l r = (case (d, l) of ((n, t, i, k), (a, b, s)) \<Rightarrow>
     let T = dist_BLOCK (at_rank n k r) t i k
     in run_of (XMP_sched_loop_template_BLOCK a b s T i) (par_lower (t_chunk T ! i)) 1)"

lemma block_sched:
  assumes ok: "sched_ok (n, t, i, k)" and l: "loop_ok (a, b, s)" and r: "0 \<le> r" "r < ni_size (n_info n ! k)"
    and T: "T = dist_BLOCK (at_rank n k r) t i k"
  shows "is_ok (XMP_sched_loop_template_BLOCK a b s T i) \<and>
    run_of (XMP_sched_loop_template_BLOCK a b s T i) (par_lower (t_chunk T ! i)) 1 = iters (a, b, s) \<inter> owned T i"
  unfolding XMP_sched_loop_template_BLOCK_def Let_def
proof (intro sched_with_run [OF l] impI)
  let ?N = "ser_size (t_info t ! i)" and ?P = "ni_size (n_info n ! k)" and ?c = "t_chunk T ! i"
  let ?w = "XMP_M_CEILi ?N ?P" and ?lo = "ser_lower (t_info t ! i)" and ?hi = "ser_upper (t_info t ! i)"
  assume own: "t_is_owner T"
  have d: "dist_ok (n, t, i, k)" using ok by (simp add: sched_ok_def)
  have f: "fits32 ?lo" "fits32 ?hi" "?N = ?hi - ?lo + 1" "fits32 ?N" "0 < ?N" "0 < ?P"
    using ok by (auto simp: sched_ok_def dist_ok_def)
  note D = dist_BLOCK_owned [OF d r refl refl, folded T]
  have rw: "r * ?w < ?N" using own D(5) by simp
  have c: "par_lower ?c = ?lo + r * ?w" "par_upper ?c = min ?hi (?lo + (r + 1) * ?w - 1)" "par_stride ?c = 1"
    using D(6,7) [OF rw] D(8) by simp_all
  note cw = ceil_width [OF f(5,6) refl]
  have rw0: "0 \<le> r * ?w" using r cw(1) by simp
  have up: "?lo + r * ?w \<le> min ?hi (?lo + (r + 1) * ?w - 1)" using rw f(3) cw(1) by (simp add: distrib_right)
  show "chunk_ok ?c" unfolding chunk_ok_def c using up rw0 f(1,2) by (simp add: fits32_def)
  show "owned T i = trip (par_lower ?c) (par_upper ?c) (par_stride ?c)"
    unfolding D(1) c trip_1 by (rule refl)
  have "1 * ?w \<le> ?P * ?w" using f(6) cw(1) by (intro mult_right_mono) auto
  moreover have "?w \<le> ?N"
    using f(5,6) ceil_le_iff [OF f(6), of ?N ?N] mult_left_mono [of 1 ?P ?N] by (simp add: XMP_M_CEILi_pos)
  ultimately have w: "int32 (par_chunk_width ?c) = ?w" unfolding D(2) using cw(1) f(4) by (intro int32_id) (simp add: fits32_def)
  have lo: "int32 (ser_lower (t_info T ! i)) = ?lo" using D(4) f(1) by simp
  have gtol: "par_lower ?c + XMP_SM_GTOL_BLOCK g ?lo ?w = g" if "g \<in> trip (par_lower ?c) (par_upper ?c) (par_stride ?c)" for g
  proof -
    have g: "?lo + r * ?w \<le> g" "g < ?lo + (r + 1) * ?w" using that by (simp_all add: c mem_trip)
    then have "(g - ?lo) div ?w = r" using between_iff_div [OF cw(1), of r "g - ?lo"] by simp
    then have "(g - ?lo) mod ?w = g - ?lo - r * ?w" using minus_div_mult_eq_mod [of "g - ?lo" ?w] by simp
    then show ?thesis using g(1) rw0 cw(1) by (simp add: XMP_SM_GTOL_BLOCK_def c)
  qed
  show "localises (\<lambda>ss (pi, pc, ps). (XMP_SM_GTOL_BLOCK pi (int32 (ser_lower (t_info T ! i))) (int32 (par_chunk_width ?c)),
      XMP_SM_GTOL_BLOCK pc (int32 (ser_lower (t_info T ! i))) (int32 (par_chunk_width ?c)), ss)) ?c \<bar>s\<bar> (par_lower ?c) 1"
    unfolding localises_def lo w using gtol c(3) by simp
qed

interpretation block_loop: scheduling sched_ok dist_space dist_ranks block_part block_owner "\<lambda>d. loop_ok" iters block_run
proof
  fix d :: "nodes \<times> template \<times> nat \<times> nat" and l :: "int \<times> int \<times> int" and r g
  obtain n t i k where d: "d = (n, t, i, k)" by (cases d)
  obtain a b s where l: "l = (a, b, s)" by (cases l)
  assume ok: "sched_ok d"
  then have dk: "dist_ok d" by (cases d) (simp add: sched_ok_def)
  show "r \<in> dist_ranks d \<Longrightarrow> g \<in> dist_space d \<Longrightarrow> g \<in> block_part d r \<longleftrightarrow> block_owner d g = r"
    by (rule block.part_iff [OF dk])
  show "r \<in> dist_ranks d \<Longrightarrow> block_part d r \<subseteq> dist_space d" by (rule block.part_space [OF dk])
  show "g \<in> dist_space d \<Longrightarrow> block_owner d g \<in> dist_ranks d" by (rule block.owner_rank [OF dk])
  show "block_run d l r = iters l \<inter> block_part d r" if "loop_ok l" "r \<in> dist_ranks d"
    using block_sched [of n t i k a b s r, OF _ _ _ _ refl] that ok d l
    by (simp add: block_run_def block_part_def dist_ranks_def Let_def)
qed

text \<open>
  C3. \<open>_XMP_sched_loop_template_BLOCK\<close> returns on every process, the local loops together run exactly the
  iterations of the serial loop in the dimension, and every iteration is run by one process only, the owner
  of its index. The loop may count up or down with any step; a loop with a step other than 1 or -1 is not empty.
\<close>

theorem block_loop_runs_once:
  assumes "sched_ok (n, t, i, k)" and "loop_ok (a, b, s)"
  shows "(\<forall>r \<in> {0..<ni_size (n_info n ! k)}. is_ok (XMP_sched_loop_template_BLOCK a b s (dist_BLOCK (at_rank n k r) t i k) i)) \<and>
    (\<Union>r \<in> {0..<ni_size (n_info n ! k)}. block_run (n, t, i, k) (a, b, s) r) =
      loop_iters a b s \<inter> {ser_lower (t_info t ! i)..ser_upper (t_info t ! i)} \<and>
    (\<forall>g \<in> {ser_lower (t_info t ! i)..ser_upper (t_info t ! i)}. \<forall>r \<in> {0..<ni_size (n_info n ! k)}.
       g \<in> block_run (n, t, i, k) (a, b, s) r \<longleftrightarrow> g \<in> loop_iters a b s \<and> block_owner (n, t, i, k) g = r)"
  using block_sched [OF assms] block_loop.all_run [OF assms] block_loop.run_owner [OF assms]
  by (simp add: dist_ranks_def dist_space_def iters_def)

lemma t20_sched: "sched_ok (p4, t20, 0, 0)"
  using t20_ok by (simp add: sched_ok_def t20_def fits32_def)

theorem block_loop_runs_once_witness:
  "sched_ok (p4, t20, 0, 0) \<and> loop_ok (18, 2, - 3) \<and>
   (\<Union>r \<in> {0..<ni_size (n_info p4 ! 0)}. block_run (p4, t20, 0, 0) (18, 2, - 3) r) =
      loop_iters 18 2 (- 3) \<inter> {ser_lower (t_info t20 ! 0)..ser_upper (t_info t20 ! 0)}"
proof -
  have l: "loop_ok (18, 2, - 3)" by (simp add: loop_ok_def)
  from block_loop_runs_once [OF t20_sched l] t20_sched l show ?thesis by blast
qed

subsubsection \<open>Cyclic distribution\<close>

text \<open>The stride of a cyclic chunk is the number of nodes; the local loop has step 1 whatever the step.\<close>

definition cyclic_run :: "nodes \<times> template \<times> nat \<times> nat \<Rightarrow> int \<times> int \<times> int \<Rightarrow> int \<Rightarrow> int set" where
  "cyclic_run d l r = (case (d, l) of ((n, t, i, k), (a, b, s)) \<Rightarrow>
     let T = dist_CYCLIC_WIDTH (at_rank n k r) t i k 1
     in run_of (XMP_sched_loop_template_CYCLIC a b s T i) (par_lower (t_chunk T ! i)) (ni_size (n_info n ! k)))"

lemma cyclic_sched:
  assumes ok: "dist_ok (n, t, i, k)" and l: "loop_ok (a, b, s)" and r: "0 \<le> r" "r < ni_size (n_info n ! k)"
    and s: "s dvd ni_size (n_info n ! k)" and T: "T = dist_CYCLIC_WIDTH (at_rank n k r) t i k 1"
  shows "is_ok (XMP_sched_loop_template_CYCLIC a b s T i) \<and>
    run_of (XMP_sched_loop_template_CYCLIC a b s T i) (par_lower (t_chunk T ! i)) (ni_size (n_info n ! k)) =
      iters (a, b, s) \<inter> owned T i"
proof -
  let ?N = "ser_size (t_info t ! i)" and ?P = "ni_size (n_info n ! k)" and ?c = "t_chunk T ! i"
  let ?lo = "ser_lower (t_info t ! i)" and ?hi = "ser_upper (t_info t ! i)"
  have w: "width_ok (n, t, i, k) 1" using ok by (simp add: width_ok_def dist_ok_def)
  have f: "fits32 ?lo" "fits32 ?hi" "?N = ?hi - ?lo + 1" "0 < ?N" "0 < ?P" using ok by (auto simp: dist_ok_def)
  have M: "- ((- ?N) div 1) = ?N" by simp
  note C = dist_CYCLIC_chunk [OF w r refl refl M [symmetric] refl refl, folded T]
  note owned_T = dist_CYCLIC_owned [OF w r, folded T]
  let ?ps = "if r < ?N mod ?P then ?N div ?P + 1 else ?N div ?P"
  have lcm_P: "lcm \<bar>s\<bar> ?P = ?P" using s f(5) by (simp add: lcm_proj2_iff_int)
  have main: "is_ok (sched_with a b s T i f) \<and> run_of (sched_with a b s T i f) (par_lower ?c) ?P = iters (a, b, s) \<inter> owned T i"
    if f_def: "f = (\<lambda>ss (pi, pc, ps). (XMP_SM_GTOL_CYCLIC pi (int32 (ser_lower (t_info T ! i))) ?P,
      XMP_SM_GTOL_CYCLIC pc (int32 (ser_lower (t_info T ! i))) ?P, 1))" for f
  proof (intro sched_with_run [OF l] impI)
    assume own: "t_is_owner T"
    then have rN: "r < ?N" using C(6) by simp
    have c: "par_lower ?c = ?lo + r" "par_upper ?c = ?lo + r + ?P * (?ps - 1)" "par_stride ?c = ?P" "0 < ?ps"
      using C(1) C(7-9) [OF rN] by simp_all
    have top: "r + ?P * (?ps - 1) < ?N" using round_robin_last(1) [OF f(5) r refl] .
    have P0: "0 \<le> ?P * (?ps - 1)" using f(5) c(4) by simp
    have le: "?lo + r + ?P * (?ps - 1) \<le> ?hi" "?lo + r \<le> ?hi" using top P0 f(3) by linarith+
    show "chunk_ok ?c" unfolding chunk_ok_def c using le r f(1,2,5) P0 by (simp add: fits32_def)
    have "owned T i = chunk_set (t_info t ! i) ?c" using own C(4) by (simp add: owned_def)
    then show "owned T i = trip (par_lower ?c) (par_upper ?c) (par_stride ?c)" using C(3) by (simp add: chunk_set_def)
    have lo: "int32 (ser_lower (t_info T ! i)) = ?lo" using C(4) f(1) by simp
    have gtol: "par_lower ?c + XMP_SM_GTOL_CYCLIC g ?lo ?P * ?P = g"
      if "g \<in> trip (par_lower ?c) (par_upper ?c) (par_stride ?c)" for g
    proof -
      have g: "?lo + r \<le> g" "?P dvd (g - (?lo + r))" using that by (simp_all add: c mem_trip)
      then obtain x where x: "g - (?lo + r) = ?P * x" by (auto elim: dvdE)
      then have eq: "g - ?lo = r + ?P * x" by simp
      have "(g - ?lo) div ?P = x" unfolding eq using r f(5) by simp
      then have "XMP_SM_GTOL_CYCLIC g ?lo ?P = x" using g(1) r(1) f(5) by (simp add: XMP_SM_GTOL_CYCLIC_def)
      then show ?thesis unfolding c(1) using x by (simp add: mult.commute)
    qed
    show "localises f ?c \<bar>s\<bar> (par_lower ?c) ?P"
      unfolding localises_def f_def lo using gtol c(3) f(5) lcm_P by simp
  qed
  show ?thesis
  proof (cases "t_is_owner T")
    case True
    then show ?thesis using main [OF refl] C(5) by (simp add: XMP_sched_loop_template_CYCLIC_def Let_def)
  next
    case False
    then show ?thesis by (simp add: XMP_sched_loop_template_CYCLIC_def is_ok_def run_of_Inr owned_def)
  qed
qed

interpretation cyclic_loop: scheduling dist_ok dist_space dist_ranks "\<lambda>d. cyclic_part (d, 1)" "\<lambda>d. cyclic_owner (d, 1)"
  "\<lambda>(n, t, i, k) (a, b, s). loop_ok (a, b, s) \<and> s dvd ni_size (n_info n ! k)" iters cyclic_run
proof
  fix d :: "nodes \<times> template \<times> nat \<times> nat" and l :: "int \<times> int \<times> int" and r g
  obtain n t i k where d: "d = (n, t, i, k)" by (cases d)
  obtain a b s where l: "l = (a, b, s)" by (cases l)
  assume ok: "dist_ok d"
  then have dk: "case (d, 1 :: int) of (d, b) \<Rightarrow> width_ok d b" by (simp add: width_ok_def d dist_ok_def)
  show "r \<in> dist_ranks d \<Longrightarrow> g \<in> dist_space d \<Longrightarrow> g \<in> cyclic_part (d, 1) r \<longleftrightarrow> cyclic_owner (d, 1) g = r"
    using cyclic.part_iff [OF dk] by simp
  show "r \<in> dist_ranks d \<Longrightarrow> cyclic_part (d, 1) r \<subseteq> dist_space d" using cyclic.part_space [OF dk] by simp
  show "g \<in> dist_space d \<Longrightarrow> cyclic_owner (d, 1) g \<in> dist_ranks d" using cyclic.owner_rank [OF dk] by simp
  show "cyclic_run d l r = iters l \<inter> cyclic_part (d, 1) r"
    if "(case d of (n, t, i, k) \<Rightarrow> \<lambda>(a, b, s). loop_ok (a, b, s) \<and> s dvd ni_size (n_info n ! k)) l" "r \<in> dist_ranks d"
    using cyclic_sched [of n t i k a b s r, OF _ _ _ _ _ refl] that ok d l
    by (simp add: cyclic_run_def cyclic_part_def dist_ranks_def Let_def)
qed

text \<open>
  C10. For a cyclic distribution and a step that divides the number of nodes,
  \<open>_XMP_sched_loop_template_CYCLIC\<close> returns on every process, the local loops together run exactly the
  iterations of the serial loop in the dimension, each on the owner of its index.
\<close>

theorem cyclic_loop_runs_once:
  assumes "dist_ok (n, t, i, k)" and "loop_ok (a, b, s)" and "s dvd ni_size (n_info n ! k)"
  shows "(\<forall>r \<in> {0..<ni_size (n_info n ! k)}.
       is_ok (XMP_sched_loop_template_CYCLIC a b s (dist_CYCLIC_WIDTH (at_rank n k r) t i k 1) i)) \<and>
    (\<Union>r \<in> {0..<ni_size (n_info n ! k)}. cyclic_run (n, t, i, k) (a, b, s) r) =
      loop_iters a b s \<inter> {ser_lower (t_info t ! i)..ser_upper (t_info t ! i)} \<and>
    (\<forall>g \<in> {ser_lower (t_info t ! i)..ser_upper (t_info t ! i)}. \<forall>r \<in> {0..<ni_size (n_info n ! k)}.
       g \<in> cyclic_run (n, t, i, k) (a, b, s) r \<longleftrightarrow>
         g \<in> loop_iters a b s \<and> cyclic_owner ((n, t, i, k), 1) g = r)"
  using cyclic_sched [OF assms(1,2) _ _ assms(3) refl] cyclic_loop.all_run [OF assms(1), of "(a, b, s)"]
    cyclic_loop.run_owner [OF assms(1), of "(a, b, s)"] assms(2,3)
  by (simp add: dist_ranks_def dist_space_def iters_def)

theorem cyclic_loop_runs_once_witness:
  "dist_ok (p4, t20, 0, 0) \<and> loop_ok (3, 17, 2) \<and> 2 dvd ni_size (n_info p4 ! 0) \<and>
   (\<Union>r \<in> {0..<ni_size (n_info p4 ! 0)}. cyclic_run (p4, t20, 0, 0) (3, 17, 2) r) =
      loop_iters 3 17 2 \<inter> {ser_lower (t_info t20 ! 0)..ser_upper (t_info t20 ! 0)}"
proof -
  have l: "loop_ok (3, 17, 2)" "2 dvd ni_size (n_info p4 ! 0)" by (simp_all add: loop_ok_def p4_def)
  from cyclic_loop_runs_once [OF t20_ok l] t20_ok l show ?thesis by blast
qed

text \<open>
  For a step that does not divide the number of nodes the cyclic schedule is wrong: of the loop
  \<open>for (i = 0; i < 20; i += 3)\<close> over the template \<open>0:19\<close> on 4 nodes the first process owns the iterations
  0 and 12, and its local loop has step 1 and runs the indices 0, 4, 8 and 12.
\<close>

theorem cyclic_step_runs_extra:
  "cyclic_run (p4, t20, 0, 0) (0, 20, 3) 0 = {0, 4, 8, 12} \<and>
   loop_iters 0 20 3 \<inter> cyclic_part ((p4, t20, 0, 0), 1) 0 = {0, 12}"
proof
  have "XMP_sched_loop_template_CYCLIC 0 20 3 (dist_CYCLIC_WIDTH (at_rank p4 0 0) t20 0 0 1) 0 = Inr (0, 4, 1)"
    "par_lower (t_chunk (dist_CYCLIC_WIDTH (at_rank p4 0 0) t20 0 0 1) ! 0) = 0"
    "ni_size (n_info p4 ! 0) = 4" by code_simp+
  moreover have "loop_iters 0 4 1 = {0, 1, 2, 3}" by (auto simp: loop_iters_def)
  ultimately show "cyclic_run (p4, t20, 0, 0) (0, 20, 3) 0 = {0, 4, 8, 12}"
    by (simp add: cyclic_run_def run_of_Inr iters_def)
  have "width_ok (p4, t20, 0, 0) 1" using t20_ok by (simp add: width_ok_def p4_def fits32_def)
  from dist_CYCLIC_owned [OF this, of 0]
  have "cyclic_part ((p4, t20, 0, 0), 1) 0 = {g. 0 \<le> g \<and> g \<le> 19 \<and> g mod 4 = 0}"
    by (simp add: cyclic_part_def p4_def t20_def)
  moreover have "loop_iters 0 20 3 \<inter> {g. 0 \<le> g \<and> g \<le> 19 \<and> g mod 4 = 0} = {0, 12}"
    by (rule set_eqI, simp add: loop_iters_def, presburger)
  ultimately show "loop_iters 0 20 3 \<inter> cyclic_part ((p4, t20, 0, 0), 1) 0 = {0, 12}" by simp
qed

subsubsection \<open>General block distribution\<close>

definition gblock_run :: "(nodes \<times> template \<times> nat \<times> nat) \<times> int list \<Rightarrow> int \<times> int \<times> int \<Rightarrow> int \<Rightarrow> int set" where
  "gblock_run d l r = (case (d, l) of (((n, t, i, k), m), (a, b, s)) \<Rightarrow>
     let T = gblock_template d r
     in run_of (XMP_sched_loop_template_GBLOCK a b s T i) (par_lower (t_chunk T ! i)) 1)"

lemma gblock_sched:
  assumes ok: "map_ok (n, t, i, k) m" and l: "loop_ok (a, b, s)" and r: "0 \<le> r" "r < ni_size (n_info n ! k)"
    and T: "T = gblock_template ((n, t, i, k), m) r"
  shows "is_ok (XMP_sched_loop_template_GBLOCK a b s T i) \<and>
    run_of (XMP_sched_loop_template_GBLOCK a b s T i) (par_lower (t_chunk T ! i)) 1 = iters (a, b, s) \<inter> owned T i"
proof -
  let ?c = "t_chunk T ! i" and ?lo = "ser_lower (t_info t ! i)" and ?rs = "rsums (ser_lower (t_info t ! i)) m"
  have f: "fits32 ?lo" "fits32 (ser_upper (t_info t ! i))" using ok by (auto simp: map_ok_def dist_ok_def)
  note G = dist_GBLOCK_owned [OF ok r refl, folded T]
  have info: "t_info T = t_info t" using G(1)
    by (auto simp: dist_GBLOCK_def Let_def split: if_splits)
  have C: "dist_manner ?c = GBLOCK" "mapping_array ?c = ?rs" "onto_nodes_info ?c = Some ((n_info n ! k)\<lparr>ni_rank := r\<rparr>)"
    "par_stride ?c = 1" using G(4) by (simp_all add: gblock_chunk_def Let_def)
  have main: "is_ok (sched_with a b s T i f) \<and> run_of (sched_with a b s T i f) (par_lower ?c) 1 = iters (a, b, s) \<inter> owned T i"
    if f_def: "f = (\<lambda>ss (pi, pc, ps). (XMP_SM_GTOL_GBLOCK pi (?rs ! nat r), XMP_SM_GTOL_GBLOCK pc (?rs ! nat r), ss))" for f
  proof (intro sched_with_run [OF l] impI)
    assume own: "t_is_owner T"
    have c: "par_lower ?c = ?rs ! nat r" "par_lower ?c \<le> par_upper ?c" "par_upper ?c \<le> ser_upper (t_info t ! i)"
      using G(4) own info by (simp_all add: gblock_chunk_def Let_def)
    have "?rs ! 0 \<le> ?rs ! nat r" using ok r by (intro rsums_mono) (auto simp: map_ok_def)
    then have "?lo \<le> par_lower ?c" using c(1) by (simp add: rsums_nth)
    then show "chunk_ok ?c" unfolding chunk_ok_def C(4) using c(2,3) f by (simp add: fits32_def)
    show "owned T i = trip (par_lower ?c) (par_upper ?c) (par_stride ?c)"
      using own C(1,4) by (simp add: owned_def chunk_set_def trip_1)
    show "localises f ?c \<bar>s\<bar> (par_lower ?c) 1"
      unfolding localises_def f_def C(4) c(1) by (simp add: XMP_SM_GTOL_GBLOCK_def)
  qed
  show ?thesis
  proof (cases "t_is_owner T")
    case True
    then show ?thesis using main [OF refl] C(2,3) by (simp add: XMP_sched_loop_template_GBLOCK_def Let_def)
  next
    case False
    then show ?thesis by (simp add: XMP_sched_loop_template_GBLOCK_def is_ok_def run_of_Inr owned_def)
  qed
qed

interpretation gblock_loop: scheduling "\<lambda>(d, m). map_ok d m" "\<lambda>(d, m). dist_space d" "\<lambda>(d, m). dist_ranks d"
  "\<lambda>((n, t, i, k), m) r. owned (gblock_template ((n, t, i, k), m) r) i"
  "\<lambda>((n, t, i, k), m) g. gblock_owner g (rsums (ser_lower (t_info t ! i)) m) 0 (length m)"
  "\<lambda>d. loop_ok" iters gblock_run
proof (unfold_locales, goal_cases)
  case (1 d l r)
  obtain n t i k m where d: "d = ((n, t, i, k), m)" by (cases d) auto
  obtain a b s where l: "l = (a, b, s)" by (cases l)
  show ?case using gblock_sched [of n t i k m a b s r, OF _ _ _ _ refl] 1 d l
    by (simp add: gblock_run_def dist_ranks_def Let_def)
qed

text \<open>
  \<open>_XMP_sched_loop_template_GBLOCK\<close> returns on every process, the local loops together run exactly the
  iterations of the serial loop in the dimension, each on the owner of its index.
\<close>

theorem gblock_loop_runs_once:
  assumes "map_ok (n, t, i, k) m" and "loop_ok (a, b, s)"
  shows "(\<forall>r \<in> {0..<ni_size (n_info n ! k)}.
       is_ok (XMP_sched_loop_template_GBLOCK a b s (gblock_template ((n, t, i, k), m) r) i)) \<and>
    (\<Union>r \<in> {0..<ni_size (n_info n ! k)}. gblock_run ((n, t, i, k), m) (a, b, s) r) =
      loop_iters a b s \<inter> {ser_lower (t_info t ! i)..ser_upper (t_info t ! i)} \<and>
    (\<forall>g \<in> {ser_lower (t_info t ! i)..ser_upper (t_info t ! i)}. \<forall>r \<in> {0..<ni_size (n_info n ! k)}.
       g \<in> gblock_run ((n, t, i, k), m) (a, b, s) r \<longleftrightarrow> g \<in> loop_iters a b s \<and>
         XMP_calc_template_owner_SCALAR (gblock_template ((n, t, i, k), m) r) i g = Inr r)"
  using gblock_sched [OF assms] gblock_loop.all_run [of "((n, t, i, k), m)", OF _ assms(2)]
    gblock_loop.run_owner [of "((n, t, i, k), m)", OF _ assms(2)] dist_GBLOCK_owned(3) [OF assms(1) _ _ refl] assms(1)
  by (simp add: dist_ranks_def dist_space_def iters_def)

theorem gblock_loop_runs_once_witness:
  "map_ok (p4, t20, 0, 0) [3, 0, 7, 10] \<and> loop_ok (19, - 1, - 4) \<and>
   (\<Union>r \<in> {0..<ni_size (n_info p4 ! 0)}. gblock_run ((p4, t20, 0, 0), [3, 0, 7, 10]) (19, - 1, - 4) r) =
      loop_iters 19 (- 1) (- 4) \<inter> {ser_lower (t_info t20 ! 0)..ser_upper (t_info t20 ! 0)}"
proof -
  have l: "map_ok (p4, t20, 0, 0) [3, 0, 7, 10]" "loop_ok (19, - 1, - 4)"
    using t20_ok by (simp_all add: map_ok_def p4_def t20_def loop_ok_def)
  from gblock_loop_runs_once [OF l] l show ?thesis by blast
qed

subsubsection \<open>Duplicated dimensions\<close>

text \<open>
  On a dimension that is not distributed \<open>_XMP_sched_loop_template_DUPLICATION\<close> returns and every process
  that has the template runs all iterations of the serial loop in the dimension.
\<close>

theorem duplication_loop_runs_all:
  assumes "dist_ok (n, t, i, k)" and "loop_ok (a, b, s)"
  shows "is_ok (XMP_sched_loop_template_DUPLICATION a b s (XMP_dist_template_DUPLICATION t i) i) \<and>
    run_of (XMP_sched_loop_template_DUPLICATION a b s (XMP_dist_template_DUPLICATION t i) i) 0 1 =
      loop_iters a b s \<inter> {ser_lower (t_info t ! i)..ser_upper (t_info t ! i)}"
proof -
  let ?T = "XMP_dist_template_DUPLICATION t i"
  have f: "i < length (t_chunk t)" "t_is_owner t" "fits32 (ser_lower (t_info t ! i))" "fits32 (ser_upper (t_info t ! i))"
    "ser_lower (t_info t ! i) \<le> ser_upper (t_info t ! i)" using assms(1) by (auto simp: dist_ok_def)
  have c: "par_lower (t_chunk ?T ! i) = ser_lower (t_info t ! i)" "par_upper (t_chunk ?T ! i) = ser_upper (t_info t ! i)"
    "par_stride (t_chunk ?T ! i) = 1" "dist_manner (t_chunk ?T ! i) = DUPLICATION" "t_is_owner ?T" "t_info ?T = t_info t"
    using f by (simp_all add: XMP_dist_template_DUPLICATION_def Let_def)
  have own: "owned ?T i = {ser_lower (t_info t ! i)..ser_upper (t_info t ! i)}"
    using c by (simp add: owned_def chunk_set_def)
  have "chunk_ok (t_chunk ?T ! i)" using f c by (simp add: chunk_ok_def)
  moreover have "localises (\<lambda>ss par. par) (t_chunk ?T ! i) \<bar>s\<bar> 0 1" by (simp add: localises_def)
  moreover have "owned ?T i = trip (par_lower (t_chunk ?T ! i)) (par_upper (t_chunk ?T ! i)) (par_stride (t_chunk ?T ! i))"
    unfolding own c trip_1 by (rule refl)
  ultimately have "is_ok (sched_with a b s ?T i (\<lambda>ss par. par)) \<and>
      run_of (sched_with a b s ?T i (\<lambda>ss par. par)) 0 1 = iters (a, b, s) \<inter> owned ?T i"
    by (intro sched_with_run [OF assms(2)]) blast+
  then show ?thesis unfolding XMP_sched_loop_template_DUPLICATION_def own iters_simp .
qed

theorem duplication_loop_runs_all_witness:
  "dist_ok (p4, t20, 0, 0) \<and> loop_ok (- 5, 30, 7) \<and>
    run_of (XMP_sched_loop_template_DUPLICATION (- 5) 30 7 (XMP_dist_template_DUPLICATION t20 0) 0) 0 1 =
      loop_iters (- 5) 30 7 \<inter> {ser_lower (t_info t20 ! 0)..ser_upper (t_info t20 ! 0)}"
proof -
  have l: "loop_ok (- 5, 30, 7)" by (simp add: loop_ok_def)
  from duplication_loop_runs_all [OF t20_ok l] t20_ok l show ?thesis by blast
qed

subsection \<open>Scheduling by nodes\<close>

text \<open>
  \<open>_XMP_sched_loop_nodes\<close> gives a member of the node set the one iteration with its number, counted
  from 1, when the serial loop has it, and no iteration otherwise.
\<close>

theorem nodes_loop_own_iteration:
  assumes "loop_ok (a, b, s)" and "n_is_member n"
  shows "\<exists>par. XMP_sched_loop_nodes a b s n k = Inr par \<and>
    iters par = loop_iters a b s \<inter> {ni_rank (n_info n ! k) + 1}"
proof -
  let ?r = "ni_rank (n_info n ! k) + 1"
  obtain si sc ss where n: "XMP_SM_NORM_SCHED_PARAMS a b s True = Inr (si, sc, ss, True)" "0 < ss"
    "trip si sc ss = loop_iters a b s" using norm_iters [OF assms(1), of True] by (auto simp: iters_def)
  have mem: "?r \<in> loop_iters a b s \<longleftrightarrow> si \<le> ?r \<and> ?r \<le> sc \<and> ss dvd (?r - si)" using n(3) mem_trip by blast
  have "iters (?r, ?r + 1, ss) = {?r}"
    using n(2) zdvd_not_zless by (fastforce simp: iters_def loop_iters_def)
  moreover have "XMP_sched_loop_nodes a b s n k = Inr (if ?r \<in> loop_iters a b s then (?r, ?r + 1, ss) else no_iter)"
    unfolding mem using n(1) assms(2) by (simp add: XMP_sched_loop_nodes_def Let_def smod_eq_0_iff)
  ultimately show ?thesis by (cases "?r \<in> loop_iters a b s") simp_all
qed

theorem nodes_loop_own_iteration_witness:
  "loop_ok (1, 5, 2) \<and> n_is_member p4 \<and>
   (\<exists>par. XMP_sched_loop_nodes 1 5 2 p4 0 = Inr par \<and> iters par = loop_iters 1 5 2 \<inter> {ni_rank (n_info p4 ! 0) + 1})"
proof -
  have l: "loop_ok (1, 5, 2)" "n_is_member p4" by (simp_all add: loop_ok_def p4_def)
  from nodes_loop_own_iteration [OF l] l show ?thesis by blast
qed

text \<open>
  \<open>_XMP_SM_NORM_SCHED_PARAMS\<close> is wrong for an empty loop whose step is not 1 or -1, because the remainder
  of a negative number is negative in C: \<open>for (i = 5; i < 5; i += 2)\<close> runs its body once, with \<open>i = 5\<close>.
\<close>

theorem empty_loop_runs_once:
  "loop_iters 5 5 2 = {} \<and> block_run (p4, t20, 0, 0) (5, 5, 2) 1 = {5}"
proof
  show "loop_iters 5 5 2 = {}" by (auto simp: loop_iters_def)
  have "XMP_sched_loop_template_BLOCK 5 5 2 (dist_BLOCK (at_rank p4 0 1) t20 0 0) 0 = Inr (0, 1, 2)"
    by code_simp
  moreover have "par_lower (t_chunk (dist_BLOCK (at_rank p4 0 1) t20 0 0) ! 0) = 5" by code_simp
  moreover have "loop_iters 0 1 2 = {0}" by (auto simp: loop_iters_def)
  ultimately show "block_run (p4, t20, 0, 0) (5, 5, 2) 1 = {5}"
    by (simp add: block_run_def run_of_Inr iters_def)
qed

end
