(* ===== verification/Xmp_Align.thy ===== *)
theory Xmp_Align
  imports Xmp_Loop_Laws
begin

text \<open>
  Descriptors of aligned arrays: \<open>src/libxmp/src/xmp_align.c\<close>, and the table of data types of
  \<open>src/libxmp/src/xmp_reduce.c\<close> that they use. A descriptor is a record that the operations return
  changed. The template that \<open>align_template\<close> points to is an argument of the operations that read it.
  The value stored through \<open>temp0\<close> is \<open>ai_temp0_v\<close>, and the values stored through the \<open>acc\<close>
  arguments are the \<open>ai_dim_acc\<close> of the dimensions. The model is the build without MPI-3 one-sided
  communication, accelerators and TCA. Memory that is not initialised is the \<open>junk\<close> argument.
\<close>

subsection \<open>Data types\<close>

datatype mpi_datatype =
    MPI_LOGICAL | MPI_SIGNED_CHAR | MPI_UNSIGNED_CHAR | MPI_SHORT | MPI_UNSIGNED_SHORT | MPI_INT | MPI_UNSIGNED
  | MPI_LONG | MPI_UNSIGNED_LONG | MPI_LONG_LONG | MPI_UNSIGNED_LONG_LONG | MPI_FLOAT | MPI_DOUBLE
  | MPI_LONG_DOUBLE | MPI_C_FLOAT_COMPLEX | MPI_C_DOUBLE_COMPLEX | MPI_C_LONG_DOUBLE_COMPLEX

definition XMP_N_TYPE_NONBASIC :: int where
  "XMP_N_TYPE_NONBASIC = 599"

text \<open>The sizes are those of a 64-bit system where \<open>long\<close> has 8 and \<open>long double\<close> 16 bytes.\<close>

definition XMP_setup_reduce_type :: "int \<Rightarrow> (mpi_datatype \<times> int) res" where
  "XMP_setup_reduce_type datatype =
     (if datatype = 502 then Inr (MPI_LOGICAL, 1)
      else if datatype = 503 then Inr (MPI_SIGNED_CHAR, 1)
      else if datatype = 504 then Inr (MPI_UNSIGNED_CHAR, 1)
      else if datatype = 505 then Inr (MPI_SHORT, 2)
      else if datatype = 506 then Inr (MPI_UNSIGNED_SHORT, 2)
      else if datatype = 507 then Inr (MPI_INT, 4)
      else if datatype = 508 then Inr (MPI_UNSIGNED, 4)
      else if datatype = 509 then Inr (MPI_LONG, 8)
      else if datatype = 510 then Inr (MPI_UNSIGNED_LONG, 8)
      else if datatype = 511 then Inr (MPI_LONG_LONG, 8)
      else if datatype = 512 then Inr (MPI_UNSIGNED_LONG_LONG, 8)
      else if datatype = 513 then Inr (MPI_FLOAT, 4)
      else if datatype = 514 then Inr (MPI_DOUBLE, 8)
      else if datatype = 515 then Inr (MPI_LONG_DOUBLE, 16)
      else if datatype = 519 then Inr (MPI_C_FLOAT_COMPLEX, 8)
      else if datatype = 520 then Inr (MPI_C_DOUBLE_COMPLEX, 16)
      else if datatype = 521 then Inr (MPI_C_LONG_DOUBLE_COMPLEX, 32)
      else Inl (Fatal ''unknown data type for reduction''))"

subsection \<open>Descriptors\<close>

datatype align_manner =
  ALIGN_NOT_ALIGNED | ALIGN_DUPLICATION | ALIGN_BLOCK | ALIGN_CYCLIC | ALIGN_BLOCK_CYCLIC | ALIGN_GBLOCK

datatype shadow_type = SHADOW_NONE | SHADOW_NORMAL | SHADOW_FULL

record array_info =
  ai_is_shadow_comm_member :: bool
  ai_is_regular_chunk :: bool
  ai_align_manner :: align_manner
  ai_ser_lower :: int
  ai_ser_upper :: int
  ai_ser_size :: int
  ai_par_lower :: int
  ai_par_upper :: int
  ai_par_stride :: int
  ai_par_size :: int
  ai_local_lower :: int
  ai_local_upper :: int
  ai_local_stride :: int
  ai_alloc_size :: int
  ai_temp0_v :: int
  ai_dim_acc :: int
  ai_dim_elmts :: int
  ai_align_subscript :: int
  ai_shadow_type :: shadow_type
  ai_shadow_size_lo :: int
  ai_shadow_size_hi :: int
  ai_shadow_comm :: "comm option"
  ai_shadow_comm_size :: int
  ai_shadow_comm_rank :: int
  ai_align_template_index :: int

record xmp_array =
  a_is_allocated :: bool
  a_is_align_comm_member :: bool
  a_dim :: nat
  a_type :: int
  a_mpi_type :: mpi_datatype
  a_type_size :: int
  a_array_addr_p :: "nat option"
  a_total_elmts :: int
  a_align_comm :: "comm option"
  a_align_comm_size :: int
  a_align_comm_rank :: int
  a_is_shrunk_template :: bool
  a_array_nodes :: "nat option"
  a_info :: "array_info list"

definition XMP_N_NO_ALIGN_TEMPLATE :: int where
  "XMP_N_NO_ALIGN_TEMPLATE = - 1"

definition init_array_info :: "array_info \<Rightarrow> int \<Rightarrow> array_info" where
  "init_array_info junk sz =
     junk\<lparr>ai_is_shadow_comm_member := False,
          ai_ser_lower := 0, ai_ser_upper := sz - 1, ai_ser_size := sz,
          ai_par_lower := 0, ai_par_upper := 0, ai_par_stride := 0, ai_par_size := 0,
          ai_local_lower := 0, ai_local_upper := 0, ai_local_stride := 0, ai_alloc_size := 0,
          ai_shadow_type := SHADOW_NONE, ai_shadow_size_lo := 0, ai_shadow_size_hi := 0,
          ai_shadow_comm := None, ai_shadow_comm_size := 1, ai_shadow_comm_rank := XMP_N_INVALID_RANK,
          ai_align_template_index := - 1\<rparr>"

definition XMP_init_array_desc ::
    "xmp_array \<Rightarrow> array_info \<Rightarrow> template \<Rightarrow> int \<Rightarrow> int \<Rightarrow> int list \<Rightarrow> xmp_array res" where
  "XMP_init_array_desc junk junk_ai t type type_size sizes =
     bind_res (if type \<noteq> XMP_N_TYPE_NONBASIC
               then bind_res (XMP_setup_reduce_type type) (\<lambda>(m, dummy). Inr m)
               else Inr (a_mpi_type junk)) (\<lambda>m.
     Inr (junk\<lparr>a_is_allocated := t_is_owner t, a_is_align_comm_member := False, a_dim := length sizes,
               a_type := type, a_type_size := type_size, a_mpi_type := m, a_array_addr_p := None,
               a_total_elmts := 0, a_align_comm := None, a_align_comm_size := 1,
               a_align_comm_rank := XMP_N_INVALID_RANK,
               a_info := map (init_array_info junk_ai) sizes\<rparr>))"

definition XMP_init_array_desc_NOT_ALIGNED ::
    "xmp_array \<Rightarrow> array_info \<Rightarrow> template \<Rightarrow> int \<Rightarrow> int \<Rightarrow> int list \<Rightarrow> nat option \<Rightarrow> xmp_array res" where
  "XMP_init_array_desc_NOT_ALIGNED junk junk_ai t type type_size dim_acc ap =
     bind_res (XMP_setup_reduce_type type) (\<lambda>(m, dummy).
     Inr (junk\<lparr>a_is_allocated := t_is_owner t, a_is_align_comm_member := False, a_dim := length dim_acc,
               a_type := type, a_type_size := type_size, a_mpi_type := m, a_array_addr_p := ap,
               a_total_elmts := uint64 (- 1), a_align_comm := None, a_align_comm_size := 1,
               a_align_comm_rank := XMP_N_INVALID_RANK, a_is_shrunk_template := False,
               a_info := map (\<lambda>acc. junk_ai\<lparr>ai_is_shadow_comm_member := False, ai_is_regular_chunk := True,
                 ai_align_manner := ALIGN_NOT_ALIGNED, ai_ser_lower := 0, ai_dim_acc := acc,
                 ai_align_subscript := 0, ai_shadow_type := SHADOW_NONE, ai_shadow_comm := None,
                 ai_shadow_comm_size := 1, ai_shadow_comm_rank := XMP_N_INVALID_RANK,
                 ai_align_template_index := XMP_N_NO_ALIGN_TEMPLATE\<rparr>) dim_acc\<rparr>))"

definition set_info :: "xmp_array \<Rightarrow> nat \<Rightarrow> array_info \<Rightarrow> xmp_array" where
  "set_info a i x = a\<lparr>a_info := (a_info a)[i := x]\<rparr>"

subsection \<open>Alignment of a dimension\<close>

definition XMP_align_array_NOT_ALIGNED :: "xmp_array \<Rightarrow> nat \<Rightarrow> xmp_array" where
  "XMP_align_array_NOT_ALIGNED a i =
     (let ai = a_info a ! i
      in set_info a i (ai\<lparr>ai_is_regular_chunk := True, ai_align_manner := ALIGN_NOT_ALIGNED,
           ai_par_lower := ai_ser_lower ai, ai_par_upper := ai_ser_upper ai, ai_par_stride := 1,
           ai_par_size := ai_ser_size ai, ai_local_lower := 0, ai_local_upper := ai_ser_upper ai - ai_ser_lower ai,
           ai_local_stride := 1, ai_alloc_size := ai_ser_size ai, ai_align_subscript := 0,
           ai_align_template_index := XMP_N_NO_ALIGN_TEMPLATE\<rparr>))"

text \<open>The range check that the functions for the alignments share.\<close>

definition align_check :: "array_info \<Rightarrow> template_info \<Rightarrow> int \<Rightarrow> 'a res \<Rightarrow> 'a res" where
  "align_check ai ti align_subscript k =
     (if ai_ser_lower ai + align_subscript < ser_lower ti \<or> ai_ser_upper ai + align_subscript > ser_upper ti
      then Inl (Fatal ''aligned array is out of template bound'') else k)"

definition XMP_align_array_DUPLICATION :: "xmp_array \<Rightarrow> template \<Rightarrow> nat \<Rightarrow> nat \<Rightarrow> int \<Rightarrow> xmp_array res" where
  "XMP_align_array_DUPLICATION a t i ti_index align_subscript =
     (let ai = a_info a ! i; ti = t_info t ! ti_index
      in align_check ai ti align_subscript
           (let ai = ai\<lparr>ai_is_regular_chunk := True, ai_align_manner := ALIGN_DUPLICATION\<rparr>;
                ai = (if t_is_owner t then
                        ai\<lparr>ai_par_lower := ai_ser_lower ai, ai_par_upper := ai_ser_upper ai, ai_par_stride := 1,
                           ai_par_size := ai_ser_size ai, ai_local_lower := ai_ser_lower ai,
                           ai_local_upper := ai_ser_upper ai, ai_local_stride := 1, ai_alloc_size := ai_ser_size ai\<rparr>
                      else ai)
            in Inr (set_info a i (ai\<lparr>ai_align_subscript := align_subscript, ai_align_template_index := int ti_index\<rparr>))))"

text \<open>The members after \<open>par_lower\<close>, \<open>par_upper\<close>, \<open>par_stride\<close> and \<open>par_size\<close>.\<close>

definition set_local :: "array_info \<Rightarrow> int \<Rightarrow> array_info" where
  "set_local ai temp0 =
     ai\<lparr>ai_local_lower := 0, ai_local_upper := ai_par_size ai - 1, ai_local_stride := 1,
        ai_alloc_size := ai_par_size ai, ai_temp0_v := temp0\<rparr>"

text \<open>
  Block and general block: the part of the array in the interval of the template; \<open>False\<close> where the
  array gets \<open>is_allocated = false\<close>. When the second test fails \<open>par_lower\<close> has been stored.
\<close>

definition align_interval :: "array_info \<Rightarrow> int \<Rightarrow> int \<Rightarrow> int \<Rightarrow> array_info \<times> bool" where
  "align_interval ai t_lower t_upper align_subscript =
     (let align_lower = ai_ser_lower ai + align_subscript; align_upper = ai_ser_upper ai + align_subscript
      in if \<not> align_lower < t_lower \<and> t_upper < align_lower then (ai, False)
         else
           let ai = ai\<lparr>ai_par_lower := if align_lower < t_lower then int32 (t_lower - align_subscript) else ai_ser_lower ai\<rparr>
           in if align_upper < t_lower then (ai, False)
              else
                let ai = ai\<lparr>ai_par_upper := if t_upper < align_upper then int32 (t_upper - align_subscript) else ai_ser_upper ai,
                            ai_par_stride := 1\<rparr>;
                    ai = ai\<lparr>ai_par_size := XMP_M_COUNT_TRIPLETi (ai_par_lower ai) (ai_par_upper ai) 1\<rparr>
                in (set_local ai (ai_par_lower ai), True))"

definition align_array_interval :: "align_manner \<Rightarrow> xmp_array \<Rightarrow> template \<Rightarrow> nat \<Rightarrow> nat \<Rightarrow> int \<Rightarrow> xmp_array res" where
  "align_array_interval manner a t i ti_index align_subscript =
     (let ai = a_info a ! i; ti = t_info t ! ti_index; chunk = t_chunk t ! ti_index
      in align_check ai ti align_subscript
           (let ai = ai\<lparr>ai_is_regular_chunk := (ser_lower ti = ai_ser_lower ai + align_subscript \<and> is_regular_chunk chunk),
                        ai_align_manner := manner\<rparr>;
                (ai, alloc) = (if t_is_owner t then align_interval ai (par_lower chunk) (par_upper chunk) align_subscript
                               else (ai, True));
                a = (if alloc then a else a\<lparr>a_is_allocated := False\<rparr>)
            in Inr (set_info a i (ai\<lparr>ai_align_subscript := align_subscript, ai_align_template_index := int ti_index\<rparr>))))"

definition XMP_align_array_BLOCK :: "xmp_array \<Rightarrow> template \<Rightarrow> nat \<Rightarrow> nat \<Rightarrow> int \<Rightarrow> xmp_array res" where
  "XMP_align_array_BLOCK = align_array_interval ALIGN_BLOCK"

definition XMP_align_array_GBLOCK :: "xmp_array \<Rightarrow> template \<Rightarrow> nat \<Rightarrow> nat \<Rightarrow> int \<Rightarrow> xmp_array res" where
  "XMP_align_array_GBLOCK = align_array_interval ALIGN_GBLOCK"

definition align_cyclic :: "array_info \<Rightarrow> template_info \<Rightarrow> template_chunk \<Rightarrow> nodes_info \<Rightarrow> int \<Rightarrow> array_info" where
  "align_cyclic ai ti chunk ni align_subscript =
     (let cycle = par_stride chunk; nsize = ni_size ni;
          rank_lb = int32 ((ai_ser_lower ai + align_subscript - ser_lower ti) smod nsize);
          m = XMP_modi_ll_i (ni_rank ni - rank_lb) nsize;
          dist = (ai_ser_upper ai - (m + ai_ser_lower ai)) sdiv cycle;
          pl = m + ai_ser_lower ai
      in set_local (ai\<lparr>ai_par_lower := pl, ai_par_upper := pl + dist * cycle, ai_par_stride := cycle,
                       ai_par_size := dist + 1\<rparr>) cycle)"

text \<open>\<open>par_width\<close> is an \<open>unsigned long long\<close>, so the divisions are unsigned.\<close>

definition align_block_cyclic :: "array_info \<Rightarrow> template_info \<Rightarrow> template_chunk \<Rightarrow> nodes_info \<Rightarrow> int \<Rightarrow> array_info" where
  "align_block_cyclic ai ti chunk ni align_subscript =
     (let cycle = par_stride chunk; nsize = ni_size ni; width = par_width chunk;
          rank_dist = int32 (uint64 (ai_ser_lower ai + align_subscript - ser_lower ti) div width);
          v_lower = int32 (ser_lower ti + width * rank_dist - align_subscript);
          rank_lb = rank_dist smod nsize;
          m = XMP_modi_ll_i (ni_rank ni - rank_lb) nsize;
          pl = int32 (max (ai_ser_lower ai) (int64 (uint64 (m * width)) + v_lower));
          dist = int32 (uint64 (ai_ser_upper ai - (m * width + v_lower)) div uint64 cycle);
          diff = int32 (ai_ser_upper ai - (pl + dist * cycle + (width - 1)));
          (pu, sz) = (if diff > 0 then (pl + dist * cycle + (width - 1), (dist + 1) * width)
                      else (ai_ser_upper ai, (dist + 1) * width + diff))
      in set_local (ai\<lparr>ai_par_lower := pl, ai_par_upper := int32 pu, ai_par_size := int32 sz, ai_par_stride := cycle\<rparr>) cycle)"

text \<open>The frame of the two functions.\<close>

definition align_array_cycles ::
    "align_manner \<Rightarrow> (template_info \<Rightarrow> template_chunk \<Rightarrow> array_info \<Rightarrow> bool) \<Rightarrow>
     (array_info \<Rightarrow> template_info \<Rightarrow> template_chunk \<Rightarrow> nodes_info \<Rightarrow> int \<Rightarrow> array_info) \<Rightarrow>
     xmp_array \<Rightarrow> template \<Rightarrow> nat \<Rightarrow> nat \<Rightarrow> int \<Rightarrow> xmp_array res" where
  "align_array_cycles manner regular place a t i ti_index align_subscript =
     (let ai = a_info a ! i; ti = t_info t ! ti_index; chunk = t_chunk t ! ti_index
      in align_check ai ti align_subscript
           (let ai = ai\<lparr>ai_is_regular_chunk := regular ti chunk ai, ai_align_manner := manner\<rparr>;
                finish = (\<lambda>ai :: array_info.
                  Inr (set_info a i (ai\<lparr>ai_align_subscript := align_subscript, ai_align_template_index := int ti_index\<rparr>)))
            in if t_is_owner t
               then (case onto_nodes_info chunk of None \<Rightarrow> Inl NullDeref
                     | Some ni \<Rightarrow> finish (place ai ti chunk ni align_subscript))
               else finish ai))"

definition XMP_align_array_CYCLIC :: "xmp_array \<Rightarrow> template \<Rightarrow> nat \<Rightarrow> nat \<Rightarrow> int \<Rightarrow> xmp_array res" where
  "XMP_align_array_CYCLIC a t i ti_index align_subscript =
     align_array_cycles ALIGN_CYCLIC
       (\<lambda>ti chunk ai. ser_lower ti = ai_ser_lower ai + align_subscript \<and> is_regular_chunk chunk)
       align_cyclic a t i ti_index align_subscript"

definition XMP_align_array_BLOCK_CYCLIC :: "xmp_array \<Rightarrow> template \<Rightarrow> nat \<Rightarrow> nat \<Rightarrow> int \<Rightarrow> xmp_array res" where
  "XMP_align_array_BLOCK_CYCLIC a t i ti_index align_subscript =
     align_array_cycles ALIGN_BLOCK_CYCLIC (\<lambda>ti chunk ai. True) align_block_cyclic a t i ti_index align_subscript"

definition XMP_align_array_noalloc :: "xmp_array \<Rightarrow> nat \<Rightarrow> int \<Rightarrow> int \<Rightarrow> xmp_array" where
  "XMP_align_array_noalloc a adim tdim align_subscript =
     (set_info a adim ((a_info a ! adim)\<lparr>ai_align_template_index := tdim, ai_align_subscript := align_subscript\<rparr>))
       \<lparr>a_is_allocated := False, a_array_nodes := None\<rparr>"

subsection \<open>Allocation\<close>

text \<open>Products of \<open>unsigned long long\<close> values; an \<open>int\<close> factor is converted.\<close>

definition XMP_calc_array_dim_elmts :: "xmp_array \<Rightarrow> nat \<Rightarrow> xmp_array" where
  "XMP_calc_array_dim_elmts a i =
     set_info a i ((a_info a ! i)\<lparr>ai_dim_elmts :=
       fold (\<lambda>j n. if j \<noteq> i then uint64 (n * uint64 (ai_par_size (a_info a ! j))) else n) [0..<a_dim a] 1\<rparr>)"

text \<open>The loop from the last dimension to the first: \<open>dim_acc\<close> and the number of elements.\<close>

fun acc_dims :: "array_info list \<Rightarrow> array_info list \<times> int" where
  "acc_dims [] = ([], 1)"
| "acc_dims (x # xs) =
     (let (ys, total_elmts) = acc_dims xs
      in (x\<lparr>ai_dim_acc := total_elmts\<rparr> # ys, uint64 (total_elmts * uint64 (ai_alloc_size x))))"

definition set_accs :: "xmp_array \<Rightarrow> xmp_array \<times> int" where
  "set_accs a =
     (let (infos, total_elmts) = acc_dims (take (a_dim a) (a_info a));
          a = a\<lparr>a_info := infos @ drop (a_dim a) (a_info a)\<rparr>
      in (fold (\<lambda>i a. XMP_calc_array_dim_elmts a i) [0..<a_dim a] a, total_elmts))"

text \<open>\<open>_XMP_alloc\<close> calls \<open>malloc\<close>, the parameter here, and ends the program when there is no memory.\<close>

definition XMP_alloc_array2 :: "(int \<Rightarrow> nat option) \<Rightarrow> xmp_array \<Rightarrow> xmp_array res" where
  "XMP_alloc_array2 malloc a =
     (let (a, total_elmts) = set_accs a
      in case malloc (uint64 (total_elmts * a_type_size a)) of
           None \<Rightarrow> Inl (Fatal ''cannot allocate memory'')
         | Some p \<Rightarrow> Inr (a\<lparr>a_array_addr_p := Some p, a_total_elmts := total_elmts\<rparr>))"

definition XMP_alloc_array :: "(int \<Rightarrow> nat option) \<Rightarrow> xmp_array \<Rightarrow> xmp_array res" where
  "XMP_alloc_array malloc a =
     (let (a, total_elmts) = set_accs a
      in case malloc (uint64 (total_elmts * a_type_size a)) of
           None \<Rightarrow> Inl (Fatal ''cannot allocate memory'')
         | Some p \<Rightarrow> Inr (a\<lparr>a_array_addr_p := Some p, a_total_elmts := total_elmts\<rparr>))"

definition XMP_alloc_array_EXTERN :: "nat option \<Rightarrow> xmp_array \<Rightarrow> xmp_array" where
  "XMP_alloc_array_EXTERN array_addr a =
     (if \<not> a_is_allocated a then a
      else let (a, total_elmts) = set_accs a
           in a\<lparr>a_array_addr_p := array_addr, a_total_elmts := total_elmts\<rparr>)"

definition XMP_get_array_total_elmts :: "xmp_array \<Rightarrow> int" where
  "XMP_get_array_total_elmts a = (if a_is_allocated a then a_total_elmts a else 0)"

subsection \<open>Communicators and node sets of arrays\<close>

fun array_color :: "int \<Rightarrow> int \<Rightarrow> (template_chunk \<times> int) list \<Rightarrow> int res" where
  "array_color acc_nodes_size color [] = Inr color"
| "array_color acc_nodes_size color ((chunk, arg) # xs) =
     bind_res (if dist_manner chunk = DUPLICATION then Inr (1, 0)
               else (case onto_nodes_info chunk of None \<Rightarrow> Inl NullDeref | Some ni \<Rightarrow> Inr (ni_size ni, ni_rank ni)))
       (\<lambda>(sz, rank). array_color (acc_nodes_size * sz) (if arg = 1 then color + acc_nodes_size * rank else color) xs)"

definition XMP_init_array_comm2 :: "xmp_env \<Rightarrow> xmp_array \<Rightarrow> template \<Rightarrow> int list \<Rightarrow> xmp_array xmp" where
  "XMP_init_array_comm2 env a t args =
     andthen (deref (t_onto_nodes t)) (\<lambda>onto.
     andthen (if n_is_member onto then lift (array_color 1 1 (zip (take (t_dim t) (t_chunk t)) args)) else ret 0) (\<lambda>color.
     andthen XMP_get_execution_nodes (\<lambda>p.
     andthen (deref (Some p)) (\<lambda>exec. \<lambda>st.
       let comm = Split (n_comm exec) color (world_rank st)
       in Inr (a\<lparr>a_is_align_comm_member := True, a_align_comm := Some comm, a_align_comm_size := csize env comm,
                 a_align_comm_rank := crank env comm\<rparr>, st)))))"

definition XMP_init_array_comm :: "xmp_env \<Rightarrow> xmp_array \<Rightarrow> template \<Rightarrow> int list \<Rightarrow> xmp_array xmp" where
  "XMP_init_array_comm env a t args = XMP_init_array_comm2 env a t args"

text \<open>
  The reference to the template: the bounds of the aligned dimensions, and the number of them.
  Entries of dimensions that are shrunk are not assigned and are zero here; they are not read.
\<close>

definition array_ref_round ::
    "(bool \<times> int \<times> int \<times> int) list \<times> nat \<Rightarrow> array_info \<Rightarrow> ((bool \<times> int \<times> int \<times> int) list \<times> nat) res" where
  "array_ref_round st ai =
     (case st of (refs, num) \<Rightarrow>
        if ai_align_template_index ai \<noteq> XMP_N_NO_ALIGN_TEMPLATE
        then bind_res (put refs (ai_align_template_index ai)
                         (False, ai_ser_lower ai + ai_align_subscript ai, ai_ser_upper ai + ai_align_subscript ai, 1))
               (\<lambda>refs'. Inr (refs', num + 1))
        else Inr (refs, num))"

definition XMP_init_array_nodes :: "xmp_env \<Rightarrow> xmp_array \<Rightarrow> template \<Rightarrow> xmp_array xmp" where
  "XMP_init_array_nodes env a t =
     andthen (lift (fold_res array_ref_round (replicate (t_dim t) (True, 0, 0, 0), 0) (take (a_dim a) (a_info a)))) (\<lambda>(refs, num).
       let a = a\<lparr>a_is_shrunk_template := (if t_dim t = num then False else if t_dim t > num then True
                                          else a_is_shrunk_template a)\<rparr>
       in andthen (if a_is_shrunk_template a then XMP_create_nodes_by_template_ref env t refs
                   else (case t_onto_nodes t of None \<Rightarrow> fail NullDeref | Some p \<Rightarrow> XMP_create_temporary_nodes env p))
            (\<lambda>p. ret (a\<lparr>a_array_nodes := Some p\<rparr>)))"

subsection \<open>Local indices\<close>

definition XMP_lidx_GBLOCK :: "xmp_array \<Rightarrow> template \<Rightarrow> nat \<Rightarrow> int \<Rightarrow> int res" where
  "XMP_lidx_GBLOCK a t i_dim global_idx =
     (let ai = a_info a ! i_dim; off = int32 (ai_align_subscript ai); chunk = t_chunk t ! nat (ai_align_template_index ai)
      in case onto_nodes_info chunk of None \<Rightarrow> Inl NullDeref
         | Some ni \<Rightarrow>
             bind_res (fetch (mapping_array chunk) (ni_rank ni)) (\<lambda>m.
               let l_idx = int32 (global_idx + off - m); l_base = int32 (ai_par_lower ai + off - m)
               in Inr (l_idx - l_base + ai_shadow_size_lo ai)))"

end
