(* ===== verification/Xmp_Align_Laws.thy ===== *)
theory Xmp_Align_Laws
  imports Xmp_Align
begin

text \<open>
  Aligned arrays: a process stores exactly the elements whose template index it owns, in local
  elements numbered from 0, and the strides of the dimensions address every element of the
  allocated block once.
\<close>

subsection \<open>The elements of a process\<close>

definition array_part :: "xmp_array \<Rightarrow> nat \<Rightarrow> int set" where
  "array_part a i =
     (if a_is_allocated a
      then trip (ai_par_lower (a_info a ! i)) (ai_par_upper (a_info a ! i)) (ai_par_stride (a_info a ! i)) else {})"

text \<open>The bounds of a dimension, and that it lies in the template it is aligned with.\<close>

definition align_ok :: "array_info \<Rightarrow> template_info \<Rightarrow> int \<Rightarrow> bool" where
  "align_ok ai ti sub \<longleftrightarrow> ai_ser_lower ai \<le> ai_ser_upper ai \<and> fits32 (ai_ser_lower ai) \<and> fits32 (ai_ser_upper ai) \<and>
     ser_lower ti \<le> ai_ser_lower ai + sub \<and> ai_ser_upper ai + sub \<le> ser_upper ti"

text \<open>The local numbering of a dimension: from 0, one per element, and no more elements allocated.\<close>

definition numbered :: "array_info \<Rightarrow> int set \<Rightarrow> bool" where
  "numbered ai E \<longleftrightarrow> ai_par_size ai = int (card E) \<and> ai_alloc_size ai = ai_par_size ai \<and>
     ai_local_lower ai = 0 \<and> ai_local_upper ai = ai_par_size ai - 1 \<and> ai_local_stride ai = 1"

lemma set_info_simps [simp]:
  "a_is_allocated (set_info a i x) = a_is_allocated a"
  "a_dim (set_info a i x) = a_dim a"
  "i < length (a_info a) \<Longrightarrow> a_info (set_info a i x) ! i = x"
  "length (a_info (set_info a i x)) = length (a_info a)"
  by (simp_all add: set_info_def)

lemma set_local_simps [simp]:
  "ai_par_lower (set_local ai v) = ai_par_lower ai" "ai_par_upper (set_local ai v) = ai_par_upper ai"
  "ai_par_stride (set_local ai v) = ai_par_stride ai" "ai_par_size (set_local ai v) = ai_par_size ai"
  "ai_alloc_size (set_local ai v) = ai_par_size ai" "ai_local_lower (set_local ai v) = 0"
  "ai_local_upper (set_local ai v) = ai_par_size ai - 1" "ai_local_stride (set_local ai v) = 1"
  "ai_temp0_v (set_local ai v) = v"
  by (simp_all add: set_local_def)

subsection \<open>Intervals\<close>

lemma align_interval_part:
  assumes ok: "align_ok ai ti sub" and t: "tlo \<le> tup" and r: "align_interval ai tlo tup sub = (ai', ok')"
    and E: "E = {g. ai_ser_lower ai \<le> g \<and> g \<le> ai_ser_upper ai \<and> tlo \<le> g + sub \<and> g + sub \<le> tup}"
  shows "ok' \<longleftrightarrow> E \<noteq> {}"
    "ok' \<Longrightarrow> E = trip (ai_par_lower ai') (ai_par_upper ai') (ai_par_stride ai')"
    "ok' \<Longrightarrow> numbered ai' E"
proof -
  let ?l = "max (ai_ser_lower ai) (tlo - sub)" and ?u = "min (ai_ser_upper ai) (tup - sub)"
  have b: "ai_ser_lower ai \<le> ai_ser_upper ai" "fits32 (ai_ser_lower ai)" "fits32 (ai_ser_upper ai)"
    using ok by (simp_all add: align_ok_def)
  have E': "E = {?l..?u}" unfolding E by auto
  have iff: "ok' \<longleftrightarrow> ?l \<le> ?u"
    using r b(1) t by (auto simp: align_interval_def Let_def split: if_splits)
  show ok_iff: "ok' \<longleftrightarrow> E \<noteq> {}" unfolding iff E' by auto
  assume ok': "ok'"
  then have le: "?l \<le> ?u" using iff by simp
  have "int32 (tlo - sub) = tlo - sub" if "ai_ser_lower ai + sub < tlo"
    using le that b by (intro int32_id) (auto simp: fits32_def)
  moreover have "int32 (tup - sub) = tup - sub" if "tup < ai_ser_upper ai + sub"
    using le that b by (intro int32_id) (auto simp: fits32_def)
  ultimately have p: "ai_par_lower ai' = ?l" "ai_par_upper ai' = ?u" "ai_par_stride ai' = 1"
    and n: "ai_par_size ai' = ?u - ?l + 1" "ai_alloc_size ai' = ai_par_size ai'" "ai_local_lower ai' = 0"
      "ai_local_upper ai' = ai_par_size ai' - 1" "ai_local_stride ai' = 1"
    using r ok' le by (auto simp: align_interval_def Let_def XMP_M_COUNT_TRIPLETi_def XMP_M_FLOORi_def split: if_splits)
  show "E = trip (ai_par_lower ai') (ai_par_upper ai') (ai_par_stride ai')" unfolding p E' trip_1 by (rule refl)
  show "numbered ai' E" using n le unfolding numbered_def E' by simp
qed

text \<open>Both interval alignments, over a template whose chunk is the interval of the process.\<close>

lemma align_array_interval_part:
  assumes i: "i < length (a_info a)" and ok: "align_ok (a_info a ! i) (t_info T ! j) sub"
    and al: "a_is_allocated a = t_is_owner T"
    and own: "t_is_owner T \<Longrightarrow> owned T j = {par_lower (t_chunk T ! j)..par_upper (t_chunk T ! j)} \<and>
       par_lower (t_chunk T ! j) \<le> par_upper (t_chunk T ! j)"
    and E: "E = {g. ai_ser_lower (a_info a ! i) \<le> g \<and> g \<le> ai_ser_upper (a_info a ! i) \<and> g + sub \<in> owned T j}"
  shows "\<exists>a'. align_array_interval manner a T i j sub = Inr a' \<and> array_part a' i = E \<and>
    (a_is_allocated a' \<longleftrightarrow> E \<noteq> {}) \<and> (a_is_allocated a' \<longrightarrow> numbered (a_info a' ! i) E)"
proof -
  have chk: "align_check (a_info a ! i) (t_info T ! j) sub k = k" for k :: "xmp_array res"
    using ok by (auto simp: align_check_def align_ok_def)
  show ?thesis
  proof (cases "t_is_owner T")
    case False
    then have "E = {}" using E by (simp add: owned_def)
    then show ?thesis using False al chk by (simp add: align_array_interval_def Let_def array_part_def)
  next
    case True
    let ?ai = "(a_info a ! i)\<lparr>ai_is_regular_chunk := (ser_lower (t_info T ! j) = ai_ser_lower (a_info a ! i) + sub \<and>
        is_regular_chunk (t_chunk T ! j)), ai_align_manner := manner\<rparr>"
    obtain ai' ok' where r: "align_interval ?ai (par_lower (t_chunk T ! j)) (par_upper (t_chunk T ! j)) sub = (ai', ok')"
      by (meson surj_pair)
    have ok2: "align_ok ?ai (t_info T ! j) sub" using ok by (simp add: align_ok_def)
    have E2: "E = {g. ai_ser_lower ?ai \<le> g \<and> g \<le> ai_ser_upper ?ai \<and> par_lower (t_chunk T ! j) \<le> g + sub \<and>
        g + sub \<le> par_upper (t_chunk T ! j)}" using E own [OF True] by auto
    note P = align_interval_part [OF ok2 conjunct2 [OF own [OF True]] r E2]
    have num: "numbered (ai'\<lparr>ai_align_subscript := sub, ai_align_template_index := int j\<rparr>) E = numbered ai' E"
      by (simp add: numbered_def)
    show ?thesis
    proof (cases ok')
      case ok': True
      then show ?thesis using True al chk r i P num
        by (simp add: align_array_interval_def Let_def array_part_def)
    next
      case False
      then show ?thesis using True al chk r i P
        by (simp add: align_array_interval_def Let_def array_part_def)
    qed
  qed
qed

lemma block_chunk_interval:
  assumes ok: "dist_ok (n, t, j, k)" and r: "0 \<le> r" "r < ni_size (n_info n ! k)"
    and T: "T = dist_BLOCK (at_rank n k r) t j k" and own: "t_is_owner T"
  shows "owned T j = {par_lower (t_chunk T ! j)..par_upper (t_chunk T ! j)} \<and>
    par_lower (t_chunk T ! j) \<le> par_upper (t_chunk T ! j)"
proof -
  note D = dist_BLOCK_owned [OF ok r refl refl, folded T]
  have rw: "r * XMP_M_CEILi (ser_size (t_info t ! j)) (ni_size (n_info n ! k)) < ser_size (t_info t ! j)"
    using D(5) own by simp
  have f: "0 < ser_size (t_info t ! j)" "0 < ni_size (n_info n ! k)"
    "ser_size (t_info t ! j) = ser_upper (t_info t ! j) - ser_lower (t_info t ! j) + 1"
    using ok by (auto simp: dist_ok_def)
  from rw ceil_width(1) [OF f(1,2) refl] f(3) show ?thesis
    unfolding D(1) D(6,7) [OF rw] by (simp add: distrib_right)
qed

text \<open>
  C21. An array dimension aligned with a block distributed template dimension: \<open>_XMP_align_array_BLOCK\<close>
  succeeds, the process gets the elements whose template index it owns according to
  \<open>_XMP_calc_template_owner_SCALAR\<close>, the array is allocated exactly when there are such elements, and as
  many local elements are allocated, numbered from 0.
\<close>

theorem align_block_elements:
  assumes "dist_ok (n, t, j, k)" and "0 \<le> r" and "r < ni_size (n_info n ! k)"
    and T: "T = dist_BLOCK (at_rank n k r) t j k"
    and "i < length (a_info a)" and "align_ok (a_info a ! i) (t_info t ! j) sub" and "a_is_allocated a = t_is_owner T"
    and E: "E = {g. ai_ser_lower (a_info a ! i) \<le> g \<and> g \<le> ai_ser_upper (a_info a ! i) \<and>
         XMP_calc_template_owner_SCALAR T j (g + sub) = Inr r}"
  shows "\<exists>a'. XMP_align_array_BLOCK a T i j sub = Inr a' \<and> array_part a' i = E \<and>
    (a_is_allocated a' \<longleftrightarrow> E \<noteq> {}) \<and> (a_is_allocated a' \<longrightarrow> numbered (a_info a' ! i) E)"
proof -
  have info: "t_info T = t_info t" using dist_BLOCK_owned(4) [OF assms(1-3) refl refl] T by simp
  have "XMP_calc_template_owner_SCALAR T j x = Inr r \<longleftrightarrow> x \<in> owned T j" if "x \<in> dist_space (n, t, j, k)" for x
    using block.part_iff [OF assms(1) _ that, of r] block_owner_SCALAR(1) [OF assms(1-3) refl that]
      block_owner_SCALAR(1) [OF assms(1) order_refl _ refl that] assms(2,3) T
    by (simp add: block_part_def block_owner_def dist_ranks_def owner_of_def)
  then have E': "E = {g. ai_ser_lower (a_info a ! i) \<le> g \<and> g \<le> ai_ser_upper (a_info a ! i) \<and> g + sub \<in> owned T j}"
    unfolding E using assms(6) by (fastforce simp: dist_space_def align_ok_def)
  show ?thesis unfolding XMP_align_array_BLOCK_def
    using align_array_interval_part [OF assms(5) _ assms(7) block_chunk_interval [OF assms(1-4)] E'] assms(6) info by simp
qed

definition a10 :: xmp_array where
  "a10 = \<lparr>a_is_allocated = True, a_is_align_comm_member = False, a_dim = 1, a_type = 507, a_mpi_type = MPI_INT,
     a_type_size = 4, a_array_addr_p = None, a_total_elmts = 0, a_align_comm = None, a_align_comm_size = 1,
     a_align_comm_rank = - 1, a_is_shrunk_template = False, a_array_nodes = None,
     a_info = [init_array_info \<lparr>ai_is_shadow_comm_member = False, ai_is_regular_chunk = False,
       ai_align_manner = ALIGN_NOT_ALIGNED, ai_ser_lower = 0, ai_ser_upper = 0, ai_ser_size = 0, ai_par_lower = 0,
       ai_par_upper = 0, ai_par_stride = 0, ai_par_size = 0, ai_local_lower = 0, ai_local_upper = 0,
       ai_local_stride = 0, ai_alloc_size = 0, ai_temp0_v = 0, ai_dim_acc = 0, ai_dim_elmts = 0,
       ai_align_subscript = 0, ai_shadow_type = SHADOW_NONE, ai_shadow_size_lo = 0, ai_shadow_size_hi = 0,
       ai_shadow_comm = None, ai_shadow_comm_size = 0, ai_shadow_comm_rank = 0, ai_align_template_index = 0\<rparr> 10]\<rparr>"

lemma a10_ok: "align_ok (a_info a10 ! 0) (t_info t20 ! 0) 4"
  by (simp add: align_ok_def a10_def t20_def init_array_info_def fits32_def)

theorem align_block_elements_witness:
  "dist_ok (p4, t20, 0, 0) \<and> align_ok (a_info a10 ! 0) (t_info t20 ! 0) 4 \<and>
   (\<exists>a'. XMP_align_array_BLOCK a10 (dist_BLOCK (at_rank p4 0 1) t20 0 0) 0 0 4 = Inr a' \<and>
      array_part a' 0 = {g. ai_ser_lower (a_info a10 ! 0) \<le> g \<and> g \<le> ai_ser_upper (a_info a10 ! 0) \<and>
         XMP_calc_template_owner_SCALAR (dist_BLOCK (at_rank p4 0 1) t20 0 0) 0 (g + 4) = Inr 1})"
proof -
  have "1 < ni_size (n_info p4 ! 0)" "0 < length (a_info a10)" by (simp_all add: p4_def a10_def)
  moreover have "a_is_allocated a10 = t_is_owner (dist_BLOCK (at_rank p4 0 1) t20 0 0)" by code_simp
  ultimately show ?thesis
    using align_block_elements [OF t20_ok _ _ refl _ a10_ok _ refl, of 1] t20_ok a10_ok by auto
qed

text \<open>
  The same for a general block distribution and \<open>_XMP_align_array_GBLOCK\<close>.
\<close>

theorem align_gblock_elements:
  assumes "map_ok (n, t, j, k) m" and "0 \<le> r" and "r < ni_size (n_info n ! k)"
    and T: "T = gblock_template ((n, t, j, k), m) r"
    and "i < length (a_info a)" and "align_ok (a_info a ! i) (t_info t ! j) sub" and "a_is_allocated a = t_is_owner T"
    and E: "E = {g. ai_ser_lower (a_info a ! i) \<le> g \<and> g \<le> ai_ser_upper (a_info a ! i) \<and>
         XMP_calc_template_owner_SCALAR T j (g + sub) = Inr r}"
  shows "\<exists>a'. XMP_align_array_GBLOCK a T i j sub = Inr a' \<and> array_part a' i = E \<and>
    (a_is_allocated a' \<longleftrightarrow> E \<noteq> {}) \<and> (a_is_allocated a' \<longrightarrow> numbered (a_info a' ! i) E)"
proof -
  note G = dist_GBLOCK_owned [OF assms(1-3) refl, folded T]
  have info: "t_info T = t_info t" using G(1) by (auto simp: dist_GBLOCK_def Let_def split: if_splits)
  have "XMP_calc_template_owner_SCALAR T j x = Inr r \<longleftrightarrow> x \<in> owned T j" if "x \<in> dist_space (n, t, j, k)" for x
    using gblock.part_iff [of "((n, t, j, k), m)" r x] assms(1-3) that G(3) [of x] T by (simp add: dist_ranks_def)
  then have E': "E = {g. ai_ser_lower (a_info a ! i) \<le> g \<and> g \<le> ai_ser_upper (a_info a ! i) \<and> g + sub \<in> owned T j}"
    unfolding E using assms(6) by (fastforce simp: dist_space_def align_ok_def)
  have "owned T j = {par_lower (t_chunk T ! j)..par_upper (t_chunk T ! j)} \<and>
      par_lower (t_chunk T ! j) \<le> par_upper (t_chunk T ! j)" if "t_is_owner T"
    using G(4) that by (simp add: gblock_chunk_def Let_def owned_def chunk_set_def)
  from align_array_interval_part [OF assms(5) _ assms(7) this E'] show ?thesis
    unfolding XMP_align_array_GBLOCK_def using assms(6) info by simp
qed

theorem align_gblock_elements_witness:
  "map_ok (p4, t20, 0, 0) [3, 0, 7, 10] \<and>
   (\<exists>a'. XMP_align_array_GBLOCK a10 (gblock_template ((p4, t20, 0, 0), [3, 0, 7, 10]) 2) 0 0 4 = Inr a' \<and>
      array_part a' 0 = {g. ai_ser_lower (a_info a10 ! 0) \<le> g \<and> g \<le> ai_ser_upper (a_info a10 ! 0) \<and>
         XMP_calc_template_owner_SCALAR (gblock_template ((p4, t20, 0, 0), [3, 0, 7, 10]) 2) 0 (g + 4) = Inr 2})"
proof -
  have m: "map_ok (p4, t20, 0, 0) [3, 0, 7, 10]" using t20_ok by (simp add: map_ok_def p4_def t20_def)
  have "2 < ni_size (n_info p4 ! 0)" "0 < length (a_info a10)" by (simp_all add: p4_def a10_def)
  moreover have "a_is_allocated a10 = t_is_owner (gblock_template ((p4, t20, 0, 0), [3, 0, 7, 10]) 2)" by code_simp
  ultimately show ?thesis
    using align_gblock_elements [OF m _ _ refl _ a10_ok _ refl, of 2] m by auto
qed

subsection \<open>Cyclic alignment\<close>

lemma align_cyclic_part:
  assumes ok: "align_ok ai ti sub" and P: "0 < P" "fits32 P" "ni_size ni = P" "par_stride chunk = P"
    and r: "0 \<le> ni_rank ni" "ni_rank ni < P" and sz: "P \<le> ai_ser_upper ai - ai_ser_lower ai + 1"
    and E: "E = {g. ai_ser_lower ai \<le> g \<and> g \<le> ai_ser_upper ai \<and> (g + sub - ser_lower ti) mod P = ni_rank ni}"
    and ai': "ai' = align_cyclic ai ti chunk ni sub"
  shows "E = trip (ai_par_lower ai') (ai_par_upper ai') (ai_par_stride ai')" "numbered ai' E" "E \<noteq> {}"
proof -
  let ?x = "ai_ser_lower ai + sub - ser_lower ti" and ?sl = "ai_ser_lower ai" and ?su = "ai_ser_upper ai"
  let ?m = "(ni_rank ni - ?x) mod P" and ?d = "(ai_ser_upper ai - (?sl + (ni_rank ni - ?x) mod P)) div P"
  have x0: "0 \<le> ?x" using ok by (simp add: align_ok_def)
  have i: "int32 (?x smod P) = ?x mod P" using x0 P fits32_mod(1) [OF P(1,2)] by simp
  have m: "0 \<le> ?m" "?m < P" using P(1) by simp_all
  have md: "XMP_modi_ll_i (ni_rank ni - ?x mod P) P = ?m" using P by (simp add: XMP_modi_ll_i_pos mod_diff_right_eq)
  have d0: "0 \<le> ?su - (?sl + ?m)" using m sz by linarith
  then have dd: "(?su - (?m + ?sl)) sdiv P = ?d" using P(1) by (simp add: add.commute)
  have d1: "0 \<le> ?d" using d0 P(1) by (simp add: pos_imp_zdiv_nonneg_iff)
  have ai: "ai_par_lower ai' = ?sl + ?m" "ai_par_upper ai' = ?sl + ?m + P * ?d" "ai_par_stride ai' = P" "ai_par_size ai' = ?d + 1"
    "ai_alloc_size ai' = ai_par_size ai'" "ai_local_lower ai' = 0" "ai_local_upper ai' = ai_par_size ai' - 1"
    "ai_local_stride ai' = 1"
    unfolding ai' align_cyclic_def Let_def P(3,4) i md dd by (simp_all add: mult.commute add.commute)
  have cls: "(g + sub - ser_lower ti) mod P = ni_rank ni \<longleftrightarrow> P dvd (g - (?sl + ?m))" if "?sl \<le> g" for g
  proof -
    have "(g + sub - ser_lower ti) mod P = ni_rank ni \<longleftrightarrow> (g - ?sl + ?x) mod P = ni_rank ni mod P"
      using r by (simp add: algebra_simps)
    also have "\<dots> \<longleftrightarrow> P dvd (g - ?sl - (ni_rank ni - ?x))"
      by (simp add: mod_eq_dvd_iff algebra_simps)
    also have "\<dots> \<longleftrightarrow> P dvd (g - ?sl - ?m)"
    proof -
      have "P dvd (?m - (ni_rank ni - ?x))" by (metis dvd_minus_mod dvd_diff_commute)
      from dvd_diff_shift [OF this, of "g - ?sl"] show ?thesis by simp
    qed
    finally show ?thesis by (simp add: diff_diff_eq)
  qed
  have "E = trip (?sl + ?m) ?su P"
  proof (rule set_eqI)
    fix g
    have "?sl + ?m \<le> g" if g: "?sl \<le> g" "P dvd (g - (?sl + ?m))"
    proof (rule ccontr)
      assume "\<not> ?sl + ?m \<le> g"
      then have "0 < ?sl + ?m - g" "?sl + ?m - g < P" using g(1) m by linarith+
      then show False using g(2) zdvd_not_zless dvd_diff_commute by blast
    qed
    then show "g \<in> E \<longleftrightarrow> g \<in> trip (?sl + ?m) ?su P" unfolding E mem_trip using cls [of g] m(1) by auto
  qed
  moreover have "(?su - (?sl + ?m)) sdiv P = ?d" using d0 P(1) by simp
  then have "trip (?sl + ?m) (?sl + ?m + P * ?d) P = trip (?sl + ?m) ?su P"
    using trip_cut [OF P(1), of "?sl + ?m" ?su] d0 by simp
  ultimately show part: "E = trip (ai_par_lower ai') (ai_par_upper ai') (ai_par_stride ai')" unfolding ai by simp
  have E2: "E = trip (?sl + ?m) ?su P" by fact
  have "int (card E) = ?d + 1" unfolding E2 using card_trip [OF P(1), of "?sl + ?m" ?su] d0 by simp
  then show "numbered ai' E" "E \<noteq> {}" using ai d1 by (auto simp: numbered_def)
qed

text \<open>
  C22. An array dimension aligned with a cyclic template dimension, with at least as many elements as there
  are nodes: \<open>_XMP_align_array_CYCLIC\<close> succeeds and gives the process the elements whose template index it
  owns, and as many local elements, numbered from 0.
\<close>

theorem align_cyclic_elements:
  assumes "dist_ok (n, t, j, k)" and "0 \<le> r" and "r < ni_size (n_info n ! k)"
    and T: "T = dist_CYCLIC_WIDTH (at_rank n k r) t j k 1"
    and "i < length (a_info a)" and "align_ok (a_info a ! i) (t_info t ! j) sub" and "a_is_allocated a = t_is_owner T"
    and "ni_size (n_info n ! k) \<le> ai_ser_upper (a_info a ! i) - ai_ser_lower (a_info a ! i) + 1"
    and E: "E = {g. ai_ser_lower (a_info a ! i) \<le> g \<and> g \<le> ai_ser_upper (a_info a ! i) \<and>
         XMP_calc_template_owner_SCALAR T j (g + sub) = Inr r}"
  shows "\<exists>a'. XMP_align_array_CYCLIC a T i j sub = Inr a' \<and> a_is_allocated a' \<and> array_part a' i = E \<and>
    E \<noteq> {} \<and> numbered (a_info a' ! i) E"
proof -
  let ?P = "ni_size (n_info n ! k)" and ?lo = "ser_lower (t_info t ! j)"
  have w: "width_ok (n, t, j, k) 1" using assms(1) by (simp add: width_ok_def dist_ok_def)
  have P: "0 < ?P" "fits32 ?P" "ser_size (t_info t ! j) = ser_upper (t_info t ! j) - ?lo + 1"
    using assms(1) by (auto simp: dist_ok_def)
  have M: "- ((- ser_size (t_info t ! j)) div 1) = ser_size (t_info t ! j)" by simp
  note C = dist_CYCLIC_chunk [OF w assms(2,3) refl refl M [symmetric] refl refl, folded T]
  have N: "r < ser_size (t_info t ! j)" using assms(3,6,8) P(3) by (auto simp: align_ok_def)
  have own: "t_is_owner T" using C(6) N by simp
  have "XMP_calc_template_owner_SCALAR T j x = Inr ((x - ?lo) mod ?P)" if "x \<in> dist_space (n, t, j, k)" for x
    using cyclic_owner_SCALAR [OF w assms(2,3) that] T by simp
  then have E2: "E = {g. ai_ser_lower (a_info a ! i) \<le> g \<and> g \<le> ai_ser_upper (a_info a ! i) \<and> (g + sub - ?lo) mod ?P = r}"
    unfolding E using assms(6) by (auto simp: dist_space_def align_ok_def)
  let ?ai = "(a_info a ! i)\<lparr>ai_is_regular_chunk := (?lo = ai_ser_lower (a_info a ! i) + sub \<and>
      is_regular_chunk (t_chunk T ! j)), ai_align_manner := ALIGN_CYCLIC\<rparr>"
  let ?ni = "(n_info n ! k)\<lparr>ni_rank := r\<rparr>"
  have ok: "align_ok ?ai (t_info t ! j) sub" using assms(6) by (simp add: align_ok_def)
  note P' = align_cyclic_part [OF ok P(1,2), where ni = ?ni and chunk = "t_chunk T ! j" and E = E, OF _ _ _ _ _ _ refl]
  have part: "E = trip (ai_par_lower (align_cyclic ?ai (t_info t ! j) (t_chunk T ! j) ?ni sub))
      (ai_par_upper (align_cyclic ?ai (t_info t ! j) (t_chunk T ! j) ?ni sub))
      (ai_par_stride (align_cyclic ?ai (t_info t ! j) (t_chunk T ! j) ?ni sub))"
    "numbered (align_cyclic ?ai (t_info t ! j) (t_chunk T ! j) ?ni sub) E" "E \<noteq> {}"
    using P' C(1) assms(2,3,8) E2 by simp_all
  have chk: "align_check (a_info a ! i) (t_info t ! j) sub k = k" for k :: "xmp_array res"
    using assms(6) by (auto simp: align_check_def align_ok_def)
  show ?thesis
    using part own C(4,5) chk assms(5,7)
    by (simp add: XMP_align_array_CYCLIC_def align_array_cycles_def Let_def array_part_def numbered_def)
qed

theorem align_cyclic_elements_witness:
  "dist_ok (p4, t20, 0, 0) \<and> align_ok (a_info a10 ! 0) (t_info t20 ! 0) 4 \<and>
   (\<exists>a'. XMP_align_array_CYCLIC a10 (dist_CYCLIC_WIDTH (at_rank p4 0 3) t20 0 0 1) 0 0 4 = Inr a' \<and>
      array_part a' 0 = {g. ai_ser_lower (a_info a10 ! 0) \<le> g \<and> g \<le> ai_ser_upper (a_info a10 ! 0) \<and>
         XMP_calc_template_owner_SCALAR (dist_CYCLIC_WIDTH (at_rank p4 0 3) t20 0 0 1) 0 (g + 4) = Inr 3})"
proof -
  have "3 < ni_size (n_info p4 ! 0)" "0 < length (a_info a10)"
    "ni_size (n_info p4 ! 0) \<le> ai_ser_upper (a_info a10 ! 0) - ai_ser_lower (a_info a10 ! 0) + 1"
    by (simp_all add: p4_def a10_def init_array_info_def)
  moreover have "a_is_allocated a10 = t_is_owner (dist_CYCLIC_WIDTH (at_rank p4 0 3) t20 0 0 1)" by code_simp
  ultimately show ?thesis
    using align_cyclic_elements [OF t20_ok _ _ refl _ a10_ok _ _ refl, of 3] t20_ok a10_ok by auto
qed

text \<open>
  An array with fewer elements than nodes is aligned wrongly with a cyclic dimension: of two elements on
  4 nodes, process 3 has none, but it is given element 3, which does not exist, and one local element.
\<close>

definition a2 :: xmp_array where
  "a2 = a10\<lparr>a_info := [init_array_info (a_info a10 ! 0) 2]\<rparr>"

theorem align_cyclic_small_array:
  "case XMP_align_array_CYCLIC a2 (dist_CYCLIC_WIDTH (at_rank p4 0 3) t20 0 0 1) 0 0 0 of
     Inl e \<Rightarrow> False
   | Inr a' \<Rightarrow> a_is_allocated a' \<and> ai_ser_upper (a_info a' ! 0) = 1 \<and> ai_par_lower (a_info a' ! 0) = 3 \<and>
       ai_par_size (a_info a' ! 0) = 1"
  by code_simp

text \<open>
  An array aligned with the inside of a block is aligned wrongly with a block-cyclic dimension, because
  \<open>par_upper\<close> is computed from a lower bound that was cut to the array: with blocks of width 3 and offset 1,
  process 0 has the elements 0 and 1, but \<open>par_upper\<close> is 2 and \<open>par_size\<close> is 3; element 2 belongs to process 1.
\<close>

theorem align_block_cyclic_inside_block:
  "case XMP_align_array_BLOCK_CYCLIC a10 (dist_CYCLIC_WIDTH (at_rank p4 0 0) t20 0 0 3) 0 0 1 of
     Inl e \<Rightarrow> False
   | Inr a' \<Rightarrow> ai_par_lower (a_info a' ! 0) = 0 \<and> ai_par_upper (a_info a' ! 0) = 2 \<and> ai_par_size (a_info a' ! 0) = 3 \<and>
       XMP_calc_template_owner_SCALAR (dist_CYCLIC_WIDTH (at_rank p4 0 0) t20 0 0 3) 0 (2 + 1) = Inr 1"
  by code_simp

subsection \<open>The layout of the local block\<close>

definition layout_ok :: "array_info list \<Rightarrow> bool" where
  "layout_ok xs \<longleftrightarrow> (\<forall>x \<in> set xs. 0 < ai_alloc_size x) \<and> fitsu64 (\<Prod>x\<leftarrow>xs. ai_alloc_size x)"

definition local_space :: "array_info list \<Rightarrow> int list set" where
  "local_space xs = {ls. list_all2 (\<lambda>x l. 0 \<le> l \<and> l < ai_alloc_size x) xs ls}"

text \<open>The position of a local element, as the generated code computes it from the \<open>dim_acc\<close>.\<close>

definition elem_offset :: "array_info list \<Rightarrow> int list \<Rightarrow> int" where
  "elem_offset xs ls = (\<Sum>(x, l)\<leftarrow>zip xs ls. ai_dim_acc x * l)"

fun elem_coords :: "array_info list \<Rightarrow> int \<Rightarrow> int list" where
  "elem_coords [] p = []"
| "elem_coords (x # xs) p = (let n = (\<Prod>y\<leftarrow>xs. ai_alloc_size y) in p div n # elem_coords xs (p mod n))"

lemma prod_pos: "\<forall>x \<in> set xs. 0 < ai_alloc_size x \<Longrightarrow> 0 < (\<Prod>x\<leftarrow>xs. ai_alloc_size x)"
  by (induction xs) auto

lemma layout_ok_Cons:
  assumes "layout_ok (x # xs)"
  shows "layout_ok xs" "0 < ai_alloc_size x" "0 < (\<Prod>x\<leftarrow>xs. ai_alloc_size x)"
    "fitsu64 (ai_alloc_size x)" "fitsu64 (ai_alloc_size x * (\<Prod>x\<leftarrow>xs. ai_alloc_size x))"
proof -
  let ?p = "\<Prod>x\<leftarrow>xs. ai_alloc_size x"
  show x: "0 < ai_alloc_size x" using assms by (simp add: layout_ok_def)
  show p: "0 < ?p" using assms by (intro prod_pos) (simp add: layout_ok_def)
  show f: "fitsu64 (ai_alloc_size x * ?p)" using assms by (simp add: layout_ok_def)
  have le: "1 * ?p \<le> ai_alloc_size x * ?p" "ai_alloc_size x * 1 \<le> ai_alloc_size x * ?p"
    using x p by (intro mult_right_mono mult_left_mono; simp)+
  have "fitsu64 ?p" using le(1) f p unfolding fitsu64_def by linarith
  then show "layout_ok xs" using assms by (simp add: layout_ok_def)
  show "fitsu64 (ai_alloc_size x)" using le(2) f x unfolding fitsu64_def by linarith
qed

lemma acc_dims_total: "layout_ok xs \<Longrightarrow> snd (acc_dims xs) = (\<Prod>x\<leftarrow>xs. ai_alloc_size x)"
proof (induction xs)
  case (Cons x xs)
  note L = layout_ok_Cons [OF Cons.prems]
  from Cons.IH [OF L(1)] L(4,5) show ?case by (simp add: case_prod_unfold Let_def mult.commute)
qed simp

lemma elem_offset_Cons:
  "layout_ok (x # xs) \<Longrightarrow> elem_offset (fst (acc_dims (x # xs))) (l # ls) =
     (\<Prod>y\<leftarrow>xs. ai_alloc_size y) * l + elem_offset (fst (acc_dims xs)) ls"
  using acc_dims_total [of xs] layout_ok_Cons(1) [of x xs]
  by (simp add: elem_offset_def case_prod_unfold Let_def)

lemma offset_bound: "layout_ok xs \<Longrightarrow> ls \<in> local_space xs \<Longrightarrow>
   0 \<le> elem_offset (fst (acc_dims xs)) ls \<and> elem_offset (fst (acc_dims xs)) ls < (\<Prod>x\<leftarrow>xs. ai_alloc_size x) \<and>
   elem_coords xs (elem_offset (fst (acc_dims xs)) ls) = ls"
proof (induction xs arbitrary: ls)
  case (Cons x xs)
  then obtain l ms where ls: "ls = l # ms" "0 \<le> l" "l < ai_alloc_size x" "ms \<in> local_space xs"
    by (auto simp: local_space_def list_all2_Cons1)
  note L = layout_ok_Cons [OF Cons.prems(1)]
  let ?n = "\<Prod>y\<leftarrow>xs. ai_alloc_size y" and ?o = "elem_offset (fst (acc_dims xs)) ms"
  have IH: "0 \<le> ?o" "?o < ?n" "elem_coords xs ?o = ms" using Cons.IH [OF L(1) ls(4)] by auto
  have off: "elem_offset (fst (acc_dims (x # xs))) ls = ?n * l + ?o"
    unfolding ls(1) by (rule elem_offset_Cons [OF Cons.prems(1)])
  have "?n * l + ?n \<le> ?n * ai_alloc_size x"
    using mult_left_mono [of "l + 1" "ai_alloc_size x" ?n] ls(3) L(3) by (simp add: distrib_left)
  moreover have "0 \<le> ?n * l" using ls(2) L(3) by simp
  moreover have "(?n * l + ?o) div ?n = l" "(?n * l + ?o) mod ?n = ?o" using IH L(3) by simp_all
  ultimately show ?case unfolding off using IH ls(1) by (simp add: Let_def mult.commute)
qed (simp add: local_space_def elem_offset_def)

lemma coords_space: "layout_ok xs \<Longrightarrow> 0 \<le> p \<Longrightarrow> p < (\<Prod>x\<leftarrow>xs. ai_alloc_size x) \<Longrightarrow>
   elem_coords xs p \<in> local_space xs \<and> elem_offset (fst (acc_dims xs)) (elem_coords xs p) = p"
proof (induction xs arbitrary: p)
  case (Cons x xs)
  note L = layout_ok_Cons [OF Cons.prems(1)]
  let ?n = "\<Prod>y\<leftarrow>xs. ai_alloc_size y"
  have IH: "elem_coords xs (p mod ?n) \<in> local_space xs"
    "elem_offset (fst (acc_dims xs)) (elem_coords xs (p mod ?n)) = p mod ?n"
    using Cons.IH [OF L(1), of "p mod ?n"] L(3) by simp_all
  have "p div ?n < ai_alloc_size x" using Cons.prems(3) L(3) by (simp add: div_less_iff)
  moreover have "0 \<le> p div ?n" using Cons.prems(2) L(3) by (simp add: pos_imp_zdiv_nonneg_iff)
  moreover have "elem_offset (fst (acc_dims (x # xs))) (p div ?n # elem_coords xs (p mod ?n)) = p"
    unfolding elem_offset_Cons [OF Cons.prems(1)] IH(2) by simp
  ultimately show ?case using IH(1) by (simp add: Let_def local_space_def)
qed (simp add: local_space_def elem_offset_def)

interpretation layout: coding layout_ok local_space "\<lambda>xs. {0..<(\<Prod>x\<leftarrow>xs. ai_alloc_size x)}"
  "\<lambda>xs. elem_offset (fst (acc_dims xs))" elem_coords
  by unfold_locales (use offset_bound coords_space in auto)

lemma map_update_same: "f x = f (xs ! i) \<Longrightarrow> map f (xs[i := x]) = map f xs"
  by (cases "i < length xs") (simp_all add: map_update list_update_same_conv list_update_beyond)

lemma calc_dim_elmts_keeps:
  "map ai_dim_acc (a_info (XMP_calc_array_dim_elmts a i)) = map ai_dim_acc (a_info a)"
  "a_dim (XMP_calc_array_dim_elmts a i) = a_dim a" "a_type_size (XMP_calc_array_dim_elmts a i) = a_type_size a"
  by (simp_all add: XMP_calc_array_dim_elmts_def set_info_def map_update_same)

lemma fold_dim_elmts_keeps:
  "map ai_dim_acc (a_info (fold (\<lambda>i a. XMP_calc_array_dim_elmts a i) js a)) = map ai_dim_acc (a_info a)"
  "a_type_size (fold (\<lambda>i a. XMP_calc_array_dim_elmts a i) js a) = a_type_size a"
  by (induction js arbitrary: a) (simp_all add: calc_dim_elmts_keeps)

lemma elem_offset_accs: "map ai_dim_acc xs = map ai_dim_acc ys \<Longrightarrow> elem_offset xs ls = elem_offset ys ls"
proof (induction xs arbitrary: ys ls)
  case (Cons x xs)
  then obtain y zs where "ys = y # zs" by (cases ys) auto
  with Cons show ?case by (cases ls) (auto simp: elem_offset_def)
qed simp

text \<open>
  C23. \<open>_XMP_alloc_array\<close> allocates one block for all local elements, of their number times the size of an
  element, and the \<open>dim_acc\<close> it stores address every element of the block exactly once from the local
  indices: the offset is a bijection onto \<open>0..total_elmts-1\<close>, so no access is outside the block.
\<close>

theorem alloc_array_layout:
  assumes "a_dim a = length (a_info a)" and "layout_ok (a_info a)"
    and "malloc (uint64 ((\<Prod>x\<leftarrow>a_info a. ai_alloc_size x) * a_type_size a)) = Some p"
  shows "\<exists>a'. XMP_alloc_array malloc a = Inr a' \<and> a_array_addr_p a' = Some p \<and>
    a_total_elmts a' = (\<Prod>x\<leftarrow>a_info a. ai_alloc_size x) \<and>
    bij_betw (elem_offset (a_info a')) (local_space (a_info a)) {0..<a_total_elmts a'}"
proof -
  obtain ys n where acc: "acc_dims (a_info a) = (ys, n)" by (cases "acc_dims (a_info a)")
  have n: "n = (\<Prod>x\<leftarrow>a_info a. ai_alloc_size x)" using acc_dims_total [OF assms(2)] acc by simp
  let ?a = "fold (\<lambda>i a. XMP_calc_array_dim_elmts a i) [0..<a_dim a] (a\<lparr>a_info := ys\<rparr>)"
  have sa: "set_accs a = (?a, n)" using assms(1) acc by (simp add: set_accs_def)
  have "elem_offset (a_info ?a) = elem_offset ys" by (intro ext elem_offset_accs) (simp add: fold_dim_elmts_keeps)
  then have "bij_betw (elem_offset (a_info ?a)) (local_space (a_info a)) {0..<n}"
    using layout.enc_bij [OF assms(2)] acc n by simp
  then show ?thesis using sa assms(3) n by (simp add: XMP_alloc_array_def fold_dim_elmts_keeps)
qed

definition a35 :: xmp_array where
  "a35 = a10\<lparr>a_dim := 2, a_info := [(a_info a10 ! 0)\<lparr>ai_alloc_size := 3\<rparr>, (a_info a10 ! 0)\<lparr>ai_alloc_size := 5\<rparr>]\<rparr>"

theorem alloc_array_layout_witness:
  "layout_ok (a_info a35) \<and>
   (\<exists>a'. XMP_alloc_array (\<lambda>n. Some 100) a35 = Inr a' \<and> a_total_elmts a' = (\<Prod>x\<leftarrow>a_info a35. ai_alloc_size x) \<and>
      bij_betw (elem_offset (a_info a')) (local_space (a_info a35)) {0..<a_total_elmts a'})"
proof -
  have "a_dim a35 = length (a_info a35)" "layout_ok (a_info a35)"
    by (simp_all add: a35_def layout_ok_def fitsu64_def)
  then show ?thesis using alloc_array_layout [of a35 "\<lambda>n. Some 100" 100] by auto
qed

end
