(* ===== verification/Xmp_Async.thy ===== *)
theory Xmp_Async
  imports Xmp_Nodes
begin

text \<open>
  Descriptors of asynchronous communications: \<open>src/libxmp/src/xmp_async.c\<close>. The descriptors are in a
  hash table: a static array of slots, each the head of a chain of cells that are allocated and
  freed. The state has the array, the cells and the two static variables. \<open>reqs\<close> and the block that
  \<open>node\<close> points to are allocated and freed with the descriptor; of \<open>node\<close> the model has the entries
  that were stored. MPI and the unpacking of a gmove are events. The model is the build without RDMA
  reflects and without MPI-3 one-sided communication.
\<close>

subsection \<open>Data\<close>

definition XMP_ASYNC_COMM_SIZE :: nat where
  "XMP_ASYNC_COMM_SIZE = 511"

definition XMP_MAX_ASYNC_NODES :: int where
  "XMP_MAX_ASYNC_NODES = 20"

text \<open>Of a gmove only the mode and its identity matter here.\<close>

record async_gmove =
  ag_normal :: bool
  ag_id :: nat

record async_comm =
  ac_async_id :: int
  ac_nreqs :: int
  ac_nnodes :: int
  ac_is_used :: bool
  ac_reqs :: bool
  ac_node :: "nat list option"
  ac_gmove :: "async_gmove option"
  ac_next :: "nat option"

datatype aref = Slot nat | Cell nat

record async_state =
  as_tab :: "async_comm list"
  as_cells :: "nat \<Rightarrow> async_comm option"
  as_next_cell :: nat
  as_is_async :: bool
  as_tmp :: "aref option"

datatype async_event = Waitall int | Testall int | FinalizeGmove nat

definition xmp_is_async :: "async_state \<Rightarrow> bool" where
  "xmp_is_async st = as_is_async st"

definition XMP_get_current_async :: "async_state \<Rightarrow> aref option" where
  "XMP_get_current_async st = as_tmp st"

subsection \<open>Access\<close>

text \<open>\<open>async_id % _XMP_ASYNC_COMM_SIZE\<close>, an index outside the array for a negative id.\<close>

definition async_hash :: "int \<Rightarrow> nat res" where
  "async_hash async_id =
     (let h = async_id smod int XMP_ASYNC_COMM_SIZE in if h < 0 then Inl OutOfBounds else Inr (nat h))"

definition read_async :: "async_state \<Rightarrow> aref \<Rightarrow> async_comm res" where
  "read_async st r =
     (case r of
        Slot h \<Rightarrow> (if h < length (as_tab st) then Inr (as_tab st ! h) else Inl OutOfBounds)
      | Cell c \<Rightarrow> (case as_cells st c of None \<Rightarrow> Inl NullDeref | Some x \<Rightarrow> Inr x))"

definition write_async :: "async_state \<Rightarrow> aref \<Rightarrow> async_comm \<Rightarrow> async_state" where
  "write_async st r x =
     (case r of
        Slot h \<Rightarrow> st\<lparr>as_tab := (as_tab st)[h := x]\<rparr>
      | Cell c \<Rightarrow> st\<lparr>as_cells := (as_cells st)(c \<mapsto> x)\<rparr>)"

text \<open>
  The loop over a chain, from the field \<open>next\<close> of a descriptor: the cell with the id, or the last
  descriptor of the chain, with the descriptor before it. \<open>None\<close> when the loop does not end.
\<close>

datatype chain_end = Found aref nat | Last aref

partial_function (option) walk ::
    "(nat \<Rightarrow> async_comm option) \<Rightarrow> int \<Rightarrow> aref \<Rightarrow> nat option \<Rightarrow> chain_end res option" where
  "walk cells async_id prev p =
     (if p = None then Some (Inr (Last prev))
      else if cells (the p) = None then Some (Inl NullDeref)
      else if ac_async_id (the (cells (the p))) = async_id then Some (Inr (Found prev (the p)))
      else walk cells async_id (Cell (the p)) (ac_next (the (cells (the p)))))"

declare walk.simps [code]

lemma walk_simps [simp]:
  "walk cells i prev None = Some (Inr (Last prev))"
  "cells c = Some x \<Longrightarrow> walk cells i prev (Some c) =
     (if ac_async_id x = i then Some (Inr (Found prev c)) else walk cells i (Cell c) (ac_next x))"
  by (simp_all add: walk.simps)

definition walk_res ::
    "(nat \<Rightarrow> async_comm option) \<Rightarrow> int \<Rightarrow> aref \<Rightarrow> nat option \<Rightarrow> chain_end res" where
  "walk_res cells async_id prev p = (case walk cells async_id prev p of None \<Rightarrow> Inl NoReturn | Some r \<Rightarrow> r)"

definition XMP_get_async :: "async_state \<Rightarrow> int \<Rightarrow> aref option res" where
  "XMP_get_async st async_id =
     bind_res (async_hash async_id) (\<lambda>h.
     bind_res (read_async st (Slot h)) (\<lambda>a.
       if ac_async_id a = async_id then Inr (Some (Slot h))
       else bind_res (walk_res (as_cells st) async_id (Slot h) (ac_next a)) (\<lambda>e.
            case e of Found prev c \<Rightarrow> Inr (Some (Cell c)) | Last prev \<Rightarrow> Inr None)))"

subsection \<open>The life of a descriptor\<close>

definition XMP_initialize_async_comm_tab :: "async_state \<Rightarrow> async_state" where
  "XMP_initialize_async_comm_tab st =
     st\<lparr>as_tab := map (\<lambda>a. a\<lparr>ac_nreqs := 0, ac_nnodes := 0, ac_is_used := False, ac_node := None,
                             ac_reqs := False, ac_gmove := None, ac_next := None\<rparr>) (as_tab st)\<rparr>"

definition new_async :: "int \<Rightarrow> async_comm" where
  "new_async async_id =
     \<lparr>ac_async_id = async_id, ac_nreqs = 0, ac_nnodes = 0, ac_is_used = True, ac_reqs = True, ac_node = None,
      ac_gmove = None, ac_next = None\<rparr>"

definition xmpc_init_async :: "async_state \<Rightarrow> int \<Rightarrow> async_state res" where
  "xmpc_init_async st async_id =
     (let st = st\<lparr>as_is_async := True\<rparr>
      in bind_res (async_hash async_id) (\<lambda>h.
         bind_res (read_async st (Slot h)) (\<lambda>a.
           if \<not> ac_is_used a then
             Inr ((write_async st (Slot h) (a\<lparr>ac_async_id := async_id, ac_reqs := True, ac_is_used := True\<rparr>))
                    \<lparr>as_tmp := Some (Slot h)\<rparr>)
           else if ac_async_id a = async_id then Inr (st\<lparr>as_tmp := Some (Slot h)\<rparr>)
           else bind_res (walk_res (as_cells st) async_id (Slot h) (ac_next a)) (\<lambda>e.
             case e of
               Found prev c \<Rightarrow> Inr (st\<lparr>as_tmp := Some (Cell c)\<rparr>)
             | Last tail \<Rightarrow>
                 bind_res (read_async st tail) (\<lambda>y.
                   let c = as_next_cell st;
                       st = write_async st tail (y\<lparr>ac_next := Some c\<rparr>);
                       st = write_async st (Cell c) (new_async async_id)
                   in Inr (st\<lparr>as_next_cell := c + 1, as_tmp := Some (Cell c)\<rparr>))))))"

definition XMP_nodes_dealloc_after_wait_async :: "async_state \<Rightarrow> nat \<Rightarrow> async_state res" where
  "XMP_nodes_dealloc_after_wait_async st n =
     (case as_tmp st of None \<Rightarrow> Inl NullDeref
      | Some r \<Rightarrow>
          bind_res (read_async st r) (\<lambda>a.
            if ac_nnodes a \<ge> XMP_MAX_ASYNC_NODES then Inl (Fatal ''Too many nodes'')
            else
              let a = (if ac_nnodes a = 0 then a\<lparr>ac_node := Some []\<rparr> else a)
              in case ac_node a of None \<Rightarrow> Inl NullDeref
                 | Some ns \<Rightarrow>
                     Inr (write_async st r (a\<lparr>ac_node := Some (take (nat (ac_nnodes a)) ns @ [n]),
                                               ac_nnodes := ac_nnodes a + 1\<rparr>))))"

text \<open>What an asynchronous reduction does with the current descriptor: \<open>async->nreqs++\<close>.\<close>

definition count_request :: "async_state \<Rightarrow> async_state res" where
  "count_request st =
     (case as_tmp st of None \<Rightarrow> Inl NullDeref
      | Some r \<Rightarrow> bind_res (read_async st r) (\<lambda>a. Inr (write_async st r (a\<lparr>ac_nreqs := ac_nreqs a + 1\<rparr>))))"

definition xmpc_start_async :: "async_state \<Rightarrow> async_state" where
  "xmpc_start_async st = st\<lparr>as_is_async := False, as_tmp := None\<rparr>"

text \<open>The first result of the two operations are the node sets that are finalised.\<close>

definition initialize_async :: "async_comm \<Rightarrow> nat list \<times> async_comm" where
  "initialize_async a =
     (case ac_node a of None \<Rightarrow> [] | Some ns \<Rightarrow> take (nat (ac_nnodes a)) ns,
      a\<lparr>ac_node := None, ac_gmove := None, ac_reqs := False, ac_nreqs := 0, ac_nnodes := 0, ac_is_used := False,
        ac_next := None\<rparr>)"

definition free_cell :: "async_state \<Rightarrow> nat \<Rightarrow> async_state" where
  "free_cell st c = st\<lparr>as_cells := (as_cells st)(c := None)\<rparr>"

definition end_async :: "async_state \<Rightarrow> int \<Rightarrow> (nat list \<times> async_state) res" where
  "end_async st async_id =
     bind_res (async_hash async_id) (\<lambda>h.
     bind_res (read_async st (Slot h)) (\<lambda>a.
       if \<not> ac_is_used a then Inr ([], st)
       else if ac_async_id a = async_id then
         (let (ns, a') = initialize_async a
          in case ac_next a of
               None \<Rightarrow> Inr (ns, write_async st (Slot h) a')
             | Some c \<Rightarrow>
                 bind_res (read_async st (Cell c)) (\<lambda>y.
                   Inr (ns, free_cell (write_async st (Slot h)
                     (a'\<lparr>ac_async_id := ac_async_id y, ac_nreqs := ac_nreqs y, ac_nnodes := ac_nnodes y,
                         ac_is_used := ac_is_used y, ac_node := ac_node y, ac_gmove := ac_gmove y,
                         ac_reqs := ac_reqs y, ac_next := ac_next y\<rparr>)) c)))
       else bind_res (walk_res (as_cells st) async_id (Slot h) (ac_next a)) (\<lambda>e.
         case e of
           Last prev \<Rightarrow> Inr ([], st)
         | Found prev c \<Rightarrow>
             bind_res (read_async st prev) (\<lambda>y.
             bind_res (read_async st (Cell c)) (\<lambda>x.
               Inr (fst (initialize_async x), free_cell (write_async st prev (y\<lparr>ac_next := ac_next x\<rparr>)) c))))))"

fun finalize_all :: "nat list \<Rightarrow> unit xmp" where
  "finalize_all [] = ret ()"
| "finalize_all (n # ns) = andthen (XMP_finalize_nodes n) (\<lambda>_. finalize_all ns)"

definition xmpc_end_async :: "async_state \<Rightarrow> int \<Rightarrow> async_state xmp" where
  "xmpc_end_async st async_id =
     andthen (lift (end_async st async_id)) (\<lambda>(ns, st'). andthen (finalize_all ns) (\<lambda>_. ret st'))"

subsection \<open>Completion\<close>

definition XMP_wait_async :: "async_state \<Rightarrow> int \<Rightarrow> async_event list res" where
  "XMP_wait_async st async_id =
     bind_res (XMP_get_async st async_id) (\<lambda>r.
       case r of None \<Rightarrow> Inr []
       | Some p \<Rightarrow>
           bind_res (read_async st p) (\<lambda>a.
             Inr ((case ac_gmove a of None \<Rightarrow> [Waitall (ac_nreqs a)]
                   | Some g \<Rightarrow> if ag_normal g then [Waitall (ac_nreqs a)] else []) @
                  (case ac_gmove a of None \<Rightarrow> []
                   | Some g \<Rightarrow> if ag_normal g then [FinalizeGmove (ag_id g)] else []))))"

text \<open>\<open>flag\<close> is what \<open>MPI_Testall\<close> reports.\<close>

definition xmp_test_async :: "async_state \<Rightarrow> bool \<Rightarrow> int \<Rightarrow> (int \<times> async_event list \<times> async_state) xmp" where
  "xmp_test_async st flag async_id =
     andthen (lift (XMP_get_async st async_id)) (\<lambda>r.
       case r of None \<Rightarrow> ret (1, [], st)
       | Some p \<Rightarrow>
           andthen (lift (read_async st p)) (\<lambda>a.
             if flag then
               andthen (xmpc_end_async st async_id) (\<lambda>st'.
                 ret (1, Testall (ac_nreqs a) # (case ac_gmove a of None \<Rightarrow> [] | Some g \<Rightarrow> [FinalizeGmove (ag_id g)]), st'))
             else ret (0, [Testall (ac_nreqs a)], st)))"

end
