(* ===== verification/Xmp_Async_Laws.thy ===== *)
theory Xmp_Async_Laws
  imports Xmp_Async
begin

text \<open>
  The table of asynchronous communications implements a finite map from ids to descriptors: the chains
  are well formed in every state the operations reach, no cell is lost, and the operations return.
\<close>

subsection \<open>Chains\<close>

primrec chain :: "(nat \<Rightarrow> async_comm option) \<Rightarrow> nat option \<Rightarrow> nat list \<Rightarrow> bool" where
  "chain m p [] \<longleftrightarrow> p = None"
| "chain m p (c # cs) \<longleftrightarrow> p = Some c \<and> (\<exists>x. m c = Some x \<and> chain m (ac_next x) cs)"

definition id_of :: "(nat \<Rightarrow> async_comm option) \<Rightarrow> nat \<Rightarrow> int" where
  "id_of m c = ac_async_id (the (m c))"

lemma chain_cong: "(\<And>c. c \<in> set cs \<Longrightarrow> m c = m' c) \<Longrightarrow> chain m p cs = chain m' p cs"
  by (induction cs arbitrary: p) auto

lemma chain_mem: "chain m p cs \<Longrightarrow> c \<in> set cs \<Longrightarrow> \<exists>x. m c = Some x"
  by (induction cs arbitrary: p) auto

lemma chain_walk:
  "chain m p cs \<Longrightarrow> \<forall>c \<in> set cs. id_of m c \<noteq> i \<Longrightarrow>
   walk m i prev p = Some (Inr (Last (if cs = [] then prev else Cell (last cs))))"
proof (induction cs arbitrary: p prev)
  case (Cons c cs)
  then obtain x where x: "p = Some c" "m c = Some x" "chain m (ac_next x) cs" by auto
  with Cons.IH [OF x(3), of "Cell c"] Cons.prems(2) show ?case by (simp add: id_of_def)
qed simp

lemma chain_walk_found:
  "chain m p (as @ c # bs) \<Longrightarrow> \<forall>a \<in> set as. id_of m a \<noteq> i \<Longrightarrow> id_of m c = i \<Longrightarrow>
   walk m i prev p = Some (Inr (Found (if as = [] then prev else Cell (last as)) c))"
proof (induction as arbitrary: p prev)
  case Nil
  then show ?case by (auto simp: id_of_def)
next
  case (Cons a as)
  then obtain x where x: "p = Some a" "m a = Some x" "chain m (ac_next x) (as @ c # bs)" by auto
  with Cons.IH [OF x(3), of "Cell a"] Cons.prems(2,3) show ?case by (simp add: id_of_def)
qed

lemma chain_snoc:
  "chain m p cs \<Longrightarrow> distinct cs \<Longrightarrow> cs \<noteq> [] \<Longrightarrow> c \<notin> set cs \<Longrightarrow> m (last cs) = Some y \<Longrightarrow> ac_next n = None \<Longrightarrow>
   chain (m(last cs \<mapsto> y\<lparr>ac_next := Some c\<rparr>, c \<mapsto> n)) p (cs @ [c])"
proof (induction cs arbitrary: p)
  case (Cons d ds)
  then obtain x where x: "p = Some d" "m d = Some x" "chain m (ac_next x) ds" by auto
  show ?case
  proof (cases "ds = []")
    case False
    with Cons.prems have "last ds \<noteq> d" "d \<noteq> c" by auto
    with False Cons.IH [OF x(3)] Cons.prems x show ?thesis by auto
  qed (use Cons.prems x in auto)
qed simp

lemma chain_unlink:
  "chain m p (as @ c # bs) \<Longrightarrow> distinct (as @ c # bs) \<Longrightarrow> as \<noteq> [] \<Longrightarrow> m (last as) = Some y \<Longrightarrow> m c = Some x \<Longrightarrow>
   chain (m(last as \<mapsto> y\<lparr>ac_next := ac_next x\<rparr>, c := None)) p (as @ bs)"
proof (induction as arbitrary: p)
  case (Cons d ds)
  then obtain z where z: "p = Some d" "m d = Some z" "chain m (ac_next z) (ds @ c # bs)" by auto
  show ?case
  proof (cases "ds = []")
    case True
    then have "chain m (ac_next x) bs" using z(3) Cons.prems(5) by auto
    then have "chain (m(d \<mapsto> y\<lparr>ac_next := ac_next x\<rparr>, c := None)) (ac_next x) bs"
      using Cons.prems(2) by (subst chain_cong [of _ _ m]) auto
    with True Cons.prems z show ?thesis by (auto simp: fun_upd_def)
  next
    case False
    with Cons.prems have "last ds \<noteq> d" "d \<noteq> c" by auto
    with False Cons.IH [OF z(3)] Cons.prems z show ?thesis by auto
  qed
qed simp

subsection \<open>Buckets\<close>

definition good :: "nat \<Rightarrow> async_comm \<Rightarrow> bool" where
  "good h x \<longleftrightarrow> ac_is_used x \<and> 0 \<le> ac_async_id x \<and> ac_async_id x mod 511 = int h"

text \<open>An unused slot has no chain and holds nothing of an earlier communication but its id.\<close>

definition idle :: "async_comm \<Rightarrow> bool" where
  "idle a \<longleftrightarrow> \<not> ac_is_used a \<and> ac_nreqs a = 0 \<and> ac_nnodes a = 0 \<and> ac_node a = None \<and> ac_gmove a = None \<and> ac_next a = None"

definition entries :: "async_comm \<Rightarrow> (nat \<Rightarrow> async_comm option) \<Rightarrow> nat list \<Rightarrow> async_comm list" where
  "entries a m cs = (if ac_is_used a then [a] else []) @ map (the \<circ> m) cs"

definition bucket_ok :: "async_comm \<Rightarrow> (nat \<Rightarrow> async_comm option) \<Rightarrow> nat \<Rightarrow> nat list \<Rightarrow> bool" where
  "bucket_ok a m h cs \<longleftrightarrow> chain m (ac_next a) cs \<and> (ac_is_used a \<or> idle a) \<and>
     (\<forall>x \<in> set (entries a m cs). good h x) \<and> distinct (map ac_async_id (entries a m cs))"

definition inv_with :: "async_state \<Rightarrow> (nat \<Rightarrow> nat list) \<Rightarrow> bool" where
  "inv_with st B \<longleftrightarrow> length (as_tab st) = 511 \<and> (\<forall>c \<in> dom (as_cells st). c < as_next_cell st) \<and>
     (\<forall>h < 511. bucket_ok (as_tab st ! h) (as_cells st) h (B h)) \<and> dom (as_cells st) = (\<Union>h < 511. set (B h))"

text \<open>The invariant: every bucket is a chain of used descriptors, and every allocated cell is in a chain.\<close>

definition async_inv :: "async_state \<Rightarrow> bool" where
  "async_inv st \<longleftrightarrow> (\<exists>B. inv_with st B)"

lemma entries_cong: "(\<And>c. c \<in> set cs \<Longrightarrow> m c = m' c) \<Longrightarrow> entries a m cs = entries a m' cs"
  by (simp add: entries_def)

lemma bucket_cong: "(\<And>c. c \<in> set cs \<Longrightarrow> m c = m' c) \<Longrightarrow> bucket_ok a m h cs = bucket_ok a m' h cs"
  using chain_cong [of cs m m'] entries_cong [of cs m m'] by (simp add: bucket_ok_def)

lemma bucket_cell: "bucket_ok a m h cs \<Longrightarrow> c \<in> set cs \<Longrightarrow> \<exists>x. m c = Some x \<and> good h x"
  using chain_mem [of m "ac_next a" cs c] by (force simp: bucket_ok_def entries_def)

lemma bucket_distinct: "bucket_ok a m h cs \<Longrightarrow> distinct cs"
  by (simp add: bucket_ok_def entries_def distinct_map)

lemma other_bucket:
  assumes "inv_with st B" "h < 511" "h' < 511" "h \<noteq> h'" "c \<in> set (B h)"
  shows "c \<notin> set (B h')"
proof
  assume "c \<in> set (B h')"
  moreover have "bucket_ok (as_tab st ! h) (as_cells st) h (B h)" "bucket_ok (as_tab st ! h') (as_cells st) h' (B h')"
    using assms by (auto simp: inv_with_def)
  ultimately have "\<exists>x. as_cells st c = Some x \<and> good h x" "\<exists>x. as_cells st c = Some x \<and> good h' x"
    using bucket_cell assms(5) by blast+
  then obtain x where "good h x" "good h' x" by auto
  then show False using assms(4) by (auto simp: good_def)
qed

text \<open>A change of one bucket keeps the invariant.\<close>

lemma inv_change:
  assumes inv: "inv_with st B" and h: "h < 511" and b: "bucket_ok a' m' h cs'"
    and st': "as_tab st' = (as_tab st)[h := a']" "as_cells st' = m'" "as_next_cell st \<le> as_next_cell st'"
    and m': "\<And>c. c \<notin> set (B h) \<Longrightarrow> c \<notin> set cs' \<Longrightarrow> m' c = as_cells st c"
    and gone: "\<And>c. c \<in> set (B h) \<Longrightarrow> c \<notin> set cs' \<Longrightarrow> m' c = None"
    and new: "\<And>c. c \<in> set cs' \<Longrightarrow> c \<notin> set (B h) \<Longrightarrow> as_next_cell st \<le> c \<and> c < as_next_cell st'"
  shows "inv_with st' (B(h := cs'))"
proof -
  have I: "length (as_tab st) = 511" "\<And>c. c \<in> dom (as_cells st) \<Longrightarrow> c < as_next_cell st"
    "\<And>k. k < 511 \<Longrightarrow> bucket_ok (as_tab st ! k) (as_cells st) k (B k)" "dom (as_cells st) = (\<Union>k < 511. set (B k))"
    using inv by (auto simp: inv_with_def)
  have same: "m' c = as_cells st c" if "k < 511" "k \<noteq> h" "c \<in> set (B k)" for k c
  proof -
    have "c < as_next_cell st" using I(2,4) that(1,3) by blast
    moreover have "c \<notin> set (B h)" using other_bucket [OF inv that(1) h that(2,3)] .
    ultimately show ?thesis using m' new by force
  qed
  have all: "bucket_ok (as_tab st' ! k) (as_cells st') k ((B(h := cs')) k)" if k: "k < 511" for k
  proof (cases "k = h")
    case False
    then have "bucket_ok (as_tab st ! k) m' k (B k)" using bucket_cong [of "B k" m' "as_cells st"] same k I(3) by simp
    with False st' show ?thesis by simp
  qed (use b st' I(1) h in simp)
  have "dom m' = (\<Union>k < 511. set ((B(h := cs')) k))"
  proof (rule set_eqI)
    fix c
    consider (cs) "c \<in> set cs'" | (old) "c \<in> set (B h)" "c \<notin> set cs'" | (rest) "c \<notin> set (B h)" "c \<notin> set cs'" by blast
    then show "c \<in> dom m' \<longleftrightarrow> c \<in> (\<Union>k < 511. set ((B(h := cs')) k))"
    proof cases
      case cs
      then show ?thesis using bucket_cell [OF b, of c] h by auto
    next
      case old
      then show ?thesis using gone [of c] other_bucket [OF inv h] by (auto split: if_splits)
    next
      case rest
      then have "c \<in> dom m' \<longleftrightarrow> (\<exists>k < 511. c \<in> set (B k))" using m' [of c] I(4) by (auto simp: dom_def)
      then show ?thesis using rest by auto
    qed
  qed
  moreover have "\<forall>c \<in> dom m'. c < as_next_cell st'"
  proof
    fix c assume c: "c \<in> dom m'"
    show "c < as_next_cell st'"
    proof (cases "c \<in> set cs' \<and> c \<notin> set (B h)")
      case True
      then show ?thesis using new by blast
    next
      case False
      then have "c \<in> dom (as_cells st)"
      proof (cases "c \<in> set (B h)")
        case True
        then show ?thesis using I(4) h by blast
      qed (use False c m' in \<open>auto simp: dom_def\<close>)
      then show ?thesis using I(2) st'(3) by fastforce
    qed
  qed
  ultimately show ?thesis using all I(1) st' by (simp add: inv_with_def)
qed

subsection \<open>The map of ids\<close>

definition content :: "async_comm \<Rightarrow> async_comm" where
  "content x = x\<lparr>ac_next := None\<rparr>"

text \<open>The used descriptors in memory, whatever the links between them are.\<close>

definition stores :: "async_state \<Rightarrow> int \<Rightarrow> async_comm \<Rightarrow> bool" where
  "stores st i d \<longleftrightarrow> (\<exists>x. (x \<in> set (as_tab st) \<or> x \<in> ran (as_cells st)) \<and> ac_is_used x \<and> ac_async_id x = i \<and> d = content x)"

definition registry :: "async_state \<Rightarrow> int \<Rightarrow> async_comm option" where
  "registry st i = (if \<exists>d. stores st i d then Some (THE d. stores st i d) else None)"

definition slot_of :: "int \<Rightarrow> nat" where
  "slot_of i = nat (i mod 511)"

definition keyed :: "async_comm list \<Rightarrow> int \<Rightarrow> async_comm option" where
  "keyed xs = map_of (map (\<lambda>x. (ac_async_id x, content x)) xs)"

lemma slot_of_less [simp]: "slot_of i < 511"
  by (simp add: slot_of_def)

lemma async_hash_pos: "0 \<le> i \<Longrightarrow> async_hash i = Inr (slot_of i)"
  by (simp add: async_hash_def XMP_ASYNC_COMM_SIZE_def slot_of_def Let_def)

lemma good_slot: "good h x \<Longrightarrow> slot_of (ac_async_id x) = h"
  by (simp add: good_def slot_of_def)

lemma keyed_Some:
  "distinct (map ac_async_id xs) \<Longrightarrow> keyed xs i = Some d \<longleftrightarrow> (\<exists>x \<in> set xs. ac_async_id x = i \<and> d = content x)"
  unfolding keyed_def by (subst map_of_eq_Some_iff) (auto simp: comp_def)

lemma keyed_None: "keyed xs i = None \<longleftrightarrow> (\<forall>x \<in> set xs. ac_async_id x \<noteq> i)"
  by (force simp: keyed_def map_of_eq_None_iff image_image)

lemma inv_bucket: "inv_with st B \<Longrightarrow> h < 511 \<Longrightarrow> bucket_ok (as_tab st ! h) (as_cells st) h (B h)"
  by (simp add: inv_with_def)

lemma stores_entries:
  assumes inv: "inv_with st B"
  shows "stores st i d \<longleftrightarrow> 0 \<le> i \<and>
    (\<exists>x \<in> set (entries (as_tab st ! slot_of i) (as_cells st) (B (slot_of i))). ac_async_id x = i \<and> d = content x)"
proof
  assume "stores st i d"
  then obtain x where x: "x \<in> set (as_tab st) \<or> x \<in> ran (as_cells st)" "ac_is_used x" "ac_async_id x = i" "d = content x"
    by (auto simp: stores_def)
  have "\<exists>h < 511. x \<in> set (entries (as_tab st ! h) (as_cells st) (B h))"
  proof (cases "x \<in> set (as_tab st)")
    case True
    then obtain h where "h < 511" "x = as_tab st ! h" using inv by (auto simp: inv_with_def in_set_conv_nth)
    then show ?thesis using x(2) by (auto simp: entries_def)
  next
    case False
    then obtain c where c: "as_cells st c = Some x" using x(1) by (auto simp: ran_def)
    then have "c \<in> (\<Union>h < 511. set (B h))" using inv by (auto simp only: inv_with_def)
    then obtain h where "h < 511" "c \<in> set (B h)" by auto
    then show ?thesis using c by (force simp: entries_def)
  qed
  then obtain h where h: "h < 511" "x \<in> set (entries (as_tab st ! h) (as_cells st) (B h))" by blast
  then have "good h x" using inv_bucket [OF inv h(1)] by (simp add: bucket_ok_def)
  then have "0 \<le> i" "slot_of i = h" using x(3) good_slot [of h x] by (auto simp: good_def)
  then show "0 \<le> i \<and> (\<exists>x \<in> set (entries (as_tab st ! slot_of i) (as_cells st) (B (slot_of i))). ac_async_id x = i \<and> d = content x)"
    using h(2) x(3,4) by auto
next
  let ?h = "slot_of i"
  assume "0 \<le> i \<and> (\<exists>x \<in> set (entries (as_tab st ! ?h) (as_cells st) (B ?h)). ac_async_id x = i \<and> d = content x)"
  then obtain x where x: "x \<in> set (entries (as_tab st ! ?h) (as_cells st) (B ?h))" "ac_async_id x = i" "d = content x" by blast
  have b: "bucket_ok (as_tab st ! ?h) (as_cells st) ?h (B ?h)" using inv_bucket [OF inv] by simp
  then have "ac_is_used x" using x(1) by (auto simp: bucket_ok_def good_def)
  moreover have "as_tab st ! ?h \<in> set (as_tab st)" using inv by (simp add: inv_with_def)
  moreover have "the (as_cells st c) \<in> ran (as_cells st)" if "c \<in> set (B ?h)" for c
    using bucket_cell [OF b that] by (auto simp: ran_def)
  ultimately show "stores st i d" using x by (auto simp: stores_def entries_def split: if_splits)
qed

lemma registry_entries:
  assumes inv: "inv_with st B"
  shows "registry st i = (if 0 \<le> i then keyed (entries (as_tab st ! slot_of i) (as_cells st) (B (slot_of i))) i else None)"
proof -
  let ?E = "entries (as_tab st ! slot_of i) (as_cells st) (B (slot_of i))"
  have "distinct (map ac_async_id ?E)" using inv_bucket [OF inv, of "slot_of i"] by (simp add: bucket_ok_def)
  from keyed_Some [OF this] have iff: "stores st i d \<longleftrightarrow> 0 \<le> i \<and> keyed ?E i = Some d" for d
    using stores_entries [OF inv] by simp
  show ?thesis
  proof (cases "0 \<le> i")
    case True
    show ?thesis
    proof (cases "keyed ?E i")
      case None
      then show ?thesis by (simp add: registry_def iff True)
    next
      case (Some d)
      then show ?thesis using True by (auto simp: registry_def iff)
    qed
  qed (simp add: registry_def iff)
qed

text \<open>The map after a change of one bucket.\<close>

lemma registry_change:
  assumes inv: "inv_with st B" and inv': "inv_with st' (B(h := cs'))" and h: "h < 511"
    and st': "as_tab st' = (as_tab st)[h := a']"
    and m': "\<And>k c. k < 511 \<Longrightarrow> k \<noteq> h \<Longrightarrow> c \<in> set (B k) \<Longrightarrow> as_cells st' c = as_cells st c"
  shows "registry st' j = (if 0 \<le> j \<and> slot_of j = h then keyed (entries a' (as_cells st') cs') j else registry st j)"
proof (cases "slot_of j = h")
  case True
  then show ?thesis using registry_entries [OF inv', of j] registry_entries [OF inv, of j] st' h inv
    by (auto simp: inv_with_def)
next
  case False
  have "entries (as_tab st ! slot_of j) (as_cells st') (B (slot_of j)) = entries (as_tab st ! slot_of j) (as_cells st) (B (slot_of j))"
    using m' [of "slot_of j"] False by (intro entries_cong) auto
  then show ?thesis using registry_entries [OF inv', of j] registry_entries [OF inv, of j] st' False by auto
qed

subsection \<open>Lookup\<close>

text \<open>The outcome of the loop over the chain of a bucket.\<close>

lemma walk_bucket:
  assumes b: "bucket_ok a m h cs" and p: "prev = Slot h"
  shows "(\<exists>as c bs x. cs = as @ c # bs \<and> m c = Some x \<and> ac_async_id x = i \<and>
       walk_res m i prev (ac_next a) = Inr (Found (if as = [] then prev else Cell (last as)) c)) \<or>
     (\<forall>c \<in> set cs. id_of m c \<noteq> i) \<and> walk_res m i prev (ac_next a) = Inr (Last (if cs = [] then prev else Cell (last cs)))"
proof (cases "\<exists>c \<in> set cs. id_of m c = i")
  case True
  then obtain as c bs where cs: "cs = as @ c # bs" "id_of m c = i" "\<forall>d \<in> set as. id_of m d \<noteq> i"
    using split_list_first_prop [OF True] by blast
  have ch: "chain m (ac_next a) cs" using b by (simp add: bucket_ok_def)
  obtain x where "m c = Some x" using bucket_cell [OF b, of c] cs(1) by auto
  then show ?thesis using chain_walk_found [OF ch [unfolded cs(1)] cs(3,2)] cs
    by (intro disjI1) (auto simp: walk_res_def id_of_def)
next
  case False
  then show ?thesis using chain_walk [of m "ac_next a" cs i prev] b by (simp add: walk_res_def bucket_ok_def)
qed

lemma read_slot [simp]: "inv_with st B \<Longrightarrow> h < 511 \<Longrightarrow> read_async st (Slot h) = Inr (as_tab st ! h)"
  by (simp add: read_async_def inv_with_def)

lemma read_cell [simp]: "as_cells st c = Some x \<Longrightarrow> read_async st (Cell c) = Inr x"
  by (simp add: read_async_def)

lemma idle_bucket: "bucket_ok a m h cs \<Longrightarrow> \<not> ac_is_used a \<Longrightarrow> idle a \<and> cs = [] \<and> entries a m cs = []"
  by (cases cs) (auto simp: bucket_ok_def idle_def entries_def)

lemma used_entries: "ac_is_used a \<Longrightarrow> entries a m cs = a # map (the \<circ> m) cs"
  by (simp add: entries_def)

lemma get_async_spec:
  assumes inv: "inv_with st B" and i: "0 \<le> i"
  shows "\<exists>r. XMP_get_async st i = Inr r \<and>
    (case registry st i of
       Some d \<Rightarrow> \<exists>p x. r = Some p \<and> read_async st p = Inr x \<and> content x = d
     | None \<Rightarrow> r = None \<or> (\<exists>x. r = Some (Slot (slot_of i)) \<and> read_async st (Slot (slot_of i)) = Inr x \<and> idle x))"
proof -
  let ?h = "slot_of i" let ?a = "as_tab st ! ?h" and ?m = "as_cells st" and ?cs = "B ?h"
  have b: "bucket_ok ?a ?m ?h ?cs" using inv_bucket [OF inv] by simp
  have reg: "registry st i = keyed (entries ?a ?m ?cs) i" using registry_entries [OF inv] i by simp
  have dist: "distinct (map ac_async_id (entries ?a ?m ?cs))" using b by (simp add: bucket_ok_def)
  note step = async_hash_pos [OF i] read_slot [OF inv slot_of_less]
  show ?thesis
  proof (cases "ac_async_id ?a = i")
    case True
    then have get: "XMP_get_async st i = Inr (Some (Slot ?h))" using step by (simp add: XMP_get_async_def)
    show ?thesis
    proof (cases "ac_is_used ?a")
      case used: True
      then have "registry st i = Some (content ?a)" using reg dist True by (auto simp: keyed_Some used_entries)
      then show ?thesis using get step by simp
    next
      case False
      then show ?thesis using get step idle_bucket [OF b False] reg by (auto simp: keyed_def)
    qed
  next
    case False
    from walk_bucket [OF b refl, of i] show ?thesis
    proof (elim disjE exE conjE)
      fix as c bs x
      assume f: "?cs = as @ c # bs" "?m c = Some x" "ac_async_id x = i"
        "walk_res ?m i (Slot ?h) (ac_next ?a) = Inr (Found (if as = [] then Slot ?h else Cell (last as)) c)"
      then have "x \<in> set (entries ?a ?m ?cs)" by (auto simp: entries_def)
      then have "registry st i = Some (content x)" unfolding reg keyed_Some [OF dist] using f(3) by blast
      then show ?thesis using f(2,4) False step by (simp add: XMP_get_async_def)
    next
      assume no: "\<forall>c \<in> set ?cs. id_of ?m c \<noteq> i"
        "walk_res ?m i (Slot ?h) (ac_next ?a) = Inr (Last (if ?cs = [] then Slot ?h else Cell (last ?cs)))"
      then have "registry st i = None" using False reg by (auto simp: keyed_None entries_def id_of_def)
      then show ?thesis using no(2) False step by (simp add: XMP_get_async_def)
    qed
  qed
qed

subsection \<open>Registration\<close>

lemma inv_with_same:
  "as_tab st' = as_tab st \<Longrightarrow> as_cells st' = as_cells st \<Longrightarrow> as_next_cell st' = as_next_cell st \<Longrightarrow>
   inv_with st' B = inv_with st B"
  by (simp add: inv_with_def)

lemma registry_same: "as_tab st' = as_tab st \<Longrightarrow> as_cells st' = as_cells st \<Longrightarrow> registry st' = registry st"
proof -
  assume "as_tab st' = as_tab st" "as_cells st' = as_cells st"
  then have "stores st' = stores st" by (intro ext) (simp add: stores_def)
  then show ?thesis by (intro ext) (simp add: registry_def cong: if_cong)
qed

lemma bucket_below: "inv_with st B \<Longrightarrow> h < 511 \<Longrightarrow> c \<in> set (B h) \<Longrightarrow> c < as_next_cell st"
  unfolding inv_with_def by blast

lemma fresh_cell: "inv_with st B \<Longrightarrow> as_cells st (as_next_cell st) = None"
  unfolding inv_with_def by (meson domIff less_irrefl)

definition current_is :: "async_state \<Rightarrow> int \<Rightarrow> bool" where
  "current_is st i \<longleftrightarrow> (\<exists>r x. as_tmp st = Some r \<and> read_async st r = Inr x \<and> ac_is_used x \<and> ac_async_id x = i)"

lemma new_async_idle:
  "idle a \<Longrightarrow> a\<lparr>ac_async_id := i, ac_reqs := True, ac_is_used := True\<rparr> = new_async i"
  by (cases a) (simp add: idle_def new_async_def)

lemma init_async_idle:
  assumes inv: "inv_with st B" and i: "0 \<le> i" and un: "\<not> ac_is_used (as_tab st ! slot_of i)"
    and st': "xmpc_init_async st i = Inr st'"
  shows "inv_with st' B \<and> registry st' = (registry st)(i \<mapsto> new_async i) \<and> current_is st' i"
proof -
  let ?h = "slot_of i" let ?a = "as_tab st ! ?h" and ?m = "as_cells st"
  have b: "bucket_ok ?a ?m ?h (B ?h)" using inv_bucket [OF inv] by simp
  note idle = idle_bucket [OF b un]
  have fields: "as_tab st' = (as_tab st)[?h := new_async i]" "as_cells st' = ?m" "as_next_cell st' = as_next_cell st"
    "as_tmp st' = Some (Slot ?h)"
    using st' un async_hash_pos [OF i] inv new_async_idle [of ?a i] idle
    by (auto simp: xmpc_init_async_def read_async_def write_async_def inv_with_def)
  have nb: "bucket_ok (new_async i) ?m ?h []"
    using i by (simp add: bucket_ok_def new_async_def entries_def good_def slot_of_def)
  have B: "B(?h := []) = B" using idle by auto
  have inv': "inv_with st' (B(?h := []))"
    by (rule inv_change [OF inv _ nb fields(1,2)]) (use fields idle in auto)
  have reg: "registry st' j = (if 0 \<le> j \<and> slot_of j = ?h then keyed [new_async i] j else registry st j)" for j
    using registry_change [OF inv inv' _ fields(1)] fields(2) by (simp add: entries_def new_async_def)
  have old: "registry st j = None" if "slot_of j = ?h" for j
    using registry_entries [OF inv, of j] conjunct2 [OF conjunct2 [OF idle]] that by (simp add: keyed_def)
  have "registry st' = (registry st)(i \<mapsto> new_async i)"
    using reg old i by (auto simp: keyed_def new_async_def content_def)
  moreover have "current_is st' i"
    unfolding current_is_def using fields inv by (auto simp: read_async_def inv_with_def new_async_def)
  ultimately show ?thesis using inv' B by simp
qed

text \<open>A bucket whose chain \<open>cs\<close> gets the cell \<open>c\<close> at its end: the slot, and the cells.\<close>

definition linked_slot :: "async_comm \<Rightarrow> nat list \<Rightarrow> nat \<Rightarrow> async_comm" where
  "linked_slot a cs c = (if cs = [] then a\<lparr>ac_next := Some c\<rparr> else a)"

definition linked_cells :: "(nat \<Rightarrow> async_comm option) \<Rightarrow> nat list \<Rightarrow> nat \<Rightarrow> async_comm \<Rightarrow> (nat \<Rightarrow> async_comm option)" where
  "linked_cells m cs c n = (if cs = [] then m(c \<mapsto> n) else m(last cs \<mapsto> (the (m (last cs)))\<lparr>ac_next := Some c\<rparr>, c \<mapsto> n))"

lemma linked_entries:
  assumes "ac_is_used a" "c \<notin> set cs" "content n = n"
  shows "map (\<lambda>x. (ac_async_id x, content x)) (entries (linked_slot a cs c) (linked_cells m cs c n) (cs @ [c])) =
      map (\<lambda>x. (ac_async_id x, content x)) (entries a m cs) @ [(ac_async_id n, n)]"
  using assms by (auto simp: entries_def linked_slot_def linked_cells_def content_def)

lemma linked_bucket:
  assumes b: "bucket_ok a m h cs" and us: "ac_is_used a" and c: "c \<notin> set cs" and n: "good h n" "ac_next n = None" "content n = n"
    and new: "ac_async_id n \<notin> set (map ac_async_id (entries a m cs))"
  shows "bucket_ok (linked_slot a cs c) (linked_cells m cs c n) h (cs @ [c])" (is "bucket_ok ?a ?m h _")
  unfolding bucket_ok_def
proof (intro conjI)
  show "chain ?m (ac_next ?a) (cs @ [c])"
  proof (cases "cs = []")
    case False
    then obtain y where "m (last cs) = Some y" using bucket_cell [OF b] last_in_set by blast
    then show ?thesis using chain_snoc [OF _ bucket_distinct [OF b] False c _ n(2)] b False
      by (simp add: linked_slot_def linked_cells_def bucket_ok_def)
  qed (simp add: linked_slot_def linked_cells_def n)
  show "ac_is_used ?a \<or> idle ?a" using us by (simp add: linked_slot_def)
  have gc: "good h (the (m x))" if "x \<in> set cs" for x using bucket_cell [OF b that] by auto
  have "good h a" using b us by (simp add: bucket_ok_def entries_def)
  then have "good h ?a" by (simp add: linked_slot_def good_def)
  moreover have "\<forall>x \<in> set cs. good h (the (?m x)) = good h (the (m x))" using c by (auto simp: linked_cells_def good_def)
  moreover have "entries ?a ?m (cs @ [c]) = ?a # map (the \<circ> ?m) cs @ [n]" using us by (simp add: entries_def linked_slot_def linked_cells_def)
  ultimately show "\<forall>x \<in> set (entries ?a ?m (cs @ [c])). good h x" using gc n(1) by auto
  have "map ac_async_id (entries ?a ?m (cs @ [c])) = map ac_async_id (entries a m cs) @ [ac_async_id n]"
    using arg_cong [OF linked_entries [OF us c n(3), of m], of "map fst"] by (simp add: comp_def)
  then show "distinct (map ac_async_id (entries ?a ?m (cs @ [c])))" using new b by (simp add: bucket_ok_def)
qed

lemma init_async_append:
  assumes inv: "inv_with st B" and i: "0 \<le> i" and us: "ac_is_used (as_tab st ! slot_of i)"
    and new: "ac_async_id (as_tab st ! slot_of i) \<noteq> i" "\<forall>c \<in> set (B (slot_of i)). id_of (as_cells st) c \<noteq> i"
    and w: "walk_res (as_cells st) i (Slot (slot_of i)) (ac_next (as_tab st ! slot_of i)) =
       Inr (Last (if B (slot_of i) = [] then Slot (slot_of i) else Cell (last (B (slot_of i)))))"
  shows "\<exists>st' B'. xmpc_init_async st i = Inr st' \<and> as_is_async st' \<and> inv_with st' B' \<and>
    registry st' = (registry st)(i \<mapsto> new_async i) \<and> current_is st' i"
proof -
  let ?h = "slot_of i" let ?a = "as_tab st ! ?h" and ?m = "as_cells st" and ?cs = "B ?h" and ?c = "as_next_cell st"
  let ?n = "new_async i"
  have b: "bucket_ok ?a ?m ?h ?cs" using inv_bucket [OF inv] by simp
  have fresh: "?m ?c = None" "?c \<notin> set ?cs" using fresh_cell [OF inv] bucket_below [OF inv slot_of_less] by auto
  have mem: "\<exists>x. ?m c = Some x" if "c \<in> set ?cs" for c using bucket_cell [OF b that] by blast
  have nn: "ac_next ?n = None" "ac_is_used ?n" "ac_async_id ?n = i" "content ?n = ?n"
    by (simp_all add: new_async_def content_def)
  define a' where "a' = linked_slot ?a ?cs ?c"
  define m' where "m' = linked_cells ?m ?cs ?c ?n"
  note a'_def = a'_def linked_slot_def and m'_def = m'_def linked_cells_def
  let ?st = "st\<lparr>as_is_async := True, as_tab := (as_tab st)[?h := a'], as_cells := m', as_next_cell := ?c + 1,
    as_tmp := Some (Cell ?c)\<rparr>"
  have run: "xmpc_init_async st i = Inr ?st"
  proof (cases "?cs = []")
    case True
    then show ?thesis using async_hash_pos [OF i] inv us new(1) w
      by (simp add: xmpc_init_async_def read_async_def write_async_def inv_with_def a'_def m'_def Let_def)
  next
    case False
    then obtain y where "?m (last ?cs) = Some y" using mem last_in_set by blast
    then show ?thesis using async_hash_pos [OF i] inv us new(1) w False
      by (simp add: xmpc_init_async_def read_async_def write_async_def inv_with_def a'_def m'_def Let_def)
  qed
  have ent: "map (\<lambda>x. (ac_async_id x, content x)) (entries a' m' (?cs @ [?c])) =
      map (\<lambda>x. (ac_async_id x, content x)) (entries ?a ?m ?cs) @ [(i, ?n)]"
    using linked_entries [OF us fresh(2) nn(4), of ?m] unfolding nn(3) by (simp only: a'_def(1) m'_def(1))
  have "good ?h ?n" using nn i by (simp add: good_def slot_of_def)
  moreover have "i \<notin> set (map ac_async_id (entries ?a ?m ?cs))" using new us by (auto simp: entries_def id_of_def)
  ultimately have "bucket_ok a' m' ?h (?cs @ [?c])"
    unfolding a'_def(1) m'_def(1) using linked_bucket [OF b us fresh(2), of ?n] nn by simp
  then have inv': "inv_with ?st (B(?h := ?cs @ [?c]))"
    by (rule inv_change [OF inv slot_of_less]) (use fresh in \<open>auto simp: m'_def\<close>)
  have same: "as_cells ?st c = ?m c" if "k < 511" "k \<noteq> ?h" "c \<in> set (B k)" for k c
  proof -
    have "c \<notin> set ?cs" using other_bucket [OF inv that(1) slot_of_less that(2,3)] .
    moreover have "c \<noteq> ?c" using bucket_below [OF inv that(1,3)] by simp
    ultimately show ?thesis by (auto simp: m'_def)
  qed
  have "registry ?st j = (if 0 \<le> j \<and> slot_of j = ?h then keyed (entries a' m' (?cs @ [?c])) j else registry st j)" for j
    using registry_change [OF inv inv' slot_of_less _ same] by simp
  moreover have "keyed (entries a' m' (?cs @ [?c])) j = (if j = i then Some ?n else keyed (entries ?a ?m ?cs) j)" for j
  proof -
    have "keyed (entries ?a ?m ?cs) i = None" using new us by (auto simp: keyed_None entries_def id_of_def)
    then show ?thesis unfolding keyed_def ent by (simp add: map_of_append map_add_def split: option.split)
  qed
  ultimately have "registry ?st = (registry st)(i \<mapsto> ?n)"
    using registry_entries [OF inv] i by (intro ext) auto
  moreover have "current_is ?st i" using nn by (auto simp: current_is_def m'_def)
  ultimately show ?thesis using run inv' by (intro exI [of _ ?st] exI) auto
qed

lemma init_async_spec:
  assumes inv: "inv_with st B" and i: "0 \<le> i"
  shows "\<exists>st' B'. xmpc_init_async st i = Inr st' \<and> as_is_async st' \<and> inv_with st' B' \<and> current_is st' i \<and>
    registry st' = (if registry st i = None then (registry st)(i \<mapsto> new_async i) else registry st)"
proof -
  let ?h = "slot_of i" let ?a = "as_tab st ! ?h" and ?m = "as_cells st" and ?cs = "B ?h"
  have b: "bucket_ok ?a ?m ?h ?cs" using inv_bucket [OF inv] by simp
  have reg: "registry st i = keyed (entries ?a ?m ?cs) i" using registry_entries [OF inv] i by simp
  have kept: "\<exists>st' B'. xmpc_init_async st i = Inr st' \<and> as_is_async st' \<and> inv_with st' B' \<and> current_is st' i \<and>
      registry st' = (if registry st i = None then (registry st)(i \<mapsto> new_async i) else registry st)"
    if "xmpc_init_async st i = Inr (st\<lparr>as_is_async := True, as_tmp := Some r\<rparr>)" "read_async st r = Inr x" "ac_is_used x"
      "ac_async_id x = i" "registry st i \<noteq> None" for r x
  proof -
    let ?st = "st\<lparr>as_is_async := True, as_tmp := Some r\<rparr>"
    have "current_is ?st i" using that by (auto simp: current_is_def read_async_def split: aref.splits)
    moreover have "inv_with ?st B" using inv by (subst inv_with_same) simp_all
    moreover have "registry ?st = registry st" by (rule registry_same) simp_all
    ultimately show ?thesis using that(1,5) by auto
  qed
  note step = async_hash_pos [OF i] read_slot [OF inv slot_of_less]
  have rd: "read_async (st\<lparr>as_is_async := True\<rparr>) r = read_async st r" for r
    by (simp add: read_async_def split: aref.split)
  show ?thesis
  proof (cases "ac_is_used ?a")
    case False
    have none: "registry st i = None" using reg conjunct2 [OF conjunct2 [OF idle_bucket [OF b False]]] by (simp add: keyed_def)
    have "\<exists>st'. xmpc_init_async st i = Inr st' \<and> as_is_async st'"
      using step rd False by (auto simp: xmpc_init_async_def write_async_def)
    then show ?thesis using init_async_idle [OF inv i False] none by auto
  next
    case us: True
    show ?thesis
    proof (cases "ac_async_id ?a = i")
      case True
      have "registry st i \<noteq> None" using reg us True by (auto simp: keyed_None entries_def)
      then show ?thesis using kept [of "Slot ?h" ?a] us True step rd by (simp add: xmpc_init_async_def)
    next
      case False
      from walk_bucket [OF b refl, of i] show ?thesis
      proof (elim disjE exE conjE)
        fix as c bs x
        assume f: "?cs = as @ c # bs" "?m c = Some x" "ac_async_id x = i"
          "walk_res ?m i (Slot ?h) (ac_next ?a) = Inr (Found (if as = [] then Slot ?h else Cell (last as)) c)"
        then have x: "x \<in> set (entries ?a ?m ?cs)" by (auto simp: entries_def)
        then have "registry st i \<noteq> None" "ac_is_used x"
          using reg f(3) b by (auto simp: keyed_None bucket_ok_def good_def)
        then show ?thesis using kept [of "Cell c" x] us False f step rd by (simp add: xmpc_init_async_def)
      next
        assume no: "\<forall>c \<in> set ?cs. id_of ?m c \<noteq> i"
          "walk_res ?m i (Slot ?h) (ac_next ?a) = Inr (Last (if ?cs = [] then Slot ?h else Cell (last ?cs)))"
        have "registry st i = None" using False reg no(1) by (auto simp: keyed_None entries_def id_of_def)
        then show ?thesis using init_async_append [OF inv i us False no] by auto
      qed
    qed
  qed
qed

subsection \<open>Removal\<close>

definition released :: "async_comm option \<Rightarrow> nat list" where
  "released r = (case r of None \<Rightarrow> [] | Some d \<Rightarrow> fst (initialize_async d))"

text \<open>Dropping one entry of a bucket drops its id from the map.\<close>

lemma keyed_drop:
  assumes "distinct (map ac_async_id (as @ x # bs))"
    and "map (\<lambda>x. (ac_async_id x, content x)) ys = map (\<lambda>x. (ac_async_id x, content x)) (as @ bs)"
  shows "keyed ys j = (if j = ac_async_id x then None else keyed (as @ x # bs) j)"
proof -
  have ys: "keyed ys = keyed (as @ bs)" using assms(2) by (simp add: keyed_def)
  have skip: "j \<noteq> ac_async_id x \<Longrightarrow> keyed (as @ x # bs) j = keyed (as @ bs) j"
    by (induction as) (simp_all add: keyed_def)
  show ?thesis
  proof (cases "j = ac_async_id x")
    case True
    then have "keyed (as @ bs) j = None" using assms(1) by (force simp: keyed_None image_iff)
    with True ys show ?thesis by simp
  qed (use skip ys in simp)
qed

lemma remove_entry:
  assumes inv: "inv_with st B" and i: "0 \<le> i" and b': "bucket_ok a' m' (slot_of i) cs'"
    and E: "entries (as_tab st ! slot_of i) (as_cells st) (B (slot_of i)) = xs @ x # ys" "ac_async_id x = i"
    and E': "map (\<lambda>x. (ac_async_id x, content x)) (entries a' m' cs') = map (\<lambda>x. (ac_async_id x, content x)) (xs @ ys)"
    and st': "as_tab st' = (as_tab st)[slot_of i := a']" "as_cells st' = m'" "as_next_cell st' = as_next_cell st"
    and sub: "set cs' \<subseteq> set (B (slot_of i))"
    and m': "\<And>c. c \<notin> set (B (slot_of i)) \<Longrightarrow> m' c = as_cells st c"
    and gone: "\<And>c. c \<in> set (B (slot_of i)) \<Longrightarrow> c \<notin> set cs' \<Longrightarrow> m' c = None"
  shows "\<exists>B'. inv_with st' B' \<and> registry st' = (registry st)(i := None) \<and> registry st i = Some (content x)"
proof -
  let ?h = "slot_of i" let ?E = "entries (as_tab st ! ?h) (as_cells st) (B ?h)"
  have d: "distinct (map ac_async_id ?E)" using inv_bucket [OF inv, of ?h] by (simp add: bucket_ok_def)
  have inv': "inv_with st' (B(?h := cs'))"
    by (rule inv_change [OF inv slot_of_less b' st'(1,2)]) (use st'(3) m' gone sub in auto)
  have same: "as_cells st' c = as_cells st c" if "k < 511" "k \<noteq> ?h" "c \<in> set (B k)" for k c
    using other_bucket [OF inv that(1) slot_of_less that(2,3)] m' st'(2) by simp
  have reg: "registry st' j = (if 0 \<le> j \<and> slot_of j = ?h then keyed (entries a' m' cs') j else registry st j)" for j
    using registry_change [OF inv inv' slot_of_less st'(1) same] st'(2) by simp
  have "keyed (entries a' m' cs') j = (if j = i then None else keyed ?E j)" for j
    using keyed_drop [OF d [unfolded E(1)] E'] E by simp
  then have "registry st' = (registry st)(i := None)" using reg registry_entries [OF inv] i by (intro ext) auto
  moreover have "registry st i = Some (content x)"
    unfolding registry_entries [OF inv] using i keyed_Some [OF d] E by auto
  ultimately show ?thesis using inv' by blast
qed

lemma released_content: "fst (initialize_async (content x)) = fst (initialize_async x)"
  by (simp add: initialize_async_def content_def cong: option.case_cong)

lemma end_async_head:
  assumes inv: "inv_with st B" and i: "0 \<le> i" and us: "ac_is_used (as_tab st ! slot_of i)"
    and id: "ac_async_id (as_tab st ! slot_of i) = i"
  shows "\<exists>st' B'. end_async st i = Inr (released (registry st i), st') \<and> inv_with st' B' \<and>
    registry st' = (registry st)(i := None) \<and> as_tmp st' = as_tmp st \<and> as_is_async st' = as_is_async st"
proof -
  let ?h = "slot_of i" let ?a = "as_tab st ! ?h" and ?m = "as_cells st" and ?cs = "B ?h"
  have b: "bucket_ok ?a ?m ?h ?cs" using inv_bucket [OF inv] by simp
  have ch: "chain ?m (ac_next ?a) ?cs" using b by (simp add: bucket_ok_def)
  note step = async_hash_pos [OF i] read_slot [OF inv slot_of_less]
  have E: "entries ?a ?m ?cs = [] @ ?a # map (the \<circ> ?m) ?cs" using us by (simp add: entries_def)
  show ?thesis
  proof (cases ?cs)
    case Nil
    let ?a' = "snd (initialize_async ?a)"
    let ?st = "write_async st (Slot ?h) ?a'"
    have b': "bucket_ok ?a' ?m ?h []" by (simp add: bucket_ok_def initialize_async_def idle_def entries_def)
    have "end_async st i = Inr (fst (initialize_async ?a), ?st)"
      using step us id ch Nil by (simp add: end_async_def initialize_async_def)
    moreover have "\<exists>B'. inv_with ?st B' \<and> registry ?st = (registry st)(i := None) \<and> registry st i = Some (content ?a)"
      by (rule remove_entry [OF inv i b' E id])
        (use Nil in \<open>simp_all add: write_async_def initialize_async_def entries_def\<close>)
    ultimately show ?thesis by (auto simp: released_def released_content write_async_def)
  next
    case (Cons c ds)
    then obtain y where y: "ac_next ?a = Some c" "?m c = Some y" "chain ?m (ac_next y) ds" using ch by auto
    have c: "c \<notin> set ds" using bucket_distinct [OF b] Cons by simp
    let ?st = "free_cell (write_async st (Slot ?h) y) c"
    have eq: "(snd (initialize_async ?a))\<lparr>ac_async_id := ac_async_id y, ac_nreqs := ac_nreqs y, ac_nnodes := ac_nnodes y,
        ac_is_used := ac_is_used y, ac_node := ac_node y, ac_gmove := ac_gmove y, ac_reqs := ac_reqs y, ac_next := ac_next y\<rparr> = y"
      by (cases y) (simp add: initialize_async_def)
    have run: "end_async st i = Inr (fst (initialize_async ?a), ?st)"
      using step us id y arg_cong [OF eq, of "\<lambda>z. free_cell (write_async st (Slot ?h) z) c"]
      by (simp add: end_async_def case_prod_unfold Let_def)
    have yu: "ac_is_used y" using bucket_cell [OF b, of c] Cons y(2) by (auto simp: good_def)
    have ent: "entries y (?m(c := None)) ds = map (the \<circ> ?m) ?cs"
      using yu c Cons y(2) by (auto simp: entries_def)
    have b': "bucket_ok y (?m(c := None)) ?h ds"
      unfolding bucket_ok_def ent
    proof (intro conjI)
      show "chain (?m(c := None)) (ac_next y) ds" using y(3) c by (subst chain_cong [of _ _ ?m]) auto
      show "\<forall>x \<in> set (map (the \<circ> ?m) ?cs). good ?h x" "distinct (map ac_async_id (map (the \<circ> ?m) ?cs))"
        using b E by (simp_all add: bucket_ok_def)
    qed (use yu in simp)
    have "\<exists>B'. inv_with ?st B' \<and> registry ?st = (registry st)(i := None) \<and> registry st i = Some (content ?a)"
      by (rule remove_entry [OF inv i b' E id])
        (use ent Cons in \<open>auto simp: write_async_def free_cell_def\<close>)
    then show ?thesis using run by (auto simp: released_def released_content write_async_def free_cell_def)
  qed
qed

lemma end_async_chain:
  assumes inv: "inv_with st B" and i: "0 \<le> i" and us: "ac_is_used (as_tab st ! slot_of i)"
    and id: "ac_async_id (as_tab st ! slot_of i) \<noteq> i"
    and cs: "B (slot_of i) = as @ c # bs" and x: "as_cells st c = Some x" "ac_async_id x = i"
    and w: "walk_res (as_cells st) i (Slot (slot_of i)) (ac_next (as_tab st ! slot_of i)) =
       Inr (Found (if as = [] then Slot (slot_of i) else Cell (last as)) c)"
  shows "\<exists>st' B'. end_async st i = Inr (released (registry st i), st') \<and> inv_with st' B' \<and>
    registry st' = (registry st)(i := None) \<and> as_tmp st' = as_tmp st \<and> as_is_async st' = as_is_async st"
proof -
  let ?h = "slot_of i" let ?a = "as_tab st ! ?h" and ?m = "as_cells st" and ?cs = "B ?h"
  have b: "bucket_ok ?a ?m ?h ?cs" using inv_bucket [OF inv] by simp
  have ch: "chain ?m (ac_next ?a) (as @ c # bs)" using b cs by (simp add: bucket_ok_def)
  have dist: "distinct (as @ c # bs)" using bucket_distinct [OF b] cs by simp
  note step = async_hash_pos [OF i] read_slot [OF inv slot_of_less]
  have E: "entries ?a ?m ?cs = (?a # map (the \<circ> ?m) as) @ x # map (the \<circ> ?m) bs"
    using us cs x by (simp add: entries_def)
  define a' where "a' = (if as = [] then ?a\<lparr>ac_next := ac_next x\<rparr> else ?a)"
  define m' where "m' = (if as = [] then ?m(c := None)
    else ?m(last as \<mapsto> (the (?m (last as)))\<lparr>ac_next := ac_next x\<rparr>, c := None))"
  let ?st = "st\<lparr>as_tab := (as_tab st)[?h := a'], as_cells := m'\<rparr>"
  have la: "\<exists>y. ?m (last as) = Some y" if "as \<noteq> []" using bucket_cell [OF b, of "last as"] cs that by auto
  have run: "end_async st i = Inr (fst (initialize_async x), ?st)"
  proof (cases "as = []")
    case True
    then show ?thesis using step us id x w by (simp add: end_async_def write_async_def free_cell_def a'_def m'_def)
  next
    case False
    then show ?thesis using step us id x w la
      by (auto simp: end_async_def write_async_def free_cell_def a'_def m'_def)
  qed
  have ent: "entries a' m' (as @ bs) = a' # map (the \<circ> m') (as @ bs)" using us by (simp add: entries_def a'_def)
  have rest: "ac_async_id (the (m' d)) = ac_async_id (the (?m d)) \<and> content (the (m' d)) = content (the (?m d)) \<and>
      good ?h (the (m' d)) = good ?h (the (?m d))" if "d \<in> set (as @ bs)" for d
    using that dist by (auto simp: m'_def content_def good_def)
  have pairs: "map (\<lambda>x. (ac_async_id x, content x)) (entries a' m' (as @ bs)) =
      map (\<lambda>x. (ac_async_id x, content x)) ((?a # map (the \<circ> ?m) as) @ map (the \<circ> ?m) bs)"
    unfolding ent using rest by (auto simp: a'_def content_def)
  have ids: "map ac_async_id (entries a' m' (as @ bs)) = map ac_async_id ((?a # map (the \<circ> ?m) as) @ map (the \<circ> ?m) bs)"
    using arg_cong [OF pairs, of "map fst"] by (simp add: comp_def)
  have b': "bucket_ok a' m' ?h (as @ bs)"
    unfolding bucket_ok_def
  proof (intro conjI)
    show "chain m' (ac_next a') (as @ bs)"
    proof (cases "as = []")
      case True
      then have "chain ?m (ac_next x) bs" using ch x by auto
      then show ?thesis using True dist by (simp add: a'_def m'_def) (subst chain_cong [of _ _ ?m]; auto)
    next
      case False
      then show ?thesis using chain_unlink [OF ch dist False _ x(1)] la by (auto simp: a'_def m'_def)
    qed
    show "ac_is_used a' \<or> idle a'" using us by (simp add: a'_def)
    have gc: "good ?h (the (?m d))" if "d \<in> set (as @ bs)" for d using bucket_cell [OF b, of d] cs that by auto
    have "good ?h ?a" using b us by (simp add: bucket_ok_def entries_def)
    then have "good ?h a'" by (simp add: a'_def good_def)
    then show "\<forall>z \<in> set (entries a' m' (as @ bs)). good ?h z"
      unfolding ent using rest gc by auto
    show "distinct (map ac_async_id (entries a' m' (as @ bs)))"
      unfolding ids using b E by (simp add: bucket_ok_def)
  qed
  have "\<exists>B'. inv_with ?st B' \<and> registry ?st = (registry st)(i := None) \<and> registry st i = Some (content x)"
    by (rule remove_entry [OF inv i b' E x(2) pairs]) (use cs in \<open>auto simp: m'_def\<close>)
  then show ?thesis using run by (auto simp: released_def released_content)
qed

lemma end_async_spec:
  assumes inv: "inv_with st B" and i: "0 \<le> i"
  shows "\<exists>st' B'. end_async st i = Inr (released (registry st i), st') \<and> inv_with st' B' \<and>
    registry st' = (registry st)(i := None) \<and> as_tmp st' = as_tmp st \<and> as_is_async st' = as_is_async st"
proof -
  let ?h = "slot_of i" let ?a = "as_tab st ! ?h" and ?m = "as_cells st" and ?cs = "B ?h"
  have b: "bucket_ok ?a ?m ?h ?cs" using inv_bucket [OF inv] by simp
  have reg: "registry st i = keyed (entries ?a ?m ?cs) i" using registry_entries [OF inv] i by simp
  note step = async_hash_pos [OF i] read_slot [OF inv slot_of_less]
  have none: ?thesis if "registry st i = None" "end_async st i = Inr ([], st)"
    using that inv by (auto simp: released_def fun_upd_idem)
  show ?thesis
  proof (cases "ac_is_used ?a")
    case False
    have "registry st i = None" using reg conjunct2 [OF conjunct2 [OF idle_bucket [OF b False]]] by (simp add: keyed_def)
    then show ?thesis using none step False by (simp add: end_async_def)
  next
    case us: True
    show ?thesis
    proof (cases "ac_async_id ?a = i")
      case True
      then show ?thesis by (rule end_async_head [OF inv i us])
    next
      case False
      from walk_bucket [OF b refl, of i] show ?thesis
      proof (elim disjE exE conjE)
        fix as c bs x
        assume f: "?cs = as @ c # bs" "?m c = Some x" "ac_async_id x = i"
          "walk_res ?m i (Slot ?h) (ac_next ?a) = Inr (Found (if as = [] then Slot ?h else Cell (last as)) c)"
        show ?thesis by (rule end_async_chain [OF inv i us False f])
      next
        assume no: "\<forall>c \<in> set ?cs. id_of ?m c \<noteq> i"
          "walk_res ?m i (Slot ?h) (ac_next ?a) = Inr (Last (if ?cs = [] then Slot ?h else Cell (last ?cs)))"
        have "registry st i = None" using False reg no(1) by (auto simp: keyed_None entries_def id_of_def)
        then show ?thesis using none no(2) us False step by (simp add: end_async_def)
      qed
    qed
  qed
qed

subsection \<open>Writing a registered descriptor\<close>

definition same_shape :: "async_comm \<Rightarrow> async_comm \<Rightarrow> bool" where
  "same_shape x y \<longleftrightarrow> ac_async_id y = ac_async_id x \<and> ac_is_used y = ac_is_used x \<and> ac_next y = ac_next x"

lemma chain_shape:
  "chain m p cs \<Longrightarrow> m c = Some x \<Longrightarrow> same_shape x y \<Longrightarrow> chain (m(c \<mapsto> y)) p cs"
  by (induction cs arbitrary: p) (auto simp: same_shape_def)

lemma keyed_replace:
  assumes "distinct (map ac_async_id (xs @ x # ys))" "ac_async_id y = ac_async_id x"
  shows "keyed (xs @ y # ys) = (keyed (xs @ x # ys))(ac_async_id x \<mapsto> content y)"
proof
  fix j
  show "keyed (xs @ y # ys) j = ((keyed (xs @ x # ys))(ac_async_id x \<mapsto> content y)) j"
    using assms by (induction xs) (auto simp: keyed_def)
qed

lemma write_registered:
  assumes inv: "inv_with st B" and r: "read_async st r = Inr x" "ac_is_used x" and y: "same_shape x y"
  shows "inv_with (write_async st r y) B \<and> registry (write_async st r y) = (registry st)(ac_async_id x \<mapsto> content y)"
proof -
  have sh: "ac_async_id y = ac_async_id x" "ac_is_used y" "ac_next y = ac_next x" using y r(2) by (simp_all add: same_shape_def)
  obtain h a' m' xs ys where h: "h < 511" and b': "bucket_ok a' m' h (B h)"
    and E: "entries (as_tab st ! h) (as_cells st) (B h) = xs @ x # ys" "entries a' m' (B h) = xs @ y # ys"
    and st': "as_tab (write_async st r y) = (as_tab st)[h := a']" "as_cells (write_async st r y) = m'"
    and m': "\<And>c. c \<notin> set (B h) \<Longrightarrow> m' c = as_cells st c"
  proof (cases r)
    case (Slot h)
    then have h: "h < 511" "x = as_tab st ! h" using r inv by (auto simp: read_async_def inv_with_def split: if_splits)
    have b: "bucket_ok x (as_cells st) h (B h)" using inv_bucket [OF inv h(1)] h(2) by simp
    then have "bucket_ok y (as_cells st) h (B h)" using sh r(2) by (auto simp: bucket_ok_def entries_def good_def)
    then show thesis using that [of h y "as_cells st" "[]"] h Slot r(2) sh by (simp add: entries_def write_async_def)
  next
    case (Cell c)
    then have c: "as_cells st c = Some x" using r by (simp add: read_async_def split: option.splits)
    then have "c \<in> (\<Union>h < 511. set (B h))" using inv by (auto simp only: inv_with_def)
    then obtain h where h: "h < 511" "c \<in> set (B h)" by auto
    let ?a = "as_tab st ! h" and ?m = "as_cells st"
    have b: "bucket_ok ?a ?m h (B h)" by (rule inv_bucket [OF inv h(1)])
    obtain us vs where cs: "B h = us @ c # vs" "c \<notin> set us" "c \<notin> set vs"
      using split_list [OF h(2)] bucket_distinct [OF b] by auto
    let ?pre = "if ac_is_used ?a then [?a] else []"
    have e: "entries ?a ?m (B h) = (?pre @ map (the \<circ> ?m) us) @ x # map (the \<circ> ?m) vs"
      "entries ?a (?m(c \<mapsto> y)) (B h) = (?pre @ map (the \<circ> ?m) us) @ y # map (the \<circ> ?m) vs"
      using cs c by (auto simp: entries_def)
    have old: "chain ?m (ac_next ?a) (B h)" "ac_is_used ?a \<or> idle ?a"
      "\<forall>z \<in> set ((?pre @ map (the \<circ> ?m) us) @ x # map (the \<circ> ?m) vs). good h z"
      "distinct (map ac_async_id ((?pre @ map (the \<circ> ?m) us) @ x # map (the \<circ> ?m) vs))"
      using b unfolding bucket_ok_def e(1) by blast+
    have "good h x" using bspec [OF old(3), of x] by simp
    then have gy: "good h y" using sh r(2) by (simp add: good_def)
    have "bucket_ok ?a (?m(c \<mapsto> y)) h (B h)"
      unfolding bucket_ok_def e(2)
    proof (intro conjI)
      show "chain (?m(c \<mapsto> y)) (ac_next ?a) (B h)" by (rule chain_shape [where m = ?m and c = c, OF old(1) c y])
      show "\<forall>z \<in> set ((?pre @ map (the \<circ> ?m) us) @ y # map (the \<circ> ?m) vs). good h z" using old(3) gy by auto
      show "distinct (map ac_async_id ((?pre @ map (the \<circ> ?m) us) @ y # map (the \<circ> ?m) vs))"
        using old(4) sh(1) by simp
    qed (rule old(2))
    then show thesis
      by (rule that [OF h(1) _ e]) (use h Cell in \<open>auto simp: write_async_def\<close>)
  qed
  have nx: "as_next_cell (write_async st r y) = as_next_cell st" by (simp add: write_async_def split: aref.split)
  have "inv_with (write_async st r y) (B(h := B h))"
    by (rule inv_change [OF inv h b' st']) (use nx m' in auto)
  then have inv': "inv_with (write_async st r y) B" by simp
  have same: "as_cells (write_async st r y) c = as_cells st c" if "k < 511" "k \<noteq> h" "c \<in> set (B k)" for k c
    using other_bucket [OF inv that(1) h that(2,3)] m' st'(2) by simp
  have d: "distinct (map ac_async_id (xs @ x # ys))" using inv_bucket [OF inv h] E(1) by (simp add: bucket_ok_def)
  have g: "good h x" using inv_bucket [OF inv h] E(1) by (simp add: bucket_ok_def)
  have inv2: "inv_with (write_async st r y) (B(h := B h))" using inv' by simp
  have "registry (write_async st r y) j = ((registry st)(ac_async_id x \<mapsto> content y)) j" for j
    using registry_change [OF inv inv2 h st'(1) same, where j = j] registry_entries [OF inv, of j]
      keyed_replace [OF d sh(1)] E st'(2) good_slot [OF g] g by (auto simp: good_def)
  then show ?thesis using inv' by auto
qed

subsection \<open>The contract of a table\<close>

datatype 'k table_op = Enter 'k | Leave 'k

fun table_key :: "'k table_op \<Rightarrow> 'k" where
  "table_key (Enter k) = k"
| "table_key (Leave k) = k"

fun run_table :: "('s \<Rightarrow> 'k \<Rightarrow> 's res) \<Rightarrow> ('s \<Rightarrow> 'k \<Rightarrow> ('r \<times> 's) res) \<Rightarrow> 's \<Rightarrow> 'k table_op list \<Rightarrow> 's res" where
  "run_table ins rem s [] = Inr s"
| "run_table ins rem s (Enter k # ks) = bind_res (ins s k) (\<lambda>s'. run_table ins rem s' ks)"
| "run_table ins rem s (Leave k # ks) = bind_res (rem s k) (\<lambda>(r, s'). run_table ins rem s' ks)"

text \<open>The same operations on a map.\<close>

fun run_map :: "('k \<Rightarrow> 'd) \<Rightarrow> ('k \<Rightarrow> 'd option) \<Rightarrow> 'k table_op list \<Rightarrow> 'k \<Rightarrow> 'd option" where
  "run_map fresh m [] = m"
| "run_map fresh m (Enter k # ks) = run_map fresh (if m k = None then m(k \<mapsto> fresh k) else m) ks"
| "run_map fresh m (Leave k # ks) = run_map fresh (m(k := None)) ks"

locale keyed_table =
  fixes invar :: "'s \<Rightarrow> bool"
    and lookup :: "'s \<Rightarrow> 'k \<Rightarrow> 'd option"
    and ins :: "'s \<Rightarrow> 'k \<Rightarrow> 's res"
    and rem :: "'s \<Rightarrow> 'k \<Rightarrow> ('r \<times> 's) res"
    and fresh :: "'k \<Rightarrow> 'd"
    and valid :: "'k \<Rightarrow> bool"
  assumes ins_ok: "invar s \<Longrightarrow> valid k \<Longrightarrow> \<exists>s'. ins s k = Inr s' \<and> invar s' \<and>
      lookup s' = (if lookup s k = None then (lookup s)(k \<mapsto> fresh k) else lookup s)"
    and rem_ok: "invar s \<Longrightarrow> valid k \<Longrightarrow> \<exists>r s'. rem s k = Inr (r, s') \<and> invar s' \<and>
      lookup s' = (lookup s)(k := None)"
begin

lemma run_refines:
  "invar s \<Longrightarrow> \<forall>x \<in> set ks. valid (table_key x) \<Longrightarrow>
   \<exists>s'. run_table ins rem s ks = Inr s' \<and> invar s' \<and> lookup s' = run_map fresh (lookup s) ks"
proof (induction ks arbitrary: s)
  case (Cons x ks)
  show ?case
  proof (cases x)
    case (Enter k)
    then obtain s1 where s1: "ins s k = Inr s1" "invar s1"
      "lookup s1 = (if lookup s k = None then (lookup s)(k \<mapsto> fresh k) else lookup s)"
      using ins_ok [OF Cons.prems(1), of k] Cons.prems(2) by auto
    have "\<exists>s'. run_table ins rem s1 ks = Inr s' \<and> invar s' \<and> lookup s' = run_map fresh (lookup s1) ks"
      using Cons.IH [OF s1(2)] Cons.prems(2) by simp
    then show ?thesis unfolding Enter run_table.simps run_map.simps s1(1) bind_res_simps s1(3) .
  next
    case (Leave k)
    then obtain r s1 where s1: "rem s k = Inr (r, s1)" "invar s1" "lookup s1 = (lookup s)(k := None)"
      using rem_ok [OF Cons.prems(1), of k] Cons.prems(2) by auto
    have "\<exists>s'. run_table ins rem s1 ks = Inr s' \<and> invar s' \<and> lookup s' = run_map fresh (lookup s1) ks"
      using Cons.IH [OF s1(2)] Cons.prems(2) by simp
    then show ?thesis unfolding Leave run_table.simps run_map.simps s1(1) bind_res_simps prod.case s1(3) .
  qed
qed simp

end

interpretation async_table: keyed_table async_inv registry xmpc_init_async end_async new_async "\<lambda>i. 0 \<le> i"
proof
  fix st and i :: int
  assume "async_inv st" and i: "0 \<le> i"
  then obtain B where inv: "inv_with st B" by (auto simp: async_inv_def)
  from init_async_spec [OF inv i] show "\<exists>s'. xmpc_init_async st i = Inr s' \<and> async_inv s' \<and>
      registry s' = (if registry st i = None then (registry st)(i \<mapsto> new_async i) else registry st)"
    unfolding async_inv_def by blast
  from end_async_spec [OF inv i] show "\<exists>r s'. end_async st i = Inr (r, s') \<and> async_inv s' \<and>
      registry s' = (registry st)(i := None)"
    unfolding async_inv_def by blast
qed

text \<open>
  C6. The hash table with chains implements a map: any sequence of \<open>xmpc_init_async\<close> and \<open>xmpc_end_async\<close>
  with ids that are not negative returns, and leaves exactly the descriptors that the same sequence of
  insertions and deletions leaves in a map from ids to descriptors.
\<close>

theorem async_table_refines_map:
  assumes "async_inv st" and "\<forall>x \<in> set ops. 0 \<le> table_key x"
  shows "\<exists>st'. run_table xmpc_init_async end_async st ops = Inr st' \<and> async_inv st' \<and>
    registry st' = run_map new_async (registry st) ops"
  using assms by (rule async_table.run_refines)

text \<open>The static variables as the C language initialises them, followed by \<open>_XMP_initialize_async_comm_tab\<close>.\<close>

definition async_start :: async_state where
  "async_start = XMP_initialize_async_comm_tab
     \<lparr>as_tab = replicate 511 ((new_async 0)\<lparr>ac_is_used := False, ac_reqs := False\<rparr>), as_cells = Map.empty,
      as_next_cell = 0, as_is_async = False, as_tmp = None\<rparr>"

lemma async_start_inv: "async_inv async_start"
proof -
  have "inv_with async_start (\<lambda>h. [])"
    by (simp add: inv_with_def async_start_def XMP_initialize_async_comm_tab_def bucket_ok_def idle_def entries_def new_async_def)
  then show ?thesis by (auto simp: async_inv_def)
qed

theorem async_table_refines_map_witness:
  "async_inv async_start \<and>
   (\<exists>st'. run_table xmpc_init_async end_async async_start [Enter 5, Enter 516, Leave 5, Enter 5] = Inr st' \<and>
      registry st' = run_map new_async (registry async_start) [Enter 5, Enter 516, Leave 5, Enter 5])"
  using async_table_refines_map [OF async_start_inv, of "[Enter 5, Enter 516, Leave 5, Enter 5]"] async_start_inv by auto

text \<open>
  \<open>_XMP_get_async\<close> returns for every id that is not negative. It finds the descriptor of a registered id;
  for another id the result is \<open>NULL\<close> or the unused slot of the table, which has no requests, no node
  sets and no gmove.
\<close>

theorem get_async_finds:
  assumes "async_inv st" and "0 \<le> i"
  shows "\<exists>r. XMP_get_async st i = Inr r \<and>
    (case registry st i of
       Some d \<Rightarrow> \<exists>p x. r = Some p \<and> read_async st p = Inr x \<and> content x = d
     | None \<Rightarrow> r = None \<or> (\<exists>x. r = Some (Slot (slot_of i)) \<and> read_async st (Slot (slot_of i)) = Inr x \<and> idle x))"
  using assms get_async_spec by (auto simp: async_inv_def)

theorem get_async_finds_witness:
  "\<exists>r. XMP_get_async async_start 7 = Inr r \<and>
    (case registry async_start 7 of
       Some d \<Rightarrow> \<exists>p x. r = Some p \<and> read_async async_start p = Inr x \<and> content x = d
     | None \<Rightarrow> r = None \<or> (\<exists>x. r = Some (Slot (slot_of 7)) \<and> read_async async_start (Slot (slot_of 7)) = Inr x \<and> idle x))"
  using get_async_finds [OF async_start_inv, of 7] by simp

subsection \<open>Reachable states\<close>

text \<open>
  The calls the compiled code makes: a communication directive registers its descriptor, issues
  requests and node sets while it is current, and ends with \<open>xmpc_start_async\<close>; \<open>wait_async\<close> directives,
  which end descriptors, stand outside of it.
\<close>

inductive async_step :: "async_state \<Rightarrow> async_state \<Rightarrow> bool" where
  init: "0 \<le> i \<Longrightarrow> xmpc_init_async st i = Inr st' \<Longrightarrow> async_step st st'"
| request: "count_request st = Inr st' \<Longrightarrow> async_step st st'"
| nodes: "XMP_nodes_dealloc_after_wait_async st n = Inr st' \<Longrightarrow> async_step st st'"
| start: "async_step st (xmpc_start_async st)"
| finish: "0 \<le> i \<Longrightarrow> as_tmp st = None \<Longrightarrow> end_async st i = Inr (ns, st') \<Longrightarrow> async_step st st'"

inductive async_reach :: "async_state \<Rightarrow> bool" where
  first: "async_reach async_start"
| step: "async_reach st \<Longrightarrow> async_step st st' \<Longrightarrow> async_reach st'"

inductive_cases async_stepE: "async_step st st'"

text \<open>The entries of \<open>node\<close> and their number.\<close>

definition node_ok :: "async_comm \<Rightarrow> bool" where
  "node_ok d \<longleftrightarrow> 0 \<le> ac_nnodes d \<and> ac_nnodes d \<le> 20 \<and>
     (ac_nnodes d = 0 \<or> (\<exists>ns. ac_node d = Some ns \<and> int (length ns) = ac_nnodes d))"

definition async_consistent :: "async_state \<Rightarrow> bool" where
  "async_consistent st \<longleftrightarrow> async_inv st \<and> (\<forall>d \<in> ran (registry st). node_ok d) \<and> (xmp_is_async st \<longleftrightarrow> XMP_get_current_async st \<noteq> None) \<and>
     (as_tmp st \<noteq> None \<longrightarrow> (\<exists>i. current_is st i))"

lemma read_write: "read_async st r = Inr x \<Longrightarrow> read_async (write_async st r y) r = Inr y"
  by (auto simp: read_async_def write_async_def split: aref.splits if_splits)

lemma write_async_same [simp]:
  "as_tmp (write_async st r y) = as_tmp st" "as_is_async (write_async st r y) = as_is_async st"
  by (simp_all add: write_async_def split: aref.split)

lemma stores_registry: "inv_with st B \<Longrightarrow> stores st i d \<Longrightarrow> registry st i = Some d"
proof -
  assume inv: "inv_with st B" and d: "stores st i d"
  have "distinct (map ac_async_id (entries (as_tab st ! slot_of i) (as_cells st) (B (slot_of i))))"
    using inv_bucket [OF inv, of "slot_of i"] by (simp add: bucket_ok_def)
  from keyed_Some [OF this] show ?thesis
    using d unfolding registry_entries [OF inv] stores_entries [OF inv] by auto
qed

lemma read_stores: "read_async st r = Inr x \<Longrightarrow> ac_is_used x \<Longrightarrow> stores st (ac_async_id x) (content x)"
  unfolding stores_def by (rule exI [of _ x]) (auto simp: read_async_def ran_def split: aref.splits if_splits option.splits)

lemma node_ok_content [simp]: "node_ok (content x) = node_ok x"
  by (simp add: node_ok_def content_def)

lemma current_registered:
  assumes "async_consistent st" "as_tmp st = Some r" "read_async st r = Inr x"
  shows "ac_is_used x" "registry st (ac_async_id x) = Some (content x)" "node_ok x"
proof -
  show u: "ac_is_used x" using assms by (auto simp: async_consistent_def current_is_def)
  obtain B where inv: "inv_with st B" using assms(1) by (auto simp: async_consistent_def async_inv_def)
  show reg: "registry st (ac_async_id x) = Some (content x)"
    using stores_registry [OF inv read_stores [OF assms(3) u]] .
  then have "node_ok (content x)" using assms(1) by (auto simp: async_consistent_def ran_def)
  then show "node_ok x" by simp
qed

lemma write_current:
  assumes "async_consistent st" "as_tmp st = Some r" "read_async st r = Inr x" "same_shape x y" "node_ok y"
  shows "async_consistent (write_async st r y)" "registry (write_async st r y) = (registry st)(ac_async_id x \<mapsto> content y)"
    "current_is (write_async st r y) (ac_async_id x)"
proof -
  obtain B where inv: "inv_with st B" using assms(1) by (auto simp: async_consistent_def async_inv_def)
  have u: "ac_is_used x" using current_registered(1) [OF assms(1-3)] .
  note W = write_registered [OF inv assms(3) u assms(4)]
  have "read_async (write_async st r y) r = Inr y" using read_write assms(3) .
  then show c: "current_is (write_async st r y) (ac_async_id x)"
    using assms(2,4) u by (auto simp: current_is_def same_shape_def)
  have "\<forall>d \<in> ran (registry (write_async st r y)). node_ok d"
    using W assms(1,5) by (auto simp: async_consistent_def ran_def split: if_splits)
  then show "async_consistent (write_async st r y)"
    using W assms(1) c by (auto simp: async_consistent_def async_inv_def xmp_is_async_def XMP_get_current_async_def)
  show "registry (write_async st r y) = (registry st)(ac_async_id x \<mapsto> content y)" using W by blast
qed

lemma init_consistent:
  assumes "async_consistent st" "0 \<le> i"
  shows "\<exists>st'. xmpc_init_async st i = Inr st' \<and> async_consistent st' \<and> current_is st' i \<and>
    registry st' = (if registry st i = None then (registry st)(i \<mapsto> new_async i) else registry st)"
proof -
  obtain B where inv: "inv_with st B" using assms(1) by (auto simp: async_consistent_def async_inv_def)
  then obtain st' B' where st': "xmpc_init_async st i = Inr st'" "as_is_async st'" "inv_with st' B'" "current_is st' i"
    "registry st' = (if registry st i = None then (registry st)(i \<mapsto> new_async i) else registry st)"
    using init_async_spec [OF inv assms(2)] by blast
  moreover have "\<forall>d \<in> ran (registry st'). node_ok d"
    using st'(5) assms(1) by (auto simp: async_consistent_def ran_def node_ok_def new_async_def split: if_splits)
  ultimately have "async_consistent st'"
    by (auto simp: async_consistent_def async_inv_def xmp_is_async_def XMP_get_current_async_def current_is_def)
  with st' show ?thesis by blast
qed

lemma end_consistent:
  assumes "async_consistent st" "0 \<le> i" "as_tmp st = None"
  shows "\<exists>st'. end_async st i = Inr (released (registry st i), st') \<and> async_consistent st' \<and> as_tmp st' = None \<and>
    registry st' = (registry st)(i := None)"
proof -
  obtain B where inv: "inv_with st B" using assms(1) by (auto simp: async_consistent_def async_inv_def)
  then obtain st' B' where st': "end_async st i = Inr (released (registry st i), st')" "inv_with st' B'"
    "registry st' = (registry st)(i := None)" "as_tmp st' = as_tmp st" "as_is_async st' = as_is_async st"
    using end_async_spec [OF inv assms(2)] by blast
  moreover have "\<forall>d \<in> ran (registry st'). node_ok d"
    using st'(3) assms(1) by (auto simp: async_consistent_def ran_def split: if_splits)
  ultimately have "async_consistent st'" using assms(1,3)
    by (auto simp: async_consistent_def async_inv_def xmp_is_async_def XMP_get_current_async_def)
  with st' assms(3) show ?thesis by auto
qed

lemma start_consistent: "async_consistent st \<Longrightarrow> async_consistent (xmpc_start_async st)"
  using inv_with_same [of "xmpc_start_async st" st] registry_same [of "xmpc_start_async st" st]
  by (auto simp: async_consistent_def async_inv_def xmpc_start_async_def xmp_is_async_def XMP_get_current_async_def)

text \<open>Registering a node set with the current descriptor; \<open>appended\<close> is the descriptor after it.\<close>

definition appended :: "async_comm \<Rightarrow> nat \<Rightarrow> async_comm" where
  "appended x n = x\<lparr>ac_node := Some ((if ac_nnodes x = 0 then [] else take (nat (ac_nnodes x)) (the (ac_node x))) @ [n]),
     ac_nnodes := ac_nnodes x + 1\<rparr>"

lemma dealloc_current:
  assumes "async_consistent st" "as_tmp st = Some r" "read_async st r = Inr x"
  shows "XMP_nodes_dealloc_after_wait_async st n =
    (if ac_nnodes x \<ge> 20 then Inl (Fatal ''Too many nodes'') else Inr (write_async st r (appended x n)))"
    "ac_nnodes x < 20 \<Longrightarrow> node_ok (appended x n)" "same_shape x (appended x n)"
proof -
  have ok: "node_ok x" using current_registered(3) [OF assms] .
  show "XMP_nodes_dealloc_after_wait_async st n =
    (if ac_nnodes x \<ge> 20 then Inl (Fatal ''Too many nodes'') else Inr (write_async st r (appended x n)))"
  proof (cases "ac_nnodes x = 0")
    case True
    then show ?thesis using assms(2,3)
      by (simp add: XMP_nodes_dealloc_after_wait_async_def XMP_MAX_ASYNC_NODES_def appended_def)
  next
    case False
    then obtain ns where "ac_node x = Some ns" using ok by (auto simp: node_ok_def)
    with False show ?thesis using assms(2,3)
      by (simp add: XMP_nodes_dealloc_after_wait_async_def XMP_MAX_ASYNC_NODES_def appended_def)
  qed
  show "ac_nnodes x < 20 \<Longrightarrow> node_ok (appended x n)" using ok by (auto simp: node_ok_def appended_def)
  show "same_shape x (appended x n)" by (simp add: same_shape_def appended_def)
qed

lemma consistent_current:
  assumes "async_consistent st" "as_tmp st = Some r"
  obtains x where "read_async st r = Inr x"
  using assms by (auto simp: async_consistent_def current_is_def)

lemma step_consistent: "async_step st st' \<Longrightarrow> async_consistent st \<Longrightarrow> async_consistent st'"
proof (induction rule: async_step.induct)
  case (init i st st')
  then show ?case using init_consistent [of st i] by auto
next
  case (request st st')
  then obtain r x where x: "as_tmp st = Some r" "read_async st r = Inr x" "st' = write_async st r (x\<lparr>ac_nreqs := ac_nreqs x + 1\<rparr>)"
    by (auto simp: count_request_def bind_res_eq_Inr split: option.splits)
  then show ?case using write_current(1) [OF request(2) x(1,2)] current_registered(3) [OF request(2) x(1,2)]
    by (simp add: same_shape_def node_ok_def)
next
  case (nodes st n st')
  then obtain r where r: "as_tmp st = Some r" by (auto simp: XMP_nodes_dealloc_after_wait_async_def split: option.splits)
  obtain x where x: "read_async st r = Inr x" using consistent_current [OF nodes(2) r] .
  note D = dealloc_current [OF nodes(2) r x, of n]
  show ?case using D(1) nodes(1) write_current(1) [OF nodes(2) r x D(3)] D(2) by (auto split: if_splits)
next
  case (start st)
  then show ?case by (rule start_consistent)
next
  case (finish i st ns st')
  then show ?case using end_consistent [of st i] by auto
qed

lemma registry_start: "registry async_start = Map.empty"
proof -
  have "\<not> stores async_start i d" for i d
    by (auto simp: stores_def async_start_def XMP_initialize_async_comm_tab_def)
  then show ?thesis by (auto simp: registry_def)
qed

lemma start_state_consistent: "async_consistent async_start"
  using async_start_inv registry_start
  by (simp add: async_consistent_def xmp_is_async_def XMP_get_current_async_def async_start_def XMP_initialize_async_comm_tab_def)

lemma reach_consistent: "async_reach st \<Longrightarrow> async_consistent st"
  by (induction rule: async_reach.induct) (auto intro: start_state_consistent step_consistent)

text \<open>
  C29. In every reachable state each bucket is a chain of used descriptors with different ids that hash to it,
  every allocated cell is in a chain, so none is lost, an unused slot is empty, and \<open>_xmp_is_async\<close> is true
  exactly between \<open>xmpc_init_async\<close> and \<open>xmpc_start_async\<close>, while there is a current, registered descriptor.
\<close>

theorem async_reach_invariant:
  assumes "async_reach st"
  shows "(\<exists>B. inv_with st B) \<and> (xmp_is_async st \<longleftrightarrow> XMP_get_current_async st \<noteq> None) \<and>
    (XMP_get_current_async st \<noteq> None \<longrightarrow> (\<exists>i. current_is st i \<and> registry st i \<noteq> None))"
proof -
  have c: "async_consistent st" using assms by (rule reach_consistent)
  have "registry st i \<noteq> None" if cur: "current_is st i" for i
    using cur current_registered(2) [OF c] by (auto simp: current_is_def)
  then show ?thesis using c by (auto simp: async_consistent_def async_inv_def XMP_get_current_async_def)
qed

theorem async_reach_invariant_witness:
  "async_reach async_start \<and> (\<exists>B. inv_with async_start B)"
  using async_reach_invariant [OF async_reach.first] async_reach.first by blast

text \<open>
  No operation follows a dangling or null pointer, runs forever or leaves the table in a reachable state:
  lookup, registration and removal return for every id that is not negative, and registering a node set
  during an asynchronous communication returns or ends with the message that there are too many.
\<close>

theorem async_reach_safe:
  assumes "async_reach st" and "0 \<le> i"
  shows "is_ok (XMP_get_async st i) \<and> is_ok (xmpc_init_async st i) \<and> is_ok (end_async st i) \<and>
    (xmp_is_async st \<longrightarrow> is_ok (count_request st) \<and>
       (is_ok (XMP_nodes_dealloc_after_wait_async st n) \<or>
        XMP_nodes_dealloc_after_wait_async st n = Inl (Fatal ''Too many nodes'')))"
proof -
  have c: "async_consistent st" using assms(1) by (rule reach_consistent)
  then have inv: "async_inv st" by (simp add: async_consistent_def)
  then obtain B where B: "inv_with st B" by (auto simp: async_inv_def)
  have "is_ok (XMP_get_async st i)" using get_async_spec [OF B assms(2)] by (auto simp: is_ok_def)
  moreover have "is_ok (xmpc_init_async st i)" "is_ok (end_async st i)"
    using async_table.ins_ok [OF inv assms(2)] async_table.rem_ok [OF inv assms(2)] by (auto simp: is_ok_def)
  moreover have "is_ok (count_request st) \<and> (is_ok (XMP_nodes_dealloc_after_wait_async st n) \<or>
      XMP_nodes_dealloc_after_wait_async st n = Inl (Fatal ''Too many nodes''))" if act: "xmp_is_async st"
  proof -
    obtain r where r: "as_tmp st = Some r"
      using c act by (auto simp: async_consistent_def XMP_get_current_async_def)
    obtain x where x: "read_async st r = Inr x" using consistent_current [OF c r] .
    show ?thesis using dealloc_current(1) [OF c r x, of n] r x by (simp add: count_request_def is_ok_def)
  qed
  ultimately show ?thesis by blast
qed

theorem async_reach_safe_witness:
  "async_reach async_start \<and> is_ok (XMP_get_async async_start 3) \<and> is_ok (end_async async_start 3)"
  using async_reach_safe [OF async_reach.first, of 3] async_reach.first by simp

subsection \<open>Node sets of a communication\<close>

fun register_nodes :: "async_state \<Rightarrow> nat list \<Rightarrow> async_state res" where
  "register_nodes st [] = Inr st"
| "register_nodes st (n # ns) = bind_res (XMP_nodes_dealloc_after_wait_async st n) (\<lambda>st'. register_nodes st' ns)"

lemma register_nodes_current:
  "async_consistent st \<Longrightarrow> current_is st i \<Longrightarrow> registry st i = Some d \<Longrightarrow> ac_nnodes d = int (length ms) \<Longrightarrow>
   (ms \<noteq> [] \<longrightarrow> ac_node d = Some ms) \<Longrightarrow> length ms + length ns \<le> 20 \<Longrightarrow>
   \<exists>st' d'. register_nodes st ns = Inr st' \<and> async_consistent st' \<and> registry st' = (registry st)(i \<mapsto> d') \<and>
     ac_nnodes d' = int (length (ms @ ns)) \<and> (ms @ ns \<noteq> [] \<longrightarrow> ac_node d' = Some (ms @ ns))"
proof (induction ns arbitrary: st d ms)
  case Nil
  have "registry st = (registry st)(i \<mapsto> d)" using Nil.prems(3) by auto
  then show ?case using Nil.prems by (intro exI [of _ st] exI [of _ d]) simp
next
  case (Cons n ns)
  obtain r x where r: "as_tmp st = Some r" "read_async st r = Inr x" "ac_async_id x = i"
    using Cons.prems(2) by (auto simp: current_is_def)
  have d: "d = content x" using current_registered(2) [OF Cons.prems(1) r(1,2)] r(3) Cons.prems(3) by simp
  have nx: "ac_nnodes x = int (length ms)" "ms \<noteq> [] \<Longrightarrow> ac_node x = Some ms"
    using Cons.prems(4,5) by (simp_all add: d content_def)
  have less: "ac_nnodes x < 20" using nx(1) Cons.prems(6) by simp
  note D = dealloc_current [OF Cons.prems(1) r(1,2), of n]
  let ?st = "write_async st r (appended x n)"
  have run: "XMP_nodes_dealloc_after_wait_async st n = Inr ?st" using D(1) less by simp
  note W = write_current [OF Cons.prems(1) r(1,2) D(3) D(2) [OF less], unfolded r(3)]
  have app: "ac_nnodes (content (appended x n)) = int (length (ms @ [n]))" "ac_node (content (appended x n)) = Some (ms @ [n])"
    using nx by (cases "ms = []"; simp add: appended_def content_def)+
  have "\<exists>st' d'. register_nodes ?st ns = Inr st' \<and> async_consistent st' \<and> registry st' = (registry ?st)(i \<mapsto> d') \<and>
      ac_nnodes d' = int (length ((ms @ [n]) @ ns)) \<and> ((ms @ [n]) @ ns \<noteq> [] \<longrightarrow> ac_node d' = Some ((ms @ [n]) @ ns))"
    by (rule Cons.IH [OF W(1,3), of "content (appended x n)"]) (use W(2) app Cons.prems(6) in simp_all)
  then show ?case unfolding register_nodes.simps run bind_res_simps W(2) fun_upd_upd append_assoc append_Cons append_Nil .
qed

text \<open>
  The node sets that an asynchronous communication registers are the ones that are finalised at its end:
  after \<open>xmpc_init_async\<close> for an id that is not in use, at most 20 node sets, and \<open>xmpc_start_async\<close>,
  \<open>xmpc_end_async\<close> finalises exactly these node sets in order, once, and the table is as before.
\<close>

theorem async_nodes_released:
  assumes "async_reach st" and "0 \<le> i" and "registry st i = None" and "length ns \<le> 20"
  shows "\<exists>st1 st2 st3. xmpc_init_async st i = Inr st1 \<and> register_nodes st1 ns = Inr st2 \<and>
    end_async (xmpc_start_async st2) i = Inr (ns, st3) \<and> registry st3 = registry st"
proof -
  have c: "async_consistent st" using assms(1) by (rule reach_consistent)
  obtain st1 where st1: "xmpc_init_async st i = Inr st1" "async_consistent st1" "current_is st1 i"
    "registry st1 = (registry st)(i \<mapsto> new_async i)" using init_consistent [OF c assms(2)] assms(3) by auto
  obtain st2 d where st2: "register_nodes st1 ns = Inr st2" "async_consistent st2" "registry st2 = (registry st1)(i \<mapsto> d)"
    "ac_nnodes d = int (length ns)" "ns \<noteq> [] \<longrightarrow> ac_node d = Some ns"
    using register_nodes_current [OF st1(2,3), of "new_async i" "[]" ns] st1(4) assms(4) by (auto simp: new_async_def)
  have reg: "registry (xmpc_start_async st2) = registry st2" by (rule registry_same) (simp_all add: xmpc_start_async_def)
  obtain st3 where st3: "end_async (xmpc_start_async st2) i = Inr (released (registry st2 i), st3)"
    "registry st3 = (registry st2)(i := None)"
    using end_consistent [OF start_consistent [OF st2(2)] assms(2)] reg by (auto simp: xmpc_start_async_def)
  have "released (registry st2 i) = ns"
    using st2(3-5) by (cases "ns = []") (auto simp: released_def initialize_async_def split: option.split)
  moreover have "registry st3 = registry st" using st3(2) st2(3) st1(4) assms(3) by (auto simp: fun_upd_idem)
  ultimately show ?thesis using st1(1) st2(1) st3(1) by auto
qed

theorem async_nodes_released_witness:
  "async_reach async_start \<and> registry async_start 9 = None \<and>
   (\<exists>st1 st2 st3. xmpc_init_async async_start 9 = Inr st1 \<and> register_nodes st1 [4, 6] = Inr st2 \<and>
      end_async (xmpc_start_async st2) 9 = Inr ([4, 6], st3) \<and> registry st3 = registry async_start)"
  using async_nodes_released [OF async_reach.first, of 9 "[4, 6]"] async_reach.first registry_start by simp

end
