(* ===== verification/Ompc_Runtime.thy ===== *)
theory Ompc_Runtime
  imports Omni_Prelude
begin

text \<open>
  The work-sharing constructs of the OpenMP runtime (\<open>libompc/src/ompc_runtime.c\<close>): loop schedules,
  sections, single and ordered regions.

  A thread descriptor is one record. The descriptor of the parent, which the threads of a team
  share, is a second argument: \<open>tpp = None\<close> when \<open>tp->parent\<close> is \<open>NULL\<close>. An induction variable is
  an \<open>indvar_t\<close>, a \<open>void *\<close> that holds the value of the loop variable; it is an \<open>int\<close> here, and pointers
  are compared as unsigned 64-bit numbers. Event logging is left out.

  Sums and products of type \<open>int\<close> are kept at 32 bits: \<open>int32\<close> is written around them, so that they wrap where they
  overflow, which C leaves undefined; the theorems have hypotheses under which no \<open>int\<close> overflows. A division by a step or
  a chunk size of zero is the error \<open>BadArith\<close>; the other divisor, the size of a team, is at least one.

  The code of a dynamic loop, of a single region and of an ordered loop is split where other threads can
  interfere: at \<open>OMPC_WAIT\<close> and around the regions locked by \<open>OMPC_THREAD_LOCK\<close>, which are one step each.
\<close>

subsection \<open>Threads\<close>

record ompc_thread =
  th_num :: int
  th_num_thds :: int
  th_in_parallel :: int
  th_section_id :: int
  th_last_section_id :: int
  th_loop_chunk_size :: int
  th_loop_end :: int
  th_loop_sched_index :: int
  th_loop_stride :: int
  th_dynamic_index :: int
  th_loop_id :: int
  th_ordered_id :: int
  th_ordered_step :: int
  th_is_last :: int
  th_in_flags :: "int list"
  th_in_count :: int
  th_out_count :: int
  th_barrier_sense :: int
  th_barrier_flags :: "int list"

definition ompc_thread_num_tid :: "ompc_thread \<Rightarrow> int" where
  "ompc_thread_num_tid tp = th_num tp"

definition ompc_in_parallel :: "ompc_thread \<Rightarrow> int" where
  "ompc_in_parallel tp = th_in_parallel tp"

definition ompc_get_num_threads :: "ompc_thread option \<Rightarrow> int" where
  "ompc_get_num_threads tpp = (case tpp of None \<Rightarrow> 1 | Some p \<Rightarrow> th_num_thds p)"

definition ompc_is_last :: "ompc_thread \<Rightarrow> ompc_thread option \<Rightarrow> bool" where
  "ompc_is_last tp tpp \<longleftrightarrow> th_is_last tp \<noteq> 0 \<or> ompc_get_num_threads tpp = 1"

definition ompc_is_master :: "ompc_thread \<Rightarrow> bool" where
  "ompc_is_master tp \<longleftrightarrow> th_num tp = 0"

text \<open>A descriptor with \<open>n\<close> threads below it and the other fields clear.\<close>

definition thread0 :: "int \<Rightarrow> ompc_thread" where
  "thread0 n =
     \<lparr>th_num = 0, th_num_thds = n, th_in_parallel = 1, th_section_id = 0, th_last_section_id = 0,
      th_loop_chunk_size = 0, th_loop_end = 0, th_loop_sched_index = 0, th_loop_stride = 0, th_dynamic_index = 0,
      th_loop_id = 0, th_ordered_id = 0, th_ordered_step = 0, th_is_last = 0, th_in_flags = replicate 256 0,
      th_in_count = 0, th_out_count = 0, th_barrier_sense = 0, th_barrier_flags = replicate 256 0\<rparr>"

lemma thread0_simps [simp]: "th_num_thds (thread0 n) = n" "th_is_last (thread0 n) = 0" "th_in_count (thread0 n) = 0"
  "th_out_count (thread0 n) = 0" "th_in_flags (thread0 n) = replicate 256 0" "th_num (thread0 n) = 0"
  by (simp_all add: thread0_def)

text \<open>The comparisons \<open>p < q\<close> and \<open>p <= q\<close> of pointers.\<close>

definition ptr_less :: "int \<Rightarrow> int \<Rightarrow> bool" where
  "ptr_less p q \<longleftrightarrow> uint64 p < uint64 q"

definition ptr_le :: "int \<Rightarrow> int \<Rightarrow> bool" where
  "ptr_le p q \<longleftrightarrow> uint64 p \<le> uint64 q"

subsection \<open>Static schedules\<close>

text \<open>The results are the thread and the new values of \<open>*lb\<close>, \<open>*up\<close> and \<open>*step\<close>.\<close>

definition ompc_static_csched_tid ::
  "ompc_thread \<Rightarrow> ompc_thread option \<Rightarrow> int \<Rightarrow> int \<Rightarrow> int \<Rightarrow> int \<Rightarrow> (ompc_thread \<times> int \<times> int \<times> int) res" where
  "ompc_static_csched_tid tp tpp lb up ubofs step =
     (let n_thd = ompc_get_num_threads tpp
      in if n_thd = 1 then Inr (tp, lb, up, step)
         else if step = 0 then Inl BadArith
         else let ident = th_num tp; s = step;
                  n = int32 (if s > 0 then (up + ubofs - lb + s - 1) sdiv s else (up + ubofs - lb + s + 1) sdiv s)
              in Inr (tp\<lparr>th_is_last := if n > 0 \<and> (n - 1) smod n_thd = ident then 1 else 0\<rparr>,
                      lb + int32 (ident * s), up, int32 (s * n_thd)))"

definition ompc_static_bsched_tid ::
  "ompc_thread \<Rightarrow> ompc_thread option \<Rightarrow> int \<Rightarrow> int \<Rightarrow> int \<Rightarrow> int \<Rightarrow> ompc_thread \<times> int \<times> int \<times> int" where
  "ompc_static_bsched_tid tp tpp lb up ubofs step =
     (let n_thd = ompc_get_num_threads tpp
      in if n_thd = 1 then (tp, lb, up, step)
         else
           let s = step; b = lb; ident = th_num tp; tp = tp\<lparr>th_is_last := 0\<rparr>
           in if s > 0 then
                let ee = up + ubofs;
                    blk_s = int32 ((ee - b + n_thd - 1) sdiv n_thd);
                    blk_s = int32 ((int32 (blk_s + s - 1) sdiv s) * s);
                    b = b + int32 (blk_s * ident);
                    e = b + blk_s
                in if e \<ge> ee then (tp\<lparr>th_is_last := if ptr_less b ee then 1 else 0\<rparr>, b, ee - ubofs, step)
                   else (tp, b, e - ubofs, step)
              else if s < 0 then
                let ee = up - ubofs;
                    blk_s = int32 ((ee - b - n_thd + 1) sdiv n_thd);
                    blk_s = int32 ((int32 (blk_s + s + 1) sdiv s) * s);
                    b = b + int32 (blk_s * ident);
                    e = b + blk_s
                in if e \<le> ee then (tp\<lparr>th_is_last := if ee < b then 1 else 0\<rparr>, b, ee + ubofs, step)
                   else (tp, b, e + ubofs, step)
              else (tp, lb, up, step))"

definition ompc_default_sched ::
  "ompc_thread \<Rightarrow> ompc_thread option \<Rightarrow> int \<Rightarrow> int \<Rightarrow> int \<Rightarrow> int \<Rightarrow> ompc_thread \<times> int \<times> int \<times> int" where
  "ompc_default_sched = ompc_static_bsched_tid"

definition ompc_static_sched_init_tid ::
  "ompc_thread \<Rightarrow> ompc_thread option \<Rightarrow> int \<Rightarrow> int \<Rightarrow> int \<Rightarrow> int \<Rightarrow> int \<Rightarrow> ompc_thread res" where
  "ompc_static_sched_init_tid tp tpp lb up ubofs step chunk_size =
     (let nthds = ompc_get_num_threads tpp
      in if nthds = 1 then Inr (tp\<lparr>th_loop_sched_index := lb, th_loop_end := up + ubofs\<rparr>)
         else if chunk_size \<le> 0 then Inl (Fatal ''ompc_static_sched_init'')
         else let chunk_size = int32 (chunk_size * step)
              in Inr (tp\<lparr>th_loop_sched_index := lb + int32 (chunk_size * th_num tp),
                         th_loop_chunk_size := chunk_size,
                         th_loop_stride := int32 (chunk_size * nthds),
                         th_loop_end := up + ubofs,
                         th_is_last := 0\<rparr>))"

text \<open>The result is \<open>None\<close> for \<open>FALSE\<close>, and the values stored in \<open>*lb\<close> and \<open>*up\<close> for \<open>TRUE\<close>.\<close>

definition sched_next_serial :: "ompc_thread \<Rightarrow> int \<Rightarrow> (int \<times> int) option \<times> ompc_thread" where
  "sched_next_serial tp ubofs =
     (let b = th_loop_sched_index tp; e = th_loop_end tp
      in if b = e then (None, tp) else (Some (b, e - ubofs), tp\<lparr>th_loop_sched_index := e\<rparr>))"

definition ompc_static_sched_next_tid ::
  "ompc_thread \<Rightarrow> ompc_thread option \<Rightarrow> int \<Rightarrow> (int \<times> int) option \<times> ompc_thread" where
  "ompc_static_sched_next_tid tp tpp ubofs =
     (if ompc_get_num_threads tpp = 1 then sched_next_serial tp ubofs
      else
        let b = th_loop_sched_index tp;
            tp = tp\<lparr>th_loop_sched_index := th_loop_sched_index tp + th_loop_stride tp\<rparr>;
            e = b + th_loop_chunk_size tp
        in if th_loop_chunk_size tp > 0 then
             if ptr_le (th_loop_end tp) b then (None, tp)
             else if ptr_le (th_loop_end tp) e then (Some (b, th_loop_end tp - ubofs), tp\<lparr>th_is_last := 1\<rparr>)
             else (Some (b, e - ubofs), tp)
           else
             if ptr_le b (th_loop_end tp) then (None, tp)
             else if ptr_le e (th_loop_end tp) then (Some (b, th_loop_end tp - ubofs), tp\<lparr>th_is_last := 1\<rparr>)
             else (Some (b, e - ubofs), tp))"

subsection \<open>Dynamic and guided schedules\<close>

text \<open>
  \<open>ompc_dynamic_sched_init_tid\<close>: the part before the wait, the locked region, and the store of the flag.
  A thread waits while \<open>in_flags[id]\<close> is set.
\<close>

definition dynamic_init_local ::
  "ompc_thread \<Rightarrow> ompc_thread option \<Rightarrow> int \<Rightarrow> int \<Rightarrow> int \<Rightarrow> int \<Rightarrow> int \<Rightarrow> ompc_thread res" where
  "dynamic_init_local tp tpp lb up ubofs step chunk_size =
     (if ompc_get_num_threads tpp = 1 then Inr (tp\<lparr>th_loop_sched_index := lb, th_loop_end := up + ubofs\<rparr>)
      else if chunk_size \<le> 0 then Inl (Fatal ''ompc_dynamic_sched_init'')
      else Inr (tp\<lparr>th_loop_chunk_size := int32 (chunk_size * step), th_loop_end := up + ubofs,
                   th_loop_sched_index := lb, th_is_last := 0\<rparr>))"

definition in_flag_set :: "ompc_thread \<Rightarrow> int \<Rightarrow> bool" where
  "in_flag_set tpp ident \<longleftrightarrow> th_in_flags tpp ! nat ident \<noteq> 0"

definition dynamic_init_enter :: "ompc_thread \<Rightarrow> int \<Rightarrow> ompc_thread" where
  "dynamic_init_enter tpp lb =
     (let tpp = (if th_in_count tpp = 0 then tpp\<lparr>th_dynamic_index := lb\<rparr> else tpp)
      in tpp\<lparr>th_in_count := th_in_count tpp + 1\<rparr>)"

definition dynamic_init_flag :: "ompc_thread \<Rightarrow> int \<Rightarrow> ompc_thread" where
  "dynamic_init_flag tpp ident = tpp\<lparr>th_in_flags := (th_in_flags tpp)[nat ident := 1]\<rparr>"

text \<open>
  \<open>ompc_dynamic_sched_next_tid\<close> of a thread in a team: the locked region that takes the chunk
  \<open>[b, e)\<close>, the test that follows it, the locked region of a thread that has reached the end, and the
  adjustment of the last chunk. The chunk size is a divisor of the guided schedule.
\<close>

definition dynamic_next_take :: "ompc_thread \<Rightarrow> ompc_thread \<Rightarrow> bool \<Rightarrow> ((int \<times> int) \<times> ompc_thread) res" where
  "dynamic_next_take tp tpp guided =
     (let c = th_loop_chunk_size tp;
          b = th_dynamic_index tpp
      in if guided \<and> c = 0 then Inl BadArith
         else
           let e = (if guided then
                      let l = int32 ((th_loop_end tp - b) sdiv th_num_thds tpp);
                          l = int32 ((int32 (l + c) sdiv c) * c);
                          l = (if c > 0 then (if c > l then c else l) else (if c < l then c else l))
                      in b + l
                    else b + c)
           in Inr ((b, e), tpp\<lparr>th_dynamic_index := e\<rparr>))"

definition dynamic_next_done :: "ompc_thread \<Rightarrow> bool" where
  "dynamic_next_done tp \<longleftrightarrow>
     (if th_loop_chunk_size tp > 0 then ptr_le (th_loop_end tp) (th_loop_sched_index tp)
      else ptr_le (th_loop_sched_index tp) (th_loop_end tp))"

definition dynamic_next_exit_flag :: "ompc_thread \<Rightarrow> int \<Rightarrow> bool" where
  "dynamic_next_exit_flag tp e \<longleftrightarrow>
     (if th_loop_chunk_size tp > 0 then ptr_le (th_loop_end tp) e else ptr_le e (th_loop_end tp))"

definition clear_in_flags :: "int list \<Rightarrow> int \<Rightarrow> int list" where
  "clear_in_flags fs n = replicate (nat n) 0 @ drop (nat n) fs"

definition dynamic_next_exit :: "ompc_thread \<Rightarrow> ompc_thread" where
  "dynamic_next_exit tpp =
     (let tpp = tpp\<lparr>th_out_count := th_out_count tpp + 1\<rparr>
      in if th_out_count tpp = th_num_thds tpp
         then tpp\<lparr>th_out_count := 0, th_in_count := 0, th_in_flags := clear_in_flags (th_in_flags tpp) (th_num_thds tpp)\<rparr>
         else tpp)"

definition dynamic_next_result :: "ompc_thread \<Rightarrow> int \<Rightarrow> int \<Rightarrow> int \<Rightarrow> (int \<times> int) option \<times> ompc_thread" where
  "dynamic_next_result tp b e ubofs =
     (let tp = tp\<lparr>th_loop_sched_index := e\<rparr>
      in if th_loop_chunk_size tp > 0 then
           if ptr_le (th_loop_end tp) b then (None, tp)
           else if ptr_le (th_loop_end tp) e then (Some (b, th_loop_end tp - ubofs), tp\<lparr>th_is_last := 1\<rparr>)
           else (Some (b, e - ubofs), tp)
         else
           if ptr_le b (th_loop_end tp) then (None, tp)
           else if ptr_le e (th_loop_end tp) then (Some (b, th_loop_end tp - ubofs), tp\<lparr>th_is_last := 1\<rparr>)
           else (Some (b, e - ubofs), tp))"

text \<open>The call as a whole, when no other thread runs between its locked regions.\<close>

definition ompc_dynamic_sched_next_tid ::
  "ompc_thread \<Rightarrow> ompc_thread option \<Rightarrow> int \<Rightarrow> bool \<Rightarrow> ((int \<times> int) option \<times> ompc_thread \<times> ompc_thread option) res" where
  "ompc_dynamic_sched_next_tid tp tpp ubofs guided =
     (if ompc_get_num_threads tpp = 1 then (case sched_next_serial tp ubofs of (r, tp) \<Rightarrow> Inr (r, tp, tpp))
      else
        bind_res (dynamic_next_take tp (the tpp) guided) (\<lambda>((b, e), p).
          if dynamic_next_done tp then Inr (None, tp, Some p)
          else let p = (if dynamic_next_exit_flag tp e then dynamic_next_exit p else p);
                   (r, tp) = dynamic_next_result tp b e ubofs
               in Inr (r, tp, Some p)))"

subsection \<open>The runtime schedule\<close>

datatype sched_kind = SCHED_NONE | SCHED_STATIC | SCHED_DYNAMIC | SCHED_GUIDED

record runtime_sched =
  ompc_runtime_sched_kind :: sched_kind
  ompc_runtime_chunk_size :: int

definition runtime_sched0 :: runtime_sched where
  "runtime_sched0 = \<lparr>ompc_runtime_sched_kind = SCHED_NONE, ompc_runtime_chunk_size = 0\<rparr>"

definition isspace :: "char \<Rightarrow> bool" where
  "isspace c \<longleftrightarrow> c \<in> {CHR '' '', CHR 0x09, CHR 0x0A, CHR 0x0B, CHR 0x0C, CHR 0x0D}"

definition isdigit :: "char \<Rightarrow> bool" where
  "isdigit c \<longleftrightarrow> 48 \<le> (of_char c :: int) \<and> (of_char c :: int) \<le> 57"

definition starts_with :: "string \<Rightarrow> string \<Rightarrow> bool" where
  "starts_with p cp \<longleftrightarrow> take (length p) cp = p"

text \<open>
  The number \<open>sscanf\<close> reads with \<open>%d\<close> where the text starts with a digit. Numbers that an \<open>int\<close> cannot hold are
  undefined in C; as the C library does it, they are read as a \<open>long\<close>, cut off at the largest one, and converted.
\<close>

fun scan_digits :: "int \<Rightarrow> string \<Rightarrow> int" where
  "scan_digits acc [] = acc"
| "scan_digits acc (c # cs) = (if isdigit c then scan_digits (10 * acc + (of_char c - 48)) cs else acc)"

definition sscanf_int :: "string \<Rightarrow> int" where
  "sscanf_int cp = int32 (min (scan_digits 0 cp) 9223372036854775807)"

text \<open>The cursor behind the name of the kind, and the kind; both stay when there is no name.\<close>

definition scan_kind :: "sched_kind \<Rightarrow> string \<Rightarrow> string \<times> sched_kind" where
  "scan_kind k cp =
     (if starts_with ''static'' cp then (drop 6 cp, SCHED_STATIC)
      else if starts_with ''dynamic'' cp then (drop 7 cp, SCHED_DYNAMIC)
      else if starts_with ''guided'' cp then (drop 6 cp, SCHED_GUIDED)
      else (cp, k))"

definition ompc_set_runtime_schedule :: "runtime_sched \<Rightarrow> string \<Rightarrow> runtime_sched res" where
  "ompc_set_runtime_schedule r s =
     (let cp = dropWhile isspace s
      in if cp = [] then Inr r
         else let (cp, k) = scan_kind (ompc_runtime_sched_kind r) cp;
                  r = r\<lparr>ompc_runtime_sched_kind := k\<rparr>;
                  cp = dropWhile isspace cp
              in if cp = [] then Inr r
                 else if hd cp \<noteq> CHR '','' then Inl (Fatal ''bad OMP_SCHEDULE'')
                 else let cp = dropWhile isspace (List.tl cp)
                      in if cp = [] \<or> \<not> isdigit (hd cp) then Inl (Fatal ''bad OMP_SCHEDULE'')
                         else let c = sscanf_int cp
                              in if c \<le> 0 then Inl (Fatal ''bad OMP_SCHEDULE'')
                                 else Inr (r\<lparr>ompc_runtime_chunk_size := c\<rparr>))"

definition runtime_static_chunk :: "int \<Rightarrow> int \<Rightarrow> int \<Rightarrow> int \<Rightarrow> int \<Rightarrow> int \<Rightarrow> int res" where
  "runtime_static_chunk chunk_size lb up ubofs step n_thd =
     (if chunk_size \<le> 0 then
        let w = int32 (step * n_thd)
        in if w = 0 then Inl BadArith
           else let c = int32 ((up + ubofs - lb) sdiv w + (if (up + ubofs - lb) smod w \<noteq> 0 then 1 else 0))
                in Inr (if c \<le> 0 then 1 else c)
      else Inr chunk_size)"

text \<open>For the dynamic kinds the result is the thread before it waits for its flag.\<close>

definition ompc_runtime_sched_init ::
  "runtime_sched \<Rightarrow> ompc_thread \<Rightarrow> ompc_thread option \<Rightarrow> int \<Rightarrow> int \<Rightarrow> int \<Rightarrow> int \<Rightarrow> ompc_thread res" where
  "ompc_runtime_sched_init r tp tpp lb up ubofs step =
     (let chunk_size = ompc_runtime_chunk_size r
      in if ompc_runtime_sched_kind r \<in> {SCHED_DYNAMIC, SCHED_GUIDED}
         then dynamic_init_local tp tpp lb up ubofs step (if chunk_size \<le> 0 then 1 else chunk_size)
         else bind_res (runtime_static_chunk chunk_size lb up ubofs step (ompc_get_num_threads tpp))
                (ompc_static_sched_init_tid tp tpp lb up ubofs step))"

definition ompc_runtime_sched_next ::
  "runtime_sched \<Rightarrow> ompc_thread \<Rightarrow> ompc_thread option \<Rightarrow> int \<Rightarrow>
   ((int \<times> int) option \<times> ompc_thread \<times> ompc_thread option) res" where
  "ompc_runtime_sched_next r tp tpp ubofs =
     (case ompc_runtime_sched_kind r of
        SCHED_DYNAMIC \<Rightarrow> ompc_dynamic_sched_next_tid tp tpp ubofs False
      | SCHED_GUIDED \<Rightarrow> ompc_dynamic_sched_next_tid tp tpp ubofs True
      | _ \<Rightarrow> (case ompc_static_sched_next_tid tp tpp ubofs of (c, tp) \<Rightarrow> Inr (c, tp, tpp)))"

subsection \<open>Sections\<close>

definition ompc_section_init :: "ompc_thread \<Rightarrow> int \<Rightarrow> ompc_thread" where
  "ompc_section_init tp n_sections =
     tp\<lparr>th_section_id := th_num tp, th_last_section_id := n_sections - 1, th_is_last := 0\<rparr>"

definition ompc_section_id :: "ompc_thread \<Rightarrow> ompc_thread option \<Rightarrow> int \<times> ompc_thread" where
  "ompc_section_id tp tpp =
     (let ident = th_section_id tp;
          tp = tp\<lparr>th_section_id := th_section_id tp + ompc_get_num_threads tpp\<rparr>
      in (ident, if ident = th_last_section_id tp then tp\<lparr>th_is_last := 1\<rparr> else tp))"

subsection \<open>Single and ordered regions\<close>

text \<open>
  The locked region of \<open>ompc_do_single_tid\<close>, which a thread enters when its flag is clear. The loop that
  clears the flags counts in \<open>id\<close>; the other branch still has the number of the thread there.
\<close>

definition do_single_locked :: "ompc_thread \<Rightarrow> ompc_thread \<Rightarrow> int \<times> ompc_thread" where
  "do_single_locked tp tpp =
     (let n = th_num_thds tpp; ident = th_num tp;
          ret = (if th_out_count tpp = 0 then 1 else 0);
          tpp = tpp\<lparr>th_out_count := th_out_count tpp + 1\<rparr>
      in (ret, if th_out_count tpp = n
               then tpp\<lparr>th_in_flags := clear_in_flags (th_in_flags tpp) n, th_out_count := 0\<rparr>
               else tpp\<lparr>th_in_flags := (th_in_flags tpp)[nat ident := 1]\<rparr>))"

text \<open>\<open>None\<close> when the thread is still waiting for its flag.\<close>

definition ompc_do_single_tid :: "ompc_thread \<Rightarrow> ompc_thread option \<Rightarrow> (int \<times> ompc_thread option) option" where
  "ompc_do_single_tid tp tpp =
     (if ompc_get_num_threads tpp = 1 then Some (1, tpp)
      else let p = the tpp
           in if in_flag_set p (th_num tp) then None
              else case do_single_locked tp p of (ret, p) \<Rightarrow> Some (ret, Some p))"

definition ompc_set_loop_id :: "ompc_thread \<Rightarrow> int \<Rightarrow> ompc_thread" where
  "ompc_set_loop_id tp i = tp\<lparr>th_loop_id := i\<rparr>"

definition init_ordered_locked :: "ompc_thread \<Rightarrow> ompc_thread \<Rightarrow> int \<Rightarrow> int \<Rightarrow> ompc_thread" where
  "init_ordered_locked tp tpp lb step =
     (let n = th_num_thds tpp; ident = th_num tp;
          tpp = (if th_out_count tpp = 0 then tpp\<lparr>th_ordered_id := lb, th_ordered_step := step\<rparr> else tpp);
          tpp = tpp\<lparr>th_out_count := th_out_count tpp + 1\<rparr>
      in if th_out_count tpp = n
         then tpp\<lparr>th_in_flags := clear_in_flags (th_in_flags tpp) n, th_out_count := 0\<rparr>
         else tpp\<lparr>th_in_flags := (th_in_flags tpp)[nat ident := 1]\<rparr>)"

definition ompc_init_ordered :: "ompc_thread \<Rightarrow> ompc_thread option \<Rightarrow> int \<Rightarrow> int \<Rightarrow> ompc_thread option option" where
  "ompc_init_ordered tp tpp lb step =
     (if ompc_get_num_threads tpp = 1 then Some tpp
      else let p = the tpp
           in if in_flag_set p (th_num tp) then None else Some (Some (init_ordered_locked tp p lb step)))"

text \<open>\<open>ompc_ordered_begin\<close> returns when this holds.\<close>

definition ordered_begin_ready :: "ompc_thread \<Rightarrow> ompc_thread option \<Rightarrow> bool" where
  "ordered_begin_ready tp tpp \<longleftrightarrow>
     ompc_get_num_threads tpp = 1 \<or> th_loop_id tp = th_ordered_id (the tpp)"

definition ompc_ordered_end :: "ompc_thread option \<Rightarrow> ompc_thread option" where
  "ompc_ordered_end tpp =
     (if ompc_get_num_threads tpp = 1 then tpp
      else let p = the tpp in Some (p\<lparr>th_ordered_id := th_ordered_id p + th_ordered_step p\<rparr>))"

end
