(* ===== verification/Ompc_Sched_Laws.thy ===== *)
theory Ompc_Sched_Laws
  imports Ompc_Runtime
begin

text \<open>
  The static schedules of the OpenMP runtime divide the iterations of a loop: every iteration runs on exactly one
  thread of the team, and the thread that runs the last one knows it.
\<close>

subsection \<open>Loops in steps\<close>

text \<open>The test of a loop with step \<open>s\<close>, and its iterations by number.\<close>

definition ahead :: "int \<Rightarrow> int \<Rightarrow> int \<Rightarrow> bool" where
  "ahead s x y \<longleftrightarrow> (if s > 0 then x < y else y < x)"

lemma loop_iters_image:
  assumes "s \<noteq> 0"
  shows "loop_iters a b s = (\<lambda>k. a + k * s) ` {k. 0 \<le> k \<and> ahead s (a + k * s) b}"
proof (intro set_eqI iffI)
  fix i assume i: "i \<in> loop_iters a b s"
  then have "s dvd (i - a)" by (auto simp: loop_iters_def split: if_splits)
  then obtain k where "i - a = s * k" by (rule dvdE)
  then have k: "i = a + k * s" by (simp add: algebra_simps)
  with i assms have "0 \<le> k" by (auto simp: loop_iters_def zero_le_mult_iff mult_le_0_iff split: if_splits)
  with i k assms show "i \<in> (\<lambda>k. a + k * s) ` {k. 0 \<le> k \<and> ahead s (a + k * s) b}"
    by (auto simp: loop_iters_def ahead_def split: if_splits)
qed (use assms in \<open>auto simp: loop_iters_def ahead_def zero_le_mult_iff mult_le_0_iff\<close>)

lemma ahead_mono:
  assumes "s \<noteq> 0" "j \<le> k" "ahead s (a + k * s) b"
  shows "ahead s (a + j * s) b"
proof (cases "s > 0")
  case True
  with assms have "j * s \<le> k * s" "a + k * s < b" by (simp_all add: ahead_def)
  then have "a + j * s < b" by linarith
  with True show ?thesis by (simp add: ahead_def)
next
  case False
  with assms have "k * s \<le> j * s" "b < a + k * s" by (simp_all add: ahead_def mult_right_mono_neg)
  then have "b < a + j * s" by linarith
  with False show ?thesis by (simp add: ahead_def)
qed

lemma ahead_step: "s \<noteq> 0 \<Longrightarrow> ahead s (a + j * s) (a + k * s) \<longleftrightarrow> j < k"
  by (auto simp: ahead_def)

text \<open>The number of iterations, as the runtime computes it.\<close>

definition trip_count :: "int \<Rightarrow> int \<Rightarrow> int \<Rightarrow> int" where
  "trip_count a b s = (if s > 0 then (b - a + s - 1) sdiv s else (b - a + s + 1) sdiv s)"

lemma sdiv_minus: "(- x) sdiv (- y) = (x::int) sdiv y" "(- x) sdiv y = - ((x::int) sdiv y)"
  by (simp_all add: signed_divide_int_def sgn_if)

lemma less_sdiv_iff: "0 \<le> k \<Longrightarrow> 0 < s \<Longrightarrow> k < x sdiv s \<longleftrightarrow> (k + 1) * s \<le> x" for x :: int
proof (cases "0 \<le> x")
  case True
  assume "0 \<le> k" "0 < s"
  with True show ?thesis using le_div_iff [of s "k + 1" x] by (simp add: less_iff_succ_less_eq)
next
  case False
  assume k: "0 \<le> k" "0 < s"
  with False have "x sdiv s \<le> 0" "0 \<le> (k + 1) * s" by (simp_all add: sdiv_neg pos_imp_zdiv_nonneg_iff)
  with False k show ?thesis by linarith
qed

lemma trip_count_iff:
  assumes "s \<noteq> 0" "0 \<le> k"
  shows "k < trip_count a b s \<longleftrightarrow> ahead s (a + k * s) b"
proof (cases "s > 0")
  case True
  with assms show ?thesis by (simp add: trip_count_def ahead_def less_sdiv_iff distrib_right) linarith
next
  case False
  with assms have s: "0 < - s" by simp
  have "trip_count a b s = (a - b + (- s) - 1) sdiv (- s)"
    using False sdiv_minus(1) [of "b - a + s + 1" s] unfolding trip_count_def by (simp add: algebra_simps del: sdiv_minus)
  with less_sdiv_iff [OF assms(2) s] False show ?thesis by (simp add: ahead_def distrib_right) linarith
qed

lemma loop_iters_count: "s \<noteq> 0 \<Longrightarrow> loop_iters a b s = (\<lambda>k. a + k * s) ` {0..<trip_count a b s}"
  unfolding loop_iters_image using trip_count_iff by (intro image_cong) auto

lemma mem_loop_iters: "s \<noteq> 0 \<Longrightarrow> i \<in> loop_iters a b s \<longleftrightarrow> (\<exists>k. i = a + k * s \<and> 0 \<le> k \<and> k < trip_count a b s)"
  by (auto simp: loop_iters_count)

text \<open>Iteration \<open>i\<close> is the last one when \<open>i + s\<close> is none.\<close>

lemma last_iter_iff:
  assumes "s \<noteq> 0" "0 \<le> k" "k < trip_count a b s"
  shows "a + k * s + s \<notin> loop_iters a b s \<longleftrightarrow> k = trip_count a b s - 1"
proof -
  have "a + k * s + s = a + l * s \<longleftrightarrow> l = k + 1" for l
    using mult_right_cancel [OF assms(1), of l "k + 1"] by (auto simp: distrib_right)
  then show ?thesis using assms by (simp add: mem_loop_iters) linarith
qed

text \<open>The part of a loop from iteration \<open>x\<close> up to iteration \<open>y\<close> or its end.\<close>

lemma span_iters:
  assumes s: "s \<noteq> 0" and x: "0 \<le> x" and e: "e = (if ahead s (a + y * s) b then a + y * s else b)"
  shows "loop_iters (a + x * s) e s = (\<lambda>k. a + k * s) ` {k. x \<le> k \<and> k < y \<and> k < trip_count a b s}"
proof -
  have ahead_e: "ahead s (a + k * s) e \<longleftrightarrow> k < y \<and> ahead s (a + k * s) b" for k
    using e ahead_step [OF s, of a k y] ahead_mono [OF s, of k y a b] ahead_mono [OF s, of y k a b] by (auto split: if_splits)
  have "loop_iters (a + x * s) e s = (\<lambda>k. a + (k + x) * s) ` {k. 0 \<le> k \<and> ahead s (a + (k + x) * s) e}"
    by (simp add: loop_iters_image [OF s] algebra_simps)
  also have "\<dots> = (\<lambda>k. a + k * s) ` {k. x \<le> k \<and> ahead s (a + k * s) e}"
  proof (intro set_eqI iffI)
    fix v assume "v \<in> (\<lambda>k. a + k * s) ` {k. x \<le> k \<and> ahead s (a + k * s) e}"
    then obtain k where "v = a + k * s" "x \<le> k" "ahead s (a + k * s) e" by auto
    then show "v \<in> (\<lambda>k. a + (k + x) * s) ` {k. 0 \<le> k \<and> ahead s (a + (k + x) * s) e}"
      by (intro image_eqI [where x = "k - x"]) auto
  qed auto
  also have "{k. x \<le> k \<and> ahead s (a + k * s) e} = {k. x \<le> k \<and> k < y \<and> k < trip_count a b s}"
    using x by (auto simp: ahead_e trip_count_iff [OF s])
  finally show ?thesis .
qed

lemma between_iters:
  assumes s: "s \<noteq> 0"
  shows "a + k * s \<in> loop_iters (a + x * s) (a + y * s) s \<longleftrightarrow> x \<le> k \<and> k < y"
proof -
  have "a + k * s = a + x * s + j * s \<longleftrightarrow> j = k - x" for j
    using mult_right_cancel [OF s, of k "x + j"] by (auto simp: distrib_right)
  then have "a + k * s \<in> loop_iters (a + x * s) (a + y * s) s \<longleftrightarrow> 0 \<le> k - x \<and> ahead s (a + x * s + (k - x) * s) (a + y * s)"
    unfolding loop_iters_image [OF s] by auto
  also have "a + x * s + (k - x) * s = a + k * s" by (simp add: algebra_simps)
  finally show ?thesis by (simp add: ahead_step [OF s])
qed

text \<open>A part between two multiples of a block of \<open>c\<close> iterations.\<close>

lemma block_iters:
  assumes s: "s \<noteq> 0" and c: "0 < c" and j: "0 \<le> j"
    and e: "e = (if ahead s (a + (j + 1) * c * s) b then a + (j + 1) * c * s else b)"
  shows "loop_iters (a + j * c * s) e s = (\<lambda>k. a + k * s) ` {k. 0 \<le> k \<and> k < trip_count a b s \<and> k div c = j}"
proof -
  define x y where "x = j * c" and "y = (j + 1) * c"
  have x: "0 \<le> x" using c j by (simp add: x_def)
  have "k div c = j \<longleftrightarrow> x \<le> k \<and> k < y" for k
    unfolding x_def y_def using le_div_iff [OF c, of j k] div_less_iff [OF c, of k "j + 1"] by linarith
  with x have "(0 \<le> k \<and> k < trip_count a b s \<and> k div c = j) \<longleftrightarrow> (x \<le> k \<and> k < y \<and> k < trip_count a b s)" for k
    by (metis order_trans)
  then have "{k. 0 \<le> k \<and> k < trip_count a b s \<and> k div c = j} = {k. x \<le> k \<and> k < y \<and> k < trip_count a b s}" by simp
  with span_iters [OF s x, of e a y b] e show ?thesis by (simp only: x_def y_def)
qed

text \<open>The iterations of the loop that a thread runs between \<open>*lb\<close> and \<open>*up\<close>.\<close>

definition omp_end :: "int \<Rightarrow> int \<Rightarrow> int \<Rightarrow> int" where
  "omp_end up ubofs s = (if s > 0 then up + ubofs else up - ubofs)"

definition omp_iters :: "int \<Rightarrow> int \<Rightarrow> int \<Rightarrow> int \<Rightarrow> int set" where
  "omp_iters lb up ubofs s = loop_iters lb (omp_end up ubofs s) s"

subsection \<open>Teams\<close>

text \<open>
  A loop in a team: a thread descriptor, to be numbered, the descriptor of the parent, and the loop \<open>lb\<close>, \<open>up\<close>,
  \<open>ubofs\<close>, \<open>step\<close>.
\<close>

type_synonym omp_loop = "ompc_thread \<times> ompc_thread \<times> int \<times> int \<times> int \<times> int"

definition team_loop_ok :: "omp_loop \<Rightarrow> bool" where
  "team_loop_ok d \<longleftrightarrow> (case d of (tp, p, lb, up, ubofs, s) \<Rightarrow> 0 < th_num_thds p \<and> s \<noteq> 0)"

definition team_serial :: "omp_loop \<Rightarrow> int set" where
  "team_serial d = (case d of (tp, p, lb, up, ubofs, s) \<Rightarrow> omp_iters lb up ubofs s)"

definition team_ranks :: "omp_loop \<Rightarrow> int set" where
  "team_ranks d = (case d of (tp, p, l) \<Rightarrow> {0..<th_num_thds p})"

text \<open>What a thread runs, and whether it has been told that it runs the last iteration.\<close>

definition sched_run :: "int \<Rightarrow> ompc_thread \<times> int \<times> int \<times> int \<Rightarrow> int set" where
  "sched_run ubofs r = (case r of (tp, lb, up, step) \<Rightarrow> omp_iters lb up ubofs step)"

lemma sched_run_simp [simp]: "sched_run ubofs (tp, lb, up, step) = omp_iters lb up ubofs step"
  by (simp add: sched_run_def)

lemma num_threads_Some [simp]: "ompc_get_num_threads (Some p) = th_num_thds p"
  by (simp add: ompc_get_num_threads_def)

subsection \<open>Cyclic schedule\<close>

definition csched_thread :: "omp_loop \<Rightarrow> int \<Rightarrow> (ompc_thread \<times> int \<times> int \<times> int) res" where
  "csched_thread d r = (case d of (tp, p, lb, up, ubofs, s) \<Rightarrow> ompc_static_csched_tid (tp\<lparr>th_num := r\<rparr>) (Some p) lb up ubofs s)"

definition csched_run :: "omp_loop \<Rightarrow> int \<Rightarrow> int set" where
  "csched_run d r = (case d of (tp, p, lb, up, ubofs, s) \<Rightarrow> sched_run ubofs (projr (csched_thread d r)))"

text \<open>The first iteration of a thread and the step it uses are computed with products of type \<open>int\<close>.\<close>

definition cyclic_loop_ok :: "omp_loop \<Rightarrow> bool" where
  "cyclic_loop_ok d \<longleftrightarrow> team_loop_ok d \<and> (case d of (tp, p, lb, up, ubofs, s) \<Rightarrow> fits32 (s * th_num_thds p))"

definition csched_owner :: "omp_loop \<Rightarrow> int \<Rightarrow> int" where
  "csched_owner d i = (case d of (tp, p, lb, up, ubofs, s) \<Rightarrow> ((i - lb) div s) mod th_num_thds p)"

lemma cyclic_iters:
  assumes s: "s \<noteq> 0" and n: "0 < n" and r: "0 \<le> r" "r < n"
  shows "loop_iters (a + r * s) b (s * n) = (\<lambda>k. a + k * s) ` {k. 0 \<le> k \<and> k < trip_count a b s \<and> k mod n = r}"
proof -
  have sn: "s * n \<noteq> 0" using s n by simp
  have dir: "ahead (s * n) x y = ahead s x y" for x y using n by (auto simp: ahead_def zero_less_mult_iff)
  have "loop_iters (a + r * s) b (s * n) = (\<lambda>k. a + (r + k * n) * s) ` {k. 0 \<le> k \<and> ahead s (a + (r + k * n) * s) b}"
  proof -
    have "a + r * s + k * (s * n) = a + (r + k * n) * s" for k by (simp add: algebra_simps)
    then show ?thesis by (simp only: loop_iters_image [OF sn] dir)
  qed
  also have "\<dots> = (\<lambda>k. a + k * s) ` {k. 0 \<le> k \<and> ahead s (a + k * s) b \<and> k mod n = r}"
  proof (intro set_eqI iffI)
    fix x assume "x \<in> (\<lambda>k. a + k * s) ` {k. 0 \<le> k \<and> ahead s (a + k * s) b \<and> k mod n = r}"
    then obtain k where k: "x = a + k * s" "0 \<le> k" "ahead s (a + k * s) b" "k mod n = r" by auto
    then have "r + k div n * n = k" by (metis add.commute div_mult_mod_eq)
    with k n show "x \<in> (\<lambda>k. a + (r + k * n) * s) ` {k. 0 \<le> k \<and> ahead s (a + (r + k * n) * s) b}"
      by (intro image_eqI [where x = "k div n"]) (auto simp: pos_imp_zdiv_nonneg_iff)
  next
    fix x assume "x \<in> (\<lambda>k. a + (r + k * n) * s) ` {k. 0 \<le> k \<and> ahead s (a + (r + k * n) * s) b}"
    then obtain k where k: "x = a + (r + k * n) * s" "0 \<le> k" "ahead s (a + (r + k * n) * s) b" by auto
    with n r show "x \<in> (\<lambda>k. a + k * s) ` {k. 0 \<le> k \<and> ahead s (a + k * s) b \<and> k mod n = r}"
      by (intro image_eqI [where x = "r + k * n"]) auto
  qed
  finally show ?thesis using trip_count_iff [OF s] by (simp cong: conj_cong)
qed

lemma fits32_part:
  assumes "fits32 (x * n)" "0 \<le> r" "r \<le> n"
  shows "fits32 (x * r)" "fits32 (r * x)"
proof -
  have "0 \<le> x * r \<and> x * r \<le> x * n" if "0 \<le> x" using that assms by (simp add: mult_left_mono)
  moreover have "x * r \<le> 0 \<and> x * n \<le> x * r" if "x \<le> 0" using that assms by (simp add: mult_nonpos_nonneg mult_left_mono_neg)
  ultimately show *: "fits32 (x * r)" using assms(1) unfolding fits32_def by linarith
  then show "fits32 (r * x)" by (simp add: mult.commute)
qed

lemma csched_run_eq:
  assumes "0 < th_num_thds p" "s \<noteq> 0" "0 \<le> r" "r < th_num_thds p" and f: "fits32 (s * th_num_thds p)"
  shows "csched_run (tp, p, lb, up, ubofs, s) r =
    (\<lambda>k. lb + k * s) ` {k. 0 \<le> k \<and> k < trip_count lb (omp_end up ubofs s) s \<and> k mod th_num_thds p = r}"
proof -
  have dir: "omp_end up ubofs (s * th_num_thds p) = omp_end up ubofs s"
    using assms(1) by (auto simp: omp_end_def zero_less_mult_iff)
  have "csched_run (tp, p, lb, up, ubofs, s) r = loop_iters (lb + r * s) (omp_end up ubofs s) (s * th_num_thds p)"
  proof (cases "th_num_thds p = 1")
    case True
    with assms have "r = 0" by simp
    with True show ?thesis by (simp add: csched_run_def csched_thread_def ompc_static_csched_tid_def omp_iters_def)
  next
    case False
    then show ?thesis using assms(2-4) f fits32_part(2) [OF f, of r]
      by (simp add: csched_run_def csched_thread_def ompc_static_csched_tid_def Let_def omp_iters_def dir)
  qed
  then show ?thesis using cyclic_iters [OF assms(2,1,3,4)] by simp
qed

lemma image_owned:
  assumes "s \<noteq> 0"
  shows "i \<in> (\<lambda>k. lb + k * s) ` {k. 0 \<le> k \<and> k < trip_count lb e s \<and> f k = r} \<longleftrightarrow>
    i \<in> loop_iters lb e s \<and> f ((i - lb) div s) = r"
  using assms by (auto simp: mem_loop_iters)

interpretation omp_cyclic: distribution cyclic_loop_ok team_serial team_ranks csched_run csched_owner
  by unfold_locales
    (auto simp: cyclic_loop_ok_def team_loop_ok_def team_serial_def team_ranks_def csched_run_eq csched_owner_def image_owned omp_iters_def)

text \<open>The thread with the last iteration, for a schedule that gives iteration number \<open>k\<close> to thread \<open>f k\<close>.\<close>

lemma last_owner:
  assumes s: "s \<noteq> 0" and ne: "loop_iters lb e s \<noteq> {}"
    and R: "R = (\<lambda>k. lb + k * s) ` {k. 0 \<le> k \<and> k < trip_count lb e s \<and> f k = r}"
  shows "(\<exists>i \<in> R. i + s \<notin> loop_iters lb e s) \<longleftrightarrow> f (trip_count lb e s - 1) = r"
proof -
  have "0 < trip_count lb e s" using ne by (auto simp: mem_loop_iters [OF s])
  then show ?thesis unfolding R using last_iter_iff [OF s] by fastforce
qed

lemma csched_is_last:
  assumes n: "0 < th_num_thds p" and s: "s \<noteq> 0" and r: "0 \<le> r" "r < th_num_thds p"
    and sn: "fits32 (s * th_num_thds p)"
    and f: "fits32 (trip_count lb (omp_end up ubofs s) s)" and C: "0 < s \<or> ubofs = 0" and ne: "omp_iters lb up ubofs s \<noteq> {}"
  shows "ompc_is_last (fst (projr (ompc_static_csched_tid (tp\<lparr>th_num := r\<rparr>) (Some p) lb up ubofs s))) (Some p) \<longleftrightarrow>
    (\<exists>i \<in> csched_run (tp, p, lb, up, ubofs, s) r. i + s \<notin> omp_iters lb up ubofs s)"
proof -
  let ?N = "trip_count lb (omp_end up ubofs s) s" and ?n = "th_num_thds p"
  note ne' = ne [unfolded omp_iters_def]
  have N: "0 < ?N" using ne' by (auto simp: mem_loop_iters [OF s])
  have "int32 (if s > 0 then (up + ubofs - lb + s - 1) sdiv s else (up + ubofs - lb + s + 1) sdiv s) = ?N"
    using C s int32_id [OF f] unfolding trip_count_def omp_end_def by auto
  moreover have "(?N - 1) smod ?n = (?N - 1) mod ?n" using N n by simp
  moreover have "?n = 1 \<Longrightarrow> r = 0" using r by simp
  ultimately have "ompc_is_last (fst (projr (ompc_static_csched_tid (tp\<lparr>th_num := r\<rparr>) (Some p) lb up ubofs s))) (Some p) \<longleftrightarrow>
      (?N - 1) mod ?n = r"
    using N s by (simp add: ompc_static_csched_tid_def ompc_is_last_def Let_def)
  then show ?thesis unfolding omp_iters_def using last_owner [OF s ne' csched_run_eq [OF n s r sn]] by simp
qed

text \<open>
  Cyclic schedule: the threads of a team run every iteration of a loop exactly once between them, whatever the
  sign of the step, and \<open>ompc_is_last\<close> holds on the thread that runs the last iteration and on no other (of loops
  with a negative step, those of C programs). The step times the size of the team must fit an \<open>int\<close>.
\<close>

theorem csched_runs_once:
  assumes "0 < th_num_thds p" and "s \<noteq> 0" and "fits32 (s * th_num_thds p)"
    and "T = (\<lambda>r. projr (ompc_static_csched_tid (tp\<lparr>th_num := r\<rparr>) (Some p) lb up ubofs s))"
  shows "(\<Union>r \<in> {0..<th_num_thds p}. sched_run ubofs (T r)) = omp_iters lb up ubofs s \<and>
    (\<forall>i \<in> omp_iters lb up ubofs s. \<exists>!r. r \<in> {0..<th_num_thds p} \<and> i \<in> sched_run ubofs (T r)) \<and>
    (fits32 (trip_count lb (omp_end up ubofs s) s) \<and> (0 < s \<or> ubofs = 0) \<and> omp_iters lb up ubofs s \<noteq> {} \<longrightarrow>
      (\<forall>r \<in> {0..<th_num_thds p}. ompc_is_last (fst (T r)) (Some p) \<longleftrightarrow>
        (\<exists>i \<in> sched_run ubofs (T r). i + s \<notin> omp_iters lb up ubofs s)))"
proof -
  let ?d = "(tp, p, lb, up, ubofs, s)"
  have d: "cyclic_loop_ok ?d" "team_serial ?d = omp_iters lb up ubofs s" "team_ranks ?d = {0..<th_num_thds p}"
    using assms by (simp_all add: cyclic_loop_ok_def team_loop_ok_def team_serial_def team_ranks_def)
  have T: "sched_run ubofs (T r) = csched_run ?d r" for r by (simp add: assms(4) csched_run_def csched_thread_def)
  show ?thesis
    unfolding T using omp_cyclic.cover [OF d(1)] omp_cyclic.one_owner [OF d(1)] csched_is_last [OF assms(1,2) _ _ assms(3)]
    by (simp add: d assms(4))
qed

theorem csched_runs_once_witness:
  "let T = (\<lambda>r. projr (ompc_static_csched_tid ((thread0 1)\<lparr>th_num := r\<rparr>) (Some (thread0 3)) 9 0 0 (- 2)))
   in 0 < th_num_thds (thread0 3) \<and> (\<Union>r \<in> {0..<3}. sched_run 0 (T r)) = omp_iters 9 0 0 (- 2) \<and>
      (\<exists>!r. r \<in> {0..<3} \<and> 5 \<in> sched_run 0 (T r)) \<and> ompc_is_last (fst (T 1)) (Some (thread0 3))"
proof -
  have i: "5 \<in> omp_iters 9 0 0 (- 2)" by (simp add: omp_iters_def omp_end_def loop_iters_def)
  have l: "ompc_is_last (fst (projr (ompc_static_csched_tid ((thread0 1)\<lparr>th_num := 1\<rparr>) (Some (thread0 3)) 9 0 0 (- 2)))) (Some (thread0 3))"
    by code_simp
  show ?thesis using csched_runs_once [where p = "thread0 3" and s = "- 2" and tp = "thread0 1" and lb = 9 and up = 0 and ubofs = 0, OF _ _ _ refl] i l
    by (simp add: Let_def fits32_def)
qed

subsection \<open>Block schedule\<close>

text \<open>The number of iterations in a block.\<close>

definition bsched_width :: "int \<Rightarrow> int \<Rightarrow> int \<Rightarrow> int \<Rightarrow> int" where
  "bsched_width lb e n s =
     (if s > 0 then (int32 ((e - lb + n - 1) sdiv n) + s - 1) sdiv s
      else (int32 ((e - lb - n + 1) sdiv n) + s + 1) sdiv s)"

text \<open>The length of the loop, and a step for every thread, fit an \<open>int\<close>.\<close>

definition span_ok :: "int \<Rightarrow> int \<Rightarrow> int \<Rightarrow> int \<Rightarrow> bool" where
  "span_ok lb e n s \<longleftrightarrow> \<bar>e - lb\<bar> + n + n * \<bar>s\<bar> < 2147483648"

lemma span_okD:
  assumes "span_ok lb e n s" "0 < n"
  shows "\<bar>e - lb\<bar> + n < 2147483648" "0 \<le> n * \<bar>s\<bar>" "\<bar>s\<bar> \<le> n * \<bar>s\<bar>"
proof -
  have "0 \<le> n * \<bar>s\<bar>" "1 * \<bar>s\<bar> \<le> n * \<bar>s\<bar>" using assms(2) by (simp, intro mult_right_mono) auto
  then show "\<bar>e - lb\<bar> + n < 2147483648" "0 \<le> n * \<bar>s\<bar>" "\<bar>s\<bar> \<le> n * \<bar>s\<bar>" using assms(1) unfolding span_ok_def by linarith+
qed

lemma round_up:
  assumes "0 < (n::int)"
  shows "d \<le> ((d + n - 1) sdiv n) * n" "0 < (d + n - 1) sdiv n \<longleftrightarrow> 0 < d" "\<bar>(d + n - 1) sdiv n\<bar> \<le> \<bar>d + n - 1\<bar>"
proof -
  let ?x = "d + n - 1"
  show "0 < ?x sdiv n \<longleftrightarrow> 0 < d" using less_sdiv_iff [of 0 n ?x] assms by auto
  show "d \<le> (?x sdiv n) * n"
  proof (cases "0 \<le> ?x")
    case True
    have "?x mod n < n" using assms by simp
    with minus_mod_eq_div_mult [of ?x n] have "d \<le> ?x div n * n" by linarith
    with True assms show ?thesis by simp
  next
    case False
    have "(- ?x) div n * n \<le> - ?x" using assms by (simp add: minus_mod_eq_div_mult [symmetric])
    with False assms have "?x \<le> (?x sdiv n) * n" by (simp add: sdiv_neg)
    with assms show ?thesis by linarith
  qed
  have "\<bar>?x\<bar> div n \<le> \<bar>?x\<bar> div 1" using assms by (intro zdiv_mono2) auto
  moreover have "0 \<le> \<bar>?x\<bar> div n" using assms by (simp add: pos_imp_zdiv_nonneg_iff)
  moreover have "\<bar>?x sdiv n\<bar> = \<bar>\<bar>?x\<bar> div n\<bar>" using assms by (cases "0 \<le> ?x") (simp_all add: sdiv_neg)
  ultimately show "\<bar>?x sdiv n\<bar> \<le> \<bar>?x\<bar>" by simp
qed

lemma bsched_width_neg:
  assumes "0 < n" "s < 0" "span_ok lb e n s"
  shows "bsched_width lb e n s = bsched_width (- lb) (- e) n (- s)"
proof -
  let ?x = "(lb - e) + n - 1"
  have "\<bar>?x sdiv n\<bar> < 2147483648" using round_up(3) [OF assms(1), of "lb - e"] span_okD(1) [OF assms(3,1)] assms(1) by linarith
  then have f: "fits32 (?x sdiv n)" "fits32 (- (?x sdiv n))" unfolding fits32_def by linarith+
  have "(e - lb - n + 1) sdiv n = - (?x sdiv n)" using sdiv_minus(2) [of ?x n] by (simp add: algebra_simps del: sdiv_minus)
  then show ?thesis
    using assms(2) f sdiv_minus(1) [of "?x sdiv n - s - 1" "- s"] by (simp add: bsched_width_def algebra_simps)
qed

lemma bsched_width_pos:
  assumes "0 < n" "0 < s" "span_ok lb e n s"
  shows "e - lb \<le> bsched_width lb e n s * n * s" "0 < bsched_width lb e n s \<longleftrightarrow> lb < e"
proof -
  let ?b = "(e - lb + n - 1) sdiv n" and ?m = "bsched_width lb e n s"
  have "\<bar>?b\<bar> < 2147483648" using round_up(3) [OF assms(1), of "e - lb"] span_okD(1) [OF assms(3,1)] assms(1) by linarith
  then have "fits32 ?b" unfolding fits32_def by linarith
  then have m: "?m = (?b + s - 1) sdiv s" using assms by (simp add: bsched_width_def)
  have "?b * n \<le> (?m * s) * n" using round_up(1) [OF assms(2), of ?b] assms by (intro mult_right_mono) (auto simp: m)
  with round_up(1) [OF assms(1), of "e - lb"] show "e - lb \<le> ?m * n * s" by (simp add: ac_simps)
  show "0 < ?m \<longleftrightarrow> lb < e" using round_up(2) [OF assms(2), of ?b] round_up(2) [OF assms(1), of "e - lb"] by (simp add: m)
qed

text \<open>No \<open>int\<close> overflows: the length of a block before and after it is rounded, and the distance of a block from the start.\<close>

lemma abs_sdiv_mult_le: "\<bar>x sdiv s\<bar> * \<bar>s\<bar> \<le> \<bar>x :: int\<bar>"
proof (cases "s = 0")
  case False
  have "\<bar>x sdiv s\<bar> * \<bar>s\<bar> \<le> \<bar>x\<bar> div \<bar>s\<bar> * \<bar>s\<bar>"
    by (intro mult_right_mono) (auto simp: signed_divide_int_def abs_mult sgn_if False pos_imp_zdiv_nonneg_iff)
  also have "\<dots> \<le> \<bar>x\<bar>" using False by (simp add: minus_mod_eq_div_mult [symmetric])
  finally show ?thesis .
qed simp

lemma bsched_ints:
  assumes n: "0 < n" and s: "s \<noteq> 0" and ok: "span_ok lb e n s"
    and x: "x = (if s > 0 then e - lb + n - 1 else e - lb - n + 1) sdiv n" and y: "y = (if s > 0 then x + s - 1 else x + s + 1)"
  shows "fits32 x" "fits32 y" "0 \<le> q \<Longrightarrow> q \<le> n \<Longrightarrow> fits32 (y sdiv s * s * q)"
proof -
  have "\<bar>if s > 0 then e - lb + n - 1 else e - lb - n + 1\<bar> \<le> \<bar>e - lb\<bar> + n - 1" using n by auto
  moreover have "\<bar>x\<bar> * n \<le> \<bar>if s > 0 then e - lb + n - 1 else e - lb - n + 1\<bar>" using abs_sdiv_mult_le [of _ n] n x by simp
  ultimately have xn: "\<bar>x\<bar> * n \<le> \<bar>e - lb\<bar> + n - 1" by linarith
  have yx: "\<bar>y\<bar> \<le> \<bar>x\<bar> + \<bar>s\<bar>" using s y by auto
  then have "\<bar>y\<bar> * n \<le> (\<bar>x\<bar> + \<bar>s\<bar>) * n" using n by (intro mult_right_mono) auto
  also have "\<dots> = \<bar>x\<bar> * n + n * \<bar>s\<bar>" by (simp add: algebra_simps)
  finally have yn: "\<bar>y\<bar> * n < 2147483648" using xn ok unfolding span_ok_def by linarith
  have le: "\<bar>z\<bar> \<le> \<bar>z\<bar> * n" for z :: int using mult_left_mono [of 1 n "\<bar>z\<bar>"] n by simp
  have "\<bar>x\<bar> < 2147483648" "\<bar>y\<bar> < 2147483648" using le [of x] le [of y] xn yn span_okD(1) [OF ok n] by linarith+
  then show "fits32 x" "fits32 y" unfolding fits32_def by linarith+
  assume q: "0 \<le> q" "q \<le> n"
  have "\<bar>y sdiv s * s\<bar> \<le> \<bar>y\<bar>" using abs_sdiv_mult_le [of y s] by (simp add: abs_mult)
  then have "\<bar>y sdiv s * s\<bar> * q \<le> \<bar>y\<bar> * n" using q by (intro mult_mono) auto
  then have "\<bar>y sdiv s * s * q\<bar> < 2147483648" using yn q by (simp add: abs_mult)
  then show "fits32 (y sdiv s * s * q)" unfolding fits32_def by linarith
qed

lemma ahead_neg: "s \<noteq> 0 \<Longrightarrow> ahead s x y \<longleftrightarrow> ahead (- s) (- x) (- y)"
  by (auto simp: ahead_def)

lemma bsched_width_cases:
  assumes n: "0 < n" and s: "s \<noteq> 0" and ok: "span_ok lb e n s"
  shows "\<not> ahead s (lb + bsched_width lb e n s * n * s) e" "0 < bsched_width lb e n s \<longleftrightarrow> ahead s lb e"
proof -
  have *: "\<not> ahead s (lb + bsched_width lb e n s * n * s) e \<and> (0 < bsched_width lb e n s \<longleftrightarrow> ahead s lb e)"
    if "0 < s" "span_ok lb e n s" for lb e s
    using bsched_width_pos [OF n that] that(1) by (auto simp: ahead_def)
  show "\<not> ahead s (lb + bsched_width lb e n s * n * s) e" "0 < bsched_width lb e n s \<longleftrightarrow> ahead s lb e"
  proof (atomize (full), cases "s > 0")
    case False
    with s have s': "0 < - s" by simp
    have "span_ok (- lb) (- e) n (- s)" using ok by (simp add: span_ok_def)
    from * [OF s' this] False s ok n bsched_width_neg [of n s lb e]
    show "\<not> ahead s (lb + bsched_width lb e n s * n * s) e \<and> (0 < bsched_width lb e n s) = ahead s lb e"
      by (simp add: ahead_neg [OF s] algebra_simps)
  qed (use * ok in blast)
qed

definition bsched_thread :: "omp_loop \<Rightarrow> int \<Rightarrow> ompc_thread \<times> int \<times> int \<times> int" where
  "bsched_thread d r = (case d of (tp, p, lb, up, ubofs, s) \<Rightarrow> ompc_static_bsched_tid (tp\<lparr>th_num := r\<rparr>) (Some p) lb up ubofs s)"

definition bsched_run :: "omp_loop \<Rightarrow> int \<Rightarrow> int set" where
  "bsched_run d r = (case d of (tp, p, lb, up, ubofs, s) \<Rightarrow> sched_run ubofs (bsched_thread d r))"

definition bsched_owner :: "omp_loop \<Rightarrow> int \<Rightarrow> int" where
  "bsched_owner d i = (case d of (tp, p, lb, up, ubofs, s) \<Rightarrow>
     ((i - lb) div s) div (if th_num_thds p = 1 then trip_count lb (omp_end up ubofs s) s
                           else bsched_width lb (omp_end up ubofs s) (th_num_thds p) s))"

lemma bsched_bounds:
  assumes "th_num_thds p \<noteq> 1" and "s \<noteq> 0" and "e = omp_end up ubofs s" and "m = bsched_width lb e (th_num_thds p) s"
    and n: "0 < th_num_thds p" and ok: "span_ok lb e (th_num_thds p) s" and r: "0 \<le> r" "r < th_num_thds p"
  shows "ompc_static_bsched_tid (tp\<lparr>th_num := r\<rparr>) (Some p) lb up ubofs s =
    (tp\<lparr>th_num := r, th_is_last := if \<not> ahead s (lb + (r + 1) * m * s) e \<and>
       (if s > 0 then ptr_less (lb + r * m * s) e else e < lb + r * m * s) then 1 else 0\<rparr>, lb + r * m * s,
     omp_end (if ahead s (lb + (r + 1) * m * s) e then lb + (r + 1) * m * s else e) (- ubofs) s, s)"
proof -
  have eqs: "lb + m * s * r = lb + r * m * s" "lb + r * m * s + m * s = lb + (r + 1) * m * s" by (simp_all add: algebra_simps)
  show ?thesis
  proof (cases "s > 0")
    case True
    let ?x = "(up + ubofs - lb + th_num_thds p - 1) sdiv th_num_thds p"
    note f = bsched_ints [OF n assms(2) ok refl refl]
    have f': "fits32 ?x" "fits32 (?x + s - 1)" "\<And>q. 0 \<le> q \<Longrightarrow> q \<le> th_num_thds p \<Longrightarrow> fits32 ((?x + s - 1) sdiv s * s * q)"
      using f True by (simp_all add: assms(3) omp_end_def)
    have m: "(?x + s - 1) sdiv s = m" using True f'(1) by (simp add: assms(3,4) bsched_width_def omp_end_def)
    have i: "int32 (m * s) = m * s" "int32 (m * s * r) = m * s * r" using f'(3) [of 1] f'(3) [of r] n r by (simp_all add: m)
    show ?thesis using assms(1) True f'(1,2)
      by (simp add: ompc_static_bsched_tid_def Let_def m i eqs ahead_def omp_end_def assms(3) not_less)
  next
    case False
    let ?x = "(up - ubofs - lb - th_num_thds p + 1) sdiv th_num_thds p"
    note f = bsched_ints [OF n assms(2) ok refl refl]
    have f': "fits32 ?x" "fits32 (?x + s + 1)" "\<And>q. 0 \<le> q \<Longrightarrow> q \<le> th_num_thds p \<Longrightarrow> fits32 ((?x + s + 1) sdiv s * s * q)"
      using f False by (simp_all add: assms(3) omp_end_def)
    have m: "(?x + s + 1) sdiv s = m" using False f'(1) by (simp add: assms(3,4) bsched_width_def omp_end_def)
    have i: "int32 (m * s) = m * s" "int32 (m * s * r) = m * s * r" using f'(3) [of 1] f'(3) [of r] n r by (simp_all add: m)
    show ?thesis using assms(1,2) False f'(1,2)
      by (simp add: ompc_static_bsched_tid_def Let_def m i eqs ahead_def omp_end_def assms(3) not_less)
  qed
qed

lemma omp_end_cancel [simp]: "omp_end (omp_end e (- ubofs) s) ubofs s = e"
  by (simp add: omp_end_def)

text \<open>The number of iterations of a block; one block when there is one thread.\<close>

definition bsched_block :: "omp_loop \<Rightarrow> int" where
  "bsched_block d = (case d of (tp, p, lb, up, ubofs, s) \<Rightarrow>
     (if th_num_thds p = 1 then trip_count lb (omp_end up ubofs s) s
      else bsched_width lb (omp_end up ubofs s) (th_num_thds p) s))"

lemma bsched_owner_eq: "bsched_owner (tp, p, lb, up, ubofs, s) i = ((i - lb) div s) div bsched_block (tp, p, lb, up, ubofs, s)"
  by (simp add: bsched_owner_def bsched_block_def)

lemma ahead_iff_iters: "s \<noteq> 0 \<Longrightarrow> ahead s lb e \<longleftrightarrow> loop_iters lb e s \<noteq> {}"
proof -
  assume s: "s \<noteq> 0"
  have "loop_iters lb e s \<noteq> {} \<longleftrightarrow> 0 < trip_count lb e s" by (simp add: loop_iters_count [OF s])
  then show ?thesis using trip_count_iff [OF s, of 0 lb e] by simp
qed

lemma bsched_run_eq:
  assumes n: "0 < th_num_thds p" and s: "s \<noteq> 0" and r: "0 \<le> r" "r < th_num_thds p"
    and e: "e = omp_end up ubofs s" and ok: "span_ok lb e (th_num_thds p) s" and ne: "loop_iters lb e s \<noteq> {}"
    and m: "m = bsched_block (tp, p, lb, up, ubofs, s)"
  shows "bsched_run (tp, p, lb, up, ubofs, s) r = (\<lambda>k. lb + k * s) ` {k. 0 \<le> k \<and> k < trip_count lb e s \<and> k div m = r}"
    and "0 < m" and "trip_count lb e s \<le> m * th_num_thds p"
proof (atomize (full), cases "th_num_thds p = 1")
  case True
  have "0 < trip_count lb e s" using ne by (auto simp: mem_loop_iters [OF s])
  moreover have "r = 0" "m = trip_count lb e s" using r True m e by (simp_all add: bsched_block_def)
  moreover have "bsched_run (tp, p, lb, up, ubofs, s) r = loop_iters lb e s"
    using True e by (simp add: bsched_run_def bsched_thread_def ompc_static_bsched_tid_def omp_iters_def)
  ultimately show "bsched_run (tp, p, lb, up, ubofs, s) r = (\<lambda>k. lb + k * s) ` {k. 0 \<le> k \<and> k < trip_count lb e s \<and> k div m = r}
      \<and> 0 < m \<and> trip_count lb e s \<le> m * th_num_thds p"
    using True by (auto simp: loop_iters_count [OF s])
next
  case False
  then have m': "m = bsched_width lb e (th_num_thds p) s" using m e by (simp add: bsched_block_def)
  note w = bsched_width_cases [OF n s ok, folded m']
  have m0: "0 < m" using w(2) ne by (simp add: ahead_iff_iters [OF s])
  have "bsched_run (tp, p, lb, up, ubofs, s) r =
      loop_iters (lb + r * m * s) (if ahead s (lb + (r + 1) * m * s) e then lb + (r + 1) * m * s else e) s"
    by (simp add: bsched_run_def bsched_thread_def bsched_bounds [OF False s e m' n ok r] omp_iters_def)
  moreover have "trip_count lb e s \<le> m * th_num_thds p"
    using w(1) trip_count_iff [OF s, of "m * th_num_thds p" lb e] m0 n by simp
  ultimately show "bsched_run (tp, p, lb, up, ubofs, s) r = (\<lambda>k. lb + k * s) ` {k. 0 \<le> k \<and> k < trip_count lb e s \<and> k div m = r}
      \<and> 0 < m \<and> trip_count lb e s \<le> m * th_num_thds p"
    using block_iters [OF s m0 r(1) refl, of lb e] m0 by simp
qed

lemma bsched_run_empty:
  assumes n: "0 < th_num_thds p" and s: "s \<noteq> 0" and r: "0 \<le> r" "r < th_num_thds p"
    and e: "e = omp_end up ubofs s" and ok: "span_ok lb e (th_num_thds p) s" and em: "loop_iters lb e s = {}"
  shows "bsched_run (tp, p, lb, up, ubofs, s) r = {}"
proof (cases "th_num_thds p = 1")
  case True
  then show ?thesis using em e by (simp add: bsched_run_def bsched_thread_def ompc_static_bsched_tid_def omp_iters_def)
next
  case False
  let ?n = "th_num_thds p"
  define m where "m = bsched_width lb e ?n s"
  note w = bsched_width_cases [OF n s ok, folded m_def]
  have m0: "m \<le> 0" using w(2) em ahead_iff_iters [OF s, of lb e] by auto
  have "m * ?n \<le> q * m" if "q \<le> ?n" for q using mult_left_mono_neg [OF that m0] by (simp add: mult.commute)
  then have "\<not> ahead s (lb + q * m * s) e" if "q \<le> ?n" for q using ahead_mono [OF s, of "m * ?n" "q * m" lb e] w(1) that by blast
  from this [of r] this [of "r + 1"] r
  have "\<not> ahead s (lb + r * m * s) e" "\<not> ahead s (lb + (r + 1) * m * s) e" by simp_all
  then show ?thesis
    by (simp add: bsched_run_def bsched_thread_def bsched_bounds [OF False s e m_def n ok r] omp_iters_def ahead_iff_iters [OF s])
qed

definition block_loop_ok :: "omp_loop \<Rightarrow> bool" where
  "block_loop_ok d \<longleftrightarrow> team_loop_ok d \<and> (case d of (tp, p, lb, up, ubofs, s) \<Rightarrow> span_ok lb (omp_end up ubofs s) (th_num_thds p) s)"

lemma bsched_part_iff:
  assumes ok: "block_loop_ok d" and r: "r \<in> team_ranks d"
  shows "i \<in> bsched_run d r \<longleftrightarrow> i \<in> team_serial d \<and> bsched_owner d i = r"
proof -
  obtain tp p lb up ubofs s where d: "d = (tp, p, lb, up, ubofs, s)" by (cases d) auto
  have a: "0 < th_num_thds p" "s \<noteq> 0" "0 \<le> r" "r < th_num_thds p" "span_ok lb (omp_end up ubofs s) (th_num_thds p) s"
    using ok r by (auto simp: d block_loop_ok_def team_loop_ok_def team_ranks_def)
  show ?thesis
  proof (cases "loop_iters lb (omp_end up ubofs s) s = {}")
    case True
    with a show ?thesis by (simp add: d bsched_run_empty team_serial_def omp_iters_def)
  next
    case False
    show ?thesis unfolding d bsched_run_eq(1) [OF a(1-4) refl a(5) False refl] image_owned [OF a(2)]
      by (simp add: team_serial_def omp_iters_def bsched_owner_eq)
  qed
qed

lemma bsched_owner_rank:
  assumes ok: "block_loop_ok d" and i: "i \<in> team_serial d"
  shows "bsched_owner d i \<in> team_ranks d"
proof -
  obtain tp p lb up ubofs s where d: "d = (tp, p, lb, up, ubofs, s)" by (cases d) auto
  let ?e = "omp_end up ubofs s"
  have a: "0 < th_num_thds p" "s \<noteq> 0" "span_ok lb ?e (th_num_thds p) s" "i \<in> loop_iters lb ?e s"
    using ok i by (auto simp: d block_loop_ok_def team_loop_ok_def team_serial_def omp_iters_def)
  from a(2,4) obtain k where k: "i = lb + k * s" "0 \<le> k" "k < trip_count lb ?e s" by (auto simp: mem_loop_iters)
  have "loop_iters lb ?e s \<noteq> {}" using a(4) by auto
  note m = bsched_run_eq(2,3) [OF a(1,2) order_refl a(1) refl a(3) this refl]
  let ?m = "bsched_block d"
  have "k < th_num_thds p * ?m" "0 < ?m" using k(3) m [of tp] unfolding d by (simp_all add: mult.commute)
  then have "k div ?m < th_num_thds p" "0 \<le> k div ?m" using k(2) by (simp_all add: div_less_iff pos_imp_zdiv_nonneg_iff)
  moreover have "bsched_owner d i = k div ?m" using k a(2) unfolding d by (simp add: bsched_owner_eq)
  ultimately show ?thesis by (simp add: d team_ranks_def)
qed

interpretation omp_block: distribution block_loop_ok team_serial team_ranks bsched_run bsched_owner
  by unfold_locales (auto simp: bsched_part_iff bsched_owner_rank)

text \<open>Pointers to addresses below the middle of the address space compare as the numbers do.\<close>

lemma ptr_cmp: "fitsu64 x \<Longrightarrow> fitsu64 y \<Longrightarrow> ptr_less x y = (x < y)" "fitsu64 x \<Longrightarrow> fitsu64 y \<Longrightarrow> ptr_le x y = (x \<le> y)"
  by (simp_all add: ptr_less_def ptr_le_def)

lemma bsched_start_fits:
  assumes n: "0 < n" and s: "0 < s" and ok: "span_ok lb e n s" and lb: "0 \<le> lb" "fits32 lb"
    and r: "0 \<le> r" "r < n" and m: "m = bsched_width lb e n s" "0 < m"
  shows "fitsu64 (lb + r * m * s)"
proof -
  have s': "s \<noteq> 0" using s by simp
  note f = bsched_ints [OF n s' ok refl refl]
  have "m = ((e - lb + n - 1) sdiv n + s - 1) sdiv s" using f(1) s m(1) by (simp add: bsched_width_def)
  then have "fits32 (m * s * r)" using f(3) [of r] s r by simp
  moreover have "m * s * r = r * m * s" by (simp add: ac_simps)
  moreover have "0 \<le> r * m * s" using s r(1) m(2) by simp
  ultimately show ?thesis using lb unfolding fitsu64_def fits32_def by linarith
qed

lemma bsched_is_last:
  assumes n: "0 < th_num_thds p" and s: "s \<noteq> 0" and r: "0 \<le> r" "r < th_num_thds p"
    and ok: "span_ok lb (omp_end up ubofs s) (th_num_thds p) s" and lb: "0 < s \<Longrightarrow> 0 \<le> lb" "0 < s \<Longrightarrow> fits32 lb"
    and ne: "omp_iters lb up ubofs s \<noteq> {}"
  shows "ompc_is_last (fst (ompc_static_bsched_tid (tp\<lparr>th_num := r\<rparr>) (Some p) lb up ubofs s)) (Some p) \<longleftrightarrow>
    (\<exists>i \<in> bsched_run (tp, p, lb, up, ubofs, s) r. i + s \<notin> omp_iters lb up ubofs s)"
proof -
  let ?e = "omp_end up ubofs s"
  define m where "m = bsched_block (tp, p, lb, up, ubofs, s)"
  note ne' = ne [unfolded omp_iters_def]
  note B = bsched_run_eq [OF n s r refl ok ne' m_def]
  define N where "N = trip_count lb ?e s"
  have N: "0 < N" using ne' by (auto simp: mem_loop_iters [OF s] N_def)
  have "(N - 1) div m = r \<longleftrightarrow> r * m < N \<and> N \<le> (r + 1) * m"
    using le_div_iff [OF B(2), of r "N - 1"] div_less_iff [OF B(2), of "N - 1" "r + 1"] by linarith
  also have "\<dots> \<longleftrightarrow> ahead s (lb + r * m * s) ?e \<and> \<not> ahead s (lb + (r + 1) * m * s) ?e"
    using trip_count_iff [OF s, of "r * m" lb ?e] trip_count_iff [OF s, of "(r + 1) * m" lb ?e] r(1) B(2)
    unfolding N_def by auto
  also have "\<dots> \<longleftrightarrow> ompc_is_last (fst (ompc_static_bsched_tid (tp\<lparr>th_num := r\<rparr>) (Some p) lb up ubofs s)) (Some p)"
  proof (cases "th_num_thds p = 1")
    case True
    with r have "r = 0" by simp
    with True B(2) N m_def show ?thesis
      using trip_count_iff [OF s, of m lb ?e] ahead_iff_iters [OF s, of lb ?e] ne'
      by (simp add: ompc_is_last_def bsched_block_def)
  next
    case False
    have m': "m = bsched_width lb ?e (th_num_thds p) s" using False by (simp add: m_def bsched_block_def)
    have "ptr_less (lb + r * m * s) ?e = (lb + r * m * s < ?e)" if "s > 0"
    proof (rule ptr_cmp)
      show "fitsu64 (lb + r * m * s)" using bsched_start_fits [OF n that ok lb(1) [OF that] lb(2) [OF that] r m' B(2)] .
      have "lb < ?e" using ne' that by (simp add: ahead_iff_iters [OF s, symmetric] ahead_def)
      then show "fitsu64 ?e" using lb [OF that] span_okD(1) [OF ok n] n unfolding fitsu64_def fits32_def by linarith
    qed
    then show ?thesis using False s
      by (simp add: ompc_is_last_def bsched_bounds [OF False s refl m' n ok r]) (auto simp: ahead_def)
  qed
  finally show ?thesis unfolding omp_iters_def using last_owner [OF s ne' B(1)] N_def by simp
qed

text \<open>
  C24. Block schedule, the default one, for a step that is not 0 and a loop whose length, the size of the team and a step
  for every thread are together below \<open>2\<^sup>3\<^sup>1\<close>, so that no \<open>int\<close> overflows: the threads of a team run every iteration
  of the loop exactly once between them, whatever the sign of the step and also when the loop is empty. When the loop
  is not empty and counts down, or starts at an \<open>int\<close> that is not negative, \<open>ompc_is_last\<close> holds on the thread that
  runs the last iteration and on no other; for a loop that counts up from below zero it may hold on none (\<open>bsched_last_lost\<close>).
\<close>

theorem bsched_runs_once:
  assumes "0 < th_num_thds p" and "s \<noteq> 0" and "span_ok lb (omp_end up ubofs s) (th_num_thds p) s"
    and "T = (\<lambda>r. ompc_static_bsched_tid (tp\<lparr>th_num := r\<rparr>) (Some p) lb up ubofs s)"
  shows "(\<Union>r \<in> {0..<th_num_thds p}. sched_run ubofs (T r)) = omp_iters lb up ubofs s \<and>
    (\<forall>i \<in> omp_iters lb up ubofs s. \<exists>!r. r \<in> {0..<th_num_thds p} \<and> i \<in> sched_run ubofs (T r)) \<and>
    ((0 < s \<longrightarrow> 0 \<le> lb \<and> fits32 lb) \<and> omp_iters lb up ubofs s \<noteq> {} \<longrightarrow>
      (\<forall>r \<in> {0..<th_num_thds p}. ompc_is_last (fst (T r)) (Some p) \<longleftrightarrow>
        (\<exists>i \<in> sched_run ubofs (T r). i + s \<notin> omp_iters lb up ubofs s)))"
proof -
  let ?d = "(tp, p, lb, up, ubofs, s)"
  have d: "block_loop_ok ?d" "team_serial ?d = omp_iters lb up ubofs s" "team_ranks ?d = {0..<th_num_thds p}"
    using assms by (simp_all add: block_loop_ok_def team_loop_ok_def team_serial_def team_ranks_def)
  have T: "sched_run ubofs (T r) = bsched_run ?d r" for r by (simp add: assms(4) bsched_run_def bsched_thread_def)
  show ?thesis
    unfolding T using omp_block.cover [OF d(1)] omp_block.one_owner [OF d(1)] bsched_is_last [OF assms(1,2) _ _ assms(3)]
    by (simp add: d assms(4))
qed

theorem bsched_runs_once_witness:
  "let T = (\<lambda>r. ompc_static_bsched_tid ((thread0 1)\<lparr>th_num := r\<rparr>) (Some (thread0 4)) 3 12 1 3)
   in span_ok 3 (omp_end 12 1 3) 4 3 \<and> (\<Union>r \<in> {0..<4}. sched_run 1 (T r)) = omp_iters 3 12 1 3 \<and>
      (\<exists>!r. r \<in> {0..<4} \<and> 12 \<in> sched_run 1 (T r)) \<and> ompc_is_last (fst (T 3)) (Some (thread0 4))"
proof -
  have i: "12 \<in> omp_iters 3 12 1 3" by (simp add: omp_iters_def omp_end_def loop_iters_def)
  have l: "ompc_is_last (fst (ompc_static_bsched_tid ((thread0 1)\<lparr>th_num := 3\<rparr>) (Some (thread0 4)) 3 12 1 3)) (Some (thread0 4))"
    "span_ok 3 (omp_end 12 1 3) 4 3"
    by code_simp+
  show ?thesis using bsched_runs_once [where p = "thread0 4" and s = 3 and tp = "thread0 1" and lb = 3 and up = 12 and ubofs = 1, OF _ _ _ refl] i l
    by (simp add: Let_def)
qed

text \<open>
  A block of a loop that starts below zero and ends at zero: the comparison of pointers is unsigned, and the
  thread that runs the last iteration is not told so.
\<close>

theorem bsched_last_lost:
  "let T = (\<lambda>r. ompc_static_bsched_tid ((thread0 1)\<lparr>th_num := r\<rparr>) (Some (thread0 2)) (- 4) 0 0 1)
   in sched_run 0 (T 1) = loop_iters (- 2) 0 1 \<and> \<not> ompc_is_last (fst (T 0)) (Some (thread0 2)) \<and>
      \<not> ompc_is_last (fst (T 1)) (Some (thread0 2))"
proof -
  have "ompc_static_bsched_tid ((thread0 1)\<lparr>th_num := 1\<rparr>) (Some (thread0 2)) (- 4) 0 0 1 = ((thread0 1)\<lparr>th_num := 1\<rparr>, - 2, 0, 1)"
    "ompc_static_bsched_tid ((thread0 1)\<lparr>th_num := 0\<rparr>) (Some (thread0 2)) (- 4) 0 0 1 = ((thread0 1)\<lparr>th_num := 0\<rparr>, - 4, - 2, 1)"
    by code_simp+
  then show ?thesis by (simp add: Let_def omp_iters_def omp_end_def ompc_is_last_def)
qed

end
