(* ===== verification/Ompc_Chunk_Laws.thy ===== *)
theory Ompc_Chunk_Laws
  imports Ompc_Sched_Laws
begin

text \<open>
  The static schedule with a chunk size: the calls of \<open>ompc_static_sched_next\<close> that the code of a loop makes
  end, and the chunks they give to the threads of a team divide the loop.
\<close>

subsection \<open>The calls of a thread\<close>

text \<open>
  The code compiled for a loop calls \<open>ompc_static_sched_init\<close> once and \<open>ompc_static_sched_next\<close> until it
  returns \<open>FALSE\<close>: the chunks it got, and the thread at the end. \<open>None\<close> means that the calls never end.
\<close>

partial_function (option) static_sched_calls ::
  "ompc_thread \<Rightarrow> ompc_thread option \<Rightarrow> int \<Rightarrow> ((int \<times> int) list \<times> ompc_thread) option" where
  "static_sched_calls tp tpp ubofs =
     (let r = ompc_static_sched_next_tid tp tpp ubofs
      in if fst r = None then Some ([], snd r)
         else Option.bind (static_sched_calls (snd r) tpp ubofs) (\<lambda>q. Some (the (fst r) # fst q, snd q)))"

declare static_sched_calls.simps [code]

definition static_sched_loop ::
  "ompc_thread \<Rightarrow> ompc_thread option \<Rightarrow> int \<Rightarrow> int \<Rightarrow> int \<Rightarrow> int \<Rightarrow> int \<Rightarrow> ((int \<times> int) list \<times> ompc_thread) option" where
  "static_sched_loop tp tpp lb up ubofs step chunk_size =
     (case ompc_static_sched_init_tid tp tpp lb up ubofs step chunk_size of
        Inl e \<Rightarrow> None | Inr tp \<Rightarrow> static_sched_calls tp tpp ubofs)"

definition chunks_run :: "int \<Rightarrow> int \<Rightarrow> (int \<times> int) list \<Rightarrow> int set" where
  "chunks_run ubofs s cs = (\<Union>(b, u) \<in> set cs. omp_iters b u ubofs s)"

text \<open>Chunk number \<open>j\<close> of a loop.\<close>

definition chunk_no :: "int \<Rightarrow> int \<Rightarrow> int \<Rightarrow> int \<Rightarrow> int \<Rightarrow> int \<times> int" where
  "chunk_no lb e s c j =
     (lb + j * c * s, if ahead s (lb + (j + 1) * c * s) e then lb + (j + 1) * c * s else e)"

text \<open>
  The addresses the calls compute stay in the address space: the bounds of the loop, also when the chunks of all
  threads and one more are added.
\<close>

definition room :: "int \<Rightarrow> int \<Rightarrow> int \<Rightarrow> int \<Rightarrow> bool" where
  "room n c s x \<longleftrightarrow> fitsu64 x \<and> fitsu64 (x + (n + 1) * c * s)"

lemma fitsu64_between: "fitsu64 x \<Longrightarrow> fitsu64 y \<Longrightarrow> x \<le> z \<and> z \<le> y \<or> y \<le> z \<and> z \<le> x \<Longrightarrow> fitsu64 z"
  by (auto simp: fitsu64_def)

lemma room_step:
  assumes "room n c s x" "s \<noteq> 0" "0 < c" "0 \<le> q" "q \<le> n + 1"
  shows "fitsu64 (x + q * c * s)"
proof (rule fitsu64_between)
  show "fitsu64 x" "fitsu64 (x + (n + 1) * c * s)" using assms by (auto simp: room_def)
  have q: "0 \<le> q * c" "q * c \<le> (n + 1) * c" using assms by auto
  show "x \<le> x + q * c * s \<and> x + q * c * s \<le> x + (n + 1) * c * s \<or>
    x + (n + 1) * c * s \<le> x + q * c * s \<and> x + q * c * s \<le> x"
  proof (cases "s > 0")
    case True
    have "q * c * s \<le> (n + 1) * c * s" "0 \<le> q * c * s" using True q by (simp_all add: mult_right_mono)
    then show ?thesis by linarith
  next
    case False
    have "(n + 1) * c * s \<le> q * c * s" "q * c * s \<le> 0" using False q by (simp_all add: mult_right_mono_neg mult_nonneg_nonpos)
    then show ?thesis by linarith
  qed
qed

text \<open>An address between the start of the loop and its end, some chunks further.\<close>

lemma room_ahead:
  assumes "room n c s lb" "room n c s e" "s \<noteq> 0" "0 < c" "0 \<le> k" "ahead s (lb + k * s) e" "0 \<le> q" "q \<le> n + 1"
  shows "fitsu64 (lb + k * s + q * c * s)"
proof (rule fitsu64_between)
  show "fitsu64 (lb + q * c * s)" "fitsu64 (e + q * c * s)" using assms room_step by auto
  show "lb + q * c * s \<le> lb + k * s + q * c * s \<and> lb + k * s + q * c * s \<le> e + q * c * s \<or>
    e + q * c * s \<le> lb + k * s + q * c * s \<and> lb + k * s + q * c * s \<le> lb + q * c * s"
    using assms(3,5,6) by (auto simp: ahead_def mult_nonneg_nonpos split: if_splits)
qed

lemma static_next_chunk:
  assumes n: "1 < n" "th_num_thds p = n" and s: "s \<noteq> 0" and c: "0 < c" and j: "0 \<le> j"
    and room: "room n c s lb" "room n c s e"
    and pre: "j < n \<or> ahead s (lb + (j - n) * c * s) e"
    and tp: "th_loop_sched_index tp = lb + j * c * s" "th_loop_chunk_size tp = c * s" "th_loop_stride tp = c * s * n" "th_loop_end tp = e"
  shows "ompc_static_sched_next_tid tp (Some p) ubofs =
    (if ahead s (lb + j * c * s) e then
       (Some (fst (chunk_no lb e s c j), snd (chunk_no lb e s c j) - ubofs),
        tp\<lparr>th_loop_sched_index := lb + (j + n) * c * s,
           th_is_last := if ahead s (lb + (j + 1) * c * s) e then th_is_last tp else 1\<rparr>)
     else (None, tp\<lparr>th_loop_sched_index := lb + (j + n) * c * s\<rparr>))"
proof -
  let ?b = "lb + j * c * s"
  have e: "fitsu64 e" using room by (simp add: room_def)
  have fb: "fitsu64 ?b"
  proof (cases "j < n")
    case True
    then show ?thesis using room_step [OF room(1) s c j] by simp
  next
    case False
    with pre room_ahead [OF room s c, of "(j - n) * c" n] c n have "fitsu64 (lb + (j - n) * c * s + n * c * s)" by simp
    then show ?thesis by (simp add: algebra_simps)
  qed
  have fe: "fitsu64 (?b + c * s)" if "ahead s ?b e"
    using room_ahead [OF room s c, of "j * c" 1] that j c n by simp
  have step: "?b + c * s = lb + (j + 1) * c * s" "?b + c * s * n = lb + (j + n) * c * s" by (simp_all add: algebra_simps)
  have sgn: "0 < c * s \<longleftrightarrow> 0 < s" using c by (simp add: zero_less_mult_iff)
  show ?thesis
  proof (cases "s > 0")
    case True
    then show ?thesis using n e fb fe ptr_cmp(2) [OF e fb] ptr_cmp(2) [OF e fe] sgn
      by (simp add: ompc_static_sched_next_tid_def Let_def tp step ahead_def chunk_no_def not_less)
  next
    case False
    then show ?thesis using n s e fb fe ptr_cmp(2) [OF fb e] ptr_cmp(2) [OF fe e] sgn
      by (simp add: ompc_static_sched_next_tid_def Let_def tp step ahead_def chunk_no_def not_less)
  qed
qed

lemma static_sched_calls_None:
  "ompc_static_sched_next_tid tp tpp ubofs = (None, tp') \<Longrightarrow> static_sched_calls tp tpp ubofs = Some ([], tp')"
  by (subst static_sched_calls.simps) (simp add: Let_def)

lemma static_sched_calls_Some:
  "ompc_static_sched_next_tid tp tpp ubofs = (Some c, tp') \<Longrightarrow> static_sched_calls tp' tpp ubofs = Some (cs, t) \<Longrightarrow>
   static_sched_calls tp tpp ubofs = Some (c # cs, t)"
  by (subst static_sched_calls.simps) (simp add: Let_def)

text \<open>From chunk \<open>j\<close> on a thread gets every \<open>n\<close>-th chunk that starts before the end.\<close>

lemma static_sched_calls_chunks:
  assumes n: "1 < n" "th_num_thds p = n" and s: "s \<noteq> 0" and c: "0 < c" and room: "room n c s lb" "room n c s e"
    and N: "N = trip_count lb e s"
  shows "0 \<le> j \<Longrightarrow> j < n \<or> ahead s (lb + (j - n) * c * s) e \<Longrightarrow>
    th_loop_sched_index tp = lb + j * c * s \<Longrightarrow> th_loop_chunk_size tp = c * s \<Longrightarrow> th_loop_stride tp = c * s * n \<Longrightarrow>
    th_loop_end tp = e \<Longrightarrow>
    \<exists>L tp'. static_sched_calls tp (Some p) ubofs =
        Some (map (\<lambda>x. case chunk_no lb e s c (j + int x * n) of (b, u) \<Rightarrow> (b, u - ubofs)) [0..<L], tp') \<and>
      (\<forall>x < L. (j + int x * n) * c < N) \<and> N \<le> (j + int L * n) * c \<and>
      (th_is_last tp' \<noteq> 0 \<longleftrightarrow> th_is_last tp \<noteq> 0 \<or> (\<exists>x < L. N \<le> (j + int x * n + 1) * c))"
proof (induction "nat (N - j * c)" arbitrary: j tp rule: less_induct)
  case less
  have count: "ahead s (lb + k * s) e \<longleftrightarrow> k < N" if "0 \<le> k" for k using trip_count_iff [OF s that] N by simp
  note jc = count [of "j * c"] count [of "(j + 1) * c"]
  note nx = static_next_chunk [OF n s c less.prems(1) room less.prems(2-6)]
  show ?case
  proof (cases "j * c < N")
    case False
    with nx jc less.prems(1) c have "ompc_static_sched_next_tid tp (Some p) ubofs = (None, tp\<lparr>th_loop_sched_index := lb + (j + n) * c * s\<rparr>)"
      by simp
    from static_sched_calls_None [OF this] False show ?thesis by (intro exI [of _ 0]) auto
  next
    case True
    define tp1 where "tp1 = tp\<lparr>th_loop_sched_index := lb + (j + n) * c * s,
      th_is_last := if ahead s (lb + (j + 1) * c * s) e then th_is_last tp else 1\<rparr>"
    have one: "ompc_static_sched_next_tid tp (Some p) ubofs = (Some (case chunk_no lb e s c j of (b, u) \<Rightarrow> (b, u - ubofs)), tp1)"
      using nx jc(1) True less.prems(1) c by (simp add: tp1_def case_prod_unfold)
    have "0 < n * c" using n c by simp
    then have less': "nat (N - (j + n) * c) < nat (N - j * c)" using True by (simp add: distrib_right)
    have "\<exists>L tp'. static_sched_calls tp1 (Some p) ubofs =
        Some (map (\<lambda>x. case chunk_no lb e s c (j + n + int x * n) of (b, u) \<Rightarrow> (b, u - ubofs)) [0..<L], tp') \<and>
      (\<forall>x < L. (j + n + int x * n) * c < N) \<and> N \<le> (j + n + int L * n) * c \<and>
      (th_is_last tp' \<noteq> 0 \<longleftrightarrow> th_is_last tp1 \<noteq> 0 \<or> (\<exists>x < L. N \<le> (j + n + int x * n + 1) * c))"
      using less.prems n jc(1) True c by (intro less.hyps [OF less']) (auto simp: tp1_def)
    then obtain L tp' where L: "static_sched_calls tp1 (Some p) ubofs =
        Some (map (\<lambda>x. case chunk_no lb e s c (j + n + int x * n) of (b, u) \<Rightarrow> (b, u - ubofs)) [0..<L], tp')"
      "\<forall>x < L. (j + n + int x * n) * c < N" "N \<le> (j + n + int L * n) * c"
      "th_is_last tp' \<noteq> 0 \<longleftrightarrow> th_is_last tp1 \<noteq> 0 \<or> (\<exists>x < L. N \<le> (j + n + int x * n + 1) * c)" by blast
    have sh: "j + n + int x * n = j + int (Suc x) * n" for x by (simp add: distrib_right)
    have all: "(\<forall>x < Suc L. P x) \<longleftrightarrow> P 0 \<and> (\<forall>x < L. P (Suc x))" "(\<exists>x < Suc L. P x) \<longleftrightarrow> P 0 \<or> (\<exists>x < L. P (Suc x))" for P
      by (auto simp: less_Suc_eq_0_disj)
    have "static_sched_calls tp (Some p) ubofs =
        Some (map (\<lambda>x. case chunk_no lb e s c (j + int x * n) of (b, u) \<Rightarrow> (b, u - ubofs)) [0..<Suc L], tp')"
      using static_sched_calls_Some [OF one L(1)] by (simp add: map_upt_Suc sh del: upt_Suc)
    moreover have "th_is_last tp1 \<noteq> 0 \<longleftrightarrow> th_is_last tp \<noteq> 0 \<or> N \<le> (j + 1) * c"
      using jc(2) less.prems(1) c by (auto simp: tp1_def not_less)
    ultimately show ?thesis using L(2-4) True unfolding sh
      by (intro exI [of _ "Suc L"] exI [of _ tp']) (simp only: all, simp)
  qed
qed

subsection \<open>The loop of a thread\<close>

text \<open>The chunks of a list run no iteration twice.\<close>

definition chunks_apart :: "int \<Rightarrow> int \<Rightarrow> (int \<times> int) list \<Rightarrow> bool" where
  "chunks_apart ubofs s cs \<longleftrightarrow> (\<forall>x < length cs. \<forall>y < length cs. x \<noteq> y \<longrightarrow>
     omp_iters (fst (cs ! x)) (snd (cs ! x)) ubofs s \<inter> omp_iters (fst (cs ! y)) (snd (cs ! y)) ubofs s = {})"

lemma omp_end_C: "0 < s \<or> ubofs = 0 \<Longrightarrow> omp_end u ubofs s = u + ubofs"
  by (auto simp: omp_end_def)

lemma chunk_no_iters:
  assumes "s \<noteq> 0" "0 < c" "0 \<le> j" "0 < s \<or> ubofs = 0"
  shows "omp_iters (fst (chunk_no lb e s c j)) (snd (chunk_no lb e s c j) - ubofs) ubofs s =
    (\<lambda>k. lb + k * s) ` {k. 0 \<le> k \<and> k < trip_count lb e s \<and> k div c = j}"
  using block_iters [OF assms(1-3) refl, of lb e] assms(4) by (simp add: omp_iters_def omp_end_C chunk_no_def)

text \<open>Every \<open>n\<close>-th chunk from number \<open>r\<close> on.\<close>

lemma every_nth_chunk:
  assumes n: "0 < n" and c: "0 < c" and r: "0 \<le> r" "r < n"
    and L: "\<forall>x < L. (r + int x * n) * c < N" "N \<le> (r + int L * n) * c" and k: "0 \<le> k" "k < N"
  shows "(\<exists>x < L. k div c = r + int x * n) \<longleftrightarrow> (k div c) mod n = r"
proof
  assume "(k div c) mod n = r"
  then have q: "k div c = r + k div c div n * n" using div_mult_mod_eq [of "k div c" n] by linarith
  have "0 \<le> k div c div n" using n c k by (simp add: pos_imp_zdiv_nonneg_iff)
  then obtain x where x: "k div c div n = int x" by (metis nonneg_int_cases)
  have "k < (r + int L * n) * c" using k L(2) by linarith
  then have "k div c < r + int L * n" using c by (simp add: div_less_iff)
  with q x have "int x * n < int L * n" by simp
  with n have "x < L" by simp
  with q x show "\<exists>x < L. k div c = r + int x * n" by auto
qed (use r in auto)

lemma static_sched_loop_team:
  assumes n: "1 < n" "th_num_thds p = n" and s: "s \<noteq> 0" and c: "0 < c" and C: "0 < s \<or> ubofs = 0"
    and e: "e = omp_end up ubofs s" and room: "room n c s lb" "room n c s e" and r: "0 \<le> r" "r < n"
    and f: "fits32 (c * s * n)"
  shows "\<exists>cs tp'. static_sched_loop (tp\<lparr>th_num := r\<rparr>) (Some p) lb up ubofs s c = Some (cs, tp') \<and>
    chunks_run ubofs s cs = (\<lambda>k. lb + k * s) ` {k. 0 \<le> k \<and> k < trip_count lb e s \<and> (k div c) mod n = r} \<and>
    chunks_apart ubofs s cs \<and>
    (loop_iters lb e s \<noteq> {} \<longrightarrow> (th_is_last tp' \<noteq> 0 \<longleftrightarrow> ((trip_count lb e s - 1) div c) mod n = r))"
proof -
  let ?N = "trip_count lb e s" and ?ch = "\<lambda>x. case chunk_no lb e s c (r + int x * n) of (b, u) \<Rightarrow> (b, u - ubofs)"
  define tp1 where "tp1 = tp\<lparr>th_num := r, th_loop_sched_index := lb + r * c * s, th_loop_chunk_size := c * s,
    th_loop_stride := c * s * n, th_loop_end := e, th_is_last := 0\<rparr>"
  have init: "ompc_static_sched_init_tid (tp\<lparr>th_num := r\<rparr>) (Some p) lb up ubofs s c = Inr tp1"
  proof -
    have "fits32 (c * s)" "fits32 (c * s * r)" using fits32_part(1) [OF f, of 1] fits32_part(1) [OF f, of r] n r by simp_all
    moreover have "int32 (c * s * r) = r * c * s" using calculation(2) by (simp add: ac_simps)
    ultimately show ?thesis using n c e C f by (simp add: ompc_static_sched_init_tid_def tp1_def Let_def omp_end_C)
  qed
  obtain L tp' where L: "static_sched_calls tp1 (Some p) ubofs = Some (map ?ch [0..<L], tp')"
    "\<forall>x < L. (r + int x * n) * c < ?N" "?N \<le> (r + int L * n) * c"
    "th_is_last tp' \<noteq> 0 \<longleftrightarrow> th_is_last tp1 \<noteq> 0 \<or> (\<exists>x < L. ?N \<le> (r + int x * n + 1) * c)"
    using static_sched_calls_chunks [OF n s c room refl r(1), of tp1 ubofs] r(2) by (auto simp: tp1_def)
  have pos: "0 \<le> r + int x * n" for x using r n by simp
  have it: "omp_iters (fst (?ch x)) (snd (?ch x)) ubofs s = (\<lambda>k. lb + k * s) ` {k. 0 \<le> k \<and> k < ?N \<and> k div c = r + int x * n}" for x
    using chunk_no_iters [OF s c pos C, of lb e x] by (simp add: case_prod_unfold)
  have nth: "(\<exists>x < L. k div c = r + int x * n) \<longleftrightarrow> (k div c) mod n = r" if "0 \<le> k" "k < ?N" for k
    using every_nth_chunk [OF _ c r L(2,3) that] n by simp
  have "chunks_run ubofs s (map ?ch [0..<L]) = (\<Union>x < L. omp_iters (fst (?ch x)) (snd (?ch x)) ubofs s)"
    unfolding chunks_run_def by (auto simp: case_prod_unfold)
  also have "\<dots> = (\<lambda>k. lb + k * s) ` {k. 0 \<le> k \<and> k < ?N \<and> (\<exists>x < L. k div c = r + int x * n)}" unfolding it by blast
  also have "{k. 0 \<le> k \<and> k < ?N \<and> (\<exists>x < L. k div c = r + int x * n)} = {k. 0 \<le> k \<and> k < ?N \<and> (k div c) mod n = r}"
    using nth by blast
  finally have run: "chunks_run ubofs s (map ?ch [0..<L]) =
    (\<lambda>k. lb + k * s) ` {k. 0 \<le> k \<and> k < ?N \<and> (k div c) mod n = r}" .
  have "omp_iters (fst (?ch x)) (snd (?ch x)) ubofs s \<inter> omp_iters (fst (?ch y)) (snd (?ch y)) ubofs s = {}" if "x \<noteq> y" for x y
    unfolding it using that s n(1) by auto
  then have apart: "chunks_apart ubofs s (map ?ch [0..<L])" by (simp add: chunks_apart_def)
  have "?N \<le> (r + int x * n + 1) * c \<longleftrightarrow> (?N - 1) div c = r + int x * n" if "x < L" for x
    using L(2) that le_div_iff [OF c, of "r + int x * n" "?N - 1"] div_less_iff [OF c, of "?N - 1" "r + int x * n + 1"] by fastforce
  then have "(\<exists>x < L. ?N \<le> (r + int x * n + 1) * c) \<longleftrightarrow> (\<exists>x < L. (?N - 1) div c = r + int x * n)" by blast
  then have "th_is_last tp' \<noteq> 0 \<longleftrightarrow> ((?N - 1) div c) mod n = r" if "loop_iters lb e s \<noteq> {}"
    using nth [of "?N - 1"] that L(4) by (simp add: loop_iters_count [OF s] tp1_def)
  with L(1) run apart init show ?thesis by (simp add: static_sched_loop_def)
qed

text \<open>A thread that is alone runs the loop in one piece, if at all.\<close>

lemma static_sched_loop_alone:
  assumes "th_num_thds p = 1" and s: "s \<noteq> 0" and C: "0 < s \<or> ubofs = 0" and e: "e = omp_end up ubofs s"
  shows "\<exists>cs tp'. static_sched_loop tp (Some p) lb up ubofs s c = Some (cs, tp') \<and>
    chunks_run ubofs s cs = loop_iters lb e s \<and> chunks_apart ubofs s cs"
proof -
  have e': "up + ubofs = e" using C e by (simp add: omp_end_C)
  define tp1 where "tp1 = tp\<lparr>th_loop_sched_index := lb, th_loop_end := e\<rparr>"
  have init: "ompc_static_sched_init_tid tp (Some p) lb up ubofs s c = Inr tp1"
    using assms(1) by (simp add: ompc_static_sched_init_tid_def tp1_def Let_def e')
  have stop: "static_sched_calls t (Some p) ubofs = Some ([], t)" if "th_loop_sched_index t = th_loop_end t" for t
    using assms(1) that by (intro static_sched_calls_None) (simp add: ompc_static_sched_next_tid_def sched_next_serial_def)
  show ?thesis
  proof (cases "lb = e")
    case True
    then have "loop_iters lb e s = {}" by (auto simp: loop_iters_def)
    with True init stop [of tp1] show ?thesis
      by (simp add: static_sched_loop_def chunks_run_def chunks_apart_def tp1_def)
  next
    case False
    have "ompc_static_sched_next_tid tp1 (Some p) ubofs = (Some (lb, e - ubofs), tp1\<lparr>th_loop_sched_index := e\<rparr>)"
      using False assms(1) by (simp add: ompc_static_sched_next_tid_def sched_next_serial_def tp1_def)
    then have "static_sched_calls tp1 (Some p) ubofs = Some ([(lb, e - ubofs)], tp1\<lparr>th_loop_sched_index := e\<rparr>)"
      by (rule static_sched_calls_Some) (rule stop, simp add: tp1_def)
    with init C show ?thesis
      by (simp add: static_sched_loop_def chunks_run_def chunks_apart_def omp_iters_def omp_end_C)
  qed
qed

subsection \<open>The loop of a team\<close>

text \<open>The chunks thread \<open>r\<close> of a team gets; the last component of a description is the size of a chunk.\<close>

definition chunk_sched_thread :: "omp_loop \<times> int \<Rightarrow> int \<Rightarrow> ((int \<times> int) list \<times> ompc_thread) option" where
  "chunk_sched_thread d r = (case d of ((tp, p, lb, up, ubofs, s), c) \<Rightarrow>
     static_sched_loop (tp\<lparr>th_num := r\<rparr>) (Some p) lb up ubofs s c)"

definition chunk_sched_run :: "omp_loop \<times> int \<Rightarrow> int \<Rightarrow> int set" where
  "chunk_sched_run d r = (case d of ((tp, p, lb, up, ubofs, s), c) \<Rightarrow>
     (case chunk_sched_thread d r of None \<Rightarrow> {} | Some q \<Rightarrow> chunks_run ubofs s (fst q)))"

definition chunk_sched_owner :: "omp_loop \<times> int \<Rightarrow> int \<Rightarrow> int" where
  "chunk_sched_owner d i = (case d of ((tp, p, lb, up, ubofs, s), c) \<Rightarrow> (((i - lb) div s) div c) mod th_num_thds p)"

text \<open>
  The loops the theorem covers: a positive chunk size and a step that is not 0; when the step is negative, a loop of a C
  program; addresses that are not negative and leave room for the chunks; and chunks that an \<open>int\<close> can count, those of all
  threads together.
\<close>

definition chunk_loop_ok :: "omp_loop \<times> int \<Rightarrow> bool" where
  "chunk_loop_ok d \<longleftrightarrow> (case d of ((tp, p, lb, up, ubofs, s), c) \<Rightarrow>
     0 < th_num_thds p \<and> s \<noteq> 0 \<and> 0 < c \<and> (0 < s \<or> ubofs = 0) \<and>
     room (th_num_thds p) c s lb \<and> room (th_num_thds p) c s (omp_end up ubofs s) \<and>
     fits32 (c * s * th_num_thds p))"

lemma chunk_sched_thread_run:
  assumes "chunk_loop_ok ((tp, p, lb, up, ubofs, s), c)" and r: "0 \<le> r" "r < th_num_thds p" and e: "e = omp_end up ubofs s"
  shows "\<exists>cs tp'. chunk_sched_thread ((tp, p, lb, up, ubofs, s), c) r = Some (cs, tp') \<and>
    chunks_run ubofs s cs = (\<lambda>k. lb + k * s) ` {k. 0 \<le> k \<and> k < trip_count lb e s \<and> (k div c) mod th_num_thds p = r} \<and>
    chunks_apart ubofs s cs \<and>
    (loop_iters lb e s \<noteq> {} \<longrightarrow> (ompc_is_last tp' (Some p) \<longleftrightarrow> ((trip_count lb e s - 1) div c) mod th_num_thds p = r))"
proof -
  have a: "0 < th_num_thds p" "s \<noteq> 0" "0 < c" "0 < s \<or> ubofs = 0" "room (th_num_thds p) c s lb" "room (th_num_thds p) c s e"
    "fits32 (c * s * th_num_thds p)" using assms by (auto simp: chunk_loop_ok_def)
  show ?thesis
  proof (cases "th_num_thds p = 1")
    case True
    with r have "r = 0" by simp
    moreover obtain cs tp' where "static_sched_loop (tp\<lparr>th_num := r\<rparr>) (Some p) lb up ubofs s c = Some (cs, tp')"
      "chunks_run ubofs s cs = loop_iters lb e s" "chunks_apart ubofs s cs"
      using static_sched_loop_alone [OF True a(2,4) e] by blast
    moreover have "{k. 0 \<le> k \<and> k < trip_count lb e s} = {0..<trip_count lb e s}" by auto
    ultimately show ?thesis using True by (simp add: chunk_sched_thread_def ompc_is_last_def loop_iters_count [OF a(2)])
  next
    case False
    with a have "1 < th_num_thds p" by simp
    from static_sched_loop_team [OF this refl a(2-4) e a(5,6) r a(7)] False show ?thesis
      by (simp add: chunk_sched_thread_def ompc_is_last_def)
  qed
qed

lemma chunk_sched_part:
  assumes "chunk_loop_ok ((tp, p, lb, up, ubofs, s), c)" "0 \<le> r" "r < th_num_thds p"
  shows "chunk_sched_run ((tp, p, lb, up, ubofs, s), c) r =
    (\<lambda>k. lb + k * s) ` {k. 0 \<le> k \<and> k < trip_count lb (omp_end up ubofs s) s \<and> (k div c) mod th_num_thds p = r}"
  using chunk_sched_thread_run [OF assms refl] by (auto simp: chunk_sched_run_def)

interpretation omp_chunk: distribution chunk_loop_ok "\<lambda>d. team_serial (fst d)" "\<lambda>d. team_ranks (fst d)" chunk_sched_run chunk_sched_owner
proof (unfold_locales, goal_cases)
  case (1 d r g)
  then show ?case
    by (cases d) (auto simp: chunk_sched_part team_ranks_def team_serial_def omp_iters_def chunk_sched_owner_def image_owned chunk_loop_ok_def)
next
  case (2 d r)
  then show ?case
    by (cases d) (auto simp: chunk_sched_part team_ranks_def team_serial_def omp_iters_def image_owned chunk_loop_ok_def)
next
  case (3 d g)
  then show ?case by (cases d) (auto simp: team_ranks_def chunk_sched_owner_def chunk_loop_ok_def)
qed

text \<open>
  C25. Static schedule with a chunk size, for the loops of \<open>chunk_loop_ok\<close> (positive chunk size; step not 0 and, when it is
  negative, a loop of a C program; addresses not negative, also with a chunk for every thread and one more behind the start
  and behind the end; the chunks of all threads together within an \<open>int\<close>): on every thread the calls of
  \<open>ompc_static_sched_next\<close> come to an end, no iteration is in two chunks of a thread, the threads of the team run every
  iteration of the loop exactly once between them, and, when the loop is not empty, \<open>ompc_is_last\<close> holds afterwards on the
  thread that ran the last iteration and on no other. The last part of this theory shows loops outside these conditions that go wrong.
\<close>

theorem static_sched_runs_once:
  assumes "chunk_loop_ok ((tp, p, lb, up, ubofs, s), c)"
    and "T = (\<lambda>r. static_sched_loop (tp\<lparr>th_num := r\<rparr>) (Some p) lb up ubofs s c)"
  shows "(\<forall>r \<in> {0..<th_num_thds p}. \<exists>cs tp'. T r = Some (cs, tp') \<and> chunks_apart ubofs s cs \<and>
      (omp_iters lb up ubofs s \<noteq> {} \<longrightarrow> (ompc_is_last tp' (Some p) \<longleftrightarrow>
        (\<exists>i \<in> chunks_run ubofs s cs. i + s \<notin> omp_iters lb up ubofs s)))) \<and>
    (\<forall>i. i \<in> omp_iters lb up ubofs s \<longleftrightarrow> (\<exists>r \<in> {0..<th_num_thds p}. i \<in> chunks_run ubofs s (fst (the (T r))))) \<and>
    (\<forall>i \<in> omp_iters lb up ubofs s. \<exists>!r. r \<in> {0..<th_num_thds p} \<and> i \<in> chunks_run ubofs s (fst (the (T r))))"
proof -
  let ?d = "((tp, p, lb, up, ubofs, s), c)" and ?e = "omp_end up ubofs s"
  have d: "team_serial (fst ?d) = omp_iters lb up ubofs s" "team_ranks (fst ?d) = {0..<th_num_thds p}" "s \<noteq> 0"
    using assms(1) by (simp_all add: team_serial_def team_ranks_def chunk_loop_ok_def)
  have T: "T r = chunk_sched_thread ?d r" for r by (simp add: assms(2) chunk_sched_thread_def)
  note R = chunk_sched_thread_run [OF assms(1) _ _ refl, folded T]
  have run: "chunks_run ubofs s (fst (the (T r))) = chunk_sched_run ?d r" if "r \<in> {0..<th_num_thds p}" for r
    using R [of r] that by (auto simp: chunk_sched_run_def T)
  have "\<exists>cs tp'. T r = Some (cs, tp') \<and> chunks_apart ubofs s cs \<and>
      (omp_iters lb up ubofs s \<noteq> {} \<longrightarrow> (ompc_is_last tp' (Some p) \<longleftrightarrow>
        (\<exists>i \<in> chunks_run ubofs s cs. i + s \<notin> omp_iters lb up ubofs s)))" if "r \<in> {0..<th_num_thds p}" for r
  proof -
    have r: "0 \<le> r" "r < th_num_thds p" using that by simp_all
    obtain cs tp' where q: "T r = Some (cs, tp')" "chunks_apart ubofs s cs"
      "chunks_run ubofs s cs = (\<lambda>k. lb + k * s) ` {k. 0 \<le> k \<and> k < trip_count lb ?e s \<and> (k div c) mod th_num_thds p = r}"
      "loop_iters lb ?e s \<noteq> {} \<longrightarrow> (ompc_is_last tp' (Some p) \<longleftrightarrow> ((trip_count lb ?e s - 1) div c) mod th_num_thds p = r)"
      using R [OF r] by blast
    from q(1,2,4) last_owner [OF d(3) _ q(3)] show ?thesis unfolding omp_iters_def by blast
  qed
  moreover have "i \<in> omp_iters lb up ubofs s \<longleftrightarrow> (\<exists>r \<in> {0..<th_num_thds p}. i \<in> chunks_run ubofs s (fst (the (T r))))" for i
    using omp_chunk.cover [OF assms(1)] run unfolding d by blast
  moreover have "\<exists>!r. r \<in> {0..<th_num_thds p} \<and> i \<in> chunks_run ubofs s (fst (the (T r)))" if "i \<in> omp_iters lb up ubofs s" for i
    using omp_chunk.one_owner [OF assms(1), unfolded d, OF that] run by metis
  ultimately show ?thesis by blast
qed

theorem static_sched_runs_once_witness:
  "chunk_loop_ok ((thread0 1, thread0 2, 20, 11, 0, - 1), 2) \<and>
   (let T = (\<lambda>r. static_sched_loop ((thread0 1)\<lparr>th_num := r\<rparr>) (Some (thread0 2)) 20 11 0 (- 1) 2)
    in fst (the (T 0)) = [(20, 18), (16, 14), (12, 11)] \<and> fst (the (T 1)) = [(18, 16), (14, 12)] \<and>
       (\<exists>!r. r \<in> {0..<2} \<and> 13 \<in> chunks_run 0 (- 1) (fst (the (T r)))))"
proof -
  have ok: "chunk_loop_ok ((thread0 1, thread0 2, 20, 11, 0, - 1), 2)" by code_simp
  have i: "13 \<in> omp_iters 20 11 0 (- 1)" by (simp add: omp_iters_def omp_end_def loop_iters_def)
  have cs: "fst (the (static_sched_loop ((thread0 1)\<lparr>th_num := 0\<rparr>) (Some (thread0 2)) 20 11 0 (- 1) 2)) = [(20, 18), (16, 14), (12, 11)]"
    "fst (the (static_sched_loop ((thread0 1)\<lparr>th_num := 1\<rparr>) (Some (thread0 2)) 20 11 0 (- 1) 2)) = [(18, 16), (14, 12)]"
    by code_simp+
  show ?thesis using static_sched_runs_once [OF ok refl] i cs ok by (simp add: Let_def)
qed

subsection \<open>Loops it does not cover\<close>

text \<open>
  A loop from a negative number to a positive one: the first address is above the last as an unsigned number, and
  no thread gets a chunk, although the loop has four iterations.
\<close>

theorem static_sched_negative_start:
  "(\<forall>r \<in> {0, 1}. fst (the (static_sched_loop ((thread0 1)\<lparr>th_num := r\<rparr>) (Some (thread0 2)) (- 2) 2 0 1 1)) = []) \<and>
   omp_iters (- 2) 2 0 1 = {- 2, - 1, 0, 1}"
proof -
  have "fst (the (static_sched_loop ((thread0 1)\<lparr>th_num := r\<rparr>) (Some (thread0 2)) (- 2) 2 0 1 1)) = []" if "r \<in> {0, 1}" for r
    using that by (elim insertE emptyE) (simp, code_simp)+
  moreover have "omp_iters (- 2) 2 0 1 = {- 2, - 1, 0, 1}" by (auto simp: omp_iters_def omp_end_def loop_iters_def)
  ultimately show ?thesis by blast
qed

text \<open>
  A Fortran loop \<open>do i = 10, 1, -1\<close> with chunks of two: the end of the loop is computed as \<open>up + 1\<close>, where the
  block schedule has \<open>up - 1\<close> for a negative step, and the chunks overlap: both threads run iteration 8.
\<close>

theorem static_sched_fortran_down:
  "fst (the (static_sched_loop ((thread0 1)\<lparr>th_num := 0\<rparr>) (Some (thread0 2)) 10 1 1 (- 1) 2)) = [(10, 7), (6, 3)] \<and>
   fst (the (static_sched_loop ((thread0 1)\<lparr>th_num := 1\<rparr>) (Some (thread0 2)) 10 1 1 (- 1) 2)) = [(8, 5), (4, 1)] \<and>
   8 \<in> omp_iters 10 7 1 (- 1) \<and> 8 \<in> omp_iters 8 5 1 (- 1)"
proof -
  have "fst (the (static_sched_loop ((thread0 1)\<lparr>th_num := 0\<rparr>) (Some (thread0 2)) 10 1 1 (- 1) 2)) = [(10, 7), (6, 3)]"
    "fst (the (static_sched_loop ((thread0 1)\<lparr>th_num := 1\<rparr>) (Some (thread0 2)) 10 1 1 (- 1) 2)) = [(8, 5), (4, 1)]"
    by code_simp+
  then show ?thesis by (simp add: omp_iters_def omp_end_def loop_iters_def)
qed

text \<open>
  A loop \<open>for (i = 3; i > 0; i--)\<close> with chunks of one: after the last iteration the address of thread 0 is below
  zero, above the end as an unsigned number, and the thread is given iteration \<open>-1\<close> and goes on.
\<close>

theorem static_sched_down_to_zero:
  "let nx = (\<lambda>t. ompc_static_sched_next_tid t (Some (thread0 2)) 0);
       t0 = projr (ompc_static_sched_init_tid (thread0 1) (Some (thread0 2)) 3 0 0 (- 1) 1);
       (c1, t1) = nx t0; (c2, t2) = nx t1; (c3, t3) = nx t2; (c4, t4) = nx t3
   in [c1, c2, c3, c4] = [Some (3, 2), Some (1, 0), Some (- 1, - 2), Some (- 3, - 4)]"
  by code_simp

end
