(* ===== verification/Omni_Fair.thy ===== *)
theory Omni_Fair
  imports Omni_Prelude
begin

text \<open>
  Programs of several threads under a fair scheduler. A thread that waits for a condition takes steps that change
  nothing; the scheduler picks a thread in every round and never drops one for ever.
\<close>

primrec run_sched :: "('i \<Rightarrow> 's \<Rightarrow> 's) \<Rightarrow> (nat \<Rightarrow> 'i) \<Rightarrow> 's \<Rightarrow> nat \<Rightarrow> 's" where
  "run_sched step sched s 0 = s"
| "run_sched step sched s (Suc t) = step (sched t) (run_sched step sched s t)"

definition fair :: "'i set \<Rightarrow> (nat \<Rightarrow> 'i) \<Rightarrow> bool" where
  "fair I sched \<longleftrightarrow> (\<forall>t. sched t \<in> I) \<and> (\<forall>i \<in> I. \<forall>t. \<exists>t' \<ge> t. sched t' = i)"

lemma fair_mem: "fair I sched \<Longrightarrow> sched t \<in> I"
  by (simp add: fair_def)

text \<open>Threads in turn are a fair schedule.\<close>

lemma fair_round_robin: "0 < n \<Longrightarrow> fair {0..<n} (\<lambda>t. t mod n)"
  unfolding fair_def
proof (intro conjI ballI allI)
  fix i t assume "0 < n" "i \<in> {0..<n}"
  then show "\<exists>t' \<ge> t. t' mod n = i" by (intro exI [of _ "t * n + i"]) (auto simp: trans_le_add1)
qed auto

text \<open>
  The contract of a program that gets done: an invariant \<open>inv c\<close> of the states of configuration \<open>c\<close>, a measure that
  every step with an effect decreases, and a thread that has one in every state that is not final.
\<close>

locale progress =
  fixes step :: "'c \<Rightarrow> 'i \<Rightarrow> 's \<Rightarrow> 's"
    and threads :: "'c \<Rightarrow> 'i set"
    and inv :: "'c \<Rightarrow> 's \<Rightarrow> bool"
    and final :: "'c \<Rightarrow> 's \<Rightarrow> bool"
    and rank :: "'c \<Rightarrow> 's \<Rightarrow> nat"
  assumes inv_step: "inv c s \<Longrightarrow> i \<in> threads c \<Longrightarrow> inv c (step c i s)"
    and rank_step: "inv c s \<Longrightarrow> i \<in> threads c \<Longrightarrow> step c i s \<noteq> s \<Longrightarrow> rank c (step c i s) < rank c s"
    and effect: "inv c s \<Longrightarrow> \<not> final c s \<Longrightarrow> \<exists>i \<in> threads c. step c i s \<noteq> s"
begin

lemma inv_run:
  assumes "inv c s" "\<forall>t. sched t \<in> threads c"
  shows "inv c (run_sched (step c) sched s t)"
  by (induction t) (auto simp: assms inv_step)

lemma fair_effect:
  assumes inv: "inv c s" and fair: "fair (threads c) sched" and nf: "\<not> final c (run_sched (step c) sched s t)"
  shows "\<exists>t' \<ge> t. rank c (run_sched (step c) sched s t') < rank c (run_sched (step c) sched s t)"
proof -
  let ?r = "run_sched (step c) sched s"
  have I: "inv c (?r u)" for u using inv fair by (intro inv_run) (auto simp: fair_def)
  obtain i where i: "i \<in> threads c" "step c i (?r t) \<noteq> ?r t" using effect [OF I nf] by blast
  obtain t1 where t1: "t1 \<ge> t" "sched t1 = i" using fair i(1) unfolding fair_def by blast
  have "\<exists>u \<ge> t. ?r (Suc u) \<noteq> ?r u"
  proof (rule ccontr)
    assume "\<not> ?thesis"
    then have same: "?r (Suc u) = ?r u" if "u \<ge> t" for u using that by blast
    have "?r (t + d) = ?r t" for d by (induction d) (use same in \<open>auto simp del: run_sched.simps\<close>)
    then have "?r t1 = ?r t" using t1(1) le_add_diff_inverse [of t t1] by metis
    with same [OF t1(1)] i(2) t1(2) show False by simp
  qed
  then obtain u where u: "u \<ge> t" "?r (Suc u) \<noteq> ?r u" by blast
  define v where "v = (LEAST u. u \<ge> t \<and> ?r (Suc u) \<noteq> ?r u)"
  have v: "v \<ge> t" "?r (Suc v) \<noteq> ?r v" using LeastI [of "\<lambda>u. u \<ge> t \<and> ?r (Suc u) \<noteq> ?r u" u] u by (auto simp: v_def)
  have same: "?r (Suc w) = ?r w" if "t \<le> w" "w < v" for w using not_less_Least that unfolding v_def by blast
  have "t + d \<le> v \<Longrightarrow> ?r (t + d) = ?r t" for d by (induction d) (use same in \<open>auto simp del: run_sched.simps\<close>)
  then have "?r v = ?r t" using v(1) le_add_diff_inverse [of t v] by (metis order_refl)
  moreover have "rank c (?r (Suc v)) < rank c (?r v)" using rank_step [OF I, of "sched v" v] v(2) fair_mem [OF fair] by simp
  ultimately show ?thesis using v(1) le_SucI by metis
qed

lemma finishes:
  assumes "inv c s" "fair (threads c) sched"
  shows "\<exists>t. final c (run_sched (step c) sched s t)"
proof (rule ccontr)
  let ?r = "run_sched (step c) sched s"
  assume "\<not> ?thesis"
  then have nf: "\<not> final c (?r t)" for t by blast
  have "rank c (?r t) = k \<Longrightarrow> False" for k t
  proof (induction k arbitrary: t rule: less_induct)
    case (less k)
    from fair_effect [OF assms nf [of t]] less.prems less.IH show False by blast
  qed
  then show False by blast
qed

end

end
