(* ===== verification/Ompc_Barrier.thy ===== *)
theory Ompc_Barrier
  imports Ompc_Runtime Omni_Fair
begin

unbundle bit_operations_syntax

text \<open>
  The barriers of a team (\<open>libompc/src/ompc_thread.c\<close>, without \<open>USE_PTHREAD_BARRIER\<close>): \<open>ompc_thread_barrier\<close>,
  where every thread waits for all others, and \<open>ompc_thread_barrier2\<close> at the end of a parallel region, where the
  master waits for the others. The threads run interleaved, and a step has at most one access to a shared variable
  that another thread writes.
\<close>

subsection \<open>Steps of the barriers\<close>

text \<open>
  Where a thread is: outside, after reading \<open>barrier_sense\<close> (\<open>sen0\<close> is the flipped sense), in the loop of the
  master over the flags of the others, waiting for the sense to flip, or at the end of the region.
\<close>

datatype bar_pc =
    Outside
  | Scan int nat
  | Store int
  | Await int
  | JoinScan int nat
  | JoinStore int
  | Ended

record bar_state =
  bs_team :: ompc_thread
  bs_pc :: "nat \<Rightarrow> bar_pc"
  bs_entered :: "nat \<Rightarrow> nat"
  bs_left :: "nat \<Rightarrow> nat"

definition set_pc :: "nat \<Rightarrow> bar_pc \<Rightarrow> bar_state \<Rightarrow> bar_state" where
  "set_pc i q st = st\<lparr>bs_pc := (bs_pc st)(i := q)\<rparr>"

text \<open>\<open>sen0 = tpp->barrier_sense ^ 1\<close>; the counter of the barriers a thread has entered is not in the code.\<close>

definition barrier_enter :: "nat \<Rightarrow> bar_state \<Rightarrow> bar_state" where
  "barrier_enter i st =
     (let sen0 = th_barrier_sense (bs_team st) XOR 1
      in set_pc i (if i = 0 then Scan sen0 1 else Store sen0) (st\<lparr>bs_entered := (bs_entered st)(i := bs_entered st i + 1)\<rparr>))"

definition barrier2_enter :: "nat \<Rightarrow> bar_state \<Rightarrow> bar_state" where
  "barrier2_enter i st =
     (let sen0 = th_barrier_sense (bs_team st) XOR 1
      in set_pc i (if i = 0 then JoinScan sen0 1 else JoinStore sen0) (st\<lparr>bs_entered := (bs_entered st)(i := bs_entered st i + 1)\<rparr>))"

definition barrier_leave :: "nat \<Rightarrow> bar_pc \<Rightarrow> bar_state \<Rightarrow> bar_state" where
  "barrier_leave i q st = set_pc i q (st\<lparr>bs_left := (bs_left st)(i := bs_left st i + 1)\<rparr>)"

text \<open>One iteration of \<open>OMPC_WAIT(flags[j] != sen0)\<close> of the master, or the store of the new sense after the loop.\<close>

definition barrier_scan :: "nat \<Rightarrow> int \<Rightarrow> nat \<Rightarrow> (nat \<Rightarrow> bar_pc) \<Rightarrow> bar_pc \<Rightarrow> bar_state \<Rightarrow> bar_state" where
  "barrier_scan i sen0 j goon out st =
     (if int j < th_num_thds (bs_team st) then
        if th_barrier_flags (bs_team st) ! j \<noteq> sen0 then st else set_pc i (goon (j + 1)) st
      else barrier_leave i out (st\<lparr>bs_team := (bs_team st)\<lparr>th_barrier_sense := sen0\<rparr>\<rparr>))"

definition store_flag :: "nat \<Rightarrow> int \<Rightarrow> bar_state \<Rightarrow> bar_state" where
  "store_flag i sen0 st = st\<lparr>bs_team := (bs_team st)\<lparr>th_barrier_flags := (th_barrier_flags (bs_team st))[i := sen0]\<rparr>\<rparr>"

text \<open>
  A step of thread \<open>i\<close> of a region in which every thread passes \<open>k\<close> barriers and then the one at the end.
\<close>

definition bar_step :: "nat \<Rightarrow> nat \<Rightarrow> bar_state \<Rightarrow> bar_state" where
  "bar_step k i st =
     (case bs_pc st i of
        Outside \<Rightarrow> if bs_left st i < k then barrier_enter i st else barrier2_enter i st
      | Scan sen0 j \<Rightarrow> barrier_scan i sen0 j (Scan sen0) Outside st
      | Store sen0 \<Rightarrow> set_pc i (Await sen0) (store_flag i sen0 st)
      | Await sen0 \<Rightarrow> if th_barrier_sense (bs_team st) \<noteq> sen0 then st else barrier_leave i Outside st
      | JoinScan sen0 j \<Rightarrow> barrier_scan i sen0 j (JoinScan sen0) Ended st
      | JoinStore sen0 \<Rightarrow> set_pc i Ended (store_flag i sen0 st)
      | Ended \<Rightarrow> st)"

text \<open>
  The flags as \<open>ompc_do_parallel_main\<close> sets them up for a team of \<open>n\<close> threads; the array has \<open>MAX_PROC\<close> entries.
\<close>

definition MAX_PROC :: nat where
  "MAX_PROC = 256"

definition init_team :: "ompc_thread \<Rightarrow> nat \<Rightarrow> ompc_thread" where
  "init_team cthd n =
     cthd\<lparr>th_num_thds := int n, th_out_count := 0, th_in_count := 0,
          th_barrier_flags := map (\<lambda>i. if i < n then th_barrier_sense cthd else th_barrier_flags cthd ! i) [0..<MAX_PROC],
          th_in_flags := map (\<lambda>i. if i < n then 0 else th_in_flags cthd ! i) [0..<MAX_PROC]\<rparr>"

definition bar_init :: "ompc_thread \<Rightarrow> nat \<Rightarrow> bar_state" where
  "bar_init cthd n = \<lparr>bs_team = init_team cthd n, bs_pc = (\<lambda>_. Outside), bs_entered = (\<lambda>_. 0), bs_left = (\<lambda>_. 0)\<rparr>"

inductive bar_reach :: "nat \<Rightarrow> nat \<Rightarrow> ompc_thread \<Rightarrow> bar_state \<Rightarrow> bool" for k n cthd where
  bar_start: "bar_reach k n cthd (bar_init cthd n)"
| bar_next: "bar_reach k n cthd st \<Longrightarrow> i < n \<Longrightarrow> bar_reach k n cthd (bar_step k i st)"

lemma bar_reach_fold: "bar_reach k n cthd st \<Longrightarrow> (\<And>i. i \<in> set sched \<Longrightarrow> i < n) \<Longrightarrow> bar_reach k n cthd (fold (bar_step k) sched st)"
  by (induction sched arbitrary: st) (auto intro: bar_next)

subsection \<open>The invariant\<close>

lemma xor_1 [simp]: "(x XOR 1) XOR 1 = (x::int)"
  by (simp add: xor.assoc)

lemma xor_1_neq [simp]: "x XOR 1 \<noteq> (x::int)" "x \<noteq> x XOR (1::int)"
proof -
  show "x XOR 1 \<noteq> x"
  proof
    assume "x XOR 1 = x"
    then have "x XOR (x XOR 1) = x XOR x" by simp
    then show False by (simp add: xor.assoc [symmetric])
  qed
  then show "x \<noteq> x XOR 1" by metis
qed

text \<open>
  \<open>m\<close> is the number of barriers the master has left and \<open>sg\<close> the sense: what that says about another thread, by
  where it is, how many barriers it has left and entered, and its flag.
\<close>

fun slave_ok :: "nat \<Rightarrow> nat \<Rightarrow> int \<Rightarrow> bar_pc \<Rightarrow> nat \<Rightarrow> nat \<Rightarrow> int \<Rightarrow> bool" where
  "slave_ok k m sg Outside l e f \<longleftrightarrow> l = m \<and> e = l \<and> l \<le> k \<and> f = sg"
| "slave_ok k m sg (Store s) l e f \<longleftrightarrow> l = m \<and> e = l + 1 \<and> l < k \<and> f = sg \<and> s = sg XOR 1"
| "slave_ok k m sg (Await s) l e f \<longleftrightarrow> e = l + 1 \<and> l < k \<and> f = s \<and> (l = m \<and> s = sg XOR 1 \<or> l + 1 = m \<and> s = sg)"
| "slave_ok k m sg (JoinStore s) l e f \<longleftrightarrow> l = m \<and> e = l + 1 \<and> l = k \<and> f = sg \<and> s = sg XOR 1"
| "slave_ok k m sg Ended l e f \<longleftrightarrow> l = k \<and> e = l + 1 \<and> (m = k \<and> f = sg XOR 1 \<or> m = k + 1 \<and> f = sg)"
| "slave_ok k m sg (Scan s j) l e f \<longleftrightarrow> False"
| "slave_ok k m sg (JoinScan s j) l e f \<longleftrightarrow> False"

fun master_ok :: "nat \<Rightarrow> nat \<Rightarrow> nat \<Rightarrow> int \<Rightarrow> (nat \<Rightarrow> int) \<Rightarrow> bar_pc \<Rightarrow> nat \<Rightarrow> bool" where
  "master_ok k n m sg fl Outside e \<longleftrightarrow> e = m \<and> m \<le> k"
| "master_ok k n m sg fl (Scan s j) e \<longleftrightarrow> e = m + 1 \<and> m < k \<and> s = sg XOR 1 \<and> 1 \<le> j \<and> j \<le> n \<and> (\<forall>i. 1 \<le> i \<and> i < j \<longrightarrow> fl i = s)"
| "master_ok k n m sg fl (JoinScan s j) e \<longleftrightarrow> e = m + 1 \<and> m = k \<and> s = sg XOR 1 \<and> 1 \<le> j \<and> j \<le> n \<and> (\<forall>i. 1 \<le> i \<and> i < j \<longrightarrow> fl i = s)"
| "master_ok k n m sg fl Ended e \<longleftrightarrow> e = m \<and> m = k + 1"
| "master_ok k n m sg fl (Store s) e \<longleftrightarrow> False"
| "master_ok k n m sg fl (Await s) e \<longleftrightarrow> False"
| "master_ok k n m sg fl (JoinStore s) e \<longleftrightarrow> False"

abbreviation bs_flag :: "bar_state \<Rightarrow> nat \<Rightarrow> int" where
  "bs_flag st i \<equiv> th_barrier_flags (bs_team st) ! i"

abbreviation bs_sense :: "bar_state \<Rightarrow> int" where
  "bs_sense st \<equiv> th_barrier_sense (bs_team st)"

definition bar_inv :: "nat \<times> nat \<Rightarrow> bar_state \<Rightarrow> bool" where
  "bar_inv c st \<longleftrightarrow> (case c of (k, n) \<Rightarrow>
     0 < n \<and> n \<le> length (th_barrier_flags (bs_team st)) \<and> th_num_thds (bs_team st) = int n \<and>
     master_ok k n (bs_left st 0) (bs_sense st) (bs_flag st) (bs_pc st 0) (bs_entered st 0) \<and>
     (\<forall>i. 1 \<le> i \<and> i < n \<longrightarrow> slave_ok k (bs_left st 0) (bs_sense st) (bs_pc st i) (bs_left st i) (bs_entered st i) (bs_flag st i)))"

text \<open>When the master has seen every flag flipped, the flip of the sense keeps the other threads in order.\<close>

lemma slave_flip: "slave_ok k m sg q l e (sg XOR 1) \<Longrightarrow> slave_ok k (m + 1) (sg XOR 1) q l e (sg XOR 1)"
  by (cases q) auto

lemma master_flags:
  "master_ok k n m sg fl q e \<Longrightarrow> (\<And>i. fl' i = fl i \<or> fl' i = sg XOR 1) \<Longrightarrow> master_ok k n m sg fl' q e"
  by (cases q) (auto, metis+)

lemmas bar_defs = bar_step_def barrier_enter_def barrier2_enter_def barrier_leave_def barrier_scan_def store_flag_def
  set_pc_def Let_def

lemma bar_inv_master:
  assumes inv: "bar_inv (k, n) st"
  shows "bar_inv (k, n) (bar_step k 0 st)"
proof -
  let ?m = "bs_left st 0" and ?sg = "bs_sense st"
  have I: "0 < n" "n \<le> length (th_barrier_flags (bs_team st))" "th_num_thds (bs_team st) = int n"
    "master_ok k n ?m ?sg (bs_flag st) (bs_pc st 0) (bs_entered st 0)"
    and sl: "\<And>i. 1 \<le> i \<Longrightarrow> i < n \<Longrightarrow> slave_ok k ?m ?sg (bs_pc st i) (bs_left st i) (bs_entered st i) (bs_flag st i)"
    using inv by (auto simp: bar_inv_def)
  have flip: "slave_ok k (?m + 1) (?sg XOR 1) (bs_pc st i) (bs_left st i) (bs_entered st i) (bs_flag st i)"
    if "\<forall>i. 1 \<le> i \<and> i < n \<longrightarrow> bs_flag st i = ?sg XOR 1" "1 \<le> i" "i < n" for i
    using slave_flip sl [OF that(2,3)] that by metis
  show ?thesis
  proof (cases "bs_pc st 0")
    case Outside
    with I sl show ?thesis by (auto simp: bar_inv_def bar_defs)
  next
    case (Scan s j)
    with I have j: "s = ?sg XOR 1" "1 \<le> j" "j \<le> n" "\<forall>i. 1 \<le> i \<and> i < j \<longrightarrow> bs_flag st i = s" "?m < k" "bs_entered st 0 = ?m + 1" by auto
    show ?thesis
    proof (cases "j < n")
      case True
      with Scan I j sl show ?thesis by (auto simp: bar_inv_def bar_defs less_Suc_eq)
    next
      case False
      with j have "\<forall>i. 1 \<le> i \<and> i < n \<longrightarrow> bs_flag st i = ?sg XOR 1" by auto
      with flip False Scan I j show ?thesis by (auto simp: bar_inv_def bar_defs)
    qed
  next
    case (JoinScan s j)
    with I have j: "s = ?sg XOR 1" "1 \<le> j" "j \<le> n" "\<forall>i. 1 \<le> i \<and> i < j \<longrightarrow> bs_flag st i = s" "?m = k" "bs_entered st 0 = ?m + 1" by auto
    show ?thesis
    proof (cases "j < n")
      case True
      with JoinScan I j sl show ?thesis by (auto simp: bar_inv_def bar_defs less_Suc_eq)
    next
      case False
      with j have "\<forall>i. 1 \<le> i \<and> i < n \<longrightarrow> bs_flag st i = ?sg XOR 1" by auto
      with flip False JoinScan I j show ?thesis by (auto simp: bar_inv_def bar_defs)
    qed
  next
    case Ended
    with inv show ?thesis by (simp add: bar_defs)
  qed (use I in auto)
qed

lemma bar_inv_slave:
  assumes inv: "bar_inv (k, n) st" and i: "1 \<le> i" "i < n"
  shows "bar_inv (k, n) (bar_step k i st)"
proof -
  let ?m = "bs_left st 0" and ?sg = "bs_sense st"
  have I: "0 < n" "n \<le> length (th_barrier_flags (bs_team st))" "th_num_thds (bs_team st) = int n"
    and ms: "master_ok k n ?m ?sg (bs_flag st) (bs_pc st 0) (bs_entered st 0)"
    and sl: "\<And>i. 1 \<le> i \<Longrightarrow> i < n \<Longrightarrow> slave_ok k ?m ?sg (bs_pc st i) (bs_left st i) (bs_entered st i) (bs_flag st i)"
    using inv by (auto simp: bar_inv_def)
  have len: "i < length (th_barrier_flags (bs_team st))" using I i by simp
  have up: "master_ok k n ?m ?sg (\<lambda>a. if i = a then ?sg XOR 1 else bs_flag st a) (bs_pc st 0) (bs_entered st 0)"
    by (rule master_flags [OF ms]) auto
  show ?thesis
  proof (cases "bs_pc st i")
    case Outside
    with sl [OF i] I ms sl i show ?thesis by (auto simp: bar_inv_def bar_defs)
  next
    case (Store s)
    with sl [OF i] have "s = ?sg XOR 1" by simp
    with Store sl [OF i] I up sl i len show ?thesis by (auto simp: bar_inv_def bar_defs nth_list_update)
  next
    case (JoinStore s)
    with sl [OF i] have "s = ?sg XOR 1" by simp
    with JoinStore sl [OF i] I up sl i len show ?thesis by (auto simp: bar_inv_def bar_defs nth_list_update)
  next
    case (Await s)
    show ?thesis
    proof (cases "?sg = s")
      case True
      with Await sl [OF i] have l: "bs_left st i + 1 = ?m" "bs_entered st i = bs_left st i + 1" "bs_flag st i = ?sg" "?m \<le> k" by auto
      have "bar_step k i st = barrier_leave i Outside st" using Await True by (simp add: bar_step_def)
      then show ?thesis using l I ms sl i by (simp add: bar_inv_def barrier_leave_def set_pc_def)
    next
      case False
      with Await inv show ?thesis by (simp add: bar_step_def)
    qed
  next
    case Ended
    with inv show ?thesis by (simp add: bar_defs)
  qed (use sl [OF i] in auto)
qed

lemma bar_inv_step: "bar_inv (k, n) st \<Longrightarrow> i < n \<Longrightarrow> bar_inv (k, n) (bar_step k i st)"
  using bar_inv_master bar_inv_slave by (cases i) auto

lemma bar_inv_init: "0 < n \<Longrightarrow> n \<le> MAX_PROC \<Longrightarrow> bar_inv (k, n) (bar_init cthd n)"
  by (auto simp: bar_inv_def bar_init_def init_team_def)

lemma bar_reach_inv:
  assumes "0 < n" "n \<le> MAX_PROC" "bar_reach k n cthd st"
  shows "bar_inv (k, n) st"
  using assms(3) by induction (use assms(1,2) in \<open>auto intro: bar_inv_init bar_inv_step\<close>)

subsection \<open>Safety\<close>

text \<open>No thread is past a barrier that another thread has not reached.\<close>

lemma slave_ok_counts: "slave_ok k m sg q l e f \<Longrightarrow> l \<le> e \<and> l \<le> m \<and> m \<le> e"
  by (cases q) auto

lemma master_ok_counts: "master_ok k n m sg fl q e \<Longrightarrow> m \<le> e"
  by (cases q) auto

lemma bar_inv_counts:
  assumes "bar_inv (k, n) st" "i < n" "j < n"
  shows "bs_left st i \<le> bs_entered st j"
proof -
  have m: "bs_left st 0 \<le> bs_entered st 0" using assms(1) master_ok_counts by (auto simp: bar_inv_def)
  have s: "bs_left st i \<le> bs_left st 0" "bs_left st 0 \<le> bs_entered st i" if "1 \<le> i" "i < n" for i
    using assms(1) that slave_ok_counts by (fastforce simp: bar_inv_def)+
  have "bs_left st i \<le> bs_left st 0" using s(1) [of i] assms(2) by (cases i) auto
  moreover have "bs_left st 0 \<le> bs_entered st j" using s(2) [of j] assms(3) m by (cases j) auto
  ultimately show ?thesis by simp
qed

text \<open>
  C5. The barrier holds: in every state that the threads of a team reach, a thread that has left its \<open>b\<close>-th barrier
  has done so after every thread of the team entered its own \<open>b\<close>-th; in particular the master is past the end of the
  region only when all other threads have come to it. Teams have at most \<open>MAX_PROC\<close> threads.
\<close>

theorem barrier_safe:
  assumes "0 < n" and "n \<le> MAX_PROC" and "bar_reach k n cthd st" and "i < n" and "j < n"
  shows "bs_left st i \<le> bs_entered st j \<and> (bs_pc st 0 = Ended \<longrightarrow> bs_pc st j = Ended)"
proof -
  have inv: "bar_inv (k, n) st" using bar_reach_inv assms(1-3) by simp
  have "bs_pc st j = Ended" if "bs_pc st 0 = Ended"
  proof (cases "j = 0")
    case False
    with inv assms(5) have "slave_ok k (bs_left st 0) (bs_sense st) (bs_pc st j) (bs_left st j) (bs_entered st j) (bs_flag st j)"
      by (auto simp: bar_inv_def)
    moreover have "bs_left st 0 = k + 1" using inv that by (simp add: bar_inv_def)
    ultimately show ?thesis by (cases "bs_pc st j") auto
  qed (use that in simp)
  with bar_inv_counts [OF inv assms(4,5)] show ?thesis by blast
qed

theorem barrier_safe_witness:
  "let st = fold (bar_step 1) [1, 1, 0, 0, 0] (bar_init (thread0 1) 2)
   in bar_reach 1 2 (thread0 1) st \<and> bs_left st 0 = 1 \<and> bs_left st 0 \<le> bs_entered st 1"
proof -
  let ?st = "fold (bar_step 1) [1, 1, 0, 0, 0] (bar_init (thread0 1) 2)"
  have r: "bar_reach 1 2 (thread0 1) ?st" by (rule bar_reach_fold [OF bar_start]) auto
  have "bs_left ?st 0 = 1" by code_simp
  with barrier_safe [OF _ _ r, of 0 1] r show ?thesis by (simp add: MAX_PROC_def)
qed

subsection \<open>Progress\<close>

definition bar_rank1 :: "nat \<times> nat \<Rightarrow> nat \<Rightarrow> bar_pc \<Rightarrow> nat \<Rightarrow> nat" where
  "bar_rank1 c i q l = (case c of (k, n) \<Rightarrow>
     (case q of
        Outside \<Rightarrow> if i = 0 then (n + 2) * (k + 1 - l) else 3 * (k - l) + 2
      | Scan s j \<Rightarrow> (n + 2) * (k + 1 - l) - j
      | JoinScan s j \<Rightarrow> (n + 2) * (k + 1 - l) - j
      | Store s \<Rightarrow> 3 * (k - l) + 1
      | JoinStore s \<Rightarrow> 1
      | Await s \<Rightarrow> 3 * (k - l)
      | Ended \<Rightarrow> 0))"

definition bar_rank :: "nat \<times> nat \<Rightarrow> bar_state \<Rightarrow> nat" where
  "bar_rank c st = (\<Sum>i < snd c. bar_rank1 c i (bs_pc st i) (bs_left st i))"

lemma bar_step_other: "j \<noteq> i \<Longrightarrow> bs_pc (bar_step k i st) j = bs_pc st j \<and> bs_left (bar_step k i st) j = bs_left st j"
  by (auto simp: bar_defs split: bar_pc.split)

lemma sum_less_one:
  fixes f g :: "nat \<Rightarrow> nat"
  assumes "i < n" "f i < g i" "\<And>j. j \<noteq> i \<Longrightarrow> f j = g j"
  shows "sum f {..<n} < sum g {..<n}"
proof (rule sum_strict_mono_ex1)
  show "\<forall>x \<in> {..<n}. f x \<le> g x"
  proof
    fix x show "f x \<le> g x" using assms(2) assms(3) [of x] by (cases "x = i") auto
  qed
qed (use assms in auto)

lemma bar_rank_thread:
  assumes inv: "bar_inv (k, n) st" and i: "i < n" and ch: "bar_step k i st \<noteq> st"
  shows "bar_rank1 (k, n) i (bs_pc (bar_step k i st) i) (bs_left (bar_step k i st) i) < bar_rank1 (k, n) i (bs_pc st i) (bs_left st i)"
proof (cases "i = 0")
  case True
  let ?m = "bs_left st 0"
  have ms: "master_ok k n ?m (bs_sense st) (bs_flag st) (bs_pc st 0) (bs_entered st 0)" "th_num_thds (bs_team st) = int n"
    using inv by (auto simp: bar_inv_def)
  define V where "V = (n + 2) * (k - ?m)"
  have W: "(n + 2) * (k + 1 - ?m) = V + n + 2" if "?m \<le> k" using that by (simp add: Suc_diff_le V_def)
  have V: "(n + 2) * (k + 1 - (?m + 1)) = V" by (simp add: V_def)
  show ?thesis
  proof (cases "bs_pc st 0")
    case Outside
    with ms W show ?thesis by (simp add: True bar_defs bar_rank1_def)
  next
    case (Scan s j)
    with ms have j: "?m \<le> k" "j \<le> n" by auto
    show ?thesis
    proof (cases "j < n")
      case True
      with Scan ms ch W [OF j(1)] \<open>i = 0\<close> show ?thesis by (simp add: bar_defs bar_rank1_def split: if_splits)
    next
      case False
      with Scan ms W [OF j(1)] V j(2) \<open>i = 0\<close> show ?thesis by (simp add: bar_defs bar_rank1_def)
    qed
  next
    case (JoinScan s j)
    with ms have j: "?m \<le> k" "j \<le> n" by auto
    show ?thesis
    proof (cases "j < n")
      case True
      with JoinScan ms ch W [OF j(1)] \<open>i = 0\<close> show ?thesis by (simp add: bar_defs bar_rank1_def split: if_splits)
    next
      case False
      with JoinScan ms W [OF j(1)] j(2) \<open>i = 0\<close> show ?thesis by (simp add: bar_defs bar_rank1_def)
    qed
  qed (use ms ch True in \<open>auto simp: bar_defs\<close>)
next
  case False
  then have "slave_ok k (bs_left st 0) (bs_sense st) (bs_pc st i) (bs_left st i) (bs_entered st i) (bs_flag st i)"
    using inv i by (auto simp: bar_inv_def)
  with False ch show ?thesis by (cases "bs_pc st i") (auto simp: bar_defs bar_rank1_def split: if_splits)
qed

lemma bar_rank_step:
  assumes "bar_inv (k, n) st" "i < n" "bar_step k i st \<noteq> st"
  shows "bar_rank (k, n) (bar_step k i st) < bar_rank (k, n) st"
  unfolding bar_rank_def snd_conv
  using assms(2) bar_rank_thread [OF assms] by (rule sum_less_one) (auto simp: bar_step_other)

definition bar_final :: "nat \<times> nat \<Rightarrow> bar_state \<Rightarrow> bool" where
  "bar_final c st \<longleftrightarrow> (\<forall>i < snd c. bs_pc st i = Ended)"

text \<open>A thread that has somewhere to go; the master may wait for thread \<open>j\<close>, which is then on its way.\<close>

lemma pc_changed: "bs_pc (bar_step k i st) i \<noteq> bs_pc st i \<Longrightarrow> bar_step k i st \<noteq> st"
  by auto

lemma slave_moves:
  assumes "slave_ok k m (bs_sense st) (bs_pc st j) (bs_left st j) (bs_entered st j) (bs_flag st j)"
    and "bs_flag st j \<noteq> bs_sense st XOR 1" and "m \<le> k" and "1 \<le> j"
  shows "bar_step k j st \<noteq> st"
  using assms by (intro pc_changed) (cases "bs_pc st j"; auto simp: bar_defs)

lemma bar_effect:
  assumes inv: "bar_inv (k, n) st" and nf: "\<not> bar_final (k, n) st"
  shows "\<exists>i < n. bar_step k i st \<noteq> st"
proof -
  let ?m = "bs_left st 0"
  have I: "0 < n" "th_num_thds (bs_team st) = int n"
    and ms: "master_ok k n ?m (bs_sense st) (bs_flag st) (bs_pc st 0) (bs_entered st 0)"
    and sl: "\<And>i. 1 \<le> i \<Longrightarrow> i < n \<Longrightarrow> slave_ok k ?m (bs_sense st) (bs_pc st i) (bs_left st i) (bs_entered st i) (bs_flag st i)"
    using inv by (auto simp: bar_inv_def)
  have scan: ?thesis if j: "1 \<le> j" "j \<le> n" "?m \<le> k" and q: "bs_pc st 0 \<in> {Scan (bs_sense st XOR 1) j, JoinScan (bs_sense st XOR 1) j}" for j
  proof (cases "j < n \<and> bs_flag st j \<noteq> bs_sense st XOR 1")
    case True
    with slave_moves [OF sl [of j]] j show ?thesis by blast
  next
    case False
    with q I j have "bar_step k 0 st \<noteq> st" by (intro pc_changed) (auto simp: bar_defs split: if_splits)
    with I show ?thesis by blast
  qed
  show ?thesis
  proof (cases "bs_pc st 0")
    case Outside
    then have "bar_step k 0 st \<noteq> st" by (intro pc_changed) (auto simp: bar_defs)
    with I show ?thesis by blast
  next
    case Ended
    have "bs_pc st i = Ended" if "i < n" for i
      using sl [of i] that ms Ended by (cases i; cases "bs_pc st i") auto
    with nf show ?thesis by (simp add: bar_final_def)
  qed (use ms scan in auto)
qed

interpretation barrier: progress "\<lambda>c. bar_step (fst c)" "\<lambda>c. {0..<snd c}" bar_inv bar_final bar_rank
proof (unfold_locales, goal_cases)
  case (1 c s i) then show ?case using bar_inv_step by (cases c) auto
next
  case (2 c s i) then show ?case using bar_rank_step by (cases c) auto
next
  case (3 c s) then show ?case using bar_effect [of "fst c" "snd c" s] by (cases c) auto
qed

text \<open>
  C15. The barriers do not block: under every fair schedule all threads of a team pass their \<open>k\<close> barriers and reach the
  end of the region, and each has passed exactly \<open>k\<close> barriers before it.
\<close>

theorem barrier_completes:
  assumes "0 < n" and "n \<le> MAX_PROC" and "fair {0..<n} sched"
  shows "\<exists>t. \<forall>i < n. bs_pc (run_sched (bar_step k) sched (bar_init cthd n) t) i = Ended \<and>
                   bs_entered (run_sched (bar_step k) sched (bar_init cthd n) t) i = k + 1"
proof -
  let ?r = "run_sched (bar_step k) sched (bar_init cthd n)"
  have init: "bar_inv (k, n) (bar_init cthd n)" using assms by (simp add: bar_inv_init)
  obtain t where t: "bar_final (k, n) (?r t)" using barrier.finishes [OF init, of sched] assms(3) by auto
  have "bar_inv (k, n) (?r t)" using barrier.inv_run [OF init, of sched t] fair_mem [OF assms(3)] by simp
  then have "bs_entered (?r t) i = k + 1" if "i < n" for i
    using t that by (cases i) (auto simp: bar_inv_def bar_final_def)
  with t show ?thesis by (auto simp: bar_final_def)
qed

theorem barrier_completes_witness:
  "fair {0..<4} (\<lambda>t. t mod 4) \<and>
   (\<exists>t. \<forall>i < 4. bs_pc (run_sched (bar_step 3) (\<lambda>t. t mod 4) (bar_init (thread0 1) 4) t) i = Ended \<and>
      bs_entered (run_sched (bar_step 3) (\<lambda>t. t mod 4) (bar_init (thread0 1) 4) t) i = 3 + 1)"
proof -
  have f: "fair {0..<4} (\<lambda>t. t mod 4)" by (rule fair_round_robin) simp
  show ?thesis using barrier_completes [OF _ _ f, of 3 "thread0 1"] f by (simp add: MAX_PROC_def)
qed

end
