(* ===== verification/Ompc_Single.thy ===== *)
theory Ompc_Single
  imports Ompc_Barrier
begin

text \<open>
  Single regions: the threads of a team come to a sequence of \<open>single\<close> constructs without barriers between them.
  The flags and the counter of the parent make sure that one thread, the first to come, executes each of them.
\<close>

subsection \<open>Steps\<close>

text \<open>
  A thread waits for its flag to be clear, or is about to enter the locked region. The constructs it has passed
  and the threads that were told to execute a construct are recorded; the code does not store them.
\<close>

datatype sg_pc = SgWait | SgLock

record sg_state =
  sg_team :: ompc_thread
  sg_pc :: "nat \<Rightarrow> sg_pc"
  sg_passed :: "nat \<Rightarrow> nat"
  sg_winners :: "nat \<Rightarrow> nat list"

text \<open>A step of thread \<open>i\<close> on its way through \<open>k\<close> constructs.\<close>

definition sg_step :: "ompc_thread \<Rightarrow> nat \<Rightarrow> nat \<Rightarrow> sg_state \<Rightarrow> sg_state" where
  "sg_step tp k i st =
     (case sg_pc st i of
        SgWait \<Rightarrow>
          if k \<le> sg_passed st i \<or> in_flag_set (sg_team st) (int i) then st
          else st\<lparr>sg_pc := (sg_pc st)(i := SgLock)\<rparr>
      | SgLock \<Rightarrow>
          let (ret, p) = do_single_locked (tp\<lparr>th_num := int i\<rparr>) (sg_team st);
              c = sg_passed st i
          in st\<lparr>sg_team := p, sg_pc := (sg_pc st)(i := SgWait), sg_passed := (sg_passed st)(i := c + 1),
                sg_winners := (if ret \<noteq> 0 then (sg_winners st)(c := i # sg_winners st c) else sg_winners st)\<rparr>)"

definition sg_init :: "ompc_thread \<Rightarrow> nat \<Rightarrow> sg_state" where
  "sg_init cthd n = \<lparr>sg_team = init_team cthd n, sg_pc = (\<lambda>_. SgWait), sg_passed = (\<lambda>_. 0), sg_winners = (\<lambda>_. [])\<rparr>"

inductive sg_reach :: "ompc_thread \<Rightarrow> nat \<Rightarrow> nat \<Rightarrow> ompc_thread \<Rightarrow> sg_state \<Rightarrow> bool" for tp k n cthd where
  sg_start: "sg_reach tp k n cthd (sg_init cthd n)"
| sg_next: "sg_reach tp k n cthd st \<Longrightarrow> i < n \<Longrightarrow> sg_reach tp k n cthd (sg_step tp k i st)"

lemma sg_reach_fold: "sg_reach tp k n cthd st \<Longrightarrow> (\<And>i. i \<in> set sched \<Longrightarrow> i < n) \<Longrightarrow> sg_reach tp k n cthd (fold (sg_step tp k) sched st)"
  by (induction sched arbitrary: st) (auto intro: sg_next)

subsection \<open>The invariant\<close>

text \<open>
  In round \<open>r\<close> the threads have passed \<open>r\<close> constructs, or \<open>r + 1\<close> and have their flag set; the counter is the number of
  those. Every construct of an earlier round has been given to one thread, that of this round when one has passed.
\<close>

definition sg_ahead :: "nat \<Rightarrow> nat \<Rightarrow> sg_state \<Rightarrow> nat set" where
  "sg_ahead n r st = {i. i < n \<and> sg_passed st i = r + 1}"

definition sg_round :: "nat \<Rightarrow> nat \<Rightarrow> nat \<Rightarrow> sg_state \<Rightarrow> bool" where
  "sg_round k n r st \<longleftrightarrow>
     0 < n \<and> n \<le> length (th_in_flags (sg_team st)) \<and> th_num_thds (sg_team st) = int n \<and> r \<le> k \<and>
     (\<forall>i < n. sg_passed st i \<le> k \<and>
        (sg_passed st i = r \<and> th_in_flags (sg_team st) ! i = 0 \<and> (sg_pc st i = SgLock \<longrightarrow> r < k) \<or>
         sg_passed st i = r + 1 \<and> th_in_flags (sg_team st) ! i = 1 \<and> sg_pc st i = SgWait)) \<and>
     th_out_count (sg_team st) = int (card (sg_ahead n r st)) \<and> card (sg_ahead n r st) < n \<and>
     (\<forall>c. length (sg_winners st c) = (if c < r \<or> c = r \<and> sg_ahead n r st \<noteq> {} then 1 else 0))"

definition sg_inv :: "nat \<times> nat \<Rightarrow> sg_state \<Rightarrow> bool" where
  "sg_inv c st \<longleftrightarrow> (\<exists>r. sg_round (fst c) (snd c) r st)"

lemma clear_flags_nth: "n \<le> length fs \<Longrightarrow> i < n \<Longrightarrow> clear_in_flags fs (int n) ! i = 0"
  by (simp add: clear_in_flags_def nth_append)

lemma length_clear [simp]: "n \<le> length fs \<Longrightarrow> length (clear_in_flags fs (int n)) = length fs"
  by (simp add: clear_in_flags_def)

lemma sg_round_lock:
  assumes R: "sg_round k n r st" and i: "i < n" and q: "sg_pc st i = SgLock"
  shows "sg_inv (k, n) (sg_step tp k i st)"
proof -
  let ?A = "sg_ahead n r st" and ?p = "sg_team st" and ?st = "sg_step tp k i st"
  have I: "0 < n" "n \<le> length (th_in_flags ?p)" "th_num_thds ?p = int n" "th_out_count ?p = int (card ?A)" "card ?A < n"
    and W: "\<And>c. length (sg_winners st c) = (if c < r \<or> c = r \<and> ?A \<noteq> {} then 1 else 0)"
    and T: "\<And>j. j < n \<Longrightarrow> sg_passed st j \<le> k \<and>
        (sg_passed st j = r \<and> th_in_flags ?p ! j = 0 \<and> (sg_pc st j = SgLock \<longrightarrow> r < k) \<or>
         sg_passed st j = r + 1 \<and> th_in_flags ?p ! j = 1 \<and> sg_pc st j = SgWait)"
    using R by (auto simp: sg_round_def)
  have fin: "finite ?A" by (simp add: sg_ahead_def)
  have ir: "sg_passed st i = r" "r < k" "i \<notin> ?A" using T [OF i] q by (auto simp: sg_ahead_def)
  have A0: "card ?A = 0 \<longleftrightarrow> ?A = {}" using fin by simp
  have out: "th_out_count ?p = 0 \<longleftrightarrow> ?A = {}" using I(4) A0 by simp
  have W': "length (sg_winners ?st c) = (if c \<le> r then 1 else 0)" for c
    using W [of c] W [of r] ir out by (auto simp: sg_step_def q do_single_locked_def Let_def)
  have passed: "sg_passed ?st = (sg_passed st)(i := r + 1)" "sg_pc ?st = (sg_pc st)(i := SgWait)"
    by (simp_all add: sg_step_def q do_single_locked_def Let_def ir)
  show ?thesis
  proof (cases "card ?A + 1 = n")
    case True
    have "?A \<subseteq> {..<n} - {i}" "card ({..<n} - {i}) = card ?A" using ir(3) i True by (auto simp: sg_ahead_def)
    then have A: "?A = {..<n} - {i}" by (intro card_subset_eq) auto
    have p: "sg_team ?st = ?p\<lparr>th_out_count := 0, th_in_flags := clear_in_flags (th_in_flags ?p) (int n)\<rparr>"
      using True I by (simp add: sg_step_def q do_single_locked_def Let_def)
    have all: "sg_passed ?st j = r + 1" "sg_pc ?st j = SgWait" if "j < n" for j
    proof (atomize (full), cases "j = i")
      case False
      then have "j \<in> ?A" using A that by blast
      then have "sg_passed st j = r + 1" by (simp add: sg_ahead_def)
      with False T [OF that] show "sg_passed ?st j = r + 1 \<and> sg_pc ?st j = SgWait" by (simp add: passed)
    qed (simp add: passed)
    then have "sg_ahead n (r + 1) ?st = {}" by (auto simp: sg_ahead_def)
    with p all I ir W' have "sg_round k n (r + 1) ?st" by (simp add: sg_round_def clear_flags_nth less_Suc_eq_le)
    then show ?thesis by (auto simp: sg_inv_def)
  next
    case False
    have p: "sg_team ?st = ?p\<lparr>th_out_count := int (card ?A + 1), th_in_flags := (th_in_flags ?p)[i := 1]\<rparr>"
      using False I by (simp add: sg_step_def q do_single_locked_def Let_def)
    have A: "sg_ahead n r ?st = insert i ?A" using i by (auto simp: sg_ahead_def passed)
    then have card: "card (sg_ahead n r ?st) = card ?A + 1" using fin ir(3) by simp
    have "sg_round k n r ?st"
      unfolding sg_round_def card using I T i ir W' False A by (auto simp: p passed nth_list_update)
    then show ?thesis by (auto simp: sg_inv_def)
  qed
qed

lemma sg_inv_step:
  assumes "sg_inv (k, n) st" "i < n"
  shows "sg_inv (k, n) (sg_step tp k i st)"
proof -
  obtain r where R: "sg_round k n r st" using assms(1) by (auto simp: sg_inv_def)
  show ?thesis
  proof (cases "sg_pc st i = SgLock")
    case True
    with sg_round_lock [OF R assms(2)] show ?thesis .
  next
    case False
    then have q: "sg_pc st i = SgWait" by (cases "sg_pc st i") auto
    show ?thesis
    proof (cases "k \<le> sg_passed st i \<or> in_flag_set (sg_team st) (int i)")
      case False
      have "sg_ahead n r (st\<lparr>sg_pc := (sg_pc st)(i := SgLock)\<rparr>) = sg_ahead n r st" by (simp add: sg_ahead_def)
      then have "sg_round k n r (st\<lparr>sg_pc := (sg_pc st)(i := SgLock)\<rparr>)"
        using R False assms(2) by (auto simp: sg_round_def in_flag_set_def)
      with False q show ?thesis by (auto simp: sg_step_def sg_inv_def)
    qed (use q assms(1) in \<open>simp add: sg_step_def\<close>)
  qed
qed

lemma sg_inv_init: "0 < n \<Longrightarrow> n \<le> MAX_PROC \<Longrightarrow> sg_inv (k, n) (sg_init cthd n)"
  by (auto simp: sg_inv_def sg_round_def sg_init_def init_team_def sg_ahead_def intro!: exI [of _ 0])

lemma sg_reach_inv:
  assumes "0 < n" "n \<le> MAX_PROC" "sg_reach tp k n cthd st"
  shows "sg_inv (k, n) st"
  using assms(3) by induction (use assms(1,2) in \<open>auto intro: sg_inv_init sg_inv_step\<close>)

text \<open>
  C16. Single regions: in every state the threads of a team reach, no construct has been given to two threads, and a
  construct that some thread has passed has been given to exactly one.
\<close>

theorem single_once:
  assumes "0 < n" and "n \<le> MAX_PROC" and "sg_reach tp k n cthd st"
  shows "length (sg_winners st c) \<le> 1 \<and> ((\<exists>i < n. c < sg_passed st i) \<longleftrightarrow> length (sg_winners st c) = 1)"
proof -
  obtain r where R: "sg_round k n r st" using sg_reach_inv [OF assms] by (auto simp: sg_inv_def)
  then have W: "length (sg_winners st c) = (if c < r \<or> c = r \<and> sg_ahead n r st \<noteq> {} then 1 else 0)"
    and T: "\<And>i. i < n \<Longrightarrow> sg_passed st i = r \<or> sg_passed st i = r + 1" by (auto simp: sg_round_def)
  have "(\<exists>i < n. c < sg_passed st i) \<longleftrightarrow> c < r \<or> c = r \<and> sg_ahead n r st \<noteq> {}"
  proof
    assume "\<exists>i < n. c < sg_passed st i"
    then show "c < r \<or> c = r \<and> sg_ahead n r st \<noteq> {}" using T by (fastforce simp: sg_ahead_def)
  next
    assume "c < r \<or> c = r \<and> sg_ahead n r st \<noteq> {}"
    then show "\<exists>i < n. c < sg_passed st i" using T [OF assms(1)] assms(1) by (auto simp: sg_ahead_def)
  qed
  with W show ?thesis by simp
qed

theorem single_once_witness:
  "let st = fold (sg_step (thread0 1) 2) [1, 1, 0, 0, 0, 0] (sg_init (thread0 1) 2)
   in sg_reach (thread0 1) 2 2 (thread0 1) st \<and> length (sg_winners st 0) = 1 \<and> sg_winners st 0 = [1] \<and> sg_winners st 1 = [0]"
proof -
  let ?st = "fold (sg_step (thread0 1) 2) [1, 1, 0, 0, 0, 0] (sg_init (thread0 1) 2)"
  have r: "sg_reach (thread0 1) 2 2 (thread0 1) ?st" by (rule sg_reach_fold [OF sg_start]) auto
  have "sg_passed ?st 1 = 1" "sg_winners ?st 0 = [1]" "sg_winners ?st 1 = [0]" by code_simp+
  moreover from this have "0 < sg_passed ?st 1" by simp
  moreover have "(\<exists>i < 2. 0 < sg_passed ?st i) \<longleftrightarrow> length (sg_winners ?st 0) = 1"
    using single_once [OF _ _ r, of 0] by (simp only: MAX_PROC_def)
  ultimately show ?thesis using r unfolding Let_def by simp
qed

subsection \<open>Progress\<close>

definition sg_rank :: "nat \<times> nat \<Rightarrow> sg_state \<Rightarrow> nat" where
  "sg_rank c st = (\<Sum>i < snd c. 2 * (fst c - sg_passed st i) + (if sg_pc st i = SgWait then 1 else 0))"

lemma sg_rank_step:
  assumes inv: "sg_inv (k, n) st" and i: "i < n" and ch: "sg_step tp k i st \<noteq> st"
  shows "sg_rank (k, n) (sg_step tp k i st) < sg_rank (k, n) st"
proof -
  obtain r where R: "sg_round k n r st" using inv by (auto simp: sg_inv_def)
  have oth: "sg_passed (sg_step tp k i st) j = sg_passed st j \<and> sg_pc (sg_step tp k i st) j = sg_pc st j" if "j \<noteq> i" for j
    using that by (auto simp: sg_step_def do_single_locked_def Let_def split: sg_pc.split)
  have "2 * (k - sg_passed (sg_step tp k i st) i) + (if sg_pc (sg_step tp k i st) i = SgWait then 1 else 0)
      < 2 * (k - sg_passed st i) + (if sg_pc st i = SgWait then 1 else (0::nat))"
  proof (cases "sg_pc st i")
    case SgLock
    then have "sg_passed st i < k" using R i by (auto simp: sg_round_def)
    with SgLock show ?thesis by (simp add: sg_step_def do_single_locked_def Let_def)
  qed (use ch in \<open>auto simp: sg_step_def split: if_splits\<close>)
  then show ?thesis unfolding sg_rank_def fst_conv snd_conv using i oth by (intro sum_less_one) auto
qed

definition sg_final :: "nat \<times> nat \<Rightarrow> sg_state \<Rightarrow> bool" where
  "sg_final c st \<longleftrightarrow> (\<forall>i < snd c. sg_passed st i = fst c)"

lemma sg_effect:
  assumes inv: "sg_inv (k, n) st" and nf: "\<not> sg_final (k, n) st"
  shows "\<exists>i < n. sg_step tp k i st \<noteq> st"
proof -
  obtain r where R: "sg_round k n r st" using inv by (auto simp: sg_inv_def)
  have "\<exists>i < n. i \<notin> sg_ahead n r st"
  proof (rule ccontr)
    assume "\<not> ?thesis"
    then have "{..<n} \<subseteq> sg_ahead n r st" by auto
    then have "n \<le> card (sg_ahead n r st)" using card_mono [of "sg_ahead n r st" "{..<n}"] by (simp add: sg_ahead_def)
    with R show False by (simp add: sg_round_def)
  qed
  then obtain i where i: "i < n" "i \<notin> sg_ahead n r st" by blast
  have "r < k" using R nf unfolding sg_round_def sg_final_def by fastforce
  have d: "sg_passed st i = r" "th_in_flags (sg_team st) ! i = 0" using R i by (auto simp: sg_round_def sg_ahead_def)
  have "sg_pc (sg_step tp k i st) i \<noteq> sg_pc st i"
    using d \<open>r < k\<close> by (cases "sg_pc st i") (simp_all add: sg_step_def in_flag_set_def do_single_locked_def Let_def)
  with i(1) show ?thesis by metis
qed

interpretation single: progress "\<lambda>c. sg_step (fst c) (fst (snd c))" "\<lambda>c. {0..<snd (snd c)}"
  "\<lambda>c. sg_inv (snd c)" "\<lambda>c. sg_final (snd c)" "\<lambda>c. sg_rank (snd c)"
proof (unfold_locales, goal_cases)
  case (1 c s i) then show ?case using sg_inv_step by (cases c) auto
next
  case (2 c s i) then show ?case using sg_rank_step by (cases c) auto
next
  case (3 c s) then show ?case using sg_effect [of "fst (snd c)" "snd (snd c)" s "fst c"] by (cases c) auto
qed

text \<open>
  The flags do not block: under every fair schedule all threads of a team pass their \<open>k\<close> single constructs, and then
  each construct has been executed by exactly one thread.
\<close>

theorem single_completes:
  assumes "0 < n" and "n \<le> MAX_PROC" and "fair {0..<n} sched"
  shows "\<exists>t. (\<forall>i < n. sg_passed (run_sched (sg_step tp k) sched (sg_init cthd n) t) i = k) \<and>
    (\<forall>c < k. length (sg_winners (run_sched (sg_step tp k) sched (sg_init cthd n) t) c) = 1)"
proof -
  let ?r = "run_sched (sg_step tp k) sched (sg_init cthd n)"
  have init: "sg_inv (snd (tp, k, n)) (sg_init cthd n)" using assms by (simp add: sg_inv_init)
  obtain t where t: "sg_final (k, n) (?r t)" using single.finishes [OF init, of sched] assms(3) by auto
  have "sg_inv (k, n) (?r t)" using single.inv_run [OF init, of sched t] fair_mem [OF assms(3)] by simp
  then obtain r where R: "sg_round k n r (?r t)" by (auto simp: sg_inv_def)
  have "r = k \<or> r + 1 = k \<and> 0 \<in> sg_ahead n r (?r t)"
    using R t assms(1) by (fastforce simp: sg_round_def sg_final_def sg_ahead_def)
  with R have "length (sg_winners (?r t) c) = 1" if "c < k" for c using that by (auto simp: sg_round_def)
  with t show ?thesis by (auto simp: sg_final_def)
qed

theorem single_completes_witness:
  "fair {0..<3} (\<lambda>t. t mod 3) \<and>
   (\<exists>t. (\<forall>i < 3. sg_passed (run_sched (sg_step (thread0 1) 5) (\<lambda>t. t mod 3) (sg_init (thread0 1) 3) t) i = 5) \<and>
     (\<forall>c < 5. length (sg_winners (run_sched (sg_step (thread0 1) 5) (\<lambda>t. t mod 3) (sg_init (thread0 1) 3) t) c) = 1))"
proof -
  have f: "fair {0..<3} (\<lambda>t. t mod 3)" by (rule fair_round_robin) simp
  show ?thesis using single_completes [OF _ _ f, of "thread0 1" 5 "thread0 1"] f by (simp add: MAX_PROC_def)
qed

end
