(* ===== verification/Ompc_Dynamic.thy ===== *)
theory Ompc_Dynamic
  imports Ompc_Chunk_Laws Ompc_Single
begin

text \<open>
  Dynamic and guided schedules: the threads of a team take chunks of one loop from a shared index. For every
  interleaving each iteration is in exactly one chunk, and the counters of the parent are as before when all
  threads are done.
\<close>

subsection \<open>Steps\<close>

text \<open>The loop: \<open>dl_up\<close>, \<open>dl_ubofs\<close> and \<open>dl_chunk\<close> are \<open>up\<close>, \<open>ubofs\<close> and \<open>chunk_size\<close>, \<open>dl_n\<close> is the size of the team.\<close>

record dyn_loop =
  dl_n :: nat
  dl_lb :: int
  dl_up :: int
  dl_ubofs :: int
  dl_step :: int
  dl_chunk :: int
  dl_guided :: bool

text \<open>
  Where a thread is: waiting for its flag, before the locked region and before the store of the flag in
  \<open>ompc_dynamic_sched_init_tid\<close>; before a call of \<open>ompc_dynamic_sched_next_tid\<close>, behind its first locked region
  with the chunk it took, behind the call that returned \<open>FALSE\<close>, or stopped by a division by zero.
\<close>

datatype dy_pc = DWait | DEnter | DFlag | DCall | DTaken int int | DDone | DFault

record dy_state =
  dy_team :: ompc_thread
  dy_thr :: "nat \<Rightarrow> ompc_thread"
  dy_pc :: "nat \<Rightarrow> dy_pc"
  dy_log :: "nat \<Rightarrow> (int \<times> int) list"

definition dy_step :: "dyn_loop \<Rightarrow> nat \<Rightarrow> dy_state \<Rightarrow> dy_state" where
  "dy_step L i st =
     (case dy_pc st i of
        DWait \<Rightarrow> if in_flag_set (dy_team st) (int i) then st else st\<lparr>dy_pc := (dy_pc st)(i := DEnter)\<rparr>
      | DEnter \<Rightarrow> st\<lparr>dy_team := dynamic_init_enter (dy_team st) (dl_lb L), dy_pc := (dy_pc st)(i := DFlag)\<rparr>
      | DFlag \<Rightarrow> st\<lparr>dy_team := dynamic_init_flag (dy_team st) (int i), dy_pc := (dy_pc st)(i := DCall)\<rparr>
      | DCall \<Rightarrow>
          (case dynamic_next_take (dy_thr st i) (dy_team st) (dl_guided L) of
             Inl err \<Rightarrow> st\<lparr>dy_pc := (dy_pc st)(i := DFault)\<rparr>
           | Inr ((b, e), p) \<Rightarrow>
               st\<lparr>dy_team := p, dy_pc := (dy_pc st)(i := if dynamic_next_done (dy_thr st i) then DDone else DTaken b e)\<rparr>)
      | DTaken b e \<Rightarrow>
          let tp = dy_thr st i;
              p = (if dynamic_next_exit_flag tp e then dynamic_next_exit (dy_team st) else dy_team st);
              (r, tp) = dynamic_next_result tp b e (dl_ubofs L)
          in st\<lparr>dy_team := p, dy_thr := (dy_thr st)(i := tp),
                dy_pc := (dy_pc st)(i := if r = None then DDone else DCall),
                dy_log := (if r = None then dy_log st else (dy_log st)(i := dy_log st i @ [the r]))\<rparr>
      | DDone \<Rightarrow> st
      | DFault \<Rightarrow> st)"

text \<open>All threads have run the first part of the initialisation.\<close>

definition dy_init :: "dyn_loop \<Rightarrow> ompc_thread \<Rightarrow> ompc_thread \<Rightarrow> dy_state" where
  "dy_init L cthd tp =
     \<lparr>dy_team = init_team cthd (dl_n L),
      dy_thr = (\<lambda>i. projr (dynamic_init_local (tp\<lparr>th_num := int i\<rparr>) (Some (init_team cthd (dl_n L)))
                 (dl_lb L) (dl_up L) (dl_ubofs L) (dl_step L) (dl_chunk L))),
      dy_pc = (\<lambda>_. DWait), dy_log = (\<lambda>_. [])\<rparr>"

inductive dy_reach :: "dyn_loop \<Rightarrow> ompc_thread \<Rightarrow> ompc_thread \<Rightarrow> dy_state \<Rightarrow> bool" for L cthd tp where
  dy_start: "dy_reach L cthd tp (dy_init L cthd tp)"
| dy_next: "dy_reach L cthd tp st \<Longrightarrow> i < dl_n L \<Longrightarrow> dy_reach L cthd tp (dy_step L i st)"

lemma dy_reach_fold:
  "dy_reach L cthd tp st \<Longrightarrow> (\<And>i. i \<in> set sched \<Longrightarrow> i < dl_n L) \<Longrightarrow> dy_reach L cthd tp (fold (dy_step L) sched st)"
  by (induction sched arbitrary: st) (auto intro: dy_next)

subsection \<open>Positions\<close>

text \<open>The end of the loop, the length of a chunk in addresses, and the number of iterations.\<close>

definition dl_end :: "dyn_loop \<Rightarrow> int" where
  "dl_end L = dl_up L + dl_ubofs L"

definition dl_width :: "dyn_loop \<Rightarrow> int" where
  "dl_width L = dl_chunk L * dl_step L"

definition dl_count :: "dyn_loop \<Rightarrow> int" where
  "dl_count L = trip_count (dl_lb L) (dl_end L) (dl_step L)"

text \<open>The address of chunk number \<open>d\<close>, and whether that chunk starts at the end of the loop or behind it.\<close>

definition dl_pos :: "dyn_loop \<Rightarrow> int \<Rightarrow> int" where
  "dl_pos L d = dl_lb L + d * dl_width L"

definition dl_over :: "dyn_loop \<Rightarrow> int \<Rightarrow> bool" where
  "dl_over L d \<longleftrightarrow> dl_count L \<le> d * dl_chunk L"

text \<open>No position beyond \<open>dl_limit\<close> is reached.\<close>

definition dl_whole :: "dyn_loop \<Rightarrow> int" where
  "dl_whole L = (if 0 < dl_count L then \<bar>dl_end L - dl_lb L\<bar> div \<bar>dl_width L\<bar> else 0)"

definition dl_limit :: "dyn_loop \<Rightarrow> int" where
  "dl_limit L = 1 + dl_whole L + int (dl_n L)"

text \<open>
  The loops the theorems cover: a team of at least two threads, a step that is not 0 and a positive chunk size; when the
  step is negative, a loop of a C program; addresses that are not negative and leave room for the chunks of all threads
  and one more, behind the start and behind the end; and \<open>int\<close> values that do not overflow.
\<close>

definition dyn_ok :: "dyn_loop \<Rightarrow> bool" where
  "dyn_ok L \<longleftrightarrow> 1 < dl_n L \<and> dl_n L \<le> MAX_PROC \<and> dl_step L \<noteq> 0 \<and> 0 < dl_chunk L \<and> (0 < dl_step L \<or> dl_ubofs L = 0) \<and>
     room (int (dl_n L)) (dl_chunk L) (dl_step L) (dl_lb L) \<and> room (int (dl_n L)) (dl_chunk L) (dl_step L) (dl_end L) \<and>
     fits32 (dl_width L) \<and>
     (dl_guided L \<longrightarrow> 2 * \<bar>dl_end L - dl_lb L\<bar> + (int (dl_n L) + 2) * \<bar>dl_width L\<bar> < 2147483648)"

lemma dl_over_iff:
  assumes "dyn_ok L" "0 \<le> d"
  shows "dl_over L d \<longleftrightarrow> \<not> ahead (dl_step L) (dl_pos L d) (dl_end L)"
  using assms trip_count_iff [of "dl_step L" "d * dl_chunk L" "dl_lb L" "dl_end L"]
  by (auto simp: dyn_ok_def dl_over_def dl_count_def dl_pos_def dl_width_def mult.assoc)

lemma dl_over_mono: "dyn_ok L \<Longrightarrow> dl_over L d \<Longrightarrow> d \<le> d' \<Longrightarrow> dl_over L d'"
proof -
  assume "dyn_ok L" "dl_over L d" "d \<le> d'"
  then have "d * dl_chunk L \<le> d' * dl_chunk L" "dl_count L \<le> d * dl_chunk L" by (auto simp: dyn_ok_def dl_over_def)
  then show ?thesis unfolding dl_over_def by linarith
qed

lemma dl_width_dir: "dyn_ok L \<Longrightarrow> 0 < dl_width L \<longleftrightarrow> 0 < dl_step L" "dyn_ok L \<Longrightarrow> dl_width L \<noteq> 0"
  by (auto simp: dl_width_def dyn_ok_def zero_less_mult_iff)

lemma dl_pos_fits:
  assumes ok: "dyn_ok L" and d: "0 \<le> d" "d \<le> dl_limit L"
  shows "fitsu64 (dl_pos L d)"
proof -
  let ?n = "int (dl_n L)" and ?W = "dl_width L"
  have room: "fitsu64 (dl_lb L)" "fitsu64 (dl_lb L + (?n + 1) * ?W)" "fitsu64 (dl_end L + (?n + 1) * ?W)"
    using ok by (auto simp: dyn_ok_def room_def dl_width_def mult.assoc)
  have whole: "dl_whole L * \<bar>?W\<bar> \<le> \<bar>dl_end L - dl_lb L\<bar>" "0 \<le> dl_whole L"
    using dl_width_dir(2) [OF ok] by (auto simp: dl_whole_def pos_imp_zdiv_nonneg_iff minus_mod_eq_div_mult [symmetric])
  have "d * \<bar>?W\<bar> \<le> (1 + dl_whole L + ?n) * \<bar>?W\<bar>" "0 \<le> d * \<bar>?W\<bar>" using d by (auto simp: dl_limit_def mult_right_mono)
  then have b: "0 \<le> d * \<bar>?W\<bar>" "d * \<bar>?W\<bar> \<le> dl_whole L * \<bar>?W\<bar> + (?n + 1) * \<bar>?W\<bar>" by (simp_all add: algebra_simps)
  have between: "fitsu64 (dl_pos L d)" if "d * \<bar>?W\<bar> \<le> x + (?n + 1) * \<bar>?W\<bar>" "fitsu64 (e + (?n + 1) * ?W)"
    "e = (if 0 < ?W then dl_lb L + x else dl_lb L - x)" for x e
  proof (cases "0 < ?W")
    case True
    with that b(1) have "0 \<le> d * ?W" "d * ?W \<le> x + (?n + 1) * ?W" "e = dl_lb L + x" by simp_all
    with that(2) room(1) show ?thesis unfolding dl_pos_def fitsu64_def by linarith
  next
    case False
    with that b(1) have "d * - ?W \<ge> 0" "d * - ?W \<le> x + (?n + 1) * - ?W" "e = dl_lb L - x" by simp_all
    then have "d * ?W \<le> 0" "- x + (?n + 1) * ?W \<le> d * ?W" by (simp_all only: mult_minus_right)
    with \<open>e = dl_lb L - x\<close> that(2) room(1) show ?thesis unfolding dl_pos_def fitsu64_def by linarith
  qed
  show ?thesis
  proof (cases "0 < dl_count L")
    case True
    then have "ahead (dl_step L) (dl_lb L) (dl_end L)"
      using ok trip_count_iff [of "dl_step L" 0 "dl_lb L" "dl_end L"] by (simp add: dyn_ok_def dl_count_def)
    then have "0 < ?W \<Longrightarrow> dl_lb L < dl_end L" "\<not> 0 < ?W \<Longrightarrow> dl_end L < dl_lb L"
      using dl_width_dir(1) [OF ok] by (auto simp: ahead_def)
    then have "dl_end L = (if 0 < ?W then dl_lb L + \<bar>dl_end L - dl_lb L\<bar> else dl_lb L - \<bar>dl_end L - dl_lb L\<bar>)" by auto
    with between [of "\<bar>dl_end L - dl_lb L\<bar>" "dl_end L"] whole(1) b(2) room(3) show ?thesis by linarith
  next
    case False
    then have "dl_whole L = 0" by (simp add: dl_whole_def)
    with between [of 0 "dl_lb L"] b room show ?thesis by simp
  qed
qed

text \<open>The number of chunks that a guided thread takes when a distance of \<open>x\<close> is left.\<close>

lemma guided_chunks:
  fixes x w n :: int
  assumes w: "0 < w" and n: "0 < n" and q: "q = (x sdiv n + w) sdiv w"
  shows "0 < x \<Longrightarrow> 1 \<le> q" "0 < x \<Longrightarrow> (q - 1) * w \<le> x" "x \<le> 0 \<Longrightarrow> q \<le> 1" "\<bar>x sdiv n\<bar> \<le> \<bar>x\<bar>"
proof -
  show a: "\<bar>x sdiv n\<bar> \<le> \<bar>x\<bar>" using round_up(3) [OF n, of "x - n + 1"] by simp
  assume x: "0 < x"
  then have l: "0 \<le> x sdiv n" "x sdiv n \<le> x" using a n by (simp_all add: pos_imp_zdiv_nonneg_iff)
  then have "q = x sdiv n div w + 1" using w q div_add_self2 [of w "x sdiv n"] by simp
  moreover have "x sdiv n div w * w \<le> x sdiv n" using le_div_iff [OF w] by blast
  ultimately show "1 \<le> q" "(q - 1) * w \<le> x" using l w by (simp_all add: pos_imp_zdiv_nonneg_iff)
next
  assume "x \<le> 0"
  then have "x sdiv n \<le> 0" using n less_sdiv_iff [of 0 n x] by simp
  moreover have "(1 + 1) * w > w" using w by simp
  ultimately have "\<not> (1 + 1) * w \<le> x sdiv n + w" using w by linarith
  then show "q \<le> 1" using less_sdiv_iff [of 1 w "x sdiv n + w"] w q by simp
qed

text \<open>The distance from chunk \<open>d\<close> to the end, in the direction of the loop.\<close>

definition dl_left :: "dyn_loop \<Rightarrow> int \<Rightarrow> int" where
  "dl_left L d = (if 0 < dl_width L then dl_end L - dl_pos L d else dl_pos L d - dl_end L)"

lemma dl_left_over: "dyn_ok L \<Longrightarrow> 0 \<le> d \<Longrightarrow> dl_over L d \<longleftrightarrow> dl_left L d \<le> 0"
  using dl_width_dir(1) [of L] by (simp add: dl_over_iff ahead_def dl_left_def not_less)

lemma dl_left_whole:
  assumes ok: "dyn_ok L" and d: "0 \<le> d" "\<not> dl_over L d" and q: "(q - 1) * \<bar>dl_width L\<bar> \<le> dl_left L d"
  shows "d + q \<le> 1 + dl_whole L"
proof -
  have W: "0 < \<bar>dl_width L\<bar>" using dl_width_dir(2) [OF ok] by simp
  have "dl_left L d + d * \<bar>dl_width L\<bar> = dl_left L 0"
    by (cases "0 < dl_width L") (simp_all add: dl_left_def dl_pos_def)
  moreover have "dl_left L 0 \<le> \<bar>dl_end L - dl_lb L\<bar>" by (auto simp: dl_left_def dl_pos_def)
  ultimately have "(d + q - 1) * \<bar>dl_width L\<bar> \<le> \<bar>dl_end L - dl_lb L\<bar>" using q by (simp add: algebra_simps)
  moreover have "0 \<le> d * dl_chunk L" using d(1) ok by (simp add: dyn_ok_def)
  then have "0 < dl_count L" using d(2) unfolding dl_over_def by linarith
  ultimately show ?thesis using le_div_iff [OF W, of "d + q - 1" "\<bar>dl_end L - dl_lb L\<bar>"] unfolding dl_whole_def by auto
qed

lemma dl_left_fits:
  assumes ok: "dyn_ok L" "dl_guided L" and d: "0 \<le> d" "d \<le> dl_limit L"
  shows "\<bar>dl_left L d\<bar> + \<bar>dl_width L\<bar> < 2147483648"
proof -
  let ?n = "int (dl_n L)" and ?w = "\<bar>dl_width L\<bar>"
  have whole: "dl_whole L * ?w \<le> \<bar>dl_end L - dl_lb L\<bar>"
    using dl_width_dir(2) [OF ok(1)] by (auto simp: dl_whole_def minus_mod_eq_div_mult [symmetric])
  define A B M where "A = d * ?w" and "B = \<bar>dl_end L - dl_lb L\<bar>" and "M = (?n + 1) * ?w"
  have "d * ?w \<le> (1 + dl_whole L + ?n) * ?w" using d by (simp add: dl_limit_def mult_right_mono)
  also have "\<dots> = dl_whole L * ?w + M" by (simp add: M_def algebra_simps)
  also have "\<dots> \<le> B + M" using whole by (simp add: B_def)
  finally have A: "A \<le> B + M" "0 \<le> A" using d by (simp_all add: A_def)
  have M: "2 * B + (M + ?w) < 2147483648" "0 \<le> ?w" using ok by (simp_all add: dyn_ok_def B_def M_def distrib_right)
  have "dl_left L d = dl_left L 0 - A"
    by (cases "0 < dl_width L") (simp_all add: dl_left_def dl_pos_def A_def)
  moreover have "\<bar>dl_left L 0\<bar> = B" by (auto simp: dl_left_def dl_pos_def B_def)
  ultimately show ?thesis using A M by linarith
qed

text \<open>Taking a chunk moves the shared index forward by a number of chunks, by one behind the end.\<close>

lemma dy_take:
  assumes ok: "dyn_ok L" and d: "0 \<le> d" "d \<le> dl_limit L"
    and tp: "th_loop_chunk_size tp = dl_width L" "th_loop_end tp = dl_end L"
    and p: "th_dynamic_index p = dl_pos L d" "th_num_thds p = int (dl_n L)"
  shows "\<exists>q \<ge> 1. dynamic_next_take tp p (dl_guided L) = Inr ((dl_pos L d, dl_pos L (d + q)), p\<lparr>th_dynamic_index := dl_pos L (d + q)\<rparr>) \<and>
    (dl_over L d \<longrightarrow> q = 1) \<and> (\<not> dl_over L d \<longrightarrow> d + q \<le> 1 + dl_whole L)"
proof (cases "dl_guided L")
  case False
  have "d + 1 \<le> 1 + dl_whole L" if "\<not> dl_over L d"
    using dl_left_whole [OF ok d(1) that, of 1] dl_left_over [OF ok d(1)] that by simp
  then show ?thesis using False by (intro exI [of _ 1]) (simp add: dynamic_next_take_def Let_def tp p dl_pos_def algebra_simps)
next
  case True
  let ?n = "int (dl_n L)" and ?w = "\<bar>dl_width L\<bar>" and ?x = "dl_left L d"
  have w: "0 < ?w" "0 < ?n" using dl_width_dir(2) [OF ok] ok by (auto simp: dyn_ok_def)
  define q0 where "q0 = (?x sdiv ?n + ?w) sdiv ?w"
  define q where "q = max 1 q0"
  note G = guided_chunks [OF w q0_def]
  let ?l = "(dl_end L - dl_pos L d) sdiv ?n"
  have l: "?l = (if 0 < dl_width L then ?x sdiv ?n else - (?x sdiv ?n))"
    using sdiv_minus(2) [of "dl_pos L d - dl_end L" ?n] by (simp add: dl_left_def)
  have lw: "\<bar>?l\<bar> + ?w < 2147483648" using G(4) dl_left_fits [OF ok True d] unfolding l by auto
  then have f: "fits32 ?l" "fits32 (?l + dl_width L)" unfolding fits32_def by linarith+
  have q0: "(?l + dl_width L) sdiv dl_width L = q0"
  proof (cases "0 < dl_width L")
    case False
    have "(- (?x sdiv ?n) + dl_width L) sdiv dl_width L = (?x sdiv ?n - dl_width L) sdiv (- dl_width L)"
      using sdiv_minus(1) [of "- (?x sdiv ?n) + dl_width L" "dl_width L"] by (simp add: algebra_simps del: sdiv_minus)
    then show ?thesis using False by (simp add: l q0_def abs_if)
  qed (simp add: l q0_def)
  moreover have "fits32 (q0 * dl_width L)"
  proof -
    have "\<bar>q0 * dl_width L\<bar> \<le> \<bar>?l + dl_width L\<bar>" using abs_sdiv_mult_le [of "?l + dl_width L" "dl_width L"] by (simp add: q0 abs_mult)
    then show ?thesis using lw unfolding fits32_def by linarith
  qed
  ultimately have "dynamic_next_take tp p (dl_guided L) = Inr ((dl_pos L d, dl_pos L (d + q)), p\<lparr>th_dynamic_index := dl_pos L (d + q)\<rparr>)"
    using True f dl_width_dir(2) [OF ok] by (simp add: dynamic_next_take_def Let_def tp p q_def) (simp add: dl_pos_def distrib_right)
  moreover have "q = 1" if "dl_over L d" using G(3) that dl_left_over [OF ok d(1)] by (simp add: q_def)
  moreover have "d + q \<le> 1 + dl_whole L" if "\<not> dl_over L d"
    using dl_left_whole [OF ok d(1) that, of q] G(1,2) that dl_left_over [OF ok d(1)] by (simp add: q_def)
  ultimately show ?thesis by (intro exI [of _ q]) (simp add: q_def)
qed

text \<open>The chunk from position \<open>x\<close> to position \<open>y\<close>, as it is returned: cut at the end of the loop.\<close>

definition dl_chunk_of :: "dyn_loop \<Rightarrow> int \<Rightarrow> int \<Rightarrow> int \<times> int" where
  "dl_chunk_of L x y = (dl_pos L x, (if dl_over L y then dl_end L else dl_pos L y) - dl_ubofs L)"

definition dy_thread :: "dyn_loop \<Rightarrow> int \<Rightarrow> ompc_thread \<Rightarrow> bool" where
  "dy_thread L x tp \<longleftrightarrow> th_loop_chunk_size tp = dl_width L \<and> th_loop_end tp = dl_end L \<and> th_loop_sched_index tp = dl_pos L x"

lemma dl_end_fits: "dyn_ok L \<Longrightarrow> fitsu64 (dl_end L)"
  by (simp add: dyn_ok_def room_def)

lemma dy_before_end:
  assumes "dyn_ok L" "0 \<le> d" "d \<le> dl_limit L"
  shows "(if dl_width L > 0 then ptr_le (dl_end L) (dl_pos L d) else ptr_le (dl_pos L d) (dl_end L)) \<longleftrightarrow> dl_over L d"
  using ptr_cmp(2) dl_pos_fits [OF assms] dl_end_fits [OF assms(1)] dl_over_iff [OF assms(1,2)] dl_width_dir(1) [OF assms(1)]
  by (auto simp: ahead_def)

lemma dy_done_iff:
  "dyn_ok L \<Longrightarrow> dy_thread L x tp \<Longrightarrow> 0 \<le> x \<Longrightarrow> x \<le> dl_limit L \<Longrightarrow> dynamic_next_done tp \<longleftrightarrow> dl_over L x"
  using dy_before_end [of L x] by (auto simp: dynamic_next_done_def dy_thread_def split: if_splits)

lemma dy_exit_flag_iff:
  "dyn_ok L \<Longrightarrow> dy_thread L x tp \<Longrightarrow> 0 \<le> y \<Longrightarrow> y \<le> dl_limit L \<Longrightarrow> dynamic_next_exit_flag tp (dl_pos L y) \<longleftrightarrow> dl_over L y"
  using dy_before_end [of L y] by (auto simp: dynamic_next_exit_flag_def dy_thread_def split: if_splits)

lemma dy_result:
  assumes ok: "dyn_ok L" and tp: "dy_thread L x tp" and d: "0 \<le> d1" "d1 < d2" "d2 \<le> dl_limit L"
  shows "dynamic_next_result tp (dl_pos L d1) (dl_pos L d2) (dl_ubofs L) =
    (if dl_over L d1 then (None, tp\<lparr>th_loop_sched_index := dl_pos L d2\<rparr>)
     else (Some (dl_chunk_of L d1 d2),
           tp\<lparr>th_loop_sched_index := dl_pos L d2, th_is_last := if dl_over L d2 then 1 else th_is_last tp\<rparr>))"
  using dy_before_end [OF ok, of d1] dy_before_end [OF ok, of d2] tp d
  by (cases "dl_width L > 0") (simp_all add: dynamic_next_result_def dl_chunk_of_def dy_thread_def Let_def)

text \<open>The iterations of a chunk, by number.\<close>

lemma dl_chunk_iters:
  assumes ok: "dyn_ok L" and d: "0 \<le> d1" "0 \<le> d2"
  shows "omp_iters (fst (dl_chunk_of L d1 d2)) (snd (dl_chunk_of L d1 d2)) (dl_ubofs L) (dl_step L) =
    (\<lambda>k. dl_lb L + k * dl_step L) ` {k. d1 * dl_chunk L \<le> k \<and> k < d2 * dl_chunk L \<and> k < dl_count L}"
proof -
  let ?s = "dl_step L" and ?c = "dl_chunk L"
  have a: "?s \<noteq> 0" "0 \<le> d1 * ?c" "0 < ?s \<or> dl_ubofs L = 0" using ok d by (auto simp: dyn_ok_def)
  have pos: "dl_pos L d = dl_lb L + d * ?c * ?s" for d by (simp add: dl_pos_def dl_width_def mult.assoc)
  have "(if dl_over L d2 then dl_end L else dl_pos L d2) =
      (if ahead ?s (dl_lb L + d2 * ?c * ?s) (dl_end L) then dl_lb L + d2 * ?c * ?s else dl_end L)"
    using dl_over_iff [OF ok d(2)] by (simp add: pos)
  from span_iters [OF a(1,2) this] show ?thesis
    using a(3) by (simp add: dl_chunk_of_def omp_iters_def omp_end_C pos dl_count_def)
qed

definition dl_covers :: "dyn_loop \<Rightarrow> int \<Rightarrow> int \<times> int \<Rightarrow> bool" where
  "dl_covers L k c \<longleftrightarrow> dl_lb L + k * dl_step L \<in> omp_iters (fst c) (snd c) (dl_ubofs L) (dl_step L)"

lemma dl_covers_chunk:
  assumes "dyn_ok L" "0 \<le> d1" "0 \<le> d2" "k < dl_count L"
  shows "dl_covers L k (dl_chunk_of L d1 d2) \<longleftrightarrow> d1 * dl_chunk L \<le> k \<and> k < d2 * dl_chunk L"
proof -
  have "dl_step L \<noteq> 0" using assms(1) by (simp add: dyn_ok_def)
  then show ?thesis unfolding dl_covers_def dl_chunk_iters [OF assms(1-3)] using assms(4) by auto
qed

subsection \<open>The invariant\<close>

text \<open>
  How often iteration \<open>k\<close> is in a chunk that thread \<open>i\<close> has got, or has taken and not yet looked at.
\<close>

definition dy_count1 :: "dyn_loop \<Rightarrow> dy_pc \<Rightarrow> (int \<times> int) list \<Rightarrow> int \<Rightarrow> nat" where
  "dy_count1 L q l k = length (filter (dl_covers L k) l) +
     (case q of DTaken b e \<Rightarrow> if dl_lb L + k * dl_step L \<in> loop_iters b e (dl_step L) then 1 else 0 | _ \<Rightarrow> 0)"

definition dy_count :: "dyn_loop \<Rightarrow> dy_state \<Rightarrow> int \<Rightarrow> nat" where
  "dy_count L st k = (\<Sum>i < dl_n L. dy_count1 L (dy_pc st i) (dy_log st i) k)"

text \<open>Threads that have entered, that have left through the second locked region, and that are behind the end.\<close>

definition dy_starts :: "dyn_loop \<Rightarrow> dy_state \<Rightarrow> nat set" where
  "dy_starts L st = {i. i < dl_n L \<and> dy_pc st i \<noteq> DWait \<and> dy_pc st i \<noteq> DEnter}"

definition dy_exits :: "dyn_loop \<Rightarrow> dy_state \<Rightarrow> nat set" where
  "dy_exits L st = {i. i < dl_n L \<and> 0 < dl_count L \<and>
     (dy_pc st i = DDone \<or> dy_pc st i = DCall \<and> dynamic_next_done (dy_thr st i))}"

definition pc_over :: "dyn_loop \<Rightarrow> dy_pc \<Rightarrow> bool" where
  "pc_over L q \<longleftrightarrow> (case q of DDone \<Rightarrow> True | DTaken b e \<Rightarrow> \<not> ahead (dl_step L) b (dl_end L) | _ \<Rightarrow> False)"

definition dy_overs :: "dyn_loop \<Rightarrow> dy_state \<Rightarrow> nat set" where
  "dy_overs L st = {i. i < dl_n L \<and> pc_over L (dy_pc st i)}"

text \<open>What the position \<open>d\<close> of the shared index says about a thread.\<close>

fun pc_ok :: "dyn_loop \<Rightarrow> int \<Rightarrow> int \<Rightarrow> dy_pc \<Rightarrow> bool" where
  "pc_ok L d x DCall \<longleftrightarrow> True"
| "pc_ok L d x (DTaken b e) \<longleftrightarrow> \<not> dl_over L x \<and> (\<exists>d1 d2. b = dl_pos L d1 \<and> e = dl_pos L d2 \<and> 0 \<le> d1 \<and> d1 < d2 \<and> d2 \<le> d)"
| "pc_ok L d x DDone \<longleftrightarrow> dl_over L d"
| "pc_ok L d x DFault \<longleftrightarrow> False"
| "pc_ok L d x _ \<longleftrightarrow> x = 0"

definition log_ok :: "dyn_loop \<Rightarrow> ompc_thread \<Rightarrow> (int \<times> int) list \<Rightarrow> bool" where
  "log_ok L tp l \<longleftrightarrow>
     (\<forall>c \<in> set l. \<exists>d1 d2. 0 \<le> d1 \<and> d1 < d2 \<and> \<not> dl_over L d1 \<and> c = dl_chunk_of L d1 d2) \<and>
     (0 < dl_count L \<longrightarrow> (th_is_last tp \<noteq> 0 \<longleftrightarrow> (\<exists>c \<in> set l. dl_covers L (dl_count L - 1) c)))"

definition dy_place :: "dyn_loop \<Rightarrow> int \<Rightarrow> dy_state \<Rightarrow> bool" where
  "dy_place L d st \<longleftrightarrow>
     0 \<le> d \<and> (if dy_starts L st = {} then d = 0 else th_dynamic_index (dy_team st) = dl_pos L d) \<and>
     d \<le> 1 + dl_whole L + int (card (dy_overs L st)) \<and>
     (\<forall>i < dl_n L. \<exists>x. 0 \<le> x \<and> x \<le> d \<and> dy_thread L x (dy_thr st i) \<and> pc_ok L d x (dy_pc st i)) \<and>
     (\<forall>i < dl_n L. log_ok L (dy_thr st i) (dy_log st i)) \<and>
     (\<forall>k. 0 \<le> k \<and> k < dl_count L \<longrightarrow> dy_count L st k = (if k < d * dl_chunk L then 1 else 0))"

definition dy_counters :: "dyn_loop \<Rightarrow> dy_state \<Rightarrow> bool" where
  "dy_counters L st \<longleftrightarrow>
     th_num_thds (dy_team st) = int (dl_n L) \<and> dl_n L \<le> length (th_in_flags (dy_team st)) \<and>
     (if dy_exits L st = {..<dl_n L} then
        th_out_count (dy_team st) = 0 \<and> th_in_count (dy_team st) = 0 \<and> (\<forall>i < dl_n L. th_in_flags (dy_team st) ! i = 0)
      else
        th_out_count (dy_team st) = int (card (dy_exits L st)) \<and> th_in_count (dy_team st) = int (card (dy_starts L st)) \<and>
        (\<forall>i < dl_n L. th_in_flags (dy_team st) ! i = (if dy_pc st i \<in> {DWait, DEnter, DFlag} then 0 else 1)))"

definition dy_inv :: "dyn_loop \<Rightarrow> dy_state \<Rightarrow> bool" where
  "dy_inv L st \<longleftrightarrow> dyn_ok L \<and> dy_counters L st \<and> (\<exists>d. dy_place L d st)"

lemma pc_ok_mono: "dyn_ok L \<Longrightarrow> d \<le> d' \<Longrightarrow> pc_ok L d x q \<Longrightarrow> pc_ok L d' x q"
  using dl_over_mono [of L d d'] by (cases q) fastforce+

lemma dy_limit: "dy_place L d st \<Longrightarrow> d \<le> dl_limit L"
proof -
  assume "dy_place L d st"
  moreover have "card (dy_overs L st) \<le> dl_n L" using card_mono [of "{..<dl_n L}" "dy_overs L st"] by (auto simp: dy_overs_def)
  ultimately show ?thesis unfolding dy_place_def dl_limit_def by linarith
qed

lemma sum_change:
  fixes f g :: "nat \<Rightarrow> nat"
  assumes "i < n" "\<And>j. j \<noteq> i \<Longrightarrow> f j = g j"
  shows "sum f {..<n} + g i = sum g {..<n} + f i"
proof -
  have "sum f ({..<n} - {i}) = sum g ({..<n} - {i})" using assms(2) by (intro sum.cong) auto
  then show ?thesis using assms(1) by (simp add: sum.remove [of "{..<n}" i])
qed

text \<open>A step of thread \<open>i\<close> that moves the shared index from \<open>d\<close> to \<open>d'\<close>: what is left to show.\<close>

lemma dy_place_step:
  assumes ok: "dyn_ok L" and P: "dy_place L d st" and i: "i < dl_n L" and d: "d \<le> d'"
    and other: "\<And>j. j \<noteq> i \<Longrightarrow> dy_thr st' j = dy_thr st j \<and> dy_pc st' j = dy_pc st j \<and> dy_log st' j = dy_log st j"
    and idx: "if dy_starts L st' = {} then d' = 0 else th_dynamic_index (dy_team st') = dl_pos L d'"
    and bound: "d' \<le> 1 + dl_whole L + int (card (dy_overs L st'))"
    and thr: "0 \<le> x" "x \<le> d'" "dy_thread L x (dy_thr st' i)" "pc_ok L d' x (dy_pc st' i)"
    and log: "log_ok L (dy_thr st' i) (dy_log st' i)"
    and count: "\<And>k. 0 \<le> k \<Longrightarrow> k < dl_count L \<Longrightarrow>
      dy_count1 L (dy_pc st' i) (dy_log st' i) k + (if k < d * dl_chunk L then 1 else 0) =
      dy_count1 L (dy_pc st i) (dy_log st i) k + (if k < d' * dl_chunk L then 1 else 0)"
  shows "dy_place L d' st'"
  unfolding dy_place_def
proof (intro conjI allI impI)
  note P' = P [unfolded dy_place_def]
  show "0 \<le> d'" using P' d by simp
  show "if dy_starts L st' = {} then d' = 0 else th_dynamic_index (dy_team st') = dl_pos L d'" by (fact idx)
  show "d' \<le> 1 + dl_whole L + int (card (dy_overs L st'))" by (fact bound)
next
  fix j assume j: "j < dl_n L"
  show "\<exists>x. 0 \<le> x \<and> x \<le> d' \<and> dy_thread L x (dy_thr st' j) \<and> pc_ok L d' x (dy_pc st' j)"
  proof (cases "j = i")
    case False
    obtain y where "0 \<le> y" "y \<le> d" "dy_thread L y (dy_thr st j)" "pc_ok L d y (dy_pc st j)"
      using P j unfolding dy_place_def by blast
    with other [OF False] d pc_ok_mono [OF ok d] show ?thesis by auto
  qed (use thr in blast)
  show "log_ok L (dy_thr st' j) (dy_log st' j)"
    using P j other [of j] log unfolding dy_place_def by (cases "j = i") auto
next
  fix k assume k: "0 \<le> k \<and> k < dl_count L"
  have "dy_count L st' k + dy_count1 L (dy_pc st i) (dy_log st i) k = dy_count L st k + dy_count1 L (dy_pc st' i) (dy_log st' i) k"
    unfolding dy_count_def using other by (intro sum_change [OF i]) simp
  moreover have "dy_count L st k = (if k < d * dl_chunk L then 1 else 0)" using P k unfolding dy_place_def by blast
  ultimately show "dy_count L st' k = (if k < d' * dl_chunk L then 1 else 0)" using count [of k] k by linarith
qed

text \<open>The steps of the initialisation.\<close>

lemma dy_sets_upd:
  assumes "i < dl_n L" "\<And>j. j \<noteq> i \<Longrightarrow> dy_thr st' j = dy_thr st j \<and> dy_pc st' j = dy_pc st j"
  shows "dy_starts L st' - {i} = dy_starts L st - {i}" "dy_exits L st' - {i} = dy_exits L st - {i}"
    "dy_overs L st' - {i} = dy_overs L st - {i}"
  using assms by (auto simp: dy_starts_def dy_exits_def dy_overs_def)

lemma dy_sets_finite [simp]: "finite (dy_starts L st)" "finite (dy_exits L st)" "finite (dy_overs L st)"
  by (auto simp: dy_starts_def dy_exits_def dy_overs_def)

lemma same_set: "A - {i} = B - {i} \<Longrightarrow> (i \<in> A \<longleftrightarrow> i \<in> B) \<Longrightarrow> A = B"
  by blast

lemma added: "A - {i} = B - {i} \<Longrightarrow> i \<in> A \<Longrightarrow> A = insert i B"
  by blast

lemma dy_thread_at:
  assumes "dy_place L d st" "i < dl_n L"
  obtains x where "0 \<le> x" "x \<le> d" "dy_thread L x (dy_thr st i)" "pc_ok L d x (dy_pc st i)" "log_ok L (dy_thr st i) (dy_log st i)"
  using assms unfolding dy_place_def by blast

lemma not_all: "i < n \<Longrightarrow> i \<notin> A \<Longrightarrow> A \<noteq> {..<n}" for i n :: nat
  by blast

lemma dy_counters_running:
  assumes "dy_exits L st \<noteq> {..<dl_n L}"
  shows "dy_counters L st \<longleftrightarrow> th_num_thds (dy_team st) = int (dl_n L) \<and> dl_n L \<le> length (th_in_flags (dy_team st)) \<and>
    th_out_count (dy_team st) = int (card (dy_exits L st)) \<and> th_in_count (dy_team st) = int (card (dy_starts L st)) \<and>
    (\<forall>i < dl_n L. th_in_flags (dy_team st) ! i = (if dy_pc st i \<in> {DWait, DEnter, DFlag} then 0 else 1))"
  using assms by (simp only: dy_counters_def if_False)

lemma dy_inv_wait:
  assumes inv: "dy_inv L st" and i: "i < dl_n L" and q: "dy_pc st i = DWait"
  shows "dy_inv L (st\<lparr>dy_pc := (dy_pc st)(i := DEnter)\<rparr>)"
proof -
  let ?st = "st\<lparr>dy_pc := (dy_pc st)(i := DEnter)\<rparr>"
  obtain d where ok: "dyn_ok L" and C: "dy_counters L st" and P: "dy_place L d st" using inv by (auto simp: dy_inv_def)
  obtain x where x: "0 \<le> x" "x \<le> d" "dy_thread L x (dy_thr st i)" "pc_ok L d x (dy_pc st i)" "log_ok L (dy_thr st i) (dy_log st i)"
    using dy_thread_at [OF P i] .
  have sets: "dy_starts L ?st = dy_starts L st" "dy_exits L ?st = dy_exits L st" "dy_overs L ?st = dy_overs L st"
    using q by (auto simp: dy_starts_def dy_exits_def dy_overs_def pc_over_def)
  have "dy_counters L ?st" using C q unfolding dy_counters_def sets by (auto split: if_splits)
  moreover have "dy_place L d ?st"
    using P x q sets by (intro dy_place_step [OF ok P i order_refl]) (auto simp: dy_place_def dy_count1_def)
  ultimately show ?thesis using ok by (auto simp: dy_inv_def)
qed

lemma dy_inv_enter:
  assumes inv: "dy_inv L st" and i: "i < dl_n L" and q: "dy_pc st i = DEnter"
  shows "dy_inv L (st\<lparr>dy_team := dynamic_init_enter (dy_team st) (dl_lb L), dy_pc := (dy_pc st)(i := DFlag)\<rparr>)"
proof -
  let ?st = "st\<lparr>dy_team := dynamic_init_enter (dy_team st) (dl_lb L), dy_pc := (dy_pc st)(i := DFlag)\<rparr>"
  obtain d where ok: "dyn_ok L" and C: "dy_counters L st" and P: "dy_place L d st" using inv by (auto simp: dy_inv_def)
  obtain x where x: "0 \<le> x" "x \<le> d" "dy_thread L x (dy_thr st i)" "pc_ok L d x (dy_pc st i)" "log_ok L (dy_thr st i) (dy_log st i)"
    using dy_thread_at [OF P i] .
  have sets: "dy_starts L ?st = insert i (dy_starts L st)" "dy_exits L ?st = dy_exits L st" "dy_overs L ?st = dy_overs L st"
    using q i by (auto simp: dy_starts_def dy_exits_def dy_overs_def pc_over_def)
  have new: "i \<notin> dy_starts L st" "dy_exits L st \<noteq> {..<dl_n L}"
    using q not_all [OF i, of "dy_exits L st"] by (simp_all add: dy_starts_def dy_exits_def)
  then have cnt: "th_in_count (dy_team st) = int (card (dy_starts L st))" using C by (simp add: dy_counters_running)
  have new': "dy_exits L ?st \<noteq> {..<dl_n L}" using new(2) sets(2) by simp
  have team: "th_num_thds (dy_team ?st) = th_num_thds (dy_team st)" "th_in_flags (dy_team ?st) = th_in_flags (dy_team st)"
    "th_out_count (dy_team ?st) = th_out_count (dy_team st)" "th_in_count (dy_team ?st) = th_in_count (dy_team st) + 1"
    by (simp_all add: dynamic_init_enter_def Let_def)
  have "dy_counters L ?st"
    using C q new unfolding dy_counters_running [OF new'] dy_counters_running [OF new(2)] team sets by simp
  moreover have "dy_place L d ?st"
  proof (rule dy_place_step [OF ok P i order_refl])
    show "if dy_starts L ?st = {} then d = 0 else th_dynamic_index (dy_team ?st) = dl_pos L d"
      using P cnt sets by (auto simp: dy_place_def dynamic_init_enter_def Let_def dl_pos_def)
  qed (use P x q sets in \<open>auto simp: dy_place_def dy_count1_def\<close>)
  ultimately show ?thesis using ok by (auto simp: dy_inv_def)
qed

lemma dy_inv_flag:
  assumes inv: "dy_inv L st" and i: "i < dl_n L" and q: "dy_pc st i = DFlag"
  shows "dy_inv L (st\<lparr>dy_team := dynamic_init_flag (dy_team st) (int i), dy_pc := (dy_pc st)(i := DCall)\<rparr>)"
proof -
  let ?st = "st\<lparr>dy_team := dynamic_init_flag (dy_team st) (int i), dy_pc := (dy_pc st)(i := DCall)\<rparr>"
  obtain d where ok: "dyn_ok L" and C: "dy_counters L st" and P: "dy_place L d st" using inv by (auto simp: dy_inv_def)
  obtain x where x: "0 \<le> x" "x \<le> d" "dy_thread L x (dy_thr st i)" "pc_ok L d x (dy_pc st i)" "log_ok L (dy_thr st i) (dy_log st i)"
    using dy_thread_at [OF P i] .
  have "dynamic_next_done (dy_thr st i) \<longleftrightarrow> dl_over L x" using dy_done_iff [OF ok x(3,1)] x(2) dy_limit [OF P] by simp
  then have nd: "\<not> (0 < dl_count L \<and> dynamic_next_done (dy_thr st i))" using x(4) q by (simp add: dl_over_def)
  have sets: "dy_starts L ?st = dy_starts L st" "dy_exits L ?st = dy_exits L st" "dy_overs L ?st = dy_overs L st"
    using q i nd by (auto simp: dy_starts_def dy_exits_def dy_overs_def pc_over_def)
  have new: "dy_exits L st \<noteq> {..<dl_n L}" using q not_all [OF i, of "dy_exits L st"] by (simp add: dy_exits_def)
  have new': "dy_exits L ?st \<noteq> {..<dl_n L}" using new sets(2) by simp
  have team: "th_num_thds (dy_team ?st) = th_num_thds (dy_team st)" "th_in_flags (dy_team ?st) = (th_in_flags (dy_team st))[i := 1]"
    "th_out_count (dy_team ?st) = th_out_count (dy_team st)" "th_in_count (dy_team ?st) = th_in_count (dy_team st)"
    by (simp_all add: dynamic_init_flag_def)
  have "dy_counters L ?st"
    using C q i unfolding dy_counters_running [OF new'] dy_counters_running [OF new] team sets by (simp add: nth_list_update)
  moreover have "dy_place L d ?st"
  proof (rule dy_place_step [OF ok P i order_refl])
    show "if dy_starts L ?st = {} then d = 0 else th_dynamic_index (dy_team ?st) = dl_pos L d"
      using P unfolding dy_place_def sets by (auto simp: dynamic_init_flag_def)
  qed (use P x q sets in \<open>auto simp: dy_place_def dy_count1_def\<close>)
  ultimately show ?thesis using ok by (auto simp: dy_inv_def)
qed

text \<open>Calls: the chunk is taken, then looked at.\<close>

lemma dl_raw_iters:
  assumes ok: "dyn_ok L"
  shows "dl_lb L + k * dl_step L \<in> loop_iters (dl_pos L d1) (dl_pos L d2) (dl_step L) \<longleftrightarrow> d1 * dl_chunk L \<le> k \<and> k < d2 * dl_chunk L"
proof -
  have s: "dl_step L \<noteq> 0" using ok by (simp add: dyn_ok_def)
  have pos: "dl_pos L d = dl_lb L + d * dl_chunk L * dl_step L" for d by (simp add: dl_pos_def dl_width_def mult.assoc)
  show ?thesis unfolding pos by (rule between_iters [OF s])
qed

lemma pc_over_taken: "dyn_ok L \<Longrightarrow> 0 \<le> d \<Longrightarrow> pc_over L (DTaken (dl_pos L d) e) \<longleftrightarrow> dl_over L d"
  by (simp add: pc_over_def dl_over_iff)

lemma dy_counters_same:
  assumes "dy_counters L st" "dy_starts L st' = dy_starts L st" "dy_exits L st' = dy_exits L st"
    and "\<And>j. j \<noteq> i \<Longrightarrow> dy_pc st' j = dy_pc st j" "dy_pc st i \<notin> {DWait, DEnter, DFlag}" "dy_pc st' i \<notin> {DWait, DEnter, DFlag}"
    and "th_num_thds (dy_team st') = th_num_thds (dy_team st)" "th_in_flags (dy_team st') = th_in_flags (dy_team st)"
    and "th_out_count (dy_team st') = th_out_count (dy_team st)" "th_in_count (dy_team st') = th_in_count (dy_team st)"
  shows "dy_counters L st'"
proof -
  have "dy_pc st' j \<in> {DWait, DEnter, DFlag} \<longleftrightarrow> dy_pc st j \<in> {DWait, DEnter, DFlag}" for j
    using assms(4-6) by (cases "j = i") auto
  then show ?thesis using assms(1) unfolding dy_counters_def assms(2,3,7-10) by simp
qed

lemma dy_inv_call:
  assumes inv: "dy_inv L st" and i: "i < dl_n L" and q: "dy_pc st i = DCall"
  shows "dy_inv L (dy_step L i st)"
proof -
  let ?st = "dy_step L i st" and ?tp = "dy_thr st i"
  obtain d where ok: "dyn_ok L" and C: "dy_counters L st" and P: "dy_place L d st" using inv by (auto simp: dy_inv_def)
  obtain x where x: "0 \<le> x" "x \<le> d" "dy_thread L x ?tp" "pc_ok L d x (dy_pc st i)" "log_ok L ?tp (dy_log st i)"
    using dy_thread_at [OF P i] .
  have S: "i \<in> dy_starts L st" using i q by (simp add: dy_starts_def)
  then have "dy_starts L st \<noteq> {}" by blast
  then have idx: "th_dynamic_index (dy_team st) = dl_pos L d" and d0: "0 \<le> d" using P by (simp_all add: dy_place_def)
  have n: "th_num_thds (dy_team st) = int (dl_n L)" using C by (simp add: dy_counters_def)
  obtain m where m: "1 \<le> m" "dl_over L d \<Longrightarrow> m = 1" "\<not> dl_over L d \<Longrightarrow> d + m \<le> 1 + dl_whole L"
    and take: "dynamic_next_take ?tp (dy_team st) (dl_guided L) =
      Inr ((dl_pos L d, dl_pos L (d + m)), (dy_team st)\<lparr>th_dynamic_index := dl_pos L (d + m)\<rparr>)"
    using dy_take [OF ok d0 dy_limit [OF P] _ _ idx n] x(3) by (auto simp: dy_thread_def)
  have don: "dynamic_next_done ?tp \<longleftrightarrow> dl_over L x" using dy_done_iff [OF ok x(3,1)] x(2) dy_limit [OF P] by simp
  have over: "dl_over L d" if "dl_over L x" using dl_over_mono [OF ok that x(2)] .
  define q' where "q' = (if dl_over L x then DDone else DTaken (dl_pos L d) (dl_pos L (d + m)))"
  have st: "?st = st\<lparr>dy_team := (dy_team st)\<lparr>th_dynamic_index := dl_pos L (d + m)\<rparr>, dy_pc := (dy_pc st)(i := q')\<rparr>"
    by (simp add: dy_step_def q take Let_def don q'_def)
  have sets: "dy_starts L ?st = dy_starts L st" "dy_exits L ?st = dy_exits L st"
    using q i by (auto simp: st dy_starts_def dy_exits_def don q'_def)
  have po: "pc_over L q' \<longleftrightarrow> dl_over L d" using over pc_over_taken [OF ok d0] by (auto simp: q'_def pc_over_def)
  have overs: "dy_overs L ?st = (if dl_over L d then insert i (dy_overs L st) else dy_overs L st)" "i \<notin> dy_overs L st"
    using q i po by (auto simp: st dy_overs_def pc_over_def)
  have "dy_counters L ?st"
    by (rule dy_counters_same [OF C sets, of i]) (auto simp: st q q'_def)
  moreover have "dy_place L (d + m) ?st"
  proof (rule dy_place_step [OF ok P i])
    show "d + m \<le> 1 + dl_whole L + int (card (dy_overs L ?st))"
      using m overs P unfolding dy_place_def by (cases "dl_over L d") auto
    show "pc_ok L (d + m) x (dy_pc ?st i)"
    proof (cases "dl_over L x")
      case False
      then show ?thesis using m(1) d0 by (simp add: st q'_def) (rule exI [of _ d], simp, rule exI [of _ "d + m"], simp)
    qed (use over dl_over_mono [OF ok, of d "d + m"] m(1) in \<open>simp add: st q'_def\<close>)
    fix k assume k: "0 \<le> k" "k < dl_count L"
    show "dy_count1 L (dy_pc ?st i) (dy_log ?st i) k + (if k < d * dl_chunk L then 1 else 0) =
      dy_count1 L (dy_pc st i) (dy_log st i) k + (if k < (d + m) * dl_chunk L then 1 else 0)"
    proof (cases "dl_over L x")
      case True
      then have "k < d * dl_chunk L" "k < (d + m) * dl_chunk L"
        using over dl_over_mono [OF ok over [OF True], of "d + m"] m(1) k unfolding dl_over_def by auto
      with True show ?thesis by (simp add: st q q'_def dy_count1_def)
    next
      case False
      have "d * dl_chunk L \<le> (d + m) * dl_chunk L" using m(1) ok by (simp add: dyn_ok_def)
      with False show ?thesis
        by (simp add: st q q'_def dy_count1_def dl_raw_iters [OF ok])
    qed
  qed (use x m sets S in \<open>auto simp: st\<close>)
  ultimately show ?thesis using ok by (auto simp: dy_inv_def)
qed

text \<open>The counters when a thread leaves through the second locked region.\<close>

lemma dy_counters_exit:
  assumes C: "dy_counters L st" and i: "i < dl_n L" and new: "i \<notin> dy_exits L st"
    and sets: "dy_starts L st' = dy_starts L st" "dy_exits L st' = insert i (dy_exits L st)"
    and pcs: "\<And>j. j \<noteq> i \<Longrightarrow> dy_pc st' j = dy_pc st j" "dy_pc st i \<notin> {DWait, DEnter, DFlag}" "dy_pc st' i \<notin> {DWait, DEnter, DFlag}"
    and team: "dy_team st' = dynamic_next_exit (dy_team st)"
  shows "dy_counters L st'"
proof -
  let ?n = "dl_n L" and ?X = "dy_exits L st" and ?p = "dy_team st"
  have run: "th_num_thds ?p = int ?n" "?n \<le> length (th_in_flags ?p)" "th_out_count ?p = int (card ?X)"
    "th_in_count ?p = int (card (dy_starts L st))"
    "\<forall>i < ?n. th_in_flags ?p ! i = (if dy_pc st i \<in> {DWait, DEnter, DFlag} then 0 else 1)"
    using C unfolding dy_counters_running [OF not_all [OF i new]] by blast+
  have card: "card (dy_exits L st') = card ?X + 1" using new by (simp add: sets)
  have sub: "dy_exits L st' \<subseteq> {..<?n}" by (auto simp: dy_exits_def)
  show ?thesis
  proof (cases "card ?X + 1 = ?n")
    case True
    then have "dy_exits L st' = {..<?n}" using card sub by (intro card_subset_eq) auto
    moreover have "dy_team st' = ?p\<lparr>th_out_count := 0, th_in_count := 0, th_in_flags := clear_in_flags (th_in_flags ?p) (int ?n)\<rparr>"
      using True run by (simp add: team dynamic_next_exit_def Let_def)
    ultimately show ?thesis using run by (simp add: dy_counters_def clear_flags_nth)
  next
    case False
    then have ne: "dy_exits L st' \<noteq> {..<?n}" using card by (metis card_lessThan)
    have "dy_team st' = ?p\<lparr>th_out_count := th_out_count ?p + 1\<rparr>"
      using False run by (simp add: team dynamic_next_exit_def Let_def)
    moreover have "dy_pc st' j \<in> {DWait, DEnter, DFlag} \<longleftrightarrow> dy_pc st j \<in> {DWait, DEnter, DFlag}" for j
      using pcs by (cases "j = i") auto
    ultimately show ?thesis unfolding dy_counters_running [OF ne] using run card sets(1) by simp
  qed
qed

lemma log_ok_snoc:
  assumes ok: "dyn_ok L" and l: "log_ok L tp l" and d: "0 \<le> d1" "d1 < d2" "\<not> dl_over L d1"
  shows "log_ok L (tp\<lparr>th_loop_sched_index := a, th_is_last := if dl_over L d2 then 1 else th_is_last tp\<rparr>) (l @ [dl_chunk_of L d1 d2])"
proof -
  have "dl_covers L (dl_count L - 1) (dl_chunk_of L d1 d2) \<longleftrightarrow> dl_over L d2" if "0 < dl_count L"
    using dl_covers_chunk [OF ok d(1), of d2 "dl_count L - 1"] d unfolding dl_over_def by auto
  then show ?thesis using l d unfolding log_ok_def by (auto simp del: split_paired_Ex)
qed

lemma dy_inv_taken:
  assumes inv: "dy_inv L st" and i: "i < dl_n L" and q: "dy_pc st i = DTaken b e"
  shows "dy_inv L (dy_step L i st)"
proof -
  let ?st = "dy_step L i st" and ?tp = "dy_thr st i"
  obtain d where ok: "dyn_ok L" and C: "dy_counters L st" and P: "dy_place L d st" using inv by (auto simp: dy_inv_def)
  obtain x where x: "0 \<le> x" "x \<le> d" "dy_thread L x ?tp" "pc_ok L d x (dy_pc st i)" "log_ok L ?tp (dy_log st i)"
    using dy_thread_at [OF P i] .
  obtain d1 d2 where be: "b = dl_pos L d1" "e = dl_pos L d2" and d: "0 \<le> d1" "d1 < d2" "d2 \<le> d" and nx: "\<not> dl_over L x"
    using x(4) q by auto
  have lim: "d2 \<le> dl_limit L" using d dy_limit [OF P] by simp
  have "0 \<le> x * dl_chunk L" using x(1) ok by (simp add: dyn_ok_def)
  then have N: "0 < dl_count L" using nx unfolding dl_over_def by linarith
  note res = dy_result [OF ok x(3) d(1,2) lim]
  have ef: "dynamic_next_exit_flag ?tp e \<longleftrightarrow> dl_over L d2" using dy_exit_flag_iff [OF ok x(3)] d lim be by simp
  define tp' where "tp' = snd (dynamic_next_result ?tp b e (dl_ubofs L))"
  have tp': "dy_thread L d2 tp'" using x(3) by (simp add: tp'_def be res dy_thread_def)
  have don: "dynamic_next_done tp' \<longleftrightarrow> dl_over L d2" using dy_done_iff [OF ok tp'] d lim by simp
  have o12: "dl_over L d2" if "dl_over L d1" using dl_over_mono [OF ok that] d by simp
  have st: "dy_team ?st = (if dl_over L d2 then dynamic_next_exit (dy_team st) else dy_team st)"
    "dy_thr ?st = (dy_thr st)(i := tp')" "dy_pc ?st = (dy_pc st)(i := if dl_over L d1 then DDone else DCall)"
    "dy_log ?st = (if dl_over L d1 then dy_log st else (dy_log st)(i := dy_log st i @ [dl_chunk_of L d1 d2]))"
    using ef be by (simp_all add: dy_step_def q res Let_def tp'_def)
  have sets: "dy_starts L ?st = dy_starts L st"
    "dy_exits L ?st = (if dl_over L d2 then insert i (dy_exits L st) else dy_exits L st)" "dy_overs L ?st = dy_overs L st"
    "i \<notin> dy_exits L st" "i \<in> dy_starts L st"
    using q i don N o12 pc_over_taken [OF ok d(1)] be
    by (auto simp: st dy_starts_def dy_exits_def dy_overs_def pc_over_def split: if_splits)
  have "dy_counters L ?st"
  proof (cases "dl_over L d2")
    case True
    then show ?thesis using sets by (intro dy_counters_exit [OF C i]) (auto simp: st q)
  next
    case False
    then show ?thesis using sets by (intro dy_counters_same [OF C, of _ i]) (auto simp: st q)
  qed
  moreover have "dy_place L d ?st"
  proof (rule dy_place_step [OF ok P i order_refl])
    have "dy_starts L st \<noteq> {}" using sets(5) by blast
    then have "th_dynamic_index (dy_team st) = dl_pos L d" using P by (simp add: dy_place_def)
    then show "if dy_starts L ?st = {} then d = 0 else th_dynamic_index (dy_team ?st) = dl_pos L d"
      using \<open>dy_starts L st \<noteq> {}\<close> by (simp add: sets(1)) (simp add: st dynamic_next_exit_def Let_def)
    show "d \<le> 1 + dl_whole L + int (card (dy_overs L ?st))" using P unfolding dy_place_def sets(3) by blast
    show "dy_thread L d2 (dy_thr ?st i)" using tp' by (simp add: st)
    show "pc_ok L d d2 (dy_pc ?st i)" using dl_over_mono [OF ok, of d1 d] d by (simp add: st)
    show "log_ok L (dy_thr ?st i) (dy_log ?st i)"
      using x(5) log_ok_snoc [OF ok x(5) d(1,2)] by (simp add: st tp'_def be res log_ok_def)
    fix k assume k: "0 \<le> k" "k < dl_count L"
    show "dy_count1 L (dy_pc ?st i) (dy_log ?st i) k + (if k < d * dl_chunk L then 1 else 0) =
      dy_count1 L (dy_pc st i) (dy_log st i) k + (if k < d * dl_chunk L then 1 else 0)"
      using k d dl_covers_chunk [OF ok d(1), of d2 k] by (auto simp: st q dy_count1_def be dl_raw_iters [OF ok] dl_over_def)
  qed (use d in \<open>auto simp: st\<close>)
  ultimately show ?thesis using ok by (auto simp: dy_inv_def)
qed

lemma dy_inv_step:
  assumes inv: "dy_inv L st" and i: "i < dl_n L"
  shows "dy_inv L (dy_step L i st)"
proof (cases "dy_pc st i")
  case DWait
  then show ?thesis using inv dy_inv_wait [OF inv i] by (simp add: dy_step_def)
next
  case DEnter
  then show ?thesis using dy_inv_enter [OF inv i] by (simp add: dy_step_def)
next
  case DFlag
  then show ?thesis using dy_inv_flag [OF inv i] by (simp add: dy_step_def)
next
  case DDone
  then show ?thesis using inv by (simp add: dy_step_def)
next
  case DFault
  then show ?thesis using inv by (simp add: dy_step_def)
qed (use dy_inv_call [OF inv i] dy_inv_taken [OF inv i] in auto)

lemma dy_inv_init:
  assumes ok: "dyn_ok L"
  shows "dy_inv L (dy_init L cthd tp)"
proof -
  let ?st = "dy_init L cthd tp"
  have n: "1 < dl_n L" "dl_n L \<le> MAX_PROC" "0 < dl_chunk L" "fits32 (dl_width L)" using ok by (auto simp: dyn_ok_def)
  have thr: "dy_thread L 0 (dy_thr ?st i)" "th_is_last (dy_thr ?st i) = 0" for i
    using n by (simp_all add: dy_init_def dynamic_init_local_def init_team_def dy_thread_def dl_width_def dl_end_def dl_pos_def)
  have sets: "dy_starts L ?st = {}" "dy_exits L ?st = {}" "dy_overs L ?st = {}"
    by (simp_all add: dy_init_def dy_starts_def dy_exits_def dy_overs_def pc_over_def)
  have "dy_exits L ?st \<noteq> {..<dl_n L}" using n by (intro not_all [of 0]) (auto simp: sets)
  from dy_counters_running [OF this] have "dy_counters L ?st"
    using n by (simp add: sets) (simp add: dy_init_def init_team_def)
  moreover have "0 \<le> dl_whole L" using dl_width_dir(2) [OF ok] by (simp add: dl_whole_def pos_imp_zdiv_nonneg_iff)
  then have "dy_place L 0 ?st"
    using thr by (simp add: dy_place_def sets log_ok_def dy_count_def dy_count1_def)
      (auto simp: dy_init_def dy_count1_def intro!: exI [of _ 0])
  ultimately show ?thesis using ok by (auto simp: dy_inv_def)
qed

lemma dy_reach_inv:
  assumes "dyn_ok L" "dy_reach L cthd tp st"
  shows "dy_inv L st"
  using assms(2) by induction (use assms(1) in \<open>auto intro: dy_inv_init dy_inv_step\<close>)

lemma dy_no_fault: "dy_inv L st \<Longrightarrow> i < dl_n L \<Longrightarrow> dy_pc st i \<noteq> DFault"
  using dy_thread_at [of L _ st i] by (fastforce simp: dy_inv_def)

subsection \<open>Every iteration once\<close>

text \<open>How often iteration \<open>i\<close> is in a chunk that a call has returned to a thread of the team.\<close>

definition dy_runs :: "dyn_loop \<Rightarrow> dy_state \<Rightarrow> int \<Rightarrow> nat" where
  "dy_runs L st i = (\<Sum>j < dl_n L. length (filter (\<lambda>c. i \<in> omp_iters (fst c) (snd c) (dl_ubofs L) (dl_step L)) (dy_log st j)))"

definition dl_serial :: "dyn_loop \<Rightarrow> int set" where
  "dl_serial L = omp_iters (dl_lb L) (dl_up L) (dl_ubofs L) (dl_step L)"

lemma dl_serial_eq: "dyn_ok L \<Longrightarrow> dl_serial L = (\<lambda>k. dl_lb L + k * dl_step L) ` {0..<dl_count L}"
  by (auto simp: dl_serial_def omp_iters_def dyn_ok_def omp_end_C dl_end_def dl_count_def loop_iters_count)

lemma mem_dl_serial: "dyn_ok L \<Longrightarrow> i \<in> dl_serial L \<longleftrightarrow> (\<exists>k. i = dl_lb L + k * dl_step L \<and> 0 \<le> k \<and> k < dl_count L)"
  unfolding dl_serial_eq by auto

lemma dl_covers_eq: "dl_covers L k = (\<lambda>c. dl_lb L + k * dl_step L \<in> omp_iters (fst c) (snd c) (dl_ubofs L) (dl_step L))"
  by (simp add: dl_covers_def fun_eq_iff)

lemma dy_runs_le: "dy_runs L st (dl_lb L + k * dl_step L) \<le> dy_count L st k"
  unfolding dy_runs_def dy_count_def by (intro sum_mono) (simp add: dy_count1_def dl_covers_eq)

lemma dy_runs_done:
  assumes "\<forall>j < dl_n L. dy_pc st j = DDone"
  shows "dy_runs L st (dl_lb L + k * dl_step L) = dy_count L st k"
  unfolding dy_runs_def dy_count_def using assms by (intro sum.cong) (auto simp: dy_count1_def dl_covers_eq)

lemma dy_log_iters:
  assumes inv: "dy_inv L st" and j: "j < dl_n L" and c: "c \<in> set (dy_log st j)"
    and i: "i \<in> omp_iters (fst c) (snd c) (dl_ubofs L) (dl_step L)"
  obtains k where "i = dl_lb L + k * dl_step L" "0 \<le> k" "k < dl_count L" "dl_covers L k c"
proof -
  have ok: "dyn_ok L" and log: "log_ok L (dy_thr st j) (dy_log st j)" using inv j by (auto simp: dy_inv_def dy_place_def)
  then obtain d1 d2 where d: "0 \<le> d1" "d1 < d2" "c = dl_chunk_of L d1 d2" using c unfolding log_ok_def by blast
  from i dl_chunk_iters [OF ok d(1), of d2] d obtain k where k: "i = dl_lb L + k * dl_step L" "d1 * dl_chunk L \<le> k" "k < dl_count L"
    by auto
  have "0 \<le> d1 * dl_chunk L" using d(1) ok by (simp add: dyn_ok_def)
  with k that [of k] i show thesis by (simp add: dl_covers_def)
qed

lemma dy_runs_serial: "dy_inv L st \<Longrightarrow> 0 < dy_runs L st i \<Longrightarrow> i \<in> dl_serial L"
proof -
  assume inv: "dy_inv L st" and r: "0 < dy_runs L st i"
  obtain j where j: "j < dl_n L" "filter (\<lambda>c. i \<in> omp_iters (fst c) (snd c) (dl_ubofs L) (dl_step L)) (dy_log st j) \<noteq> []"
    using r unfolding dy_runs_def by (metis (no_types, lifting) lessThan_iff list.size(3) not_less_zero sum.neutral)
  then obtain c where c: "c \<in> set (dy_log st j)" "i \<in> omp_iters (fst c) (snd c) (dl_ubofs L) (dl_step L)"
    by (auto simp: filter_empty_conv)
  have ok: "dyn_ok L" using inv by (simp add: dy_inv_def)
  from dy_log_iters [OF inv j(1) c] show "i \<in> dl_serial L" unfolding mem_dl_serial [OF ok] by blast
qed

lemma dy_runs_once:
  assumes inv: "dy_inv L st"
  shows "dy_runs L st i \<le> 1"
proof (cases "i \<in> dl_serial L")
  case True
  have ok: "dyn_ok L" using inv by (simp add: dy_inv_def)
  obtain k where k: "i = dl_lb L + k * dl_step L" "0 \<le> k" "k < dl_count L" using True unfolding mem_dl_serial [OF ok] by blast
  then have "dy_count L st k \<le> 1" using inv by (auto simp: dy_inv_def dy_place_def)
  with dy_runs_le [of L st k] k show ?thesis by simp
qed (use dy_runs_serial [OF inv, of i] in linarith)

lemma dy_done_all:
  assumes inv: "dy_inv L st" and fin: "\<forall>j < dl_n L. dy_pc st j = DDone" and i: "i \<in> dl_serial L"
  shows "dy_runs L st i = 1"
proof -
  obtain d where P: "dy_place L d st" and ok: "dyn_ok L" using inv by (auto simp: dy_inv_def)
  have n: "0 < dl_n L" using ok by (simp add: dyn_ok_def)
  then have over: "dl_over L d" using dy_thread_at [OF P n] fin by auto
  obtain k where k: "i = dl_lb L + k * dl_step L" "0 \<le> k" "k < dl_count L" using i unfolding mem_dl_serial [OF ok] by blast
  then have "dy_count L st k = 1" using P over unfolding dy_place_def dl_over_def by auto
  with dy_runs_done [OF fin, of k] k show ?thesis by simp
qed

lemma dy_done_last:
  assumes inv: "dy_inv L st" and ne: "dl_serial L \<noteq> {}" and j: "j < dl_n L"
  shows "ompc_is_last (dy_thr st j) (Some (dy_team st)) \<longleftrightarrow>
    (\<exists>c \<in> set (dy_log st j). \<exists>i \<in> omp_iters (fst c) (snd c) (dl_ubofs L) (dl_step L). i + dl_step L \<notin> dl_serial L)"
proof -
  have ok: "dyn_ok L" and log: "log_ok L (dy_thr st j) (dy_log st j)" and n: "th_num_thds (dy_team st) = int (dl_n L)"
    using inv j by (auto simp: dy_inv_def dy_place_def dy_counters_def)
  have N: "0 < dl_count L" using ne by (auto simp: dl_serial_eq [OF ok])
  have s: "dl_step L \<noteq> 0" and ser: "dl_serial L = loop_iters (dl_lb L) (dl_end L) (dl_step L)"
    using ok by (auto simp: dyn_ok_def dl_serial_eq [OF ok] loop_iters_count dl_count_def)
  have "(\<exists>i \<in> omp_iters (fst c) (snd c) (dl_ubofs L) (dl_step L). i + dl_step L \<notin> dl_serial L) \<longleftrightarrow> dl_covers L (dl_count L - 1) c"
    if c: "c \<in> set (dy_log st j)" for c
  proof
    assume "\<exists>i \<in> omp_iters (fst c) (snd c) (dl_ubofs L) (dl_step L). i + dl_step L \<notin> dl_serial L"
    then obtain i where i: "i \<in> omp_iters (fst c) (snd c) (dl_ubofs L) (dl_step L)" "i + dl_step L \<notin> dl_serial L" by blast
    then show "dl_covers L (dl_count L - 1) c"
      using dy_log_iters [OF inv j c i(1)] last_iter_iff [OF s, of _ "dl_lb L" "dl_end L"] unfolding ser dl_count_def by metis
  next
    assume "dl_covers L (dl_count L - 1) c"
    moreover have "dl_lb L + (dl_count L - 1) * dl_step L + dl_step L \<notin> dl_serial L"
      using last_iter_iff [OF s, of "dl_count L - 1" "dl_lb L" "dl_end L"] N unfolding ser dl_count_def by simp
    ultimately show "\<exists>i \<in> omp_iters (fst c) (snd c) (dl_ubofs L) (dl_step L). i + dl_step L \<notin> dl_serial L"
      unfolding dl_covers_def by blast
  qed
  moreover have "ompc_is_last (dy_thr st j) (Some (dy_team st)) \<longleftrightarrow> th_is_last (dy_thr st j) \<noteq> 0"
    using n ok by (simp add: ompc_is_last_def dyn_ok_def)
  ultimately show ?thesis using log N unfolding log_ok_def by blast
qed

lemma dy_done_clear:
  assumes inv: "dy_inv L st" and ne: "dl_serial L \<noteq> {}" and fin: "\<forall>j < dl_n L. dy_pc st j = DDone"
  shows "th_in_count (dy_team st) = 0 \<and> th_out_count (dy_team st) = 0 \<and> (\<forall>j < dl_n L. th_in_flags (dy_team st) ! j = 0)"
proof -
  have ok: "dyn_ok L" and C: "dy_counters L st" using inv by (auto simp: dy_inv_def)
  have "0 < dl_count L" using ne by (auto simp: dl_serial_eq [OF ok])
  then have "dy_exits L st = {..<dl_n L}" using fin by (auto simp: dy_exits_def)
  then show ?thesis using C by (simp add: dy_counters_def)
qed

text \<open>
  C4. Dynamic and guided schedules, for the loops of \<open>dyn_ok\<close> (a team of 2 to \<open>MAX_PROC\<close> threads; positive chunk size; step
  not 0 and, when it is negative, a loop of a C program; addresses not negative, also with a chunk for every thread and one
  more behind the start and behind the end; a chunk that an \<open>int\<close> can hold and, for a guided loop, twice its length and a
  chunk for every thread and two more within an \<open>int\<close>): whatever the order in which the threads run, no call divides by zero,
  no iteration is given out twice and nothing outside the loop is. When every thread has been told that the loop is over,
  every iteration has been given to exactly one thread, and after a loop that is not empty \<open>ompc_is_last\<close> holds on the
  thread that got the last iteration and on no other, and the counters and flags of the team are clear again for the next
  construct. After an empty loop they are not.
\<close>

theorem dynamic_runs_once:
  assumes "dyn_ok L" and "dy_reach L cthd tp st"
  shows "(\<forall>j < dl_n L. dy_pc st j \<noteq> DFault) \<and> (\<forall>i. dy_runs L st i \<le> 1) \<and> (\<forall>i. 0 < dy_runs L st i \<longrightarrow> i \<in> dl_serial L) \<and>
    ((\<forall>j < dl_n L. dy_pc st j = DDone) \<longrightarrow>
      (\<forall>i \<in> dl_serial L. dy_runs L st i = 1) \<and>
      (dl_serial L \<noteq> {} \<longrightarrow>
        (\<forall>j < dl_n L. ompc_is_last (dy_thr st j) (Some (dy_team st)) \<longleftrightarrow>
          (\<exists>c \<in> set (dy_log st j). \<exists>i \<in> omp_iters (fst c) (snd c) (dl_ubofs L) (dl_step L). i + dl_step L \<notin> dl_serial L)) \<and>
        th_in_count (dy_team st) = 0 \<and> th_out_count (dy_team st) = 0 \<and> (\<forall>j < dl_n L. th_in_flags (dy_team st) ! j = 0)))"
proof -
  have inv: "dy_inv L st" using dy_reach_inv [OF assms] .
  show ?thesis
    using dy_no_fault [OF inv] dy_runs_once [OF inv] dy_runs_serial [OF inv] dy_done_all [OF inv] dy_done_last [OF inv] dy_done_clear [OF inv] by blast
qed

text \<open>Two threads, the second of which runs first: it takes the chunk \<open>{0, 1}\<close> and the first thread takes \<open>{2}\<close>.\<close>

definition loop3 :: dyn_loop where
  "loop3 = \<lparr>dl_n = 2, dl_lb = 0, dl_up = 3, dl_ubofs = 0, dl_step = 1, dl_chunk = 2, dl_guided = False\<rparr>"

theorem dynamic_runs_once_witness:
  "let st = fold (dy_step loop3) [1, 1, 1, 1, 1, 0, 0, 0, 0, 0, 0, 1, 1] (dy_init loop3 (thread0 1) (thread0 1))
   in dyn_ok loop3 \<and> dy_reach loop3 (thread0 1) (thread0 1) st \<and> dy_log st 0 = [(2, 3)] \<and> dy_log st 1 = [(0, 2)] \<and>
      (\<forall>j < 2. dy_pc st j = DDone) \<and> dy_runs loop3 st 2 = 1 \<and> th_in_count (dy_team st) = 0"
proof -
  let ?st = "fold (dy_step loop3) [1, 1, 1, 1, 1, 0, 0, 0, 0, 0, 0, 1, 1] (dy_init loop3 (thread0 1) (thread0 1))"
  have ok: "dyn_ok loop3" by code_simp
  have n: "dl_n loop3 = 2" by (simp add: loop3_def)
  have r: "dy_reach loop3 (thread0 1) (thread0 1) ?st" by (rule dy_reach_fold [OF dy_start]) (auto simp: n)
  have c: "dy_log ?st 0 = [(2, 3)]" "dy_log ?st 1 = [(0, 2)]" "dy_pc ?st 0 = DDone" "dy_pc ?st 1 = DDone" by code_simp+
  then have fin: "\<forall>j < 2. dy_pc ?st j = DDone" by (simp add: less_2_cases_iff)
  have i: "2 \<in> dl_serial loop3" by (simp add: loop3_def dl_serial_def omp_iters_def omp_end_def loop_iters_def)
  from dynamic_runs_once [OF ok r] fin i n have "dy_runs loop3 ?st 2 = 1" "th_in_count (dy_team ?st) = 0" by force+
  with ok r c(1,2) fin show ?thesis unfolding Let_def by blast
qed

end
