(* ===== verification/Ompc_Dynamic_Laws.thy ===== *)
theory Ompc_Dynamic_Laws
  imports Ompc_Dynamic
begin

text \<open>
  Dynamic loops come to an end under every fair schedule, and two situations in which the team is left in a state that
  breaks the construct after the loop: an empty loop, and a loop without a barrier behind it.
\<close>

subsection \<open>Progress\<close>

definition dl_rem :: "dyn_loop \<Rightarrow> dy_state \<Rightarrow> nat" where
  "dl_rem L st = (if dy_starts L st = {} then nat (dl_count L)
                  else nat (trip_count (th_dynamic_index (dy_team st)) (dl_end L) (dl_step L)))"

definition pc_rank :: "dyn_loop \<Rightarrow> dy_pc \<Rightarrow> nat" where
  "pc_rank L q = (case q of DWait \<Rightarrow> 6 | DEnter \<Rightarrow> 5 | DFlag \<Rightarrow> 4 | DCall \<Rightarrow> 2 | DDone \<Rightarrow> 0 | DFault \<Rightarrow> 0
     | DTaken b e \<Rightarrow> if ahead (dl_step L) b (dl_end L) then 3 else 1)"

definition dy_rank :: "dyn_loop \<Rightarrow> dy_state \<Rightarrow> nat" where
  "dy_rank L st = 2 * dl_rem L st + (\<Sum>i < dl_n L. pc_rank L (dy_pc st i))"

lemma trip_count_from:
  assumes "s \<noteq> 0" "0 \<le> x"
  shows "nat (trip_count (a + x * s) b s) = nat (trip_count a b s - x)"
proof -
  have *: "k < trip_count (a + x * s) b s \<longleftrightarrow> k < trip_count a b s - x" if "0 \<le> k" for k
    using trip_count_iff [OF assms(1) that, of "a + x * s" b] trip_count_iff [OF assms(1), of "k + x" a b] that assms(2)
    by (simp add: algebra_simps less_diff_eq)
  have "max 0 (trip_count (a + x * s) b s) = max 0 (trip_count a b s - x)"
    using * [of "max 0 (trip_count (a + x * s) b s)"] * [of "max 0 (trip_count a b s - x)"] by linarith
  then show ?thesis by linarith
qed

lemma dl_rem_at:
  assumes "dyn_ok L" "0 \<le> d" "th_dynamic_index (dy_team st) = dl_pos L d" "dy_starts L st \<noteq> {}"
  shows "dl_rem L st = nat (dl_count L - d * dl_chunk L)"
proof -
  have a: "dl_step L \<noteq> 0" "0 \<le> d * dl_chunk L" using assms by (auto simp: dyn_ok_def)
  have "dl_pos L d = dl_lb L + (d * dl_chunk L) * dl_step L" by (simp add: dl_pos_def dl_width_def mult.assoc)
  with assms trip_count_from [OF a, of "dl_lb L" "dl_end L"] show ?thesis by (simp add: dl_rem_def dl_count_def)
qed

lemma dl_rem_same:
  "dy_starts L st' = dy_starts L st \<Longrightarrow> th_dynamic_index (dy_team st') = th_dynamic_index (dy_team st) \<Longrightarrow> dl_rem L st' = dl_rem L st"
  by (simp add: dl_rem_def)

lemma dy_step_other: "j \<noteq> i \<Longrightarrow> dy_pc (dy_step L i st) j = dy_pc st j"
  by (auto simp: dy_step_def Let_def split: dy_pc.split sum.split prod.split)

lemma dy_rank_less:
  assumes "i < dl_n L"
    and "2 * dl_rem L (dy_step L i st) + pc_rank L (dy_pc (dy_step L i st) i) < 2 * dl_rem L st + pc_rank L (dy_pc st i)"
  shows "dy_rank L (dy_step L i st) < dy_rank L st"
proof -
  have "(\<Sum>j < dl_n L. pc_rank L (dy_pc (dy_step L i st) j)) + pc_rank L (dy_pc st i) =
      (\<Sum>j < dl_n L. pc_rank L (dy_pc st j)) + pc_rank L (dy_pc (dy_step L i st) i)"
    by (rule sum_change [OF assms(1)]) (simp add: dy_step_other)
  with assms(2) show ?thesis unfolding dy_rank_def by linarith
qed

lemma dy_rank_init:
  assumes inv: "dy_inv L st" and i: "i < dl_n L" and q: "dy_pc st i \<in> {DWait, DEnter, DFlag}" and ch: "dy_step L i st \<noteq> st"
  shows "dy_rank L (dy_step L i st) < dy_rank L st"
proof -
  have C: "dy_counters L st" using inv by (simp add: dy_inv_def)
  have "dl_rem L (dy_step L i st) = dl_rem L st \<and> pc_rank L (dy_pc (dy_step L i st) i) < pc_rank L (dy_pc st i)"
  proof (cases "dy_pc st i")
    case DWait
    then show ?thesis using ch by (auto simp: dy_step_def pc_rank_def dy_starts_def split: if_splits intro!: dl_rem_same)
  next
    case DFlag
    then show ?thesis
      by (auto simp: dy_step_def pc_rank_def dy_starts_def dynamic_init_flag_def split: if_splits intro!: dl_rem_same)
  next
    case DEnter
    have "i \<notin> dy_exits L st" using DEnter by (simp add: dy_exits_def)
    then have cnt: "th_in_count (dy_team st) = int (card (dy_starts L st))"
      using C dy_counters_running [OF not_all [OF i]] by blast
    have ne: "dy_starts L (dy_step L i st) \<noteq> {}" using i DEnter by (auto simp: dy_starts_def dy_step_def)
    have "th_dynamic_index (dy_team (dy_step L i st)) = (if dy_starts L st = {} then dl_lb L else th_dynamic_index (dy_team st))"
      using cnt DEnter by (simp add: dy_step_def dynamic_init_enter_def Let_def)
    with ne have "dl_rem L (dy_step L i st) = dl_rem L st" by (simp add: dl_rem_def dl_count_def)
    then show ?thesis using DEnter by (simp add: dy_step_def pc_rank_def)
  qed (use q in auto)
  then show ?thesis by (intro dy_rank_less [OF i]) simp
qed

lemma dy_rank_call:
  assumes inv: "dy_inv L st" and i: "i < dl_n L" and q: "dy_pc st i = DCall"
  shows "dy_rank L (dy_step L i st) < dy_rank L st"
proof -
  let ?st = "dy_step L i st" and ?tp = "dy_thr st i"
  obtain d where ok: "dyn_ok L" and C: "dy_counters L st" and P: "dy_place L d st" using inv by (auto simp: dy_inv_def)
  obtain x where x: "0 \<le> x" "x \<le> d" "dy_thread L x ?tp" using dy_thread_at [OF P i] by metis
  have S: "dy_starts L st \<noteq> {}" "dy_starts L ?st \<noteq> {}"
    using i q by (auto simp: dy_starts_def dy_step_def Let_def split: sum.split prod.split)
  then have idx: "th_dynamic_index (dy_team st) = dl_pos L d" and d0: "0 \<le> d" using P by (simp_all add: dy_place_def)
  have n: "th_num_thds (dy_team st) = int (dl_n L)" using C by (simp add: dy_counters_def)
  obtain m where m: "1 \<le> m"
    and take: "dynamic_next_take ?tp (dy_team st) (dl_guided L) =
      Inr ((dl_pos L d, dl_pos L (d + m)), (dy_team st)\<lparr>th_dynamic_index := dl_pos L (d + m)\<rparr>)"
    using dy_take [OF ok d0 dy_limit [OF P] _ _ idx n] x(3) by (auto simp: dy_thread_def)
  have don: "dynamic_next_done ?tp \<longleftrightarrow> dl_over L x" using dy_done_iff [OF ok x(3,1)] x(2) dy_limit [OF P] by simp
  have idx': "th_dynamic_index (dy_team ?st) = dl_pos L (d + m)" by (simp add: dy_step_def q take Let_def)
  have rem: "dl_rem L st = nat (dl_count L - d * dl_chunk L)" "dl_rem L ?st = nat (dl_count L - (d + m) * dl_chunk L)"
    using dl_rem_at [OF ok d0 idx S(1)] dl_rem_at [OF ok _ idx' S(2)] m d0 by simp_all
  have c: "0 < m * dl_chunk L" using m ok by (simp add: dyn_ok_def)
  have mono: "(d + m) * dl_chunk L = d * dl_chunk L + m * dl_chunk L" by (simp add: distrib_right)
  have "2 * dl_rem L ?st + pc_rank L (dy_pc ?st i) < 2 * dl_rem L st + pc_rank L (dy_pc st i)"
  proof (cases "dl_over L x \<or> dl_over L d")
    case True
    then have "pc_rank L (dy_pc ?st i) \<le> 1"
      using dl_over_iff [OF ok d0] by (auto simp: dy_step_def q take Let_def don pc_rank_def)
    then show ?thesis using rem c mono by (simp add: q pc_rank_def)
  next
    case False
    then have "d * dl_chunk L < dl_count L" by (simp add: dl_over_def)
    moreover have "pc_rank L (dy_pc ?st i) \<le> 3" by (simp add: dy_step_def q take Let_def pc_rank_def)
    ultimately show ?thesis using rem c mono by (simp add: q pc_rank_def)
  qed
  then show ?thesis by (rule dy_rank_less [OF i])
qed

lemma dy_rank_taken:
  assumes inv: "dy_inv L st" and i: "i < dl_n L" and q: "dy_pc st i = DTaken b e"
  shows "dy_rank L (dy_step L i st) < dy_rank L st"
proof -
  let ?st = "dy_step L i st" and ?tp = "dy_thr st i"
  obtain d where ok: "dyn_ok L" and P: "dy_place L d st" using inv by (auto simp: dy_inv_def)
  obtain x where x: "dy_thread L x ?tp" "pc_ok L d x (dy_pc st i)" using dy_thread_at [OF P i] by metis
  obtain d1 d2 where be: "b = dl_pos L d1" "e = dl_pos L d2" and d: "0 \<le> d1" "d1 < d2" "d2 \<le> d" using x(2) q by auto
  have lim: "d2 \<le> dl_limit L" using d dy_limit [OF P] by simp
  have pc: "dy_pc ?st i = (if dl_over L d1 then DDone else DCall)"
    using be by (simp add: dy_step_def q dy_result [OF ok x(1) d(1,2) lim] Let_def)
  have "dl_rem L ?st = dl_rem L st"
    using q by (intro dl_rem_same) (auto simp: dy_step_def dy_starts_def Let_def dynamic_next_exit_def split: prod.split)
  then show ?thesis using pc dl_over_iff [OF ok d(1)] be by (intro dy_rank_less [OF i]) (simp add: q pc_rank_def)
qed

lemma dy_rank_step:
  assumes "dy_inv L st" "i < dl_n L" "dy_step L i st \<noteq> st"
  shows "dy_rank L (dy_step L i st) < dy_rank L st"
proof (cases "dy_pc st i")
  case DDone
  with assms(3) show ?thesis by (simp add: dy_step_def)
next
  case DFault
  with assms(3) show ?thesis by (simp add: dy_step_def)
qed (use dy_rank_init [OF assms(1,2) _ assms(3)] dy_rank_call [OF assms(1,2)] dy_rank_taken [OF assms(1,2)] in auto)

definition dy_final :: "dyn_loop \<Rightarrow> dy_state \<Rightarrow> bool" where
  "dy_final L st \<longleftrightarrow> (\<forall>i < dl_n L. dy_pc st i = DDone)"

lemma dy_effect:
  assumes inv: "dy_inv L st" and nf: "\<not> dy_final L st"
  shows "\<exists>i < dl_n L. dy_step L i st \<noteq> st"
proof -
  obtain i where i: "i < dl_n L" "dy_pc st i \<noteq> DDone" using nf by (auto simp: dy_final_def)
  have "\<not> in_flag_set (dy_team st) (int i)" if "dy_pc st i = DWait"
  proof -
    have "i \<notin> dy_exits L st" using that by (simp add: dy_exits_def)
    then show ?thesis using inv dy_counters_running [OF not_all [OF i(1)]] i(1) that by (auto simp: dy_inv_def in_flag_set_def)
  qed
  moreover have "dy_pc st i \<noteq> DFault" using dy_no_fault [OF inv i(1)] .
  ultimately have "dy_pc (dy_step L i st) i \<noteq> dy_pc st i"
    using i(2) by (cases "dy_pc st i") (auto simp: dy_step_def Let_def split: sum.split prod.split)
  with i(1) show ?thesis by metis
qed

interpretation dynamic: progress dy_step "\<lambda>L. {0..<dl_n L}" dy_inv dy_final dy_rank
proof (unfold_locales, goal_cases)
  case (3 L st) then show ?case using dy_effect by fastforce
qed (auto simp: dy_inv_step dy_rank_step)

text \<open>
  C14. Dynamic and guided loops end, for the loops of \<open>dyn_ok\<close> (at least two threads, positive chunk size, step not 0,
  no Fortran loop that counts down, no address below zero or without room for the chunks, no \<open>int\<close> that overflows): under
  every fair schedule there is a moment at which all threads of the team are done, and then every iteration has been given
  to exactly one of them.
\<close>

theorem dynamic_completes:
  assumes "dyn_ok L" and "fair {0..<dl_n L} sched"
  shows "\<exists>t. (\<forall>j < dl_n L. dy_pc (run_sched (dy_step L) sched (dy_init L cthd tp) t) j = DDone) \<and>
    (\<forall>i \<in> dl_serial L. dy_runs L (run_sched (dy_step L) sched (dy_init L cthd tp) t) i = 1)"
proof -
  let ?r = "run_sched (dy_step L) sched (dy_init L cthd tp)"
  obtain t where t: "dy_final L (?r t)" using dynamic.finishes [OF dy_inv_init [OF assms(1)] assms(2)] by blast
  have "dy_inv L (?r t)" using dynamic.inv_run [OF dy_inv_init [OF assms(1)]] fair_mem [OF assms(2)] by blast
  with t dy_done_all show ?thesis unfolding dy_final_def by blast
qed

theorem dynamic_completes_witness:
  "dyn_ok loop3 \<and> fair {0..<2} (\<lambda>t. t mod 2) \<and>
   (\<exists>t. (\<forall>j < dl_n loop3. dy_pc (run_sched (dy_step loop3) (\<lambda>t. t mod 2) (dy_init loop3 (thread0 1) (thread0 1)) t) j = DDone) \<and>
     (\<forall>i \<in> dl_serial loop3. dy_runs loop3 (run_sched (dy_step loop3) (\<lambda>t. t mod 2) (dy_init loop3 (thread0 1) (thread0 1)) t) i = 1))"
proof -
  have ok: "dyn_ok loop3" by code_simp
  have n: "dl_n loop3 = 2" by (simp add: loop3_def)
  have f: "fair {0..<2} (\<lambda>t. t mod 2)" by (rule fair_round_robin) simp
  from dynamic_completes [OF ok, unfolded n, OF f, of "thread0 1" "thread0 1"] ok f n show ?thesis by simp
qed

subsection \<open>After an empty loop\<close>

text \<open>
  C38. A dynamic loop without iterations (one of \<open>dyn_ok\<close>) leaves the team blocked: no thread passes through the region that
  clears the flags, and when all have been told that the loop is over, the flag of every thread is still set, so that every
  one of them waits without end in the next single construct (and in the next dynamic or ordered loop).
\<close>

theorem dynamic_empty_blocks:
  assumes "dyn_ok L" and "dl_serial L = {}" and "dy_reach L cthd tp st" and "\<forall>j < dl_n L. dy_pc st j = DDone" and "j < dl_n L"
  shows "in_flag_set (dy_team st) (int j) \<and> ompc_do_single_tid (tp\<lparr>th_num := int j\<rparr>) (Some (dy_team st)) = None \<and>
    th_in_count (dy_team st) = int (dl_n L)"
proof -
  have inv: "dy_inv L st" using dy_reach_inv [OF assms(1,3)] .
  have "\<not> 0 < dl_count L" using assms(2) by (auto simp: dl_serial_eq [OF assms(1)])
  then have "dy_exits L st = {}" by (simp add: dy_exits_def)
  then have ne: "dy_exits L st \<noteq> {..<dl_n L}" using assms(5) by auto
  have "dy_starts L st = {..<dl_n L}" using assms(4) by (auto simp: dy_starts_def)
  then have "th_in_flags (dy_team st) ! j = 1" "th_in_count (dy_team st) = int (dl_n L)" "th_num_thds (dy_team st) = int (dl_n L)"
    using inv assms(4,5) dy_counters_running [OF ne] by (auto simp: dy_inv_def)
  then show ?thesis using assms(1) by (simp add: in_flag_set_def ompc_do_single_tid_def dyn_ok_def)
qed

definition loop0 :: dyn_loop where
  "loop0 = \<lparr>dl_n = 2, dl_lb = 5, dl_up = 5, dl_ubofs = 0, dl_step = 1, dl_chunk = 1, dl_guided = True\<rparr>"

theorem dynamic_empty_blocks_witness:
  "let st = fold (dy_step loop0) [0, 0, 0, 0, 1, 1, 1, 1] (dy_init loop0 (thread0 1) (thread0 1))
   in dyn_ok loop0 \<and> dl_serial loop0 = {} \<and> dy_reach loop0 (thread0 1) (thread0 1) st \<and> (\<forall>j < dl_n loop0. dy_pc st j = DDone) \<and>
      ompc_do_single_tid ((thread0 1)\<lparr>th_num := 1\<rparr>) (Some (dy_team st)) = None"
proof -
  let ?st = "fold (dy_step loop0) [0, 0, 0, 0, 1, 1, 1, 1] (dy_init loop0 (thread0 1) (thread0 1))"
  have ok: "dyn_ok loop0" by code_simp
  have n: "dl_n loop0 = 2" by (simp add: loop0_def)
  have e: "dl_serial loop0 = {}" by (simp add: loop0_def dl_serial_def omp_iters_def omp_end_def loop_iters_def)
  have r: "dy_reach loop0 (thread0 1) (thread0 1) ?st" by (rule dy_reach_fold [OF dy_start]) (auto simp: n)
  have "dy_pc ?st 0 = DDone" "dy_pc ?st 1 = DDone" by code_simp+
  then have fin: "\<forall>j < dl_n loop0. dy_pc ?st j = DDone" unfolding n by (simp add: less_2_cases_iff)
  from dynamic_empty_blocks [OF ok e r fin, of 1] n
  have "ompc_do_single_tid ((thread0 1)\<lparr>th_num := 1\<rparr>) (Some (dy_team ?st)) = None" by simp
  with ok e r fin show ?thesis unfolding Let_def by blast
qed

subsection \<open>Two loops without a barrier between them\<close>

text \<open>
  A thread that runs the last chunk of a loop calls \<open>ompc_dynamic_sched_next\<close> once more, and that call advances the
  shared index before it finds that the loop is over. When another thread has begun the next loop by then, the index
  is that of the next loop, and the chunk it skips is never given to a thread.
\<close>

definition loopA :: dyn_loop where
  "loopA = \<lparr>dl_n = 2, dl_lb = 0, dl_up = 2, dl_ubofs = 0, dl_step = 1, dl_chunk = 1, dl_guided = False\<rparr>"

definition loopB :: dyn_loop where
  "loopB = \<lparr>dl_n = 2, dl_lb = 10, dl_up = 12, dl_ubofs = 0, dl_step = 1, dl_chunk = 1, dl_guided = False\<rparr>"

definition stateA :: dy_state where
  "stateA = fold (dy_step loopA) [0, 0, 0, 1, 1, 1, 0, 0, 0, 0, 1, 1] (dy_init loopA (thread0 1) (thread0 1))"

text \<open>Thread 1 begins the second loop; then thread 0 makes its last call in the first one.\<close>

definition stateB :: dy_state where
  "stateB = fold (dy_step loopB) [1, 1, 1] ((dy_init loopB (thread0 1) (thread0 1))\<lparr>dy_team := dy_team stateA\<rparr>)"

theorem dynamic_nowait_loses_chunk:
  "let last_call = projr (ompc_dynamic_sched_next_tid (dy_thr stateA 0) (Some (dy_team stateB)) 0 False);
       st = fold (dy_step loopB) [0, 0, 0, 0, 0, 0, 0, 1, 1, 1, 1, 1] (stateB\<lparr>dy_team := the (snd (snd last_call))\<rparr>)
   in dy_pc stateA 1 = DDone \<and> fst last_call = None \<and> dy_pc st 0 = DDone \<and> dy_pc st 1 = DDone \<and>
      10 \<in> dl_serial loopB \<and> dy_log st 0 = [(11, 12)] \<and> dy_log st 1 = []"
proof -
  have "10 \<in> dl_serial loopB" by (simp add: loopB_def dl_serial_def omp_iters_def omp_end_def loop_iters_def)
  moreover have "let last_call = projr (ompc_dynamic_sched_next_tid (dy_thr stateA 0) (Some (dy_team stateB)) 0 False);
       st = fold (dy_step loopB) [0, 0, 0, 0, 0, 0, 0, 1, 1, 1, 1, 1] (stateB\<lparr>dy_team := the (snd (snd last_call))\<rparr>)
   in dy_pc stateA 1 = DDone \<and> fst last_call = None \<and> dy_pc st 0 = DDone \<and> dy_pc st 1 = DDone \<and>
      dy_log st 0 = [(11, 12)] \<and> dy_log st 1 = []" by code_simp
  ultimately show ?thesis unfolding Let_def by blast
qed

end
