(* ===== verification/Ompc_Lock.thy ===== *)
theory Ompc_Lock
  imports Omni_Prelude
begin

text \<open>
  The locks of the OpenMP runtime (\<open>libompc/src/ompc_lock.c\<close>), built with \<open>USE_SPIN_LOCK\<close>: a lock is a word that
  \<open>_xchg_1\<close> exchanges with 1 in one step, and a nestable lock has such a word, the thread that holds it and how often.
  The threads run interleaved; every access to a shared variable is a step of its own, except that the branch of a
  thread that holds the word reads the counter and the owner together.
\<close>

subsection \<open>The word\<close>

definition xchg_1 :: "int \<Rightarrow> int \<times> int" where
  "xchg_1 v = (v, 1)"

definition ompc_init_lock :: int where
  "ompc_init_lock = 0"

definition ompc_unlock :: "int \<Rightarrow> int" where
  "ompc_unlock v = 0"

text \<open>The result of \<open>ompc_test_lock\<close> and the word after it.\<close>

definition ompc_test_lock :: "int \<Rightarrow> int \<times> int" where
  "ompc_test_lock v = (case xchg_1 v of (old, v') \<Rightarrow> (if old \<noteq> 0 then 0 else 1, v'))"

subsection \<open>Nestable locks\<close>

text \<open>
  The call a thread is in, and where: spinning on the word, before the exchange, with the word taken, before the
  stores of the owner and of the counter, before the word is released, or before the read of the result; the first
  two reads of \<open>ompc_test_nest_lock\<close> are outside the word.
\<close>

datatype nl_call = NlSet | NlUnset | NlTest

datatype nl_pc =
    NlIdle
  | NlSpin nl_call
  | NlXchg nl_call
  | NlLocked nl_call
  | NlStoreId nl_call
  | NlStoreCount nl_call
  | NlUnlock nl_call bool
  | NlTestCount
  | NlTestId
  | NlReturn

text \<open>\<open>nl_held\<close> is how often each thread holds the lock, which the code does not store; \<open>nl_ret\<close> is the last result.\<close>

record nl_state =
  nl_lock :: int
  nl_id :: nat
  nl_count :: int
  nl_pc :: "nat \<Rightarrow> nl_pc"
  nl_held :: "nat \<Rightarrow> nat"
  nl_ret :: "nat \<Rightarrow> int"

definition nl_goto :: "nat \<Rightarrow> nl_pc \<Rightarrow> nl_state \<Rightarrow> nl_state" where
  "nl_goto i q st = st\<lparr>nl_pc := (nl_pc st)(i := q)\<rparr>"

definition nl_return :: "nat \<Rightarrow> int \<Rightarrow> nl_state \<Rightarrow> nl_state" where
  "nl_return i r st = nl_goto i NlIdle (st\<lparr>nl_ret := (nl_ret st)(i := r)\<rparr>)"

definition ompc_init_nest_lock :: "nl_state \<Rightarrow> nl_state" where
  "ompc_init_nest_lock st = st\<lparr>nl_lock := ompc_init_lock, nl_count := 0\<rparr>"

text \<open>\<open>ompc_lock\<close>: the loop on the word, and the exchange, after which the thread has the word or starts again.\<close>

definition lock_spin :: "nat \<Rightarrow> nl_call \<Rightarrow> nl_state \<Rightarrow> nl_state" where
  "lock_spin i c st = (if nl_lock st \<noteq> 0 then st else nl_goto i (NlXchg c) st)"

definition lock_xchg :: "nat \<Rightarrow> nl_call \<Rightarrow> nl_state \<Rightarrow> nl_state" where
  "lock_xchg i c st =
     (case xchg_1 (nl_lock st) of (old, v) \<Rightarrow>
        nl_goto i (if old \<noteq> 0 then NlSpin c else NlLocked c) (st\<lparr>nl_lock := v\<rparr>))"

text \<open>\<open>ompc_test_lock\<close> in \<open>ompc_test_nest_lock\<close>.\<close>

definition test_xchg :: "nat \<Rightarrow> nl_state \<Rightarrow> nl_state" where
  "test_xchg i st =
     (case ompc_test_lock (nl_lock st) of (r, v) \<Rightarrow>
        let st = st\<lparr>nl_lock := v\<rparr> in if r = 0 then nl_return i 0 st else nl_goto i (NlLocked NlTest) st)"

text \<open>The branch of \<open>ompc_nest_lock\<close> and \<open>ompc_test_nest_lock\<close> with the word taken, and the stores of a new owner.\<close>

definition nest_take :: "nat \<Rightarrow> nl_call \<Rightarrow> nl_state \<Rightarrow> nl_state" where
  "nest_take i c st =
     (if nl_count st \<noteq> 0 then
        if i = nl_id st
        then nl_goto i (NlUnlock c True) (st\<lparr>nl_count := nl_count st + 1, nl_held := (nl_held st)(i := nl_held st i + 1)\<rparr>)
        else nl_goto i (NlUnlock c False) st
      else nl_goto i (NlStoreId c) st)"

definition store_id :: "nat \<Rightarrow> nl_call \<Rightarrow> nl_state \<Rightarrow> nl_state" where
  "store_id i c st = nl_goto i (NlStoreCount c) (st\<lparr>nl_id := i\<rparr>)"

definition store_count :: "nat \<Rightarrow> nl_call \<Rightarrow> nl_state \<Rightarrow> nl_state" where
  "store_count i c st = nl_goto i (NlUnlock c True) (st\<lparr>nl_count := 1, nl_held := (nl_held st)(i := nl_held st i + 1)\<rparr>)"

definition nest_drop :: "nat \<Rightarrow> nl_state \<Rightarrow> nl_state" where
  "nest_drop i st =
     nl_goto i (NlUnlock NlUnset True) (st\<lparr>nl_count := nl_count st - 1, nl_held := (nl_held st)(i := nl_held st i - 1)\<rparr>)"

text \<open>The release of the word, and what follows: the end of the call, another try, or the result of the test.\<close>

definition nest_release :: "nat \<Rightarrow> nl_call \<Rightarrow> bool \<Rightarrow> nl_state \<Rightarrow> nl_state" where
  "nest_release i c got st =
     (let st = st\<lparr>nl_lock := ompc_unlock (nl_lock st)\<rparr>
      in case c of
           NlSet \<Rightarrow> nl_goto i (if got then NlIdle else NlSpin NlSet) st
         | NlUnset \<Rightarrow> nl_goto i NlIdle st
         | NlTest \<Rightarrow> if got then nl_goto i NlReturn st else nl_return i 0 st)"

text \<open>A step of a thread inside a call.\<close>

definition nl_step :: "nat \<Rightarrow> nl_state \<Rightarrow> nl_state" where
  "nl_step i st =
     (case nl_pc st i of
        NlIdle \<Rightarrow> st
      | NlSpin c \<Rightarrow> lock_spin i c st
      | NlXchg c \<Rightarrow> if c = NlTest then test_xchg i st else lock_xchg i c st
      | NlLocked c \<Rightarrow> if c = NlUnset then nest_drop i st else nest_take i c st
      | NlStoreId c \<Rightarrow> store_id i c st
      | NlStoreCount c \<Rightarrow> store_count i c st
      | NlUnlock c got \<Rightarrow> nest_release i c got st
      | NlTestCount \<Rightarrow> if nl_count st \<noteq> 0 then nl_goto i NlTestId st else nl_goto i (NlXchg NlTest) st
      | NlTestId \<Rightarrow> if nl_id st \<noteq> i then nl_return i 0 st else nl_goto i (NlXchg NlTest) st
      | NlReturn \<Rightarrow> nl_return i (nl_count st) st)"

text \<open>
  The runs of threads that call \<open>omp_set_nest_lock\<close>, \<open>omp_test_nest_lock\<close>, and \<open>omp_unset_nest_lock\<close> while they hold the
  lock, from a lock that has been initialised.
\<close>

inductive nl_reach :: "nl_state \<Rightarrow> bool" where
  nl_start: "nl_pc st = (\<lambda>_. NlIdle) \<Longrightarrow> nl_held st = (\<lambda>_. 0) \<Longrightarrow> nl_reach (ompc_init_nest_lock st)"
| nl_move: "nl_reach st \<Longrightarrow> nl_reach (nl_step i st)"
| nl_set: "nl_reach st \<Longrightarrow> nl_pc st i = NlIdle \<Longrightarrow> nl_reach (nl_goto i (NlSpin NlSet) st)"
| nl_test: "nl_reach st \<Longrightarrow> nl_pc st i = NlIdle \<Longrightarrow> nl_reach (nl_goto i NlTestCount st)"
| nl_unset: "nl_reach st \<Longrightarrow> nl_pc st i = NlIdle \<Longrightarrow> 0 < nl_held st i \<Longrightarrow> nl_reach (nl_goto i (NlSpin NlUnset) st)"

subsection \<open>The invariant\<close>

fun has_word :: "nl_pc \<Rightarrow> bool" where
  "has_word (NlLocked c) = True"
| "has_word (NlStoreId c) = True"
| "has_word (NlStoreCount c) = True"
| "has_word (NlUnlock c g) = True"
| "has_word _ = False"

fun pc_says :: "nat \<Rightarrow> nl_state \<Rightarrow> nl_pc \<Rightarrow> bool" where
  "pc_says i st (NlSpin c) \<longleftrightarrow> c \<noteq> NlTest \<and> (c = NlUnset \<longrightarrow> 0 < nl_held st i)"
| "pc_says i st (NlXchg c) \<longleftrightarrow> (c = NlUnset \<longrightarrow> 0 < nl_held st i)"
| "pc_says i st (NlLocked c) \<longleftrightarrow> (c = NlUnset \<longrightarrow> 0 < nl_held st i)"
| "pc_says i st (NlStoreId c) \<longleftrightarrow> nl_count st = 0 \<and> c \<noteq> NlUnset"
| "pc_says i st (NlStoreCount c) \<longleftrightarrow> nl_count st = 0 \<and> nl_id st = i \<and> c \<noteq> NlUnset"
| "pc_says i st (NlUnlock c g) \<longleftrightarrow> (g \<and> c \<noteq> NlUnset \<longrightarrow> 0 < nl_held st i)"
| "pc_says i st NlReturn \<longleftrightarrow> 0 < nl_held st i"
| "pc_says i st _ \<longleftrightarrow> True"

text \<open>
  One thread at most has the word, and it is set exactly then; the counter is how often the owner holds the lock, and
  nobody else does.
\<close>

definition nl_inv :: "nl_state \<Rightarrow> bool" where
  "nl_inv st \<longleftrightarrow>
     (\<forall>i j. has_word (nl_pc st i) \<and> has_word (nl_pc st j) \<longrightarrow> i = j) \<and>
     (nl_lock st = 0 \<longleftrightarrow> (\<forall>i. \<not> has_word (nl_pc st i))) \<and>
     (if nl_count st = 0 then nl_held st = (\<lambda>_. 0) else nl_held st = (\<lambda>_. 0)(nl_id st := nat (nl_count st)) \<and> 0 < nl_count st) \<and>
     (\<forall>i. pc_says i st (nl_pc st i))"

lemma pc_says_other:
  assumes "pc_says j st q" "nl_held st' j = nl_held st j" "has_word q \<Longrightarrow> nl_count st' = nl_count st \<and> nl_id st' = nl_id st"
  shows "pc_says j st' q"
  using assms by (cases q) auto

text \<open>A step of thread \<open>i\<close> keeps the invariant when it treats the word and the counter properly.\<close>

lemma nl_inv_step:
  assumes inv: "nl_inv st"
    and other: "\<And>j. j \<noteq> i \<Longrightarrow> nl_pc st' j = nl_pc st j \<and> nl_held st' j = nl_held st j"
    and take: "has_word (nl_pc st' i) \<Longrightarrow> \<not> has_word (nl_pc st i) \<Longrightarrow> nl_lock st = 0"
    and lock: "nl_lock st' = 0 \<longleftrightarrow> (if has_word (nl_pc st' i) then False else if has_word (nl_pc st i) then True else nl_lock st = 0)"
    and data: "nl_count st' = nl_count st \<and> nl_id st' = nl_id st \<or> has_word (nl_pc st i)"
    and held: "if nl_count st' = 0 then nl_held st' = (\<lambda>_. 0) else nl_held st' = (\<lambda>_. 0)(nl_id st' := nat (nl_count st')) \<and> 0 < nl_count st'"
    and says: "pc_says i st' (nl_pc st' i)"
  shows "nl_inv st'"
proof -
  have uniq: "a = b" if "has_word (nl_pc st a)" "has_word (nl_pc st b)" for a b using inv that by (auto simp: nl_inv_def)
  have free: "nl_lock st = 0 \<longleftrightarrow> (\<forall>a. \<not> has_word (nl_pc st a))" using inv by (auto simp: nl_inv_def)
  have alone: "\<not> has_word (nl_pc st' j)" if "j \<noteq> i" "has_word (nl_pc st i) \<or> has_word (nl_pc st' i)" for j
    using that other [of j] uniq [of j i] free take by auto
  have "a = b" if "has_word (nl_pc st' a)" "has_word (nl_pc st' b)" for a b
  proof (cases "has_word (nl_pc st i) \<or> has_word (nl_pc st' i)")
    case True
    then show ?thesis using alone [of a] alone [of b] that by blast
  next
    case False
    then have "a \<noteq> i" "b \<noteq> i" using that by auto
    then show ?thesis using other uniq [of a b] that by simp
  qed
  moreover have "nl_lock st' = 0 \<longleftrightarrow> (\<forall>a. \<not> has_word (nl_pc st' a))"
  proof (cases "has_word (nl_pc st i) \<or> has_word (nl_pc st' i)")
    case True
    then show ?thesis using lock alone by (metis (full_types))
  next
    case False
    then have "has_word (nl_pc st' a) \<longleftrightarrow> has_word (nl_pc st a)" for a using other [of a] by (cases "a = i") auto
    then show ?thesis using lock free False by simp
  qed
  moreover have "pc_says j st' (nl_pc st' j)" for j
  proof (cases "j = i")
    case False
    have "pc_says j st (nl_pc st j)" using inv by (simp add: nl_inv_def)
    moreover have "has_word (nl_pc st j) \<Longrightarrow> nl_count st' = nl_count st \<and> nl_id st' = nl_id st" using data uniq [of j i] False by auto
    ultimately show ?thesis using other [OF False] pc_says_other by metis
  qed (use says in simp)
  ultimately show ?thesis using held unfolding nl_inv_def by blast
qed

lemmas nl_defs = nl_step_def lock_spin_def lock_xchg_def test_xchg_def nest_take_def store_id_def store_count_def nest_drop_def
  nest_release_def nl_goto_def nl_return_def xchg_1_def ompc_test_lock_def ompc_unlock_def Let_def

lemma nl_held_count: "nl_inv st \<Longrightarrow> 0 < nl_held st i \<longleftrightarrow> nl_count st \<noteq> 0 \<and> nl_id st = i"
  by (auto simp: nl_inv_def split: if_splits)

lemma nl_inv_move:
  assumes inv: "nl_inv st"
  shows "nl_inv (nl_step i st)"
proof -
  have held: "if nl_count st = 0 then nl_held st = (\<lambda>_. 0) else nl_held st = (\<lambda>_. 0)(nl_id st := nat (nl_count st)) \<and> 0 < nl_count st"
    and says: "pc_says i st (nl_pc st i)" and free: "nl_lock st = 0 \<Longrightarrow> \<not> has_word (nl_pc st i)"
    using inv by (auto simp: nl_inv_def)
  note own = nl_held_count [OF inv, of i]
  show ?thesis
  proof (cases "nl_pc st i")
    case (NlLocked c)
    show ?thesis
    proof (cases "c = NlUnset")
      case True
      with says NlLocked own have o: "nl_count st \<noteq> 0" "nl_id st = i" by auto
      with held have h: "nl_held st = (\<lambda>_. 0)(i := nat (nl_count st))" "0 < nl_count st" by auto
      show ?thesis using True NlLocked h o free by (intro nl_inv_step [OF inv, of i]) (auto simp: nl_defs fun_eq_iff)
    next
      case False
      show ?thesis
      proof (cases "nl_count st \<noteq> 0 \<and> i = nl_id st")
        case True
        with held have h: "nl_held st = (\<lambda>_. 0)(i := nat (nl_count st))" "0 < nl_count st" by auto
        show ?thesis using True False NlLocked h free by (intro nl_inv_step [OF inv, of i]) (auto simp: nl_defs fun_eq_iff)
      next
        case other: False
        with False NlLocked held free show ?thesis by (intro nl_inv_step [OF inv, of i]) (auto simp: nl_defs)
      qed
    qed
  next
    case (NlStoreCount c)
    then show ?thesis using says held free by (intro nl_inv_step [OF inv, of i]) (auto simp: nl_defs fun_eq_iff)
  next
    case (NlUnlock c g)
    then show ?thesis using says held free by (intro nl_inv_step [OF inv, of i]) (auto simp: nl_defs split: nl_call.split)
  next
    case NlIdle
    then show ?thesis using inv by (simp add: nl_step_def)
  next
    case (NlSpin c)
    then show ?thesis using says held free by (intro nl_inv_step [OF inv, of i]) (auto simp: nl_defs split: if_splits)
  next
    case (NlXchg c)
    then show ?thesis using says held free by (intro nl_inv_step [OF inv, of i]) (auto simp: nl_defs split: if_splits)
  next
    case (NlStoreId c)
    then show ?thesis using says held free by (intro nl_inv_step [OF inv, of i]) (auto simp: nl_defs split: if_splits)
  next
    case NlTestCount
    then show ?thesis using says held free by (intro nl_inv_step [OF inv, of i]) (auto simp: nl_defs split: if_splits)
  next
    case NlTestId
    then show ?thesis using says held free by (intro nl_inv_step [OF inv, of i]) (auto simp: nl_defs split: if_splits)
  next
    case NlReturn
    then show ?thesis using says held free by (intro nl_inv_step [OF inv, of i]) (auto simp: nl_defs split: if_splits)
  qed
qed

lemma nl_inv_call:
  assumes inv: "nl_inv st" and q: "nl_pc st i = NlIdle" and q': "\<not> has_word q'" "pc_says i st q'"
  shows "nl_inv (nl_goto i q' st)"
proof (rule nl_inv_step [OF inv, of i])
  show "if nl_count (nl_goto i q' st) = 0 then nl_held (nl_goto i q' st) = (\<lambda>_. 0)
    else nl_held (nl_goto i q' st) = (\<lambda>_. 0)(nl_id (nl_goto i q' st) := nat (nl_count (nl_goto i q' st))) \<and> 0 < nl_count (nl_goto i q' st)"
    using inv by (auto simp: nl_inv_def nl_goto_def)
  show "pc_says i (nl_goto i q' st) (nl_pc (nl_goto i q' st) i)" using q' by (cases q') (auto simp: nl_goto_def)
qed (use q q' in \<open>auto simp: nl_goto_def\<close>)

lemma nl_reach_inv: "nl_reach st \<Longrightarrow> nl_inv st"
proof (induction rule: nl_reach.induct)
  case (nl_start st)
  then show ?case by (simp add: nl_inv_def ompc_init_nest_lock_def ompc_init_lock_def)
qed (auto intro: nl_inv_move nl_inv_call)

text \<open>
  C26. Mutual exclusion of nestable locks: in every state that threads reach by setting, testing and unsetting a lock
  they hold, at most one thread holds it, the owner and the counter stored in the lock are that thread and the number
  of times it holds it, and the counter that \<open>ompc_test_nest_lock\<close> reads after it released the word is still that number.
\<close>

theorem nest_lock_exclusive:
  assumes "nl_reach st"
  shows "(0 < nl_held st i \<and> 0 < nl_held st j \<longrightarrow> i = j) \<and>
    (0 < nl_held st i \<longrightarrow> nl_id st = i \<and> nl_count st = int (nl_held st i)) \<and>
    (nl_pc st i = NlReturn \<longrightarrow> 0 < nl_held st i \<and> nl_ret (nl_step i st) i = int (nl_held st i))"
proof -
  have inv: "nl_inv st" using nl_reach_inv [OF assms] .
  have c: "nl_id st = i \<and> nl_count st = int (nl_held st i)" if "0 < nl_held st i" for i
    using nl_held_count [OF inv, of i] inv that by (auto simp: nl_inv_def split: if_splits)
  have "0 < nl_held st i" if "nl_pc st i = NlReturn" using inv that unfolding nl_inv_def by (metis pc_says.simps(7))
  moreover from this have "nl_ret (nl_step i st) i = int (nl_held st i)" if "nl_pc st i = NlReturn"
    using c that by (simp add: nl_step_def nl_return_def nl_goto_def)
  ultimately show ?thesis using c by metis
qed

text \<open>A lock that nobody holds, and a run in which thread 1 gets it by testing while thread 0 waits.\<close>

definition nl_free :: nl_state where
  "nl_free = \<lparr>nl_lock = 0, nl_id = 0, nl_count = 0, nl_pc = (\<lambda>_. NlIdle), nl_held = (\<lambda>_. 0), nl_ret = (\<lambda>_. 0)\<rparr>"

lemma nl_reach_fold: "nl_reach st \<Longrightarrow> nl_reach (fold nl_step is st)"
  by (induction "is" arbitrary: st) (auto intro: nl_move)

theorem nest_lock_exclusive_witness:
  "let st = fold nl_step [1, 1, 1, 1, 1, 1, 0, 0, 0, 0] (nl_goto 0 (NlSpin NlSet) (nl_goto 1 NlTestCount (ompc_init_nest_lock nl_free)))
   in nl_reach st \<and> nl_pc st 1 = NlReturn \<and> nl_pc st 0 = NlSpin NlSet \<and> nl_ret (nl_step 1 st) 1 = 1"
proof -
  let ?st = "fold nl_step [1, 1, 1, 1, 1, 1, 0, 0, 0, 0] (nl_goto 0 (NlSpin NlSet) (nl_goto 1 NlTestCount (ompc_init_nest_lock nl_free)))"
  have "nl_reach (ompc_init_nest_lock nl_free)" by (rule nl_start) (simp_all add: nl_free_def)
  then have "nl_reach (nl_goto 1 NlTestCount (ompc_init_nest_lock nl_free))"
    by (rule nl_test) (simp add: nl_free_def ompc_init_nest_lock_def)
  then have "nl_reach (nl_goto 0 (NlSpin NlSet) (nl_goto 1 NlTestCount (ompc_init_nest_lock nl_free)))"
    by (rule nl_set) (simp add: nl_free_def ompc_init_nest_lock_def nl_goto_def)
  then have r: "nl_reach ?st" by (rule nl_reach_fold)
  have "nl_pc ?st 1 = NlReturn" "nl_pc ?st 0 = NlSpin NlSet" "nl_held ?st 1 = 1" by code_simp+
  with nest_lock_exclusive [OF r, of 1 1] r show ?thesis unfolding Let_def by (metis of_nat_1)
qed

subsection \<open>The abstract lock\<close>

text \<open>A nestable lock as its users see it: free, or held so many times by a thread.\<close>

inductive rlock_step :: "nat \<Rightarrow> (nat \<times> int) option \<Rightarrow> (nat \<times> int) option \<Rightarrow> bool" for i where
  rl_stay: "rlock_step i l l"
| rl_acquire: "rlock_step i None (Some (i, 1))"
| rl_again: "0 < c \<Longrightarrow> rlock_step i (Some (i, c)) (Some (i, c + 1))"
| rl_once_less: "1 < c \<Longrightarrow> rlock_step i (Some (i, c)) (Some (i, c - 1))"
| rl_free: "rlock_step i (Some (i, 1)) None"

definition nl_abs :: "nl_state \<Rightarrow> (nat \<times> int) option" where
  "nl_abs st = (if nl_count st = 0 then None else Some (nl_id st, nl_count st))"

text \<open>The step of a thread that has the inner lock: it takes the lock, once more or not at all, or gives it back once.\<close>

lemma locked_refines:
  assumes inv: "nl_inv st" and pc: "nl_pc st i = NlLocked c"
  shows "rlock_step i (nl_abs st) (nl_abs (nl_step i st))"
proof (cases "c = NlUnset")
  case True
  have says: "pc_says i st (nl_pc st i)" and pos: "0 \<le> nl_count st" using inv by (auto simp: nl_inv_def split: if_splits)
  have o: "nl_count st \<noteq> 0" "nl_id st = i" using says pc nl_held_count [OF inv, of i] True by auto
  have "nl_step i st = nest_drop i st" using True pc by (simp add: nl_step_def)
  then have "nl_abs (nl_step i st) = (if nl_count st = 1 then None else Some (i, nl_count st - 1))"
    using o by (simp add: nest_drop_def nl_goto_def nl_abs_def)
  with o pos show ?thesis by (auto simp: nl_abs_def intro: rlock_step.intros)
next
  case False
  then have n: "nl_step i st = nest_take i c st" using pc by (simp add: nl_step_def)
  have pos: "0 \<le> nl_count st" using inv by (auto simp: nl_inv_def split: if_splits)
  show ?thesis
  proof (cases "nl_count st \<noteq> 0 \<and> i = nl_id st")
    case True
    then have "nl_abs (nl_step i st) = Some (i, nl_count st + 1)" using pos n by (simp add: nest_take_def nl_goto_def nl_abs_def)
    with True pos show ?thesis by (auto simp: nl_abs_def intro: rlock_step.intros)
  next
    case False
    then have "nl_abs (nl_step i st) = nl_abs st" by (auto simp: n nest_take_def nl_goto_def nl_abs_def)
    then show ?thesis by (simp add: rl_stay)
  qed
qed

text \<open>
  C27. The nestable lock implements the abstract one: every step of a thread leaves the abstract state as it is, or is an
  acquisition of a free lock, one more or one less by the thread that holds it, or its release by that thread.
\<close>

theorem nest_lock_refines:
  assumes "nl_reach st"
  shows "rlock_step i (nl_abs st) (nl_abs (nl_step i st))"
proof -
  have inv: "nl_inv st" using nl_reach_inv [OF assms] .
  then have says: "pc_says i st (nl_pc st i)" by (auto simp: nl_inv_def split: if_splits)
  have same: "rlock_step i (nl_abs st) (nl_abs st')" if "nl_count st' = nl_count st" "nl_id st' = nl_id st" for st'
    using that by (simp add: nl_abs_def rl_stay)
  show ?thesis
  proof (cases "nl_pc st i")
    case (NlLocked c)
    then show ?thesis by (rule locked_refines [OF inv])
  next
    case (NlStoreId c)
    with says have "nl_abs st = None" "nl_abs (nl_step i st) = None" by (simp_all add: nl_abs_def nl_step_def store_id_def nl_goto_def)
    then show ?thesis by (simp add: rl_stay)
  next
    case (NlStoreCount c)
    with says have "nl_abs st = None" "nl_abs (nl_step i st) = Some (i, 1)"
      by (simp_all add: nl_abs_def nl_step_def store_count_def nl_goto_def)
    then show ?thesis by (simp add: rl_acquire)
  next
    case (NlUnlock c g)
    then show ?thesis by (intro same) (auto simp: nl_step_def nest_release_def nl_goto_def nl_return_def Let_def split: nl_call.split)
  qed (intro same; auto simp: nl_step_def lock_spin_def lock_xchg_def test_xchg_def nl_goto_def nl_return_def Let_def split: prod.split)+
qed

theorem nest_lock_refines_witness:
  "let st = fold nl_step [0, 0, 0, 0, 0, 0] (nl_goto 0 (NlSpin NlSet) (ompc_init_nest_lock nl_free));
       st' = fold nl_step [0, 0] (nl_goto 0 (NlSpin NlUnset) st)
   in nl_reach st' \<and> nl_pc st' 0 = NlLocked NlUnset \<and> nl_abs st' = Some (0, 1) \<and> rlock_step 0 (nl_abs st') (nl_abs (nl_step 0 st'))"
proof -
  let ?st = "fold nl_step [0, 0, 0, 0, 0, 0] (nl_goto 0 (NlSpin NlSet) (ompc_init_nest_lock nl_free))"
  let ?st' = "fold nl_step [0, 0] (nl_goto 0 (NlSpin NlUnset) ?st)"
  have "nl_reach (ompc_init_nest_lock nl_free)" by (rule nl_start) (simp_all add: nl_free_def)
  then have "nl_reach (nl_goto 0 (NlSpin NlSet) (ompc_init_nest_lock nl_free))"
    by (rule nl_set) (simp add: nl_free_def ompc_init_nest_lock_def)
  then have r: "nl_reach ?st" by (rule nl_reach_fold)
  have "nl_pc ?st 0 = NlIdle" "nl_held ?st 0 = 1" by code_simp+
  then have "nl_reach (nl_goto 0 (NlSpin NlUnset) ?st)" by (intro nl_unset r) simp_all
  then have r': "nl_reach ?st'" by (rule nl_reach_fold)
  have "nl_pc ?st' 0 = NlLocked NlUnset" "nl_abs ?st' = Some (0, 1)" by code_simp+
  with nest_lock_refines [OF r', of 0] r' show ?thesis unfolding Let_def by simp
qed

end
