(* ===== verification/Ompc_Runtime_Laws.thy ===== *)
theory Ompc_Runtime_Laws
  imports Ompc_Chunk_Laws
begin

text \<open>
  The schedule chosen at run time: the texts of \<open>OMP_SCHEDULE\<close> that are accepted, what they choose, and how a loop with
  the chosen schedule is started.
\<close>

subsection \<open>Reading \<open>OMP_SCHEDULE\<close>\<close>

text \<open>A setting as text: the name of a kind, and a comma and the chunk size in decimal when there is one.\<close>

fun dec :: "nat \<Rightarrow> string" where
  "dec n = (if n < 10 then [char_of (48 + n)] else dec (n div 10) @ [char_of (48 + n mod 10)])"

declare dec.simps [simp del]

definition kind_name :: "sched_kind \<Rightarrow> string" where
  "kind_name k = (case k of SCHED_STATIC \<Rightarrow> ''static'' | SCHED_DYNAMIC \<Rightarrow> ''dynamic'' | SCHED_GUIDED \<Rightarrow> ''guided'' | SCHED_NONE \<Rightarrow> [])"

definition show_schedule :: "sched_kind \<Rightarrow> nat \<Rightarrow> string" where
  "show_schedule k c = kind_name k @ (if c = 0 then [] else CHR '','' # dec c)"

lemma isdigit_char_of: "d < 10 \<Longrightarrow> isdigit (char_of (48 + d))" "d < 10 \<Longrightarrow> (of_char (char_of (48 + d)) :: int) = 48 + int d" for d :: nat
proof -
  assume d: "d < 10"
  have "(of_char (char_of (48 + d) :: char) :: nat) = (48 + d) mod 256" by simp
  also have "\<dots> = 48 + d" using d by (intro mod_less) simp
  finally have "(of_char (char_of (48 + d) :: char) :: nat) = 48 + d" .
  then show "(of_char (char_of (48 + d)) :: int) = 48 + int d" by (metis of_nat_add of_nat_numeral of_nat_of_char)
  with d show "isdigit (char_of (48 + d))" by (simp add: isdigit_def)
qed

lemma scan_digits_append:
  "(\<And>c. c \<in> set xs \<Longrightarrow> isdigit c) \<Longrightarrow> scan_digits a (xs @ ys) = scan_digits (scan_digits a xs) ys"
  by (induction xs arbitrary: a) auto

lemma dec_digits: "c \<in> set (dec n) \<Longrightarrow> isdigit c"
proof (induction n rule: dec.induct)
  case (1 n)
  then show ?case by (subst (asm) dec.simps) (auto simp: isdigit_char_of split: if_splits)
qed

lemma scan_dec: "scan_digits 0 (dec n) = int n"
proof (induction n rule: dec.induct)
  case (1 n)
  show ?case
  proof (cases "n < 10")
    case True
    then show ?thesis by (subst dec.simps) (simp add: isdigit_char_of)
  next
    case False
    then have "scan_digits 0 (dec n) = scan_digits (scan_digits 0 (dec (n div 10))) [char_of (48 + n mod 10)]"
      by (subst dec.simps) (simp add: scan_digits_append dec_digits)
    also have "\<dots> = 10 * int (n div 10) + int (n mod 10)" using 1 False isdigit_char_of [of "n mod 10"] by simp
    also have "\<dots> = int n" by (metis of_nat_add of_nat_mult of_nat_numeral mult_div_mod_eq)
    finally show ?thesis .
  qed
qed

lemma dec_Cons: "\<exists>c cs. dec n = c # cs \<and> isdigit c"
  using dec_digits [of "hd (dec n)" n] by (cases "dec n") (auto, subst (asm) dec.simps, simp split: if_splits)

lemma isdigit_not_space: "isdigit c \<Longrightarrow> \<not> isspace c"
  by (auto simp: isdigit_def isspace_def)

text \<open>
  C35. Reading back a setting: the text of a kind, with or without a chunk size, sets exactly that kind and size, for sizes that an \<open>int\<close> holds.
\<close>

theorem schedule_roundtrip:
  assumes "k \<noteq> SCHED_NONE" and "int c < 2147483648"
  shows "ompc_set_runtime_schedule runtime_sched0 (show_schedule k c) =
    Inr \<lparr>ompc_runtime_sched_kind = k, ompc_runtime_chunk_size = int c\<rparr>"
proof -
  obtain d ds where d: "dec c = d # ds" "isdigit d" using dec_Cons by blast
  have scan: "sscanf_int (d # ds) = int c" using scan_dec [of c] d assms(2) by (simp add: sscanf_int_def fits32_def)
  show ?thesis
    using assms(1) d isdigit_not_space [OF d(2)] scan
    by (cases k) (auto simp: ompc_set_runtime_schedule_def show_schedule_def kind_name_def scan_kind_def starts_with_def
        runtime_sched0_def isspace_def simp del: scan_digits.simps)
qed

theorem schedule_roundtrip_witness:
  "ompc_set_runtime_schedule runtime_sched0 ''guided,40'' = Inr \<lparr>ompc_runtime_sched_kind = SCHED_GUIDED, ompc_runtime_chunk_size = 40\<rparr>"
proof -
  have "show_schedule SCHED_GUIDED 40 = ''guided,40''" by code_simp
  with schedule_roundtrip [of SCHED_GUIDED 40] show ?thesis by simp
qed

subsection \<open>Starting a loop\<close>















end
