(* ===== verification/Ompc_Team.thy ===== *)
theory Ompc_Team
  imports Ompc_Barrier
begin

text \<open>
  The processes of the OpenMP runtime and the teams made of them (\<open>libompc/src/ompc_thread.c\<close>): the table of
  processes with its hash chains, the search for a free process, and the forming of a team in
  \<open>ompc_do_parallel_main\<close>. Pointers into the table are positions in it. Debug output, the conditions on which idle
  processes sleep and the call of the parallel function are not part of the model; the regions under
  \<open>OMPC_PROC_LOCK\<close> are one step each.
\<close>

subsection \<open>The table of processes\<close>

text \<open>\<open>pr_thr\<close> is the descriptor a process runs, \<open>None\<close> for \<open>NULL\<close>.\<close>

record ompc_proc =
  pr_pid :: int
  pr_link :: "nat option"
  pr_thr :: "ompc_thread option"
  pr_is_used :: bool

record proc_state =
  ps_procs :: "ompc_proc list"
  ps_proc_counter :: nat
  ps_htable :: "int \<Rightarrow> nat option"
  ps_last_used :: nat
  ps_num_threads :: int
  ps_nested :: int

text \<open>The number of processes, \<open>ompc_max_threads\<close>.\<close>

abbreviation ps_max :: "proc_state \<Rightarrow> nat" where
  "ps_max st \<equiv> length (ps_procs st)"

definition PROC_HASH_IDX :: "int \<Rightarrow> int" where
  "PROC_HASH_IDX pid = uint64 pid mod 256"

text \<open>The table that \<open>ompc_init\<close> allocates and clears.\<close>

definition init_procs :: "nat \<Rightarrow> int \<Rightarrow> int \<Rightarrow> proc_state" where
  "init_procs max_threads num_threads nested =
     \<lparr>ps_procs = replicate max_threads \<lparr>pr_pid = 0, pr_link = None, pr_thr = None, pr_is_used = False\<rparr>,
      ps_proc_counter = 0, ps_htable = (\<lambda>_. None), ps_last_used = 0, ps_num_threads = num_threads, ps_nested = nested\<rparr>"

definition ompc_new_proc :: "int \<Rightarrow> proc_state \<Rightarrow> (nat \<times> proc_state) res" where
  "ompc_new_proc pid st =
     (let p = ps_proc_counter st; h = PROC_HASH_IDX pid
      in guard_res (p < ps_max st) OutOfBounds
           (Inr (p, st\<lparr>ps_proc_counter := p + 1,
                       ps_procs := (ps_procs st)[p := (ps_procs st ! p)\<lparr>pr_pid := pid, pr_thr := None, pr_link := ps_htable st h\<rparr>],
                       ps_htable := (ps_htable st)(h := Some p)\<rparr>)))"

text \<open>The walk over a chain; \<open>None\<close> when it never ends, and \<open>Some None\<close> when the process is not in it.\<close>

partial_function (option) find_proc :: "ompc_proc list \<Rightarrow> int \<Rightarrow> nat option \<Rightarrow> nat option option" where
  "find_proc procs pid p =
     (if p = None then Some None
      else if pr_pid (procs ! the p) = pid then Some p
      else find_proc procs pid (pr_link (procs ! the p)))"

declare find_proc.simps [code]

definition ompc_current_proc :: "int \<Rightarrow> proc_state \<Rightarrow> nat res" where
  "ompc_current_proc pid st =
     (case find_proc (ps_procs st) pid (ps_htable st (PROC_HASH_IDX pid)) of
        None \<Rightarrow> Inl NoReturn
      | Some None \<Rightarrow> Inl (Fatal ''unknown proc is running'')
      | Some (Some p) \<Rightarrow> Inr p)"

definition ompc_current_thread :: "int \<Rightarrow> proc_state \<Rightarrow> ompc_thread res" where
  "ompc_current_thread pid st =
     bind_res (ompc_current_proc pid st) (\<lambda>p.
       case pr_thr (ps_procs st ! p) of
         None \<Rightarrow> Inl (Fatal ''unkonwn thread is running'')
       | Some tp \<Rightarrow> Inr tp)"

definition is_used :: "proc_state \<Rightarrow> nat \<Rightarrow> bool" where
  "is_used st p = pr_is_used (ps_procs st ! p)"

definition set_used :: "bool \<Rightarrow> nat \<Rightarrow> proc_state \<Rightarrow> proc_state" where
  "set_used b p st = st\<lparr>ps_procs := (ps_procs st)[p := (ps_procs st ! p)\<lparr>pr_is_used := b\<rparr>]\<rparr>"

text \<open>The loop of \<open>ompc_get_proc\<close>: at most \<open>k\<close> more processes, round the table from \<open>last_used\<close>.\<close>

fun scan_procs :: "nat \<Rightarrow> proc_state \<Rightarrow> nat \<Rightarrow> nat \<times> proc_state" where
  "scan_procs 0 st p = (p, st)"
| "scan_procs (Suc k) st p =
     (let l = (if ps_last_used st + 1 \<ge> ps_max st then 0 else ps_last_used st + 1);
          st = st\<lparr>ps_last_used := l\<rparr>
      in if \<not> is_used st l then (l, st) else scan_procs k st l)"

definition ompc_get_proc :: "nat \<Rightarrow> proc_state \<Rightarrow> (nat option \<times> proc_state) res" where
  "ompc_get_proc hint st =
     guard_res (hint < ps_max st) OutOfBounds
       (if \<not> is_used st hint then Inr (Some hint, set_used True hint st)
        else let (p, st) = scan_procs (ps_max st) st hint
             in if is_used st p then Inr (None, st) else Inr (Some p, set_used True p st))"

definition ompc_free_proc :: "nat \<Rightarrow> proc_state \<Rightarrow> proc_state" where
  "ompc_free_proc p st = set_used False p st"

subsection \<open>Forming a team\<close>

text \<open>The largest size of the team that the thread \<open>cthd\<close> may form, and whether its threads count as parallel.\<close>

definition team_limit :: "int \<Rightarrow> int \<Rightarrow> ompc_thread \<Rightarrow> bool \<Rightarrow> proc_state \<Rightarrow> int \<times> int" where
  "team_limit cond nthds cthd has_parent st =
     (if cond = 0 then (1, th_in_parallel cthd)
      else if has_parent \<and> ps_nested st = 0 then (1, 1)
      else (if nthds < ps_num_threads st then nthds else ps_num_threads st, 1))"

text \<open>The loop that takes processes from \<open>n_thds\<close> on; the list has the last one in front.\<close>

function take_procs :: "nat \<Rightarrow> int \<Rightarrow> nat list \<Rightarrow> proc_state \<Rightarrow> (nat \<times> nat list \<times> proc_state) res" where
  "take_procs n_thds max_thds proclist st =
     (if int n_thds < max_thds then
        bind_res (ompc_get_proc n_thds st) (\<lambda>(r, st).
          case r of
            None \<Rightarrow> Inr (n_thds, proclist, st)
          | Some p \<Rightarrow> take_procs (n_thds + 1) max_thds (p # proclist) st)
      else Inr (n_thds, proclist, st))"
  by pat_completeness auto
termination by (relation "measure (\<lambda>(n, m, l, st). nat (m - int n))") auto

declare take_procs.simps [simp del]

text \<open>The descriptors of the team: number \<open>i\<close> for the \<open>i\<close>-th process of the list, in order.\<close>

fun assign_threads :: "(nat \<Rightarrow> ompc_thread) \<Rightarrow> int \<Rightarrow> nat \<Rightarrow> nat list \<Rightarrow> proc_state \<Rightarrow> proc_state" where
  "assign_threads alloc in_parallel i [] st = st"
| "assign_threads alloc in_parallel i (p # ps) st =
     assign_threads alloc in_parallel (i + 1) ps
       (st\<lparr>ps_procs := (ps_procs st)[p := (ps_procs st ! p)\<lparr>pr_thr := Some ((alloc p)\<lparr>th_num := int i, th_in_parallel := in_parallel\<rparr>)\<rparr>]\<rparr>)"

text \<open>
  \<open>ompc_do_parallel_main\<close> up to the call of the function: the parent descriptor, the descriptor of the master, and
  the table. \<open>alloc p\<close> is what \<open>ompc_alloc_thread\<close> gives for process \<open>p\<close>, with undefined contents.
\<close>

definition form_team ::
  "(nat \<Rightarrow> ompc_thread) \<Rightarrow> int \<Rightarrow> int \<Rightarrow> nat \<Rightarrow> ompc_thread \<Rightarrow> bool \<Rightarrow> proc_state \<Rightarrow> (ompc_thread \<times> ompc_thread \<times> proc_state) res" where
  "form_team alloc cond nthds cproc cthd has_parent st =
     (let (max_thds, in_parallel) = team_limit cond nthds cthd has_parent st
      in bind_res (take_procs 1 max_thds [] st) (\<lambda>(n_thds, proclist, st).
           guard_res (n_thds \<le> MAX_PROC) OutOfBounds
             (let st = assign_threads alloc in_parallel 1 proclist st;
                  tp = (alloc cproc)\<lparr>th_num := 0, th_in_parallel := in_parallel\<rparr>
              in Inr (init_team cthd n_thds, tp,
                      st\<lparr>ps_procs := (ps_procs st)[cproc := (ps_procs st ! cproc)\<lparr>pr_thr := Some tp\<rparr>]\<rparr>))))"

end
