(* ===== verification/Ompc_Team_Laws.thy ===== *)
theory Ompc_Team_Laws
  imports Ompc_Team
begin

text \<open>
  Laws of the table of processes: a registered process finds its entry, the search for a free process succeeds
  whenever there is one, and a team is made of distinct processes that were free, numbered without gaps.
\<close>

subsection \<open>Registered processes\<close>

text \<open>Processes register one after the other.\<close>

fun register_procs :: "int list \<Rightarrow> proc_state \<Rightarrow> proc_state res" where
  "register_procs [] st = Inr st"
| "register_procs (pid # pids) st = bind_res (ompc_new_proc pid st) (\<lambda>(p, st). register_procs pids st)"

text \<open>
  The table after \<open>pids\<close> registered: entry \<open>i\<close> holds the \<open>i\<close>-th of them, and the chain of a bucket links the entries
  that hash to it, latest first.
\<close>

definition latest_before :: "int list \<Rightarrow> int \<Rightarrow> nat \<Rightarrow> nat option" where
  "latest_before pids h n =
     (case filter (\<lambda>i. PROC_HASH_IDX (pids ! i) = h) (List.rev [0..<n]) of [] \<Rightarrow> None | i # _ \<Rightarrow> Some i)"

definition registered :: "int list \<Rightarrow> proc_state \<Rightarrow> bool" where
  "registered pids st =
     (ps_proc_counter st = length pids \<and> length pids \<le> ps_max st
      \<and> (\<forall>i<length pids. pr_pid (ps_procs st ! i) = pids ! i
            \<and> pr_link (ps_procs st ! i) = latest_before pids (PROC_HASH_IDX (pids ! i)) i)
      \<and> (\<forall>h. ps_htable st h = latest_before pids h (length pids)))"

lemma latest_before_0 [simp]: "latest_before pids h 0 = None"
  by (simp add: latest_before_def)

lemma latest_before_Suc:
  "latest_before pids h (Suc n) = (if PROC_HASH_IDX (pids ! n) = h then Some n else latest_before pids h n)"
  by (simp add: latest_before_def)

lemma latest_before_append:
  "n \<le> length pids \<Longrightarrow> latest_before (pids @ qs) h n = latest_before pids h n"
  by (induction n) (simp_all add: latest_before_Suc nth_append)

lemma registered_init: "registered [] (init_procs m k nst)"
  by (simp add: registered_def init_procs_def)

lemma registered_new_proc:
  assumes "registered pids st" and "length pids < ps_max st"
  shows "\<exists>st'. ompc_new_proc pid st = Inr (length pids, st') \<and> registered (pids @ [pid]) st' \<and> ps_max st' = ps_max st"
proof -
  obtain st' where "ompc_new_proc pid st = Inr (length pids, st')"
    and st': "st' = st\<lparr>ps_proc_counter := length pids + 1,
               ps_procs := (ps_procs st)[length pids := (ps_procs st ! length pids)
                  \<lparr>pr_pid := pid, pr_thr := None, pr_link := ps_htable st (PROC_HASH_IDX pid)\<rparr>],
               ps_htable := (ps_htable st)(PROC_HASH_IDX pid := Some (length pids))\<rparr>"
    using assms by (simp add: ompc_new_proc_def registered_def Let_def)
  moreover have "registered (pids @ [pid]) st'"
    using assms
    by (auto simp: registered_def st' latest_before_Suc latest_before_append nth_list_update nth_append less_Suc_eq)
  ultimately show ?thesis by (simp add: st')
qed

lemma registered_procs:
  "registered qs st \<Longrightarrow> length qs + length pids \<le> ps_max st
   \<Longrightarrow> \<exists>st'. register_procs pids st = Inr st' \<and> registered (qs @ pids) st'"
proof (induction pids arbitrary: qs st)
  case (Cons pid pids)
  then obtain st' where "ompc_new_proc pid st = Inr (length qs, st')" "registered (qs @ [pid]) st'" "ps_max st' = ps_max st"
    using registered_new_proc [of qs st pid] by auto
  with Cons.IH [of "qs @ [pid]" st'] Cons.prems show ?case by simp
qed simp

text \<open>The walk from the head of a bucket meets every entry of the bucket.\<close>

lemma find_proc_registered:
  assumes "registered pids st" and "distinct pids"
  shows "n \<le> length pids \<Longrightarrow>
    find_proc (ps_procs st) pid (latest_before pids (PROC_HASH_IDX pid) n) =
      Some (if pid \<in> set (take n pids) then Some (THE i. i < n \<and> pids ! i = pid) else None)"
  (is "_ \<Longrightarrow> ?f n = _")
proof (induction n)
  case 0
  then show ?case by (simp add: find_proc.simps)
next
  case (Suc n)
  then have n: "n < length pids" by simp
  let ?h = "PROC_HASH_IDX pid"
  have tk: "set (take (Suc n) pids) = insert (pids ! n) (set (take n pids))"
    using n by (simp add: take_Suc_conv_app_nth)
  have notin: "pids ! n \<notin> set (take n pids)"
    using n \<open>distinct pids\<close> by (auto simp: in_set_conv_nth nth_eq_iff_index_eq)
  show ?case
  proof (cases "pids ! n = pid")
    case True
    have "(THE i. i < Suc n \<and> pids ! i = pid) = n"
      using True n \<open>distinct pids\<close> by (intro the_equality) (auto simp: nth_eq_iff_index_eq)
    with True n \<open>registered pids st\<close> show ?thesis
      by (simp add: latest_before_Suc find_proc.simps [of _ _ "Some n"] registered_def tk)
  next
    case False
    then have the: "(\<lambda>i. i < Suc n \<and> pids ! i = pid) = (\<lambda>i. i < n \<and> pids ! i = pid)"
      by (auto simp: fun_eq_iff less_Suc_eq)
    have "?f (Suc n) = ?f n"
      using False n \<open>registered pids st\<close>
      by (auto simp: latest_before_Suc find_proc.simps [of _ _ "Some n"] registered_def)
    with Suc.IH n False show ?thesis by (simp add: tk the)
  qed
qed

text \<open>
  Every process that registered finds its own entry of the table, also when several processes share a bucket of the
  hash table; a process that did not register ends the program with an error. The walk over a chain always ends.
\<close>

theorem current_proc_registered:
  assumes "distinct pids" and "length pids \<le> m"
  shows "\<exists>st. register_procs pids (init_procs m k nst) = Inr st
     \<and> (\<forall>i. i < length pids \<longrightarrow> ompc_current_proc (pids ! i) st = Inr i \<and> pr_pid (ps_procs st ! i) = pids ! i)
     \<and> (\<forall>pid. pid \<notin> set pids \<longrightarrow> ompc_current_proc pid st = Inl (Fatal ''unknown proc is running''))"
proof -
  from registered_procs [OF registered_init, of pids m k nst] assms(2)
  obtain st where st: "register_procs pids (init_procs m k nst) = Inr st" "registered pids st"
    by (auto simp: init_procs_def)
  have found: "ompc_current_proc pid st =
      (if pid \<in> set pids then Inr (THE i. i < length pids \<and> pids ! i = pid) else Inl (Fatal ''unknown proc is running''))" for pid
    using find_proc_registered [OF st(2) assms(1), of "length pids" pid] st(2)
    by (simp add: ompc_current_proc_def registered_def)
  have "(THE j. j < length pids \<and> pids ! j = pids ! i) = i" if "i < length pids" for i
    using that assms(1) by (intro the_equality) (auto simp: nth_eq_iff_index_eq)
  with found st show ?thesis by (auto simp: registered_def)
qed

theorem current_proc_registered_witness:
  "\<exists>st. register_procs [7, 263, 12] (init_procs 4 4 0) = Inr st
     \<and> ompc_current_proc 7 st = Inr 0 \<and> ompc_current_proc 263 st = Inr 1
     \<and> ompc_current_proc 519 st = Inl (Fatal ''unknown proc is running'')"
proof -
  obtain st where st: "register_procs [7, 263, 12] (init_procs 4 4 0) = Inr st"
    and f: "\<forall>i. i < length [7, 263, 12 :: int] \<longrightarrow> ompc_current_proc ([7, 263, 12] ! i) st = Inr i
              \<and> pr_pid (ps_procs st ! i) = [7, 263, 12] ! i"
    and u: "\<forall>pid. pid \<notin> set [7, 263, 12] \<longrightarrow> ompc_current_proc pid st = Inl (Fatal ''unknown proc is running'')"
    using current_proc_registered [of "[7, 263, 12]" 4 4 0] by auto
  from f [rule_format, of 0] f [rule_format, of 1] u [rule_format, of 519] st show ?thesis by simp
qed

subsection \<open>Free processes\<close>

text \<open>The table with the processes of \<open>S\<close> marked as used.\<close>

definition mark :: "nat set \<Rightarrow> nat \<Rightarrow> proc_state \<Rightarrow> proc_state" where
  "mark S l st = st\<lparr>ps_last_used := l,
     ps_procs := map (\<lambda>i. if i \<in> S then (ps_procs st ! i)\<lparr>pr_is_used := True\<rparr> else ps_procs st ! i) [0..<ps_max st]\<rparr>"

lemma mark_simps [simp]:
  "ps_max (mark S l st) = ps_max st"
  "ps_last_used (mark S l st) = l"
  "i < ps_max st \<Longrightarrow> is_used (mark S l st) i = (i \<in> S \<or> is_used st i)"
  "i < ps_max st \<Longrightarrow> i \<notin> S \<Longrightarrow> ps_procs (mark S l st) ! i = ps_procs st ! i"
  by (simp_all add: mark_def is_used_def)

lemma mark_mark [simp]: "mark S l (mark T k st) = mark (S \<union> T) l st"
  by (simp add: mark_def)

lemma mark_empty: "mark {} l st = st\<lparr>ps_last_used := l\<rparr>"
  by (simp add: mark_def map_nth)

lemma set_used_mark: "p < ps_max st \<Longrightarrow> set_used True p st = mark {p} (ps_last_used st) st"
  by (auto simp: set_used_def mark_def intro!: nth_equalityI proc_state.equality)

lemma is_used_last [simp]: "is_used (st\<lparr>ps_last_used := l\<rparr>) = is_used st"
  by (simp add: is_used_def fun_eq_iff)

lemma next_used_mod: "l < m \<Longrightarrow> (if l + 1 \<ge> m then 0 else l + 1) = (l + 1) mod (m :: nat)"
  by (cases "l + 1 = m") auto

lemma scan_procs_spec:
  assumes "ps_last_used st < ps_max st"
  shows "\<exists>q < ps_max st. scan_procs k st (ps_last_used st) = (q, mark {} q st)
     \<and> (is_used st q \<longrightarrow> (\<forall>j \<in> {1..k}. is_used st ((ps_last_used st + j) mod ps_max st)))"
  using assms
proof (induction k arbitrary: st)
  case 0
  then show ?case by (auto simp: mark_empty intro!: exI [of _ "ps_last_used st"])
next
  case (Suc k)
  let ?m = "ps_max st" and ?l = "(ps_last_used st + 1) mod ps_max st"
  have l: "(if ps_last_used st + 1 \<ge> ?m then 0 else ps_last_used st + 1) = ?l"
    using Suc.prems by (rule next_used_mod)
  have lm: "?l < ?m" using Suc.prems by (intro mod_less_divisor) linarith
  show ?case
  proof (cases "is_used st ?l")
    case False
    with lm show ?thesis unfolding scan_procs.simps Let_def l by (auto simp: mark_empty intro!: exI [of _ ?l])
  next
    case True
    from Suc.IH [of "st\<lparr>ps_last_used := ?l\<rparr>"] lm obtain q where q: "q < ?m"
      "scan_procs k (st\<lparr>ps_last_used := ?l\<rparr>) ?l = (q, mark {} q st)"
      "is_used st q \<longrightarrow> (\<forall>j \<in> {1..k}. is_used st ((?l + j) mod ?m))"
      by (auto simp: mark_empty)
    have "is_used st ((ps_last_used st + j) mod ?m)" if "is_used st q" "j \<in> {1..Suc k}" for j
    proof (cases "j = 1")
      case True
      with \<open>is_used st ?l\<close> show ?thesis by simp
    next
      case False
      with that have "j - 1 \<in> {1..k}" by auto
      with that q(3) have "is_used st ((?l + (j - 1)) mod ?m)" by blast
      moreover have "(?l + (j - 1)) mod ?m = (ps_last_used st + j) mod ?m"
        using False that mod_add_left_eq [of "ps_last_used st + 1" ?m "j - 1"] by simp
      ultimately show ?thesis by simp
    qed
    with q True show ?thesis unfolding scan_procs.simps Let_def l by (auto intro!: exI [of _ q])
  qed
qed

lemma round_covers:
  assumes "l < m" and "i < (m :: nat)"
  shows "\<exists>j \<in> {1..m}. (l + j) mod m = i"
proof (cases "l < i")
  case True
  with assms show ?thesis by (intro bexI [of _ "i - l"]) auto
next
  case False
  with assms have "(l + (i + m - l)) mod m = i" by simp
  with False assms show ?thesis by (intro bexI [of _ "i + m - l"]) auto
qed

lemma scan_procs_start: "0 < k \<Longrightarrow> scan_procs k st p = scan_procs k st p'"
  by (cases k) simp_all

lemma get_proc_spec:
  assumes "hint < ps_max st" and "ps_last_used st < ps_max st"
  shows "\<exists>r. \<exists>l < ps_max st. ompc_get_proc hint st = Inr (r, mark (set_option r) l st)
     \<and> (case r of None \<Rightarrow> \<forall>i < ps_max st. is_used st i | Some p \<Rightarrow> p < ps_max st \<and> \<not> is_used st p)"
proof (cases "is_used st hint")
  case False
  with assms show ?thesis
    by (intro exI [of _ "Some hint"] exI [of _ "ps_last_used st"]) (simp add: ompc_get_proc_def set_used_mark)
next
  case True
  from scan_procs_spec [OF assms(2), of "ps_max st"] obtain q where q: "q < ps_max st"
    "scan_procs (ps_max st) st hint = (q, mark {} q st)"
    "is_used st q \<longrightarrow> (\<forall>j \<in> {1..ps_max st}. is_used st ((ps_last_used st + j) mod ps_max st))"
    using scan_procs_start [OF le_less_trans [OF le0 assms(1)], of st hint "ps_last_used st"] by auto
  show ?thesis
  proof (cases "is_used st q")
    case False
    with q True assms show ?thesis
      by (intro exI [of _ "Some q"] exI [of _ q]) (simp add: ompc_get_proc_def set_used_mark)
  next
    case used: True
    have "is_used st i" if "i < ps_max st" for i
      using round_covers [OF assms(2) that] q(3) used by auto
    with q True used assms show ?thesis
      by (intro exI [of _ None] exI [of _ q]) (simp add: ompc_get_proc_def)
  qed
qed

subsection \<open>Teams\<close>

lemma take_procs_spec:
  assumes "max_thds \<le> int (ps_max st)" and "ps_last_used st < ps_max st"
  shows "\<exists>ps. \<exists>l < ps_max st. take_procs n max_thds qs st = Inr (n + length ps, List.rev ps @ qs, mark (set ps) l st)
     \<and> distinct ps \<and> (\<forall>p \<in> set ps. p < ps_max st \<and> \<not> is_used st p)
     \<and> int (n + length ps) \<le> max (int n) max_thds
     \<and> (int (n + length ps) < max_thds \<longrightarrow> (\<forall>i < ps_max st. is_used (mark (set ps) l st) i))"
  using assms
proof (induction n max_thds qs st rule: take_procs.induct)
  case (1 n max_thds qs st)
  show ?case
  proof (cases "int n < max_thds")
    case False
    with "1.prems" show ?thesis
      by (intro exI [of _ "[]"] exI [of _ "ps_last_used st"]) (simp add: take_procs.simps mark_empty)
  next
    case True
    with "1.prems" have "n < ps_max st" by linarith
    from get_proc_spec [OF this "1.prems"(2)] obtain r l where r: "l < ps_max st"
      "ompc_get_proc n st = Inr (r, mark (set_option r) l st)"
      "case r of None \<Rightarrow> \<forall>i < ps_max st. is_used st i | Some p \<Rightarrow> p < ps_max st \<and> \<not> is_used st p"
      by blast
    show ?thesis
    proof (cases r)
      case None
      with r True show ?thesis
        by (intro exI [of _ "[]"] exI [of _ l]) (simp add: take_procs.simps [of n])
    next
      case (Some p)
      with r have p: "p < ps_max st" "\<not> is_used st p" by simp_all
      have "max_thds \<le> int (ps_max (mark {p} l st))" "ps_last_used (mark {p} l st) < ps_max (mark {p} l st)"
        using "1.prems" r by simp_all
      from "1.IH" [OF True Some this] obtain ps k where ih: "k < ps_max st"
        "take_procs (n + 1) max_thds (p # qs) (mark {p} l st)
           = Inr (n + 1 + length ps, List.rev ps @ p # qs, mark (set ps) k (mark {p} l st))"
        "distinct ps" "\<forall>i \<in> set ps. i < ps_max st \<and> \<not> is_used (mark {p} l st) i"
        "int (n + 1 + length ps) \<le> max (int (n + 1)) max_thds"
        "int (n + 1 + length ps) < max_thds \<longrightarrow> (\<forall>i < ps_max st. is_used (mark (set ps) k (mark {p} l st)) i)"
        unfolding mark_simps(1) by blast
      from ih(4) have fresh: "p \<notin> set ps" "\<forall>i \<in> set ps. i < ps_max st \<and> \<not> is_used st i"
        using p by auto
      have "mark (set ps) k (mark {p} l st) = mark (set (p # ps)) k st" by simp
      with ih fresh p r(2) Some True show ?thesis
        by (intro exI [of _ "p # ps"] exI [of _ k]) (simp add: take_procs.simps [of n])
    qed
  qed
qed

lemma assign_threads_spec:
  assumes "distinct qs" and "\<forall>q \<in> set qs. q < ps_max st"
  shows "ps_max (assign_threads alloc par i qs st) = ps_max st
     \<and> (\<forall>j < length qs. ps_procs (assign_threads alloc par i qs st) ! (qs ! j)
          = (ps_procs st ! (qs ! j))\<lparr>pr_thr := Some ((alloc (qs ! j))\<lparr>th_num := int (i + j), th_in_parallel := par\<rparr>)\<rparr>)
     \<and> (\<forall>p. p \<notin> set qs \<longrightarrow> ps_procs (assign_threads alloc par i qs st) ! p = ps_procs st ! p)"
  using assms
proof (induction qs arbitrary: i st)
  case (Cons q qs)
  let ?st = "st\<lparr>ps_procs := (ps_procs st)[q := (ps_procs st ! q)
               \<lparr>pr_thr := Some ((alloc q)\<lparr>th_num := int i, th_in_parallel := par\<rparr>)\<rparr>]\<rparr>"
  have st: "assign_threads alloc par i (q # qs) st = assign_threads alloc par (i + 1) qs ?st" by simp
  have ih: "ps_max (assign_threads alloc par (i + 1) qs ?st) = ps_max st
     \<and> (\<forall>j < length qs. ps_procs (assign_threads alloc par (i + 1) qs ?st) ! (qs ! j)
          = (ps_procs ?st ! (qs ! j))\<lparr>pr_thr := Some ((alloc (qs ! j))\<lparr>th_num := int (i + 1 + j), th_in_parallel := par\<rparr>)\<rparr>)
     \<and> (\<forall>p. p \<notin> set qs \<longrightarrow> ps_procs (assign_threads alloc par (i + 1) qs ?st) ! p = ps_procs ?st ! p)"
    using Cons.IH [of ?st "i + 1"] Cons.prems by simp
  have neq: "q \<noteq> qs ! j" if "j < length qs" for j
    using that Cons.prems(1) by (auto simp: in_set_conv_nth)
  show ?case unfolding st
  proof (intro conjI allI impI)
    fix j assume "j < length (q # qs)"
    then show "ps_procs (assign_threads alloc par (i + 1) qs ?st) ! ((q # qs) ! j)
       = (ps_procs st ! ((q # qs) ! j))
           \<lparr>pr_thr := Some ((alloc ((q # qs) ! j))\<lparr>th_num := int (i + j), th_in_parallel := par\<rparr>)\<rparr>"
      using ih Cons.prems neq by (cases j) auto
  qed (use ih in auto)
qed simp

text \<open>
  C28. A parallel region gets a team of as many threads as it asks for, or of as many as there are free processes: the
  team has distinct processes that were free and are used afterwards, the threads are numbered from 1 on without gaps,
  the master is thread 0, and the other entries of the table keep their contents.
\<close>

theorem team_formed:
  assumes lim: "team_limit cond nthds cthd has_parent st = (max_thds, par)"
    and max: "max_thds \<le> int (ps_max st)" "max_thds \<le> int MAX_PROC"
    and last: "ps_last_used st < ps_max st"
    and master: "cproc < ps_max st" "is_used st cproc"
  shows "\<exists>ps st'. form_team alloc cond nthds cproc cthd has_parent st
       = Inr (init_team cthd (length ps + 1), (alloc cproc)\<lparr>th_num := 0, th_in_parallel := par\<rparr>, st')
     \<and> distinct (cproc # ps) \<and> list_all (\<lambda>p. p < ps_max st \<and> \<not> is_used st p \<and> is_used st' p) ps
     \<and> (int (length ps) + 1 = max 1 max_thds \<or> int (length ps) + 1 < max_thds \<and> (\<forall>p < ps_max st. is_used st' p))
     \<and> list_all (\<lambda>j. pr_thr (ps_procs st' ! (ps ! j)) = Some ((alloc (ps ! j))\<lparr>th_num := int j + 1, th_in_parallel := par\<rparr>)) [0..<length ps]
     \<and> pr_thr (ps_procs st' ! cproc) = Some ((alloc cproc)\<lparr>th_num := 0, th_in_parallel := par\<rparr>)
     \<and> (\<forall>p < ps_max st. p \<notin> set (cproc # ps) \<longrightarrow> ps_procs st' ! p = ps_procs st ! p)"
proof -
  from take_procs_spec [OF max(1) last, of 1 "[]"] obtain ps l where
    tk: "take_procs 1 max_thds [] st = Inr (1 + length ps, List.rev ps, mark (set ps) l st)"
    and ps: "distinct ps" "\<forall>p \<in> set ps. p < ps_max st \<and> \<not> is_used st p"
    and n: "int (1 + length ps) \<le> max 1 max_thds"
      "int (1 + length ps) < max_thds \<longrightarrow> (\<forall>i < ps_max st. is_used (mark (set ps) l st) i)"
    by auto
  define qs where "qs = List.rev ps"
  define st1 where "st1 = assign_threads alloc par 1 qs (mark (set ps) l st)"
  define tp where "tp = (alloc cproc)\<lparr>th_num := 0, th_in_parallel := par\<rparr>"
  define st2 where "st2 = st1\<lparr>ps_procs := (ps_procs st1)[cproc := (ps_procs st1 ! cproc)\<lparr>pr_thr := Some tp\<rparr>]\<rparr>"
  have qs: "distinct qs" "set qs = set ps" "length qs = length ps" "cproc \<notin> set qs"
    using ps master by (auto simp: qs_def)
  have asg: "ps_max st1 = ps_max st"
    "\<forall>j < length qs. ps_procs st1 ! (qs ! j) = (ps_procs (mark (set ps) l st) ! (qs ! j))
       \<lparr>pr_thr := Some ((alloc (qs ! j))\<lparr>th_num := int (1 + j), th_in_parallel := par\<rparr>)\<rparr>"
    "\<forall>p. p \<notin> set qs \<longrightarrow> ps_procs st1 ! p = ps_procs (mark (set ps) l st) ! p"
    using assign_threads_spec [OF qs(1), of "mark (set ps) l st" alloc par 1] ps qs
    by (auto simp: st1_def)
  have "1 + length ps \<le> MAX_PROC"
    using n(1) max(2) by (simp add: MAX_PROC_def)
  then have "form_team alloc cond nthds cproc cthd has_parent st = Inr (init_team cthd (length qs + 1), tp, st2)"
    unfolding form_team_def lim prod.case Let_def tk bind_res_simps qs_def [symmetric] st1_def [symmetric]
    by (simp add: qs(3) st2_def tp_def)
  moreover have used: "is_used st2 p = is_used (mark (set ps) l st) p" if "p < ps_max st" for p
  proof -
    have "is_used st1 p = is_used (mark (set ps) l st) p"
      using asg(2,3) by (cases "p \<in> set qs") (auto simp: is_used_def in_set_conv_nth)
    with that asg(1) master(1) show ?thesis
      by (cases "p = cproc") (simp_all add: st2_def is_used_def)
  qed
  moreover have "ps_procs st2 ! p = ps_procs st1 ! p" if "p \<noteq> cproc" for p
    using that by (simp add: st2_def)
  moreover have "pr_thr (ps_procs st2 ! cproc) = Some tp"
    using asg(1) master by (simp add: st2_def)
  moreover have "qs ! j \<noteq> cproc" if "j < length qs" for j using that qs(4) by auto
  moreover have "int (length qs) + 1 = max 1 max_thds
      \<or> int (length qs) + 1 < max_thds \<and> (\<forall>p < ps_max st. is_used (mark (set ps) l st) p)"
    using n qs(3) by auto
  ultimately show ?thesis using qs asg ps unfolding tp_def
    by (intro exI [of _ qs] exI [of _ st2] conjI) (auto simp: list_all_iff)
qed

text \<open>Four processes, of which the first is the master and the third is busy: a region for four threads gets three.\<close>

definition example_procs :: proc_state where
  "example_procs = set_used True 2 (set_used True 0 (init_procs 4 4 0))"

theorem team_formed_witness:
  "\<exists>ps st'. form_team (\<lambda>_. thread0 1) 1 4 0 (thread0 1) False example_procs
     = Inr (init_team (thread0 1) (length ps + 1), (thread0 1)\<lparr>th_num := 0, th_in_parallel := 1\<rparr>, st') \<and> distinct ((0 :: nat) # ps)"
proof -
  have "team_limit 1 4 (thread0 1) False example_procs = (4, 1)"
    by (simp add: team_limit_def example_procs_def init_procs_def set_used_def)
  note lim = this
  have prems: "4 \<le> int (ps_max example_procs)" "(4 :: int) \<le> int MAX_PROC" "ps_last_used example_procs < ps_max example_procs"
    "0 < ps_max example_procs" "is_used example_procs 0"
    by (simp_all add: example_procs_def init_procs_def set_used_def is_used_def MAX_PROC_def)
  from team_formed [OF lim prems, of "\<lambda>_. thread0 1"] show ?thesis
    by blast
qed

lemma team_example_size:
  "(case form_team (\<lambda>_. thread0 1) 1 4 0 (thread0 1) False example_procs of Inr (cthd, tp, st) \<Rightarrow> th_num_thds cthd | Inl e \<Rightarrow> 0) = 3"
  by code_simp

text \<open>
  The number of threads is nowhere compared with \<open>MAX_PROC\<close>: when more threads are asked for and the processes
  are free, the forming of the team writes past the arrays of flags of its parent.
\<close>

theorem team_overruns_flags:
  assumes lim: "team_limit cond nthds cthd has_parent st = (max_thds, par)"
    and max: "max_thds \<le> int (ps_max st)" "int MAX_PROC < max_thds"
    and last: "ps_last_used st < ps_max st"
    and free: "\<forall>p. 0 < p \<and> p < ps_max st \<longrightarrow> \<not> is_used st p"
  shows "form_team alloc cond nthds cproc cthd has_parent st = Inl OutOfBounds"
proof -
  from take_procs_spec [OF max(1) last, of 1 "[]"] obtain ps l where
    tk: "take_procs 1 max_thds [] st = Inr (1 + length ps, List.rev ps, mark (set ps) l st)"
    and "distinct ps"
    and n: "int (1 + length ps) < max_thds \<longrightarrow> (\<forall>i < ps_max st. is_used (mark (set ps) l st) i)"
    by auto
  have "max_thds \<le> int (1 + length ps)"
  proof (rule ccontr)
    assume few: "\<not> max_thds \<le> int (1 + length ps)"
    with n have "is_used (mark (set ps) l st) i" if "i < ps_max st" for i using that by simp
    with free have "{1..<ps_max st} \<subseteq> set ps" by (intro subsetI) (metis One_nat_def Suc_le_eq atLeastLessThan_iff mark_simps(3))
    from card_mono [OF finite_set this] have "card {1..<ps_max st} \<le> length ps"
      unfolding distinct_card [OF \<open>distinct ps\<close>] .
    with few max(1) show False by simp
  qed
  with max(2) show ?thesis
    unfolding form_team_def lim prod.case Let_def tk bind_res_simps by simp
qed

theorem team_overruns_flags_witness:
  "form_team (\<lambda>_. thread0 1) 1 300 0 (thread0 1) False (set_used True 0 (init_procs 300 300 0)) = Inl OutOfBounds"
  by (rule team_overruns_flags [where max_thds = 300 and par = 1])
    (simp_all add: team_limit_def init_procs_def set_used_def is_used_def MAX_PROC_def)

end
