(* ===== verification/Xmp_Post.thy ===== *)
theory Xmp_Post
  imports Xmp_Nodes "HOL-Library.Multiset"
begin

text \<open>
  Post and wait: \<open>src/libxmp/src/xmp_post_wait.c\<close> with the implementation over MPI,
  \<open>src/libxmp/src/xmp_post_wait_mpi.c\<close>. A process keeps the requests it has received and not yet waited
  for in a table that grows. MPI is not part of the repository: the messages a process receives are a
  list in the order of their delivery, of which the theorems assume nothing; a receive without a message
  blocks, which is \<open>None\<close>. The static table is passed as state, and \<open>junk\<close> is what fresh memory holds.
  Allocation is taken to succeed.
\<close>

subsection \<open>The table of requests\<close>

record postreq_info =
  pi_node :: int
  pi_tag :: int

record postreq =
  pq_table :: "postreq_info list"
  pq_num :: nat
  pq_max_size :: nat

definition req :: "int \<Rightarrow> int \<Rightarrow> postreq_info" where
  "req node tag = \<lparr>pi_node = node, pi_tag = tag\<rparr>"

definition xmp_mpi_post_wait_initialize :: "(nat \<Rightarrow> postreq_info) \<Rightarrow> postreq" where
  "xmp_mpi_post_wait_initialize junk =
     (let table = map junk [0..<32];
          table = table[0 := (table ! 0)\<lparr>pi_node := 0\<rparr>];
          table = table[31 := (table ! 31)\<lparr>pi_node := 0\<rparr>]
      in \<lparr>pq_table = table, pq_num = 0, pq_max_size = 32\<rparr>)"

definition add_request :: "int \<Rightarrow> int \<Rightarrow> postreq \<Rightarrow> postreq res" where
  "add_request node tag q =
     guard_res (pq_num q < length (pq_table q)) OutOfBounds
       (Inr (q\<lparr>pq_table := (pq_table q)[pq_num q := req node tag], pq_num := pq_num q + 1\<rparr>))"

text \<open>\<open>max_size *= 1.5\<close> on an \<open>int\<close> cuts off the half.\<close>

definition grow :: "(nat \<Rightarrow> postreq_info) \<Rightarrow> postreq \<Rightarrow> postreq" where
  "grow junk q =
     (let next_size = pq_max_size q * 3 div 2
      in q\<lparr>pq_max_size := next_size,
           pq_table := take next_size (pq_table q @ map junk [length (pq_table q)..<next_size])\<rparr>)"

definition do_post :: "(nat \<Rightarrow> postreq_info) \<Rightarrow> int \<Rightarrow> int \<Rightarrow> postreq \<Rightarrow> postreq res" where
  "do_post junk node tag q = add_request node tag (if pq_num q = pq_max_size q then grow junk q else q)"

definition shift_postreq :: "nat \<Rightarrow> postreq \<Rightarrow> postreq" where
  "shift_postreq index q =
     (let table = (if index \<noteq> pq_num q - 1
                   then fold (\<lambda>i t. t[i - 1 := t ! i]) [index + 1..<pq_num q] (pq_table q)
                   else pq_table q)
      in q\<lparr>pq_table := table, pq_num := pq_num q - 1\<rparr>)"

text \<open>The loops from \<open>num - 1\<close> down to 0: the last entry that matches.\<close>

fun scan_down :: "(postreq_info \<Rightarrow> bool) \<Rightarrow> nat \<Rightarrow> postreq_info list \<Rightarrow> nat option" where
  "scan_down P 0 t = None"
| "scan_down P (Suc i) t = (if P (t ! i) then Some i else scan_down P i t)"

definition remove_match :: "(postreq_info \<Rightarrow> bool) \<Rightarrow> postreq \<Rightarrow> bool \<times> postreq" where
  "remove_match P q =
     (case scan_down P (pq_num q) (pq_table q) of
        Some i \<Rightarrow> (True, shift_postreq i q)
      | None \<Rightarrow> (False, q))"

definition remove_request_noargs :: "postreq \<Rightarrow> bool \<times> postreq" where
  "remove_request_noargs q = (if pq_num q > 0 then (True, shift_postreq (pq_num q - 1) q) else (False, q))"

definition remove_request_node :: "int \<Rightarrow> postreq \<Rightarrow> bool \<times> postreq" where
  "remove_request_node node q = remove_match (\<lambda>x. node = pi_node x) q"

definition remove_request :: "int \<Rightarrow> int \<Rightarrow> postreq \<Rightarrow> bool \<times> postreq" where
  "remove_request node tag q = remove_match (\<lambda>x. node = pi_node x \<and> tag = pi_tag x) q"

subsection \<open>Post and wait over MPI\<close>

text \<open>The message that \<open>_xmp_mpi_post\<close> sends, if any, as its destination and its tag.\<close>

definition xmp_mpi_post ::
  "(nat \<Rightarrow> postreq_info) \<Rightarrow> int \<Rightarrow> int \<Rightarrow> int \<Rightarrow> postreq \<Rightarrow> ((int \<times> int) option \<times> postreq) res" where
  "xmp_mpi_post junk self node tag q =
     (if node = self then bind_res (do_post junk self tag q) (\<lambda>q. Inr (None, q))
      else Inr (Some (node, tag), q))"

type_synonym inbox = "postreq_info list"

definition xmp_mpi_wait_noargs :: "postreq \<Rightarrow> inbox \<Rightarrow> (postreq \<times> inbox) res option" where
  "xmp_mpi_wait_noargs q msgs =
     (case remove_request_noargs q of
        (True, q) \<Rightarrow> Some (Inr (q, msgs))
      | (False, q) \<Rightarrow> (case msgs of [] \<Rightarrow> None | m # msgs \<Rightarrow> Some (Inr (q, msgs))))"

text \<open>The loop of both other waits: messages that do not match go to the table.\<close>

fun recv_loop :: "('r \<Rightarrow> 'q \<Rightarrow> 'q res) \<Rightarrow> ('r \<Rightarrow> bool) \<Rightarrow> 'q \<Rightarrow> 'r list \<Rightarrow> ('q \<times> 'r list) res option" where
  "recv_loop keep P q [] = None"
| "recv_loop keep P q (m # msgs) =
     (if P m then Some (Inr (q, msgs))
      else case keep m q of Inl e \<Rightarrow> Some (Inl e) | Inr q \<Rightarrow> recv_loop keep P q msgs)"

definition post_received :: "(nat \<Rightarrow> postreq_info) \<Rightarrow> postreq_info \<Rightarrow> postreq \<Rightarrow> postreq res" where
  "post_received junk m q = do_post junk (pi_node m) (pi_tag m) q"

definition xmp_mpi_wait_node :: "(nat \<Rightarrow> postreq_info) \<Rightarrow> int \<Rightarrow> postreq \<Rightarrow> inbox \<Rightarrow> (postreq \<times> inbox) res option" where
  "xmp_mpi_wait_node junk node q msgs =
     (case remove_request_node node q of
        (True, q) \<Rightarrow> Some (Inr (q, msgs))
      | (False, q) \<Rightarrow> recv_loop (post_received junk) (\<lambda>m. pi_node m = node) q msgs)"

definition xmp_mpi_wait :: "(nat \<Rightarrow> postreq_info) \<Rightarrow> int \<Rightarrow> int \<Rightarrow> postreq \<Rightarrow> inbox \<Rightarrow> (postreq \<times> inbox) res option" where
  "xmp_mpi_wait junk node tag q msgs =
     (case remove_request node tag q of
        (True, q) \<Rightarrow> Some (Inr (q, msgs))
      | (False, q) \<Rightarrow> recv_loop (post_received junk) (\<lambda>m. pi_node m = node \<and> pi_tag m = tag) q msgs)"

subsection \<open>Post and wait on a node of a node set\<close>

text \<open>
  The entry points have one function per number of subscripts; \<open>nums\<close> counts from 1. The number of the node in the node set is
  passed on as its rank in the world.
\<close>

definition info_size :: "nodes \<Rightarrow> nat \<Rightarrow> int" where
  "info_size desc i = ni_size (n_info desc ! i)"

definition node_num_1 :: "nodes \<Rightarrow> int \<Rightarrow> int" where
  "node_num_1 desc num1 =
     (num1 - 1)"

definition node_num_2 :: "nodes \<Rightarrow> int \<Rightarrow> int \<Rightarrow> int" where
  "node_num_2 desc num1 num2 =
     (num1 - 1)
       + (num2 - 1) * info_size desc 0"

definition node_num_3 :: "nodes \<Rightarrow> int \<Rightarrow> int \<Rightarrow> int \<Rightarrow> int" where
  "node_num_3 desc num1 num2 num3 =
     (num1 - 1)
       + (num2 - 1) * info_size desc 0
       + (num3 - 1) * info_size desc 0 * info_size desc 1"

definition node_num_4 :: "nodes \<Rightarrow> int \<Rightarrow> int \<Rightarrow> int \<Rightarrow> int \<Rightarrow> int" where
  "node_num_4 desc num1 num2 num3 num4 =
     (num1 - 1)
       + (num2 - 1) * info_size desc 0
       + (num3 - 1) * info_size desc 0 * info_size desc 1
       + (num4 - 1) * info_size desc 0 * info_size desc 1 * info_size desc 2"

definition node_num_5 :: "nodes \<Rightarrow> int \<Rightarrow> int \<Rightarrow> int \<Rightarrow> int \<Rightarrow> int \<Rightarrow> int" where
  "node_num_5 desc num1 num2 num3 num4 num5 =
     (num1 - 1)
       + (num2 - 1) * info_size desc 0
       + (num3 - 1) * info_size desc 0 * info_size desc 1
       + (num4 - 1) * info_size desc 0 * info_size desc 1 * info_size desc 2
       + (num5 - 1) * info_size desc 0 * info_size desc 1 * info_size desc 2 * info_size desc 3"

definition node_num_6 :: "nodes \<Rightarrow> int \<Rightarrow> int \<Rightarrow> int \<Rightarrow> int \<Rightarrow> int \<Rightarrow> int \<Rightarrow> int" where
  "node_num_6 desc num1 num2 num3 num4 num5 num6 =
     (num1 - 1)
       + (num2 - 1) * info_size desc 0
       + (num3 - 1) * info_size desc 0 * info_size desc 1
       + (num4 - 1) * info_size desc 0 * info_size desc 1 * info_size desc 2
       + (num5 - 1) * info_size desc 0 * info_size desc 1 * info_size desc 2 * info_size desc 3
       + (num6 - 1) * info_size desc 0 * info_size desc 1 * info_size desc 2 * info_size desc 3 * info_size desc 4"

definition node_num_7 :: "nodes \<Rightarrow> int \<Rightarrow> int \<Rightarrow> int \<Rightarrow> int \<Rightarrow> int \<Rightarrow> int \<Rightarrow> int \<Rightarrow> int" where
  "node_num_7 desc num1 num2 num3 num4 num5 num6 num7 =
     (num1 - 1)
       + (num2 - 1) * info_size desc 0
       + (num3 - 1) * info_size desc 0 * info_size desc 1
       + (num4 - 1) * info_size desc 0 * info_size desc 1 * info_size desc 2
       + (num5 - 1) * info_size desc 0 * info_size desc 1 * info_size desc 2 * info_size desc 3
       + (num6 - 1) * info_size desc 0 * info_size desc 1 * info_size desc 2 * info_size desc 3 * info_size desc 4
       + (num7 - 1) * info_size desc 0 * info_size desc 1 * info_size desc 2 * info_size desc 3 * info_size desc 4 * info_size desc 5"

definition XMP_post_1 ::
  "(nat \<Rightarrow> postreq_info) \<Rightarrow> int \<Rightarrow> nodes \<Rightarrow> int \<Rightarrow> int \<Rightarrow> postreq \<Rightarrow> ((int \<times> int) option \<times> postreq) res" where
  "XMP_post_1 junk self desc num1 tag q = xmp_mpi_post junk self (node_num_1 desc num1) tag q"

definition XMP_post_2 ::
  "(nat \<Rightarrow> postreq_info) \<Rightarrow> int \<Rightarrow> nodes \<Rightarrow> int \<Rightarrow> int \<Rightarrow> int \<Rightarrow> postreq \<Rightarrow> ((int \<times> int) option \<times> postreq) res" where
  "XMP_post_2 junk self desc num1 num2 tag q = xmp_mpi_post junk self (node_num_2 desc num1 num2) tag q"

definition XMP_post_3 ::
  "(nat \<Rightarrow> postreq_info) \<Rightarrow> int \<Rightarrow> nodes \<Rightarrow> int \<Rightarrow> int \<Rightarrow> int \<Rightarrow> int \<Rightarrow> postreq \<Rightarrow> ((int \<times> int) option \<times> postreq) res" where
  "XMP_post_3 junk self desc num1 num2 num3 tag q = xmp_mpi_post junk self (node_num_3 desc num1 num2 num3) tag q"

definition XMP_post_4 ::
  "(nat \<Rightarrow> postreq_info) \<Rightarrow> int \<Rightarrow> nodes \<Rightarrow> int \<Rightarrow> int \<Rightarrow> int \<Rightarrow> int \<Rightarrow> int \<Rightarrow> postreq \<Rightarrow> ((int \<times> int) option \<times> postreq) res" where
  "XMP_post_4 junk self desc num1 num2 num3 num4 tag q = xmp_mpi_post junk self (node_num_4 desc num1 num2 num3 num4) tag q"

definition XMP_post_5 ::
  "(nat \<Rightarrow> postreq_info) \<Rightarrow> int \<Rightarrow> nodes \<Rightarrow> int \<Rightarrow> int \<Rightarrow> int \<Rightarrow> int \<Rightarrow> int \<Rightarrow> int \<Rightarrow> postreq \<Rightarrow> ((int \<times> int) option \<times> postreq) res" where
  "XMP_post_5 junk self desc num1 num2 num3 num4 num5 tag q = xmp_mpi_post junk self (node_num_5 desc num1 num2 num3 num4 num5) tag q"

definition XMP_post_6 ::
  "(nat \<Rightarrow> postreq_info) \<Rightarrow> int \<Rightarrow> nodes \<Rightarrow> int \<Rightarrow> int \<Rightarrow> int \<Rightarrow> int \<Rightarrow> int \<Rightarrow> int \<Rightarrow> int \<Rightarrow> postreq \<Rightarrow> ((int \<times> int) option \<times> postreq) res" where
  "XMP_post_6 junk self desc num1 num2 num3 num4 num5 num6 tag q = xmp_mpi_post junk self (node_num_6 desc num1 num2 num3 num4 num5 num6) tag q"

definition XMP_post_7 ::
  "(nat \<Rightarrow> postreq_info) \<Rightarrow> int \<Rightarrow> nodes \<Rightarrow> int \<Rightarrow> int \<Rightarrow> int \<Rightarrow> int \<Rightarrow> int \<Rightarrow> int \<Rightarrow> int \<Rightarrow> int \<Rightarrow> postreq \<Rightarrow> ((int \<times> int) option \<times> postreq) res" where
  "XMP_post_7 junk self desc num1 num2 num3 num4 num5 num6 num7 tag q = xmp_mpi_post junk self (node_num_7 desc num1 num2 num3 num4 num5 num6 num7) tag q"

definition XMP_wait_noargs :: "postreq \<Rightarrow> inbox \<Rightarrow> (postreq \<times> inbox) res option" where
  "XMP_wait_noargs q msgs = xmp_mpi_wait_noargs q msgs"

definition XMP_wait_1 ::
  "(nat \<Rightarrow> postreq_info) \<Rightarrow> nodes \<Rightarrow> int \<Rightarrow> int \<Rightarrow> postreq \<Rightarrow> inbox \<Rightarrow> (postreq \<times> inbox) res option" where
  "XMP_wait_1 junk desc num1 tag q msgs = xmp_mpi_wait junk (node_num_1 desc num1) tag q msgs"

definition XMP_wait_node_1 ::
  "(nat \<Rightarrow> postreq_info) \<Rightarrow> nodes \<Rightarrow> int \<Rightarrow> postreq \<Rightarrow> inbox \<Rightarrow> (postreq \<times> inbox) res option" where
  "XMP_wait_node_1 junk desc num1 q msgs = xmp_mpi_wait_node junk (node_num_1 desc num1) q msgs"

definition XMP_wait_2 ::
  "(nat \<Rightarrow> postreq_info) \<Rightarrow> nodes \<Rightarrow> int \<Rightarrow> int \<Rightarrow> int \<Rightarrow> postreq \<Rightarrow> inbox \<Rightarrow> (postreq \<times> inbox) res option" where
  "XMP_wait_2 junk desc num1 num2 tag q msgs = xmp_mpi_wait junk (node_num_2 desc num1 num2) tag q msgs"

definition XMP_wait_node_2 ::
  "(nat \<Rightarrow> postreq_info) \<Rightarrow> nodes \<Rightarrow> int \<Rightarrow> int \<Rightarrow> postreq \<Rightarrow> inbox \<Rightarrow> (postreq \<times> inbox) res option" where
  "XMP_wait_node_2 junk desc num1 num2 q msgs = xmp_mpi_wait_node junk (node_num_2 desc num1 num2) q msgs"

definition XMP_wait_3 ::
  "(nat \<Rightarrow> postreq_info) \<Rightarrow> nodes \<Rightarrow> int \<Rightarrow> int \<Rightarrow> int \<Rightarrow> int \<Rightarrow> postreq \<Rightarrow> inbox \<Rightarrow> (postreq \<times> inbox) res option" where
  "XMP_wait_3 junk desc num1 num2 num3 tag q msgs = xmp_mpi_wait junk (node_num_3 desc num1 num2 num3) tag q msgs"

definition XMP_wait_node_3 ::
  "(nat \<Rightarrow> postreq_info) \<Rightarrow> nodes \<Rightarrow> int \<Rightarrow> int \<Rightarrow> int \<Rightarrow> postreq \<Rightarrow> inbox \<Rightarrow> (postreq \<times> inbox) res option" where
  "XMP_wait_node_3 junk desc num1 num2 num3 q msgs = xmp_mpi_wait_node junk (node_num_3 desc num1 num2 num3) q msgs"

definition XMP_wait_4 ::
  "(nat \<Rightarrow> postreq_info) \<Rightarrow> nodes \<Rightarrow> int \<Rightarrow> int \<Rightarrow> int \<Rightarrow> int \<Rightarrow> int \<Rightarrow> postreq \<Rightarrow> inbox \<Rightarrow> (postreq \<times> inbox) res option" where
  "XMP_wait_4 junk desc num1 num2 num3 num4 tag q msgs = xmp_mpi_wait junk (node_num_4 desc num1 num2 num3 num4) tag q msgs"

definition XMP_wait_node_4 ::
  "(nat \<Rightarrow> postreq_info) \<Rightarrow> nodes \<Rightarrow> int \<Rightarrow> int \<Rightarrow> int \<Rightarrow> int \<Rightarrow> postreq \<Rightarrow> inbox \<Rightarrow> (postreq \<times> inbox) res option" where
  "XMP_wait_node_4 junk desc num1 num2 num3 num4 q msgs = xmp_mpi_wait_node junk (node_num_4 desc num1 num2 num3 num4) q msgs"

definition XMP_wait_5 ::
  "(nat \<Rightarrow> postreq_info) \<Rightarrow> nodes \<Rightarrow> int \<Rightarrow> int \<Rightarrow> int \<Rightarrow> int \<Rightarrow> int \<Rightarrow> int \<Rightarrow> postreq \<Rightarrow> inbox \<Rightarrow> (postreq \<times> inbox) res option" where
  "XMP_wait_5 junk desc num1 num2 num3 num4 num5 tag q msgs = xmp_mpi_wait junk (node_num_5 desc num1 num2 num3 num4 num5) tag q msgs"

definition XMP_wait_node_5 ::
  "(nat \<Rightarrow> postreq_info) \<Rightarrow> nodes \<Rightarrow> int \<Rightarrow> int \<Rightarrow> int \<Rightarrow> int \<Rightarrow> int \<Rightarrow> postreq \<Rightarrow> inbox \<Rightarrow> (postreq \<times> inbox) res option" where
  "XMP_wait_node_5 junk desc num1 num2 num3 num4 num5 q msgs = xmp_mpi_wait_node junk (node_num_5 desc num1 num2 num3 num4 num5) q msgs"

definition XMP_wait_6 ::
  "(nat \<Rightarrow> postreq_info) \<Rightarrow> nodes \<Rightarrow> int \<Rightarrow> int \<Rightarrow> int \<Rightarrow> int \<Rightarrow> int \<Rightarrow> int \<Rightarrow> int \<Rightarrow> postreq \<Rightarrow> inbox \<Rightarrow> (postreq \<times> inbox) res option" where
  "XMP_wait_6 junk desc num1 num2 num3 num4 num5 num6 tag q msgs = xmp_mpi_wait junk (node_num_6 desc num1 num2 num3 num4 num5 num6) tag q msgs"

definition XMP_wait_node_6 ::
  "(nat \<Rightarrow> postreq_info) \<Rightarrow> nodes \<Rightarrow> int \<Rightarrow> int \<Rightarrow> int \<Rightarrow> int \<Rightarrow> int \<Rightarrow> int \<Rightarrow> postreq \<Rightarrow> inbox \<Rightarrow> (postreq \<times> inbox) res option" where
  "XMP_wait_node_6 junk desc num1 num2 num3 num4 num5 num6 q msgs = xmp_mpi_wait_node junk (node_num_6 desc num1 num2 num3 num4 num5 num6) q msgs"

definition XMP_wait_7 ::
  "(nat \<Rightarrow> postreq_info) \<Rightarrow> nodes \<Rightarrow> int \<Rightarrow> int \<Rightarrow> int \<Rightarrow> int \<Rightarrow> int \<Rightarrow> int \<Rightarrow> int \<Rightarrow> int \<Rightarrow> postreq \<Rightarrow> inbox \<Rightarrow> (postreq \<times> inbox) res option" where
  "XMP_wait_7 junk desc num1 num2 num3 num4 num5 num6 num7 tag q msgs = xmp_mpi_wait junk (node_num_7 desc num1 num2 num3 num4 num5 num6 num7) tag q msgs"

definition XMP_wait_node_7 ::
  "(nat \<Rightarrow> postreq_info) \<Rightarrow> nodes \<Rightarrow> int \<Rightarrow> int \<Rightarrow> int \<Rightarrow> int \<Rightarrow> int \<Rightarrow> int \<Rightarrow> int \<Rightarrow> postreq \<Rightarrow> inbox \<Rightarrow> (postreq \<times> inbox) res option" where
  "XMP_wait_node_7 junk desc num1 num2 num3 num4 num5 num6 num7 q msgs = xmp_mpi_wait_node junk (node_num_7 desc num1 num2 num3 num4 num5 num6 num7) q msgs"

end
