(* ===== verification/Xmp_Post_Laws.thy ===== *)
theory Xmp_Post_Laws
  imports Xmp_Post Xmp_Nodes_Laws
begin

text \<open>
  Laws of post and wait: the table is a bag of requests, a wait consumes exactly one matching request and keeps
  all others, every wait is matched by a post, and subscripts are turned into the rank of the node.
\<close>

subsection \<open>Bags of requests\<close>

text \<open>
  The contract of a place where requests are kept: putting one there always succeeds, and taking one that matches
  succeeds exactly when there is one. The lemmas are about a wait that first looks there and then at the messages.
\<close>

locale request_bag =
  fixes inv :: "'q \<Rightarrow> bool"
    and bag :: "'q \<Rightarrow> 'r multiset"
    and keep :: "'r \<Rightarrow> 'q \<Rightarrow> 'q res"
    and remove :: "('r \<Rightarrow> bool) \<Rightarrow> 'q \<Rightarrow> bool \<times> 'q"
  assumes keep_ok: "inv q \<Longrightarrow> \<exists>q'. keep r q = Inr q' \<and> inv q' \<and> bag q' = add_mset r (bag q)"
    and remove_some: "inv q \<Longrightarrow> x \<in># bag q \<Longrightarrow> P x \<Longrightarrow>
      \<exists>r q'. remove P q = (True, q') \<and> inv q' \<and> P r \<and> bag q = add_mset r (bag q')"
    and remove_none: "inv q \<Longrightarrow> (\<And>x. x \<in># bag q \<Longrightarrow> \<not> P x) \<Longrightarrow> remove P q = (False, q)"
begin

lemma recv_loop_blocks:
  "inv q \<Longrightarrow> \<forall>m \<in> set msgs. \<not> P m \<Longrightarrow> recv_loop keep P q msgs = None"
proof (induction msgs arbitrary: q)
  case (Cons m msgs)
  obtain q' where "keep m q = Inr q'" "inv q'" using keep_ok [OF Cons.prems(1)] by blast
  with Cons show ?case by simp
qed simp

lemma recv_loop_takes:
  "inv q \<Longrightarrow> \<exists>m \<in> set msgs. P m \<Longrightarrow>
   \<exists>r q' rest. recv_loop keep P q msgs = Some (Inr (q', rest)) \<and> inv q' \<and> P r
     \<and> bag q + mset msgs = add_mset r (bag q' + mset rest)"
proof (induction msgs arbitrary: q)
  case (Cons m msgs)
  show ?case
  proof (cases "P m")
    case True
    with Cons.prems show ?thesis by (intro exI [of _ m] exI [of _ q] exI [of _ msgs]) simp
  next
    case False
    obtain q1 where q1: "keep m q = Inr q1" "inv q1" "bag q1 = add_mset m (bag q)"
      using keep_ok [OF Cons.prems(1)] by blast
    with Cons.IH [of q1] Cons.prems False obtain r q' rest where
      "recv_loop keep P q1 msgs = Some (Inr (q', rest))" "inv q'" "P r"
      "bag q1 + mset msgs = add_mset r (bag q' + mset rest)" by auto
    with q1 False show ?thesis by (intro exI [of _ r] exI [of _ q'] exI [of _ rest]) simp
  qed
qed simp

lemma wait_spec:
  fixes q :: 'q and msgs :: "'r list"
  assumes "inv q"
    and W: "W = (case remove P q of (True, q) \<Rightarrow> Some (Inr (q, msgs)) | (False, q) \<Rightarrow> recv_loop keep P q msgs)"
  shows "(\<forall>x. x \<in># bag q + mset msgs \<longrightarrow> \<not> P x) \<and> W = None
    \<or> (\<exists>r q' rest. W = Some (Inr (q', rest)) \<and> inv q' \<and> P r \<and> bag q + mset msgs = add_mset r (bag q' + mset rest))"
proof (cases "\<exists>x. x \<in># bag q \<and> P x")
  case True
  then obtain r q' where "remove P q = (True, q')" "inv q'" "P r" "bag q = add_mset r (bag q')"
    using remove_some [OF assms(1)] by blast
  then show ?thesis by (auto simp: W)
next
  case False
  then have "W = recv_loop keep P q msgs" using remove_none [OF assms(1), of P] by (auto simp: W)
  with recv_loop_blocks [OF assms(1), of msgs P] recv_loop_takes [OF assms(1), of msgs P] False
  show ?thesis by (cases "\<exists>m \<in> set msgs. P m") auto
qed

end

subsection \<open>The table is a bag\<close>

definition pq_ok :: "postreq \<Rightarrow> bool" where
  "pq_ok q \<longleftrightarrow> length (pq_table q) = pq_max_size q \<and> pq_num q \<le> pq_max_size q \<and> 2 \<le> pq_max_size q"

definition pq_bag :: "postreq \<Rightarrow> postreq_info multiset" where
  "pq_bag q = mset (take (pq_num q) (pq_table q))"

lemma req_eta [simp]: "req (pi_node r) (pi_tag r) = r"
  by (simp add: req_def)

lemma pq_init: "pq_ok (xmp_mpi_post_wait_initialize junk)" "pq_bag (xmp_mpi_post_wait_initialize junk) = {#}"
  by (simp_all add: xmp_mpi_post_wait_initialize_def pq_ok_def pq_bag_def Let_def)

lemma pq_grow:
  assumes "pq_ok q" "pq_num q = pq_max_size q"
  shows "pq_ok (grow junk q)" "pq_num (grow junk q) < pq_max_size (grow junk q)" "pq_bag (grow junk q) = pq_bag q"
  using assms by (auto simp: grow_def pq_ok_def pq_bag_def Let_def min_def)

lemma do_post_ok:
  assumes "pq_ok q"
  shows "\<exists>q'. do_post junk node tag q = Inr q' \<and> pq_ok q' \<and> pq_bag q' = add_mset (req node tag) (pq_bag q)"
proof -
  define p where "p = (if pq_num q = pq_max_size q then grow junk q else q)"
  have p: "pq_ok p" "pq_num p < pq_max_size p" "pq_bag p = pq_bag q"
    using assms pq_grow [OF assms] by (auto simp: p_def pq_ok_def)
  then have "take (pq_num p + 1) ((pq_table p)[pq_num p := req node tag]) = take (pq_num p) (pq_table p) @ [req node tag]"
    by (simp add: pq_ok_def take_Suc_conv_app_nth)
  with p show ?thesis by (simp add: do_post_def p_def [symmetric] add_request_def pq_ok_def pq_bag_def)
qed

lemma shift_fold:
  "j \<le> length t \<Longrightarrow> i < j \<Longrightarrow>
   take (j - 1) (fold (\<lambda>k t. t[k - 1 := t ! k]) [i + 1..<j] t) = take i t @ take (j - i - 1) (drop (i + 1) t)
   \<and> length (fold (\<lambda>k t. t[k - 1 := t ! k]) [i + 1..<j] t) = length t
   \<and> drop (j - 1) (fold (\<lambda>k t. t[k - 1 := t ! k]) [i + 1..<j] t) = drop (j - 1) t"
proof (induction j)
  case (Suc j)
  show ?case
  proof (cases "i = j")
    case False
    let ?f = "fold (\<lambda>k t. t[k - 1 := t ! k]) [i + 1..<j] t"
    from Suc False have ih: "take (j - 1) ?f = take i t @ take (j - i - 1) (drop (i + 1) t)" "length ?f = length t"
      "drop (j - 1) ?f = drop (j - 1) t" by auto
    have "?f ! j = t ! j" using arg_cong [OF ih(3), of "\<lambda>l. l ! 1"] Suc.prems False ih(2) by (simp add: nth_drop)
    moreover have "take j (?f[j - 1 := x]) = take (j - 1) ?f @ [x]" for x
      using Suc.prems False ih(2) by (cases j) (simp_all add: take_Suc_conv_app_nth)
    moreover have "drop j (?f[j - 1 := x]) = drop j t" for x
      using arg_cong [OF ih(3), of "drop 1"] False Suc.prems by (cases j) simp_all
    moreover have "take (j - i) (drop (i + 1) t) = take (j - i - 1) (drop (i + 1) t) @ [t ! j]"
      using Suc.prems False take_Suc_conv_app_nth [of "j - i - 1" "drop (i + 1) t"] by (simp add: Suc_diff_Suc)
    ultimately show ?thesis using Suc.prems False ih by (simp add: fold_append)
  qed simp
qed simp

lemma shift_postreq_ok:
  assumes "pq_ok q" "i < pq_num q"
  shows "pq_ok (shift_postreq i q)" "pq_bag q = add_mset (pq_table q ! i) (pq_bag (shift_postreq i q))"
proof -
  define t where "t = (if i \<noteq> pq_num q - 1 then fold (\<lambda>i t. t[i - 1 := t ! i]) [i + 1..<pq_num q] (pq_table q) else pq_table q)"
  have n: "pq_num q \<le> length (pq_table q)" using assms by (simp add: pq_ok_def)
  have t: "take (pq_num q - 1) t = take i (pq_table q) @ take (pq_num q - i - 1) (drop (i + 1) (pq_table q))" "length t = length (pq_table q)"
    using shift_fold [OF n assms(2)] assms(2) by (auto simp: t_def)
  have "take (pq_num q) (pq_table q) = take i (pq_table q) @ pq_table q ! i # take (pq_num q - i - 1) (drop (i + 1) (pq_table q))"
    using assms(2) n id_take_nth_drop [of i "take (pq_num q) (pq_table q)"] by (simp add: take_drop min_def)
  moreover have "shift_postreq i q = q\<lparr>pq_table := t, pq_num := pq_num q - 1\<rparr>"
    unfolding shift_postreq_def t_def Let_def ..
  ultimately show "pq_ok (shift_postreq i q)" "pq_bag q = add_mset (pq_table q ! i) (pq_bag (shift_postreq i q))"
    using t assms by (auto simp: pq_ok_def pq_bag_def)
qed

lemma scan_down_spec:
  "case scan_down P n t of Some i \<Rightarrow> i < n \<and> P (t ! i) | None \<Rightarrow> \<forall>i < n. \<not> P (t ! i)"
  by (induction n) (auto split: option.splits simp: less_Suc_eq)

lemma pq_mem: "pq_ok q \<Longrightarrow> x \<in># pq_bag q \<longleftrightarrow> (\<exists>i < pq_num q. pq_table q ! i = x)"
  by (auto simp: pq_bag_def pq_ok_def in_set_conv_nth)

interpretation mpi_requests: request_bag pq_ok pq_bag "post_received junk" remove_match for junk
proof
  fix q r assume "pq_ok q"
  then show "\<exists>q'. post_received junk r q = Inr q' \<and> pq_ok q' \<and> pq_bag q' = add_mset r (pq_bag q)"
    using do_post_ok [of q junk "pi_node r" "pi_tag r"] by (simp add: post_received_def)
next
  fix q x P assume q: "pq_ok q" "x \<in># pq_bag q" "P x"
  then obtain j where "j < pq_num q" "P (pq_table q ! j)" by (auto simp: pq_mem)
  then obtain i where "scan_down P (pq_num q) (pq_table q) = Some i" "i < pq_num q" "P (pq_table q ! i)"
    using scan_down_spec [where P = P and n = "pq_num q" and t = "pq_table q"] by (auto split: option.splits)
  with shift_postreq_ok [OF q(1)]
  show "\<exists>r q'. remove_match P q = (True, q') \<and> pq_ok q' \<and> P r \<and> pq_bag q = add_mset r (pq_bag q')"
    by (auto simp: remove_match_def)
next
  fix q P assume q: "pq_ok q" "\<And>x. x \<in># pq_bag q \<Longrightarrow> \<not> P x"
  then have "\<forall>i < pq_num q. \<not> P (pq_table q ! i)" by (auto simp: pq_mem)
  then show "remove_match P q = (False, q)"
    using scan_down_spec [where P = P and n = "pq_num q" and t = "pq_table q"] by (auto simp: remove_match_def split: option.splits)
qed

subsection \<open>What a wait consumes\<close>

text \<open>
  C13. \<open>_xmp_mpi_wait\<close> returns exactly when a request of the node with the tag is in the table or among the messages to
  come, in whatever order they are delivered. It consumes one such request; all others, whether they were in the table
  or came while it waited, are still there for later waits, and the table stays well formed.
\<close>

theorem wait_consumes_one:
  assumes "pq_ok q"
  shows "if req node tag \<in># pq_bag q + mset msgs
    then \<exists>q' rest. xmp_mpi_wait junk node tag q msgs = Some (Inr (q', rest)) \<and> pq_ok q'
      \<and> pq_bag q' + mset rest = pq_bag q + mset msgs - {#req node tag#}
    else xmp_mpi_wait junk node tag q msgs = None"
proof -
  let ?P = "\<lambda>x. x = req node tag" and ?W = "xmp_mpi_wait junk node tag q msgs"
  have P: "(\<lambda>x. node = pi_node x \<and> tag = pi_tag x) = ?P" "(\<lambda>m. pi_node m = node \<and> pi_tag m = tag) = ?P"
    by (auto simp: fun_eq_iff req_def)
  have "?W = (case remove_match ?P q of (True, q) \<Rightarrow> Some (Inr (q, msgs)) | (False, q) \<Rightarrow> recv_loop (post_received junk) ?P q msgs)"
    unfolding xmp_mpi_wait_def remove_request_def P ..
  from mpi_requests.wait_spec [OF assms this] consider
      "req node tag \<notin># pq_bag q + mset msgs" "?W = None"
    | q' rest where "?W = Some (Inr (q', rest))" "pq_ok q'" "pq_bag q + mset msgs = add_mset (req node tag) (pq_bag q' + mset rest)"
    by metis
  then show ?thesis
  proof cases
    case 2
    then have "req node tag \<in># pq_bag q + mset msgs" by (metis union_single_eq_member)
    with 2 show ?thesis by auto
  qed simp
qed

theorem wait_consumes_one_witness:
  "\<exists>q' rest. xmp_mpi_wait (\<lambda>_. req 0 0) 3 7 (xmp_mpi_post_wait_initialize (\<lambda>_. req 0 0)) [req 3 5, req 2 7, req 3 7, req 1 1]
     = Some (Inr (q', rest)) \<and> pq_bag q' + mset rest = {#req 3 5, req 2 7, req 1 1#}"
proof -
  let ?q = "xmp_mpi_post_wait_initialize (\<lambda>_. req 0 0)" and ?ms = "[req 3 5, req 2 7, req 3 7, req 1 1]"
  have "req 3 7 \<in># pq_bag ?q + mset ?ms" by (simp add: req_def)
  moreover have "pq_bag ?q + mset ?ms - {#req 3 7#} = {#req 3 5, req 2 7, req 1 1#}"
    by (simp add: pq_init add_mset_commute)
  ultimately show ?thesis using wait_consumes_one [OF pq_init(1) [of "\<lambda>_. req 0 0"], of 3 7 ?ms "\<lambda>_. req 0 0"] by auto
qed

lemma wait_node_consumes_one:
  assumes "pq_ok q"
  shows "(\<forall>x. x \<in># pq_bag q + mset msgs \<longrightarrow> pi_node x \<noteq> node) \<and> xmp_mpi_wait_node junk node q msgs = None
    \<or> (\<exists>r q' rest. xmp_mpi_wait_node junk node q msgs = Some (Inr (q', rest)) \<and> pq_ok q' \<and> pi_node r = node
        \<and> pq_bag q + mset msgs = add_mset r (pq_bag q' + mset rest))"
proof -
  have P: "(\<lambda>m. pi_node m = node) = (\<lambda>x. node = pi_node x)" by auto
  show ?thesis
    using mpi_requests.wait_spec [OF assms refl, where P = "\<lambda>x. node = pi_node x" and msgs = msgs and junk = junk]
    unfolding xmp_mpi_wait_node_def remove_request_node_def P by (auto 0 4)
qed

lemma remove_noargs_match: "pq_ok q \<Longrightarrow> remove_request_noargs q = remove_match (\<lambda>_. True) q"
  by (cases "pq_num q") (simp_all add: remove_request_noargs_def remove_match_def)

lemma wait_noargs_consumes_one:
  assumes "pq_ok q"
  shows "if pq_bag q + mset msgs = {#} then xmp_mpi_wait_noargs q msgs = None
    else \<exists>r q' rest. xmp_mpi_wait_noargs q msgs = Some (Inr (q', rest)) \<and> pq_ok q'
        \<and> pq_bag q + mset msgs = add_mset r (pq_bag q' + mset rest)"
proof -
  let ?W = "xmp_mpi_wait_noargs q msgs"
  have "recv_loop (post_received junk) (\<lambda>_. True) q msgs = (case msgs of [] \<Rightarrow> None | m # msgs \<Rightarrow> Some (Inr (q, msgs)))" for junk q
    by (cases msgs) simp_all
  then have "?W = (case remove_match (\<lambda>_. True) q of (True, q) \<Rightarrow> Some (Inr (q, msgs))
      | (False, q) \<Rightarrow> recv_loop (post_received (\<lambda>_. req 0 0)) (\<lambda>_. True) q msgs)"
    unfolding xmp_mpi_wait_noargs_def remove_noargs_match [OF assms] by presburger
  from mpi_requests.wait_spec [OF assms this] consider
      "pq_bag q + mset msgs = {#}" "?W = None"
    | r q' rest where "?W = Some (Inr (q', rest))" "pq_ok q'" "pq_bag q + mset msgs = add_mset r (pq_bag q' + mset rest)"
    by (metis multiset_nonemptyE)
  then show ?thesis by cases (auto simp del: union_eq_empty)
qed

subsection \<open>Several processes\<close>

text \<open>
  The processes of a program that post to each other and wait. Messages on the way to a process are a bag: MPI
  may deliver messages of different senders in any order. A process that waits takes one message per step.
  \<open>pw_posted\<close> and \<open>pw_done\<close> are the requests posted to a process and those its waits consumed; the code does not
  store them.
\<close>

datatype wait_for = WaitAny | WaitNode int | WaitReq int int

fun wants :: "wait_for \<Rightarrow> postreq_info \<Rightarrow> bool" where
  "wants WaitAny m = True"
| "wants (WaitNode node) m = (pi_node m = node)"
| "wants (WaitReq node tag) m = (pi_node m = node \<and> pi_tag m = tag)"

fun look_up :: "wait_for \<Rightarrow> postreq \<Rightarrow> bool \<times> postreq" where
  "look_up WaitAny q = remove_request_noargs q"
| "look_up (WaitNode node) q = remove_request_node node q"
| "look_up (WaitReq node tag) q = remove_request node tag q"

record pw_state =
  pw_table :: "int \<Rightarrow> postreq"
  pw_inbox :: "int \<Rightarrow> postreq_info multiset"
  pw_wait :: "int \<Rightarrow> wait_for option"
  pw_posted :: "int \<Rightarrow> postreq_info multiset"
  pw_done :: "int \<Rightarrow> postreq_info multiset"

definition pw_init :: "(nat \<Rightarrow> postreq_info) \<Rightarrow> pw_state" where
  "pw_init junk = \<lparr>pw_table = (\<lambda>_. xmp_mpi_post_wait_initialize junk), pw_inbox = (\<lambda>_. {#}), pw_wait = (\<lambda>_. None),
     pw_posted = (\<lambda>_. {#}), pw_done = (\<lambda>_. {#})\<rparr>"

definition pw_post :: "(nat \<Rightarrow> postreq_info) \<Rightarrow> int \<Rightarrow> int \<Rightarrow> int \<Rightarrow> pw_state \<Rightarrow> pw_state res" where
  "pw_post junk p node tag st =
     bind_res (xmp_mpi_post junk p node tag (pw_table st p)) (\<lambda>(sent, q).
       let st = st\<lparr>pw_table := (pw_table st)(p := q),
                   pw_posted := (pw_posted st)(node := add_mset (req p tag) (pw_posted st node))\<rparr>
       in Inr (case sent of
                 None \<Rightarrow> st
               | Some (d, t) \<Rightarrow> st\<lparr>pw_inbox := (pw_inbox st)(d := add_mset (req p t) (pw_inbox st d))\<rparr>))"

definition pw_wait_begin :: "int \<Rightarrow> wait_for \<Rightarrow> pw_state \<Rightarrow> pw_state" where
  "pw_wait_begin p w st =
     (case look_up w (pw_table st p) of
        (True, q) \<Rightarrow> st\<lparr>pw_table := (pw_table st)(p := q),
                      pw_done := (pw_done st)(p := pw_done st p + (pq_bag (pw_table st p) - pq_bag q))\<rparr>
      | (False, q) \<Rightarrow> st\<lparr>pw_table := (pw_table st)(p := q), pw_wait := (pw_wait st)(p := Some w)\<rparr>)"

definition pw_receive :: "(nat \<Rightarrow> postreq_info) \<Rightarrow> int \<Rightarrow> wait_for \<Rightarrow> postreq_info \<Rightarrow> pw_state \<Rightarrow> pw_state res" where
  "pw_receive junk p w m st =
     (let st = st\<lparr>pw_inbox := (pw_inbox st)(p := pw_inbox st p - {#m#})\<rparr>
      in if wants w m
         then Inr (st\<lparr>pw_wait := (pw_wait st)(p := None), pw_done := (pw_done st)(p := add_mset m (pw_done st p))\<rparr>)
         else bind_res (post_received junk m (pw_table st p)) (\<lambda>q. Inr (st\<lparr>pw_table := (pw_table st)(p := q)\<rparr>)))"

inductive pw_reach :: "(nat \<Rightarrow> postreq_info) \<Rightarrow> pw_state \<Rightarrow> bool" for junk where
  pw_start: "pw_reach junk (pw_init junk)"
| pw_posts: "pw_reach junk st \<Longrightarrow> pw_wait st p = None \<Longrightarrow> pw_post junk p node tag st = Inr st' \<Longrightarrow> pw_reach junk st'"
| pw_waits: "pw_reach junk st \<Longrightarrow> pw_wait st p = None \<Longrightarrow> pw_reach junk (pw_wait_begin p w st)"
| pw_receives: "pw_reach junk st \<Longrightarrow> pw_wait st p = Some w \<Longrightarrow> m \<in># pw_inbox st p \<Longrightarrow>
    pw_receive junk p w m st = Inr st' \<Longrightarrow> pw_reach junk st'"

definition pw_ok :: "pw_state \<Rightarrow> int \<Rightarrow> bool" where
  "pw_ok st p \<longleftrightarrow> pq_ok (pw_table st p) \<and> pw_posted st p = pq_bag (pw_table st p) + pw_inbox st p + pw_done st p
     \<and> (\<forall>w x. pw_wait st p = Some w \<longrightarrow> x \<in># pq_bag (pw_table st p) \<longrightarrow> \<not> wants w x)"

lemma look_up_match: "pq_ok q \<Longrightarrow> look_up w q = remove_match (wants w) q"
proof (cases w)
  case (WaitNode n)
  then have "wants w = (\<lambda>x. n = pi_node x)" by auto
  with WaitNode show ?thesis by (simp add: remove_request_node_def)
next
  case (WaitReq n t)
  then have "wants w = (\<lambda>x. n = pi_node x \<and> t = pi_tag x)" by auto
  with WaitReq show ?thesis by (simp add: remove_request_def)
next
  assume "pq_ok q"
  case WaitAny
  then have "wants w = (\<lambda>_. True)" by auto
  with WaitAny \<open>pq_ok q\<close> show ?thesis by (simp add: remove_noargs_match)
qed

lemma look_up_spec:
  assumes "pq_ok q"
  shows "(\<exists>r q'. look_up w q = (True, q') \<and> pq_ok q' \<and> pq_bag q = add_mset r (pq_bag q'))
    \<or> look_up w q = (False, q) \<and> (\<forall>x. x \<in># pq_bag q \<longrightarrow> \<not> wants w x)"
  unfolding look_up_match [OF assms]
  using mpi_requests.remove_some [OF assms] mpi_requests.remove_none [OF assms] by metis

lemma pw_post_ok:
  assumes "\<forall>x. pw_ok st x" "pw_wait st p = None" "pw_post junk p node tag st = Inr st'"
  shows "pw_ok st' x"
proof (cases "node = p")
  case True
  have "pq_ok (pw_table st p)" using assms(1) by (simp add: pw_ok_def)
  from do_post_ok [OF this] obtain q where q: "do_post junk p tag (pw_table st p) = Inr q" "pq_ok q"
    "pq_bag q = add_mset (req p tag) (pq_bag (pw_table st p))" by blast
  with assms True have "st' = st\<lparr>pw_table := (pw_table st)(p := q), pw_posted := (pw_posted st)(p := add_mset (req p tag) (pw_posted st p))\<rparr>"
    by (simp add: pw_post_def xmp_mpi_post_def)
  with q assms(1,2) show ?thesis by (cases "x = p") (simp_all add: pw_ok_def)
next
  case False
  with assms have "st' = st\<lparr>pw_posted := (pw_posted st)(node := add_mset (req p tag) (pw_posted st node)),
      pw_inbox := (pw_inbox st)(node := add_mset (req p tag) (pw_inbox st node))\<rparr>"
    by (simp add: pw_post_def xmp_mpi_post_def)
  with assms(1) show ?thesis by (simp add: pw_ok_def)
qed

lemma pw_wait_ok:
  assumes "\<forall>x. pw_ok st x" "pw_wait st p = None"
  shows "pw_ok (pw_wait_begin p w st) x"
proof -
  have "pq_ok (pw_table st p)" using assms(1) by (simp add: pw_ok_def)
  from look_up_spec [OF this, of w] assms show ?thesis
    by (cases "x = p") (auto simp: pw_wait_begin_def pw_ok_def)
qed

lemma pw_receive_ok:
  assumes "\<forall>x. pw_ok st x" "pw_wait st p = Some w" "m \<in># pw_inbox st p" "pw_receive junk p w m st = Inr st'"
  shows "pw_ok st' x"
proof -
  have ok: "pq_ok (pw_table st p)" using assms(1) by (simp add: pw_ok_def)
  obtain I where I: "pw_inbox st p = add_mset m I" using assms(3) by (metis insert_DiffM)
  from mpi_requests.keep_ok [OF ok, of junk m] obtain q where "post_received junk m (pw_table st p) = Inr q" "pq_ok q"
    "pq_bag q = add_mset m (pq_bag (pw_table st p))" by blast
  with assms I show ?thesis
    by (cases "wants w m"; cases "x = p") (auto simp: pw_receive_def pw_ok_def)
qed

lemma pw_reach_ok: "pw_reach junk st \<Longrightarrow> pw_ok st p"
proof (induction arbitrary: p rule: pw_reach.induct)
  case pw_start
  show ?case by (simp add: pw_init_def pw_ok_def pq_init)
qed (blast intro: pw_post_ok pw_wait_ok pw_receive_ok)+

text \<open>
  C12. In every state that processes reach by posting, waiting and receiving, in whatever order messages arrive: the
  requests a process has consumed were all posted to it, each at most once; and while a process waits and a request
  that it waits for has been posted and not consumed, that request is on its way and not hidden in the table, so that
  receiving it ends the wait. No step of a process ends in an error.
\<close>

theorem post_wait_matched:
  assumes "pw_reach junk st"
  shows "pw_done st p \<subseteq># pw_posted st p
    \<and> (pw_wait st p = Some w \<and> m \<in># pw_posted st p - pw_done st p \<and> wants w m \<longrightarrow>
        m \<in># pw_inbox st p \<and> (\<exists>st'. pw_receive junk p w m st = Inr st' \<and> pw_wait st' p = None))
    \<and> is_ok (pw_post junk p node tag st) \<and> is_ok (pw_receive junk p w m st)"
proof -
  have ok: "pw_ok st p" using pw_reach_ok [OF assms] .
  then have pq: "pq_ok (pw_table st p)" by (simp add: pw_ok_def)
  obtain q1 q2 where "do_post junk p tag (pw_table st p) = Inr q1" "post_received junk m (pw_table st p) = Inr q2"
    using do_post_ok [OF pq] mpi_requests.keep_ok [OF pq] by blast
  then have "is_ok (pw_post junk p node tag st)" "is_ok (pw_receive junk p w m st)"
    by (auto simp: pw_post_def pw_receive_def xmp_mpi_post_def is_ok_def Let_def)
  moreover have "pw_done st p \<subseteq># pw_posted st p" using ok by (simp add: pw_ok_def)
  moreover have "m \<in># pw_inbox st p" if "pw_wait st p = Some w" "m \<in># pw_posted st p - pw_done st p" "wants w m"
    using that ok by (auto simp: pw_ok_def)
  moreover have "\<exists>st'. pw_receive junk p w m st = Inr st' \<and> pw_wait st' p = None" if "wants w m"
    using that by (simp add: pw_receive_def Let_def)
  ultimately show ?thesis by blast
qed

theorem post_wait_matched_witness:
  "\<exists>st. pw_reach (\<lambda>_. req 0 0) st \<and> pw_wait st 1 = Some (WaitReq 0 5)
     \<and> req 0 5 \<in># pw_posted st 1 - pw_done st 1 \<and> req 0 5 \<in># pw_inbox st 1"
proof -
  let ?j = "\<lambda>_ :: nat. req 0 0"
  let ?a = "pw_wait_begin 1 (WaitReq 0 5) (pw_init ?j)"
  let ?b = "?a\<lparr>pw_posted := (pw_posted ?a)(1 := {#req 0 5#}), pw_inbox := (pw_inbox ?a)(1 := {#req 0 5#})\<rparr>"
  have a: "pw_reach ?j ?a" by (rule pw_waits [OF pw_start]) (simp add: pw_init_def)
  have w: "pw_wait ?a = (\<lambda>_. None)(1 := Some (WaitReq 0 5))" "pw_posted ?a = (\<lambda>_. {#})" "pw_inbox ?a = (\<lambda>_. {#})" "pw_done ?a = (\<lambda>_. {#})"
    by (simp_all add: pw_wait_begin_def pw_init_def remove_request_def remove_match_def xmp_mpi_post_wait_initialize_def Let_def)
  have "pw_post ?j 0 1 5 ?a = Inr ?b" using w by (simp add: pw_post_def xmp_mpi_post_def)
  with a w have b: "pw_reach ?j ?b" by (intro pw_posts [OF a, of 0 1 5]) simp_all
  have m: "pw_wait ?b 1 = Some (WaitReq 0 5)" "req 0 5 \<in># pw_posted ?b 1 - pw_done ?b 1" using w by simp_all
  from post_wait_matched [OF b, of 1 "WaitReq 0 5" "req 0 5"] m b show ?thesis
    by (intro exI [of _ ?b]) (simp add: req_def)
qed

subsection \<open>Subscripts of nodes\<close>

text \<open>The number that the entry point for the given number of subscripts computes.\<close>

fun node_num :: "nodes \<Rightarrow> int list \<Rightarrow> int" where
  "node_num desc [a] = node_num_1 desc a"
| "node_num desc [a, b] = node_num_2 desc a b"
| "node_num desc [a, b, c] = node_num_3 desc a b c"
| "node_num desc [a, b, c, d] = node_num_4 desc a b c d"
| "node_num desc [a, b, c, d, e] = node_num_5 desc a b c d e"
| "node_num desc [a, b, c, d, e, f] = node_num_6 desc a b c d e f"
| "node_num desc [a, b, c, d, e, f, g] = node_num_7 desc a b c d e f g"
| "node_num desc _ = 0"

lemmas node_num_defs = node_num_1_def node_num_2_def node_num_3_def node_num_4_def node_num_5_def node_num_6_def node_num_7_def

lemma digits_node_num:
  assumes "length nums = length (n_info desc)" and "nums \<noteq> []" and "length nums \<le> 7"
  shows "node_num desc nums = digits (n_info desc) (map (\<lambda>x. x - 1) nums)"
proof -
  have len: "length (n_info desc) = length nums" using assms(1) by simp
  show ?thesis
    by (cases "(desc, nums)" rule: node_num.cases)
      (use len assms(2,3) in \<open>auto simp: length_Suc_conv node_num_defs info_size_def algebra_simps\<close>)
qed

text \<open>
  The entry points of post and wait number the nodes of a node set as the runtime does elsewhere: for up to seven
  subscripts that are inside the node set, counted from 1, the number is the linear rank of the node, between 0 and the
  size of the set, and different subscripts give different numbers.
\<close>

theorem node_num_rank:
  assumes "nodes_wf desc" and "n_dim desc \<in> {1..7}"
    and "map (\<lambda>x. x - 1) nums \<in> coords desc" and "map (\<lambda>x. x - 1) nums' \<in> coords desc"
  shows "node_num desc nums = XMP_calc_linear_rank desc (map (\<lambda>x. x - 1) nums)
    \<and> 0 \<le> node_num desc nums \<and> node_num desc nums < nsize (n_info desc)
    \<and> (node_num desc nums = node_num desc nums' \<longrightarrow> nums = nums')"
proof -
  have num: "node_num desc xs = XMP_calc_linear_rank desc (map (\<lambda>x. x - 1) xs)" if "map (\<lambda>x. x - 1) xs \<in> coords desc" for xs
  proof -
    have "length xs = length (n_info desc)"
      using that by (auto simp: coords_def in_dims_def dest: list_all2_lengthD)
    with assms(1,2) digits_node_num [of xs desc] show ?thesis
      by (cases xs) (auto simp: linear_rank_digits nodes_wf_def)
  qed
  have "nums = nums'" if "node_num desc nums = node_num desc nums'"
  proof -
    have "map (\<lambda>x. x - 1) nums = map (\<lambda>x. x - 1) nums'"
      using that num assms nodes_code.dec_enc [OF assms(1)] by metis
    then show ?thesis by (rule map_injective) (simp add: inj_def)
  qed
  with num assms linear_rank_range [OF assms(1)] show ?thesis by simp
qed

theorem node_num_rank_witness:
  "node_num p23 [2, 3] = XMP_calc_linear_rank p23 [1, 2] \<and> node_num p23 [2, 3] < 6"
proof -
  have "map (\<lambda>x. x - 1) [2, 3] \<in> coords p23" by (simp add: coords_def p23_def)
  moreover have "n_dim p23 \<in> {1..7}" "nsize (n_info p23) = 6" by (simp_all add: p23_def nsize_def)
  ultimately show ?thesis using node_num_rank [OF p23_wf, of "[2, 3]" "[2, 3]"] by simp
qed

end
