(* ===== verification/Xmp_Coarray.thy ===== *)
theory Xmp_Coarray
  imports Omni_Prelude
begin

text \<open>
  Copies between array sections on one node: \<open>src/libxmp/src/xmp_coarray_utils.c\<close> and
  \<open>src/libxmp/src/xmp_coarray_local.c\<close>. Memory is a function from addresses to bytes. The loop nests, which the code
  writes out for every number of dimensions up to 7, are the list of the offsets that they visit, in order. Offsets and sizes do not
  wrap around here. A temporary block from \<open>malloc\<close> is apart from all other memory and is a list of chunks.
\<close>

subsection \<open>Memory\<close>

type_synonym 'b mem = "int \<Rightarrow> 'b"

definition memmove :: "int \<Rightarrow> int \<Rightarrow> int \<Rightarrow> 'b mem \<Rightarrow> 'b mem" where
  "memmove dst src n m = (\<lambda>a. if dst \<le> a \<and> a < dst + n then m (src + (a - dst)) else m a)"

text \<open>C leaves \<open>memcpy\<close> on blocks that overlap undefined.\<close>

definition memcpy :: "int \<Rightarrow> int \<Rightarrow> int \<Rightarrow> 'b mem \<Rightarrow> 'b mem res" where
  "memcpy dst src n m = guard_res (n \<le> 0 \<or> dst + n \<le> src \<or> src + n \<le> dst) Overlap (Inr (memmove dst src n m))"

subsection \<open>Sections\<close>

record array_section =
  as_start :: int
  as_length :: int
  as_stride :: int
  as_elmts :: int
  as_distance :: int

definition XMP_get_offset :: "array_section list \<Rightarrow> nat \<Rightarrow> int" where
  "XMP_get_offset info dims = (\<Sum>x\<leftarrow>take dims info. as_start x * as_distance x)"

definition XMP_check_overlapping :: "int \<Rightarrow> int \<Rightarrow> int \<Rightarrow> int \<Rightarrow> bool" where
  "XMP_check_overlapping dst_start dst_end src_start src_end \<longleftrightarrow>
     dst_start \<le> src_start \<and> src_start < dst_end \<or> src_start \<le> dst_start \<and> dst_start < src_end"

fun XMP_get_dim_of_allelmts :: "nat \<Rightarrow> array_section list \<Rightarrow> nat" where
  "XMP_get_dim_of_allelmts 0 info = 0"
| "XMP_get_dim_of_allelmts (Suc i) info =
     (if as_start (info ! i) = 0 \<and> as_length (info ! i) = as_elmts (info ! i)
      then XMP_get_dim_of_allelmts i info else Suc i)"

definition XMP_calc_copy_chunk :: "nat \<Rightarrow> array_section list \<Rightarrow> int" where
  "XMP_calc_copy_chunk copy_chunk_dim info =
     (if copy_chunk_dim = 0 then as_length (info ! 0) * as_distance (info ! 0)
      else let x = info ! (copy_chunk_dim - 1)
           in if as_stride x = 1 then as_length x * as_distance x else as_distance x)"

definition XMP_calc_max_copy_chunk :: "nat \<Rightarrow> nat \<Rightarrow> array_section list \<Rightarrow> array_section list \<Rightarrow> int" where
  "XMP_calc_max_copy_chunk dst_dims src_dims dst_info src_info =
     (let dst_copy_chunk_dim = XMP_get_dim_of_allelmts dst_dims dst_info;
          src_copy_chunk_dim = XMP_get_dim_of_allelmts src_dims src_info;
          dst_copy_chunk = XMP_calc_copy_chunk dst_copy_chunk_dim dst_info;
          src_copy_chunk = XMP_calc_copy_chunk src_copy_chunk_dim src_info
      in min dst_copy_chunk src_copy_chunk)"

subsection \<open>Loop nests\<close>

text \<open>The values of \<open>for(i=0; i<n; i+=step)\<close> for a step of at least 1.\<close>

definition upto_by :: "nat \<Rightarrow> nat \<Rightarrow> nat list" where
  "upto_by n step = filter (\<lambda>i. i mod step = 0) [0..<n]"

text \<open>The sums \<open>tmp[0] + tmp[1] + ...\<close> in the innermost loop, for loops given by bound, step and \<open>stride_offset\<close>.\<close>

fun nest :: "(nat \<times> nat \<times> int) list \<Rightarrow> int list" where
  "nest [] = [0]"
| "nest ((n, step, stride_offset) # loops) =
     concat (map (\<lambda>i. map ((+) (stride_offset * int i)) (nest loops)) (upto_by n step))"

definition dim_loop :: "nat \<Rightarrow> array_section \<Rightarrow> nat \<times> nat \<times> int" where
  "dim_loop step x = (nat (as_length x), step, as_stride x * as_distance x)"

subsection \<open>Packing\<close>

datatype copy_kind = XMP_PACK | XMP_UNPACK | XMP_SCALAR_MCOPY

definition pack_loop :: "int \<Rightarrow> int \<Rightarrow> int \<Rightarrow> int list \<Rightarrow> 'b mem \<Rightarrow> 'b mem res" where
  "pack_loop buf1 buf2 element_size offs m =
     bind_res (fold_res (\<lambda>(m, buf1_offset) tmp.
         bind_res (memcpy (buf1 + buf1_offset) (buf2 + tmp) element_size m) (\<lambda>m. Inr (m, buf1_offset + element_size))) (m, 0) offs)
       (\<lambda>(m, _). Inr m)"

definition unpack_loop :: "int \<Rightarrow> int \<Rightarrow> int \<Rightarrow> int list \<Rightarrow> 'b mem \<Rightarrow> 'b mem res" where
  "unpack_loop buf1 buf2 element_size offs m =
     bind_res (fold_res (\<lambda>(m, buf1_offset) tmp.
         bind_res (memcpy (buf1 + tmp) (buf2 + buf1_offset) element_size m) (\<lambda>m. Inr (m, buf1_offset + element_size))) (m, 0) offs)
       (\<lambda>(m, _). Inr m)"

definition scalar_loop :: "int \<Rightarrow> int \<Rightarrow> int \<Rightarrow> int list \<Rightarrow> 'b mem \<Rightarrow> 'b mem res" where
  "scalar_loop buf1 buf2 element_size offs m =
     fold_res (\<lambda>m tmp. if buf1 + tmp \<noteq> buf2 then memcpy (buf1 + tmp) buf2 element_size m else Inr m) m offs"

text \<open>
  The copies for \<open>n\<close> dimensions: when the last dimension has stride 1 its elements are copied together.
\<close>

definition stride_memcpy :: "nat \<Rightarrow> int \<Rightarrow> int \<Rightarrow> array_section list \<Rightarrow> int \<Rightarrow> copy_kind \<Rightarrow> 'b mem \<Rightarrow> 'b mem res" where
  "stride_memcpy n buf1 buf2 info element_size flag m =
     (let inner = info ! (n - 1);
          outer = nest (map (dim_loop 1) (take (n - 1) info));
          offs = nest (map (dim_loop 1) (take n info))
      in case flag of
           XMP_PACK \<Rightarrow> if as_stride inner = 1 then pack_loop buf1 buf2 (element_size * as_length inner) outer m
                        else pack_loop buf1 buf2 element_size offs m
         | XMP_UNPACK \<Rightarrow> if as_stride inner = 1 then unpack_loop buf1 buf2 (element_size * as_length inner) outer m
                          else unpack_loop buf1 buf2 element_size offs m
         | XMP_SCALAR_MCOPY \<Rightarrow> scalar_loop buf1 buf2 element_size offs m)"

definition XMP_stride_memcpy_1dim :: "int \<Rightarrow> int \<Rightarrow> array_section list \<Rightarrow> int \<Rightarrow> copy_kind \<Rightarrow> 'b mem \<Rightarrow> 'b mem res" where
  "XMP_stride_memcpy_1dim = stride_memcpy 1"

definition XMP_stride_memcpy_2dim :: "int \<Rightarrow> int \<Rightarrow> array_section list \<Rightarrow> int \<Rightarrow> copy_kind \<Rightarrow> 'b mem \<Rightarrow> 'b mem res" where
  "XMP_stride_memcpy_2dim = stride_memcpy 2"

definition XMP_stride_memcpy_3dim :: "int \<Rightarrow> int \<Rightarrow> array_section list \<Rightarrow> int \<Rightarrow> copy_kind \<Rightarrow> 'b mem \<Rightarrow> 'b mem res" where
  "XMP_stride_memcpy_3dim = stride_memcpy 3"

definition XMP_stride_memcpy_4dim :: "int \<Rightarrow> int \<Rightarrow> array_section list \<Rightarrow> int \<Rightarrow> copy_kind \<Rightarrow> 'b mem \<Rightarrow> 'b mem res" where
  "XMP_stride_memcpy_4dim = stride_memcpy 4"

definition XMP_stride_memcpy_5dim :: "int \<Rightarrow> int \<Rightarrow> array_section list \<Rightarrow> int \<Rightarrow> copy_kind \<Rightarrow> 'b mem \<Rightarrow> 'b mem res" where
  "XMP_stride_memcpy_5dim = stride_memcpy 5"

definition XMP_stride_memcpy_6dim :: "int \<Rightarrow> int \<Rightarrow> array_section list \<Rightarrow> int \<Rightarrow> copy_kind \<Rightarrow> 'b mem \<Rightarrow> 'b mem res" where
  "XMP_stride_memcpy_6dim = stride_memcpy 6"

definition XMP_stride_memcpy_7dim :: "int \<Rightarrow> int \<Rightarrow> array_section list \<Rightarrow> int \<Rightarrow> copy_kind \<Rightarrow> 'b mem \<Rightarrow> 'b mem res" where
  "XMP_stride_memcpy_7dim = stride_memcpy 7"

subsection \<open>Contiguous sections on one node\<close>

definition XMP_local_contiguous_copy :: "int \<Rightarrow> int \<Rightarrow> int \<Rightarrow> int \<Rightarrow> int \<Rightarrow> 'b mem \<Rightarrow> 'b mem res" where
  "XMP_local_contiguous_copy dst src dst_elmts src_elmts elmt_size m =
     (if dst_elmts = src_elmts then
        let offset = dst_elmts * elmt_size
        in if XMP_check_overlapping dst (dst + offset) src (src + offset)
           then Inr (memmove dst src offset m)
           else memcpy dst src offset m
      else if src_elmts = 1 then
        scalar_loop dst src elmt_size (map (\<lambda>i. int i * elmt_size) [0..<nat dst_elmts]) m
      else Inl (Fatal ''Coarray Error ! transfer size is wrong.''))"

subsection \<open>Other sections on one node\<close>

text \<open>
  The loops that \<open>_XMP_set_stride\<close> runs when a chunk is part of one step of dimension \<open>t - 1\<close> and at least one of
  dimension \<open>t\<close>, and the chain of tests from the inner dimensions outwards that ends with dimension 0.
\<close>

definition level_loops :: "array_section list \<Rightarrow> int \<Rightarrow> nat \<Rightarrow> int list" where
  "level_loops info chunk_size t =
     (let chunk_len = chunk_size div as_distance (info ! t)
      in nest (map (dim_loop 1) (take t info) @ [dim_loop (nat chunk_len) (info ! t)]))"

text \<open>A chunk smaller than one step makes the step of the loop 0: it never ends and runs past the array of results.\<close>

definition level_store :: "array_section list \<Rightarrow> int \<Rightarrow> nat \<Rightarrow> int list res" where
  "level_store info chunk_size t =
     guard_res (0 < chunk_size div as_distance (info ! t) \<or> (\<exists>x \<in> set (take (Suc t) info). as_length x \<le> 0)) OutOfBounds
       (Inr (level_loops info chunk_size t))"

fun level_chain :: "array_section list \<Rightarrow> int \<Rightarrow> nat \<Rightarrow> int list res" where
  "level_chain info chunk_size 0 = level_store info chunk_size 0"
| "level_chain info chunk_size (Suc t) =
     (if as_distance (info ! t) > chunk_size then level_store info chunk_size (Suc t)
      else level_chain info chunk_size t)"

definition set_stride_1 :: "array_section list \<Rightarrow> int \<Rightarrow> int list res" where
  "set_stride_1 info chunk_size = level_chain info chunk_size 0"

definition set_stride_2 :: "array_section list \<Rightarrow> int \<Rightarrow> int list res" where
  "set_stride_2 info chunk_size = level_chain info chunk_size 1"

definition set_stride_3 :: "array_section list \<Rightarrow> int \<Rightarrow> int list res" where
  "set_stride_3 info chunk_size = level_chain info chunk_size 2"

definition set_stride_4 :: "array_section list \<Rightarrow> int \<Rightarrow> int list res" where
  "set_stride_4 info chunk_size = level_chain info chunk_size 3"

definition set_stride_5 :: "array_section list \<Rightarrow> int \<Rightarrow> int list res" where
  "set_stride_5 info chunk_size = level_chain info chunk_size 4"

text \<open>For 6 and 7 dimensions the chain is cut: the test of dimension 2 is an \<open>if\<close> and not an \<open>else if\<close>.\<close>

definition set_stride_6 :: "array_section list \<Rightarrow> int \<Rightarrow> int list res" where
  "set_stride_6 info chunk_size =
     bind_res (if as_distance (info ! 4) > chunk_size then level_store info chunk_size 5
               else if as_distance (info ! 3) > chunk_size then level_store info chunk_size 4
               else Inr []) (\<lambda>a.
     bind_res (level_chain info chunk_size 3) (\<lambda>b. Inr (a @ b)))"

definition set_stride_7 :: "array_section list \<Rightarrow> int \<Rightarrow> int list res" where
  "set_stride_7 info chunk_size =
     bind_res (if as_distance (info ! 5) > chunk_size then level_store info chunk_size 6
               else if as_distance (info ! 4) > chunk_size then level_store info chunk_size 5
               else if as_distance (info ! 3) > chunk_size then level_store info chunk_size 4
               else Inr []) (\<lambda>a.
     bind_res (level_chain info chunk_size 3) (\<lambda>b. Inr (a @ b)))"

text \<open>
  The stores go to an array of \<open>copy_elmts\<close> entries, whose contents are \<open>junk\<close> before.
\<close>

definition XMP_set_stride :: "(nat \<Rightarrow> int) \<Rightarrow> array_section list \<Rightarrow> nat \<Rightarrow> int \<Rightarrow> nat \<Rightarrow> int list res" where
  "XMP_set_stride junk info dims chunk_size copy_elmts =
     bind_res (if dims = 1 then set_stride_1 info chunk_size
               else if dims = 2 then set_stride_2 info chunk_size
               else if dims = 3 then set_stride_3 info chunk_size
               else if dims = 4 then set_stride_4 info chunk_size
               else if dims = 5 then set_stride_5 info chunk_size
               else if dims = 6 then set_stride_6 info chunk_size
               else if dims = 7 then set_stride_7 info chunk_size
               else Inr []) (\<lambda>strides.
       guard_res (length strides \<le> copy_elmts) OutOfBounds
         (Inr (strides @ map junk [length strides..<copy_elmts])))"

definition is_the_same_shape :: "nat \<Rightarrow> nat \<Rightarrow> array_section list \<Rightarrow> array_section list \<Rightarrow> bool" where
  "is_the_same_shape array1_dims array2_dims array1 array2 \<longleftrightarrow>
     array1_dims = array2_dims \<and>
     (\<forall>i \<in> set [0..<array1_dims].
        as_start (array1 ! i) = as_start (array2 ! i) \<and> as_length (array1 ! i) = as_length (array2 ! i) \<and>
        as_elmts (array1 ! i) = as_elmts (array2 ! i) \<and> as_stride (array1 ! i) = as_stride (array2 ! i))"

text \<open>The copy through a temporary block: all chunks are read before the first is written.\<close>

definition read_block :: "int \<Rightarrow> int \<Rightarrow> 'b mem \<Rightarrow> 'b list" where
  "read_block a n m = map (\<lambda>i. m (a + int i)) [0..<nat n]"

definition write_block :: "int \<Rightarrow> 'b list \<Rightarrow> 'b mem \<Rightarrow> 'b mem" where
  "write_block d bs m = (\<lambda>a. if d \<le> a \<and> a < d + int (length bs) then bs ! nat (a - d) else m a)"

definition buffered_copy :: "int \<Rightarrow> int \<Rightarrow> int \<Rightarrow> int list \<Rightarrow> int list \<Rightarrow> 'b mem \<Rightarrow> 'b mem" where
  "buffered_copy dst src chunk dst_stride src_stride m =
     (let tmp = map (\<lambda>s. read_block (src + s) chunk m) src_stride
      in fold (\<lambda>(d, bs) m. write_block (dst + d) bs m) (zip dst_stride tmp) m)"

definition direct_copy :: "int \<Rightarrow> int \<Rightarrow> int \<Rightarrow> int list \<Rightarrow> int list \<Rightarrow> 'b mem \<Rightarrow> 'b mem res" where
  "direct_copy dst src chunk dst_stride src_stride m =
     fold_res (\<lambda>m (d, s). memcpy (dst + d) (src + s) chunk m) m (zip dst_stride src_stride)"

definition local_NON_contiguous_copy ::
  "(nat \<Rightarrow> int) \<Rightarrow> int \<Rightarrow> int \<Rightarrow> nat \<Rightarrow> nat \<Rightarrow> array_section list \<Rightarrow> array_section list \<Rightarrow> int \<Rightarrow> int \<Rightarrow> int \<Rightarrow> 'b mem \<Rightarrow> 'b mem res" where
  "local_NON_contiguous_copy junk dst src dst_dims src_dims dst_info src_info dst_elmts src_elmts elmt_size m =
     (if dst_elmts = src_elmts then
        let copy_chunk = XMP_calc_max_copy_chunk dst_dims src_dims dst_info src_info;
            copy_elmts = nat (dst_elmts div (copy_chunk div elmt_size))
        in guard_res (0 < copy_elmts) OutOfBounds
             (bind_res (XMP_set_stride junk dst_info dst_dims copy_chunk copy_elmts) (\<lambda>dst_stride.
              bind_res (if is_the_same_shape dst_dims src_dims dst_info src_info then Inr dst_stride
                        else XMP_set_stride junk src_info src_dims copy_chunk copy_elmts) (\<lambda>src_stride.
              if XMP_check_overlapping (dst + dst_stride ! 0) (dst + dst_stride ! (copy_elmts - 1) + copy_chunk)
                                       (src + src_stride ! 0) (src + src_stride ! (copy_elmts - 1) + copy_chunk)
              then Inr (buffered_copy dst src copy_chunk dst_stride src_stride m)
              else direct_copy dst src copy_chunk dst_stride src_stride m)))
      else if src_elmts = 1 then
        if dst_dims = 1 then XMP_stride_memcpy_1dim dst src dst_info elmt_size XMP_SCALAR_MCOPY m
        else if dst_dims = 2 then XMP_stride_memcpy_2dim dst src dst_info elmt_size XMP_SCALAR_MCOPY m
        else if dst_dims = 3 then XMP_stride_memcpy_3dim dst src dst_info elmt_size XMP_SCALAR_MCOPY m
        else if dst_dims = 4 then XMP_stride_memcpy_4dim dst src dst_info elmt_size XMP_SCALAR_MCOPY m
        else if dst_dims = 5 then XMP_stride_memcpy_5dim dst src dst_info elmt_size XMP_SCALAR_MCOPY m
        else if dst_dims = 6 then XMP_stride_memcpy_6dim dst src dst_info elmt_size XMP_SCALAR_MCOPY m
        else if dst_dims = 7 then XMP_stride_memcpy_7dim dst src dst_info elmt_size XMP_SCALAR_MCOPY m
        else Inl (Fatal ''Coarray Error ! Dimension is too big.'')
      else Inl (Fatal ''Coarray Error ! transfer size is wrong.''))"

text \<open>Of the descriptor of a coarray, the local address and the size of an element.\<close>

record coarray =
  co_real_addr :: int
  co_elmt_size :: int

definition XMP_local_put ::
  "(nat \<Rightarrow> int) \<Rightarrow> coarray \<Rightarrow> int \<Rightarrow> bool \<Rightarrow> bool \<Rightarrow> nat \<Rightarrow> nat \<Rightarrow> array_section list \<Rightarrow> array_section list \<Rightarrow> int \<Rightarrow> int
    \<Rightarrow> 'b mem \<Rightarrow> 'b mem res" where
  "XMP_local_put junk dst_desc src dst_contiguous src_contiguous dst_dims src_dims dst_info src_info dst_elmts src_elmts m =
     (let dst_offset = XMP_get_offset dst_info dst_dims;
          src_offset = XMP_get_offset src_info src_dims;
          elmt_size = co_elmt_size dst_desc
      in if dst_contiguous \<and> src_contiguous
         then XMP_local_contiguous_copy (co_real_addr dst_desc + dst_offset) (src + src_offset) dst_elmts src_elmts elmt_size m
         else local_NON_contiguous_copy junk (co_real_addr dst_desc + dst_offset) (src + src_offset)
                dst_dims src_dims dst_info src_info dst_elmts src_elmts elmt_size m)"

definition XMP_local_get ::
  "(nat \<Rightarrow> int) \<Rightarrow> int \<Rightarrow> coarray \<Rightarrow> bool \<Rightarrow> bool \<Rightarrow> nat \<Rightarrow> nat \<Rightarrow> array_section list \<Rightarrow> array_section list \<Rightarrow> int \<Rightarrow> int
    \<Rightarrow> 'b mem \<Rightarrow> 'b mem res" where
  "XMP_local_get junk dst src_desc dst_contiguous src_contiguous dst_dims src_dims dst_info src_info dst_elmts src_elmts m =
     (let dst_offset = XMP_get_offset dst_info dst_dims;
          src_offset = XMP_get_offset src_info src_dims;
          elmt_size = co_elmt_size src_desc
      in if dst_contiguous \<and> src_contiguous
         then XMP_local_contiguous_copy (dst + dst_offset) (co_real_addr src_desc + src_offset) dst_elmts src_elmts elmt_size m
         else local_NON_contiguous_copy junk (dst + dst_offset) (co_real_addr src_desc + src_offset)
                dst_dims src_dims dst_info src_info dst_elmts src_elmts elmt_size m)"

end
