(* ===== verification/Xmp_Coarray_Laws.thy ===== *)
theory Xmp_Coarray_Laws
  imports Xmp_Coarray
begin

text \<open>
  Laws of copies between sections: which offsets a section has, that the chunks the code copies are these
  offsets put together, and that a copy assigns to every element of the destination the element of the source at the
  same place, also when the two overlap.
\<close>

subsection \<open>Offsets of a section\<close>

text \<open>The size of the array in bytes, of elements of \<open>es\<close> bytes, and well-formed sections of it.\<close>

fun row :: "int \<Rightarrow> array_section list \<Rightarrow> int" where
  "row es [] = es"
| "row es (x # xs) = as_elmts x * row es xs"

fun sec_ok :: "int \<Rightarrow> array_section list \<Rightarrow> bool" where
  "sec_ok es [] \<longleftrightarrow> 0 < es"
| "sec_ok es (x # xs) \<longleftrightarrow> sec_ok es xs \<and> 0 < as_length x \<and> 0 < as_stride x \<and> 0 \<le> as_start x
     \<and> as_start x + (as_length x - 1) * as_stride x < as_elmts x \<and> as_distance x = row es xs"

definition offs :: "array_section list \<Rightarrow> int list" where
  "offs xs = nest (map (dim_loop 1) xs)"

definition spaced :: "int \<Rightarrow> int list \<Rightarrow> bool" where
  "spaced c = sorted_wrt (\<lambda>a b. a + c \<le> b)"

lemma upto_by_1 [simp]: "upto_by n (Suc 0) = [0..<n]"
  by (simp add: upto_by_def)

lemma upto_by_self: "0 < n \<Longrightarrow> upto_by n n = [0]"
proof -
  assume n: "0 < n"
  have "filter (\<lambda>i. i mod n = 0) [0..<n] = filter (\<lambda>i. i = 0) [0..<n]"
    by (rule filter_cong) auto
  also have "\<dots> = [0]" using n by (simp add: upt_conv_Cons)
  finally show ?thesis by (simp add: upto_by_def)
qed

lemma offs_Nil [simp]: "offs [] = [0]"
  by (simp add: offs_def)

lemma offs_Cons:
  "offs (x # xs) = concat (map (\<lambda>i. map ((+) (as_stride x * as_distance x * int i)) (offs xs)) [0..<nat (as_length x)])"
  by (simp add: offs_def dim_loop_def)

lemma row_pos: "sec_ok es xs \<Longrightarrow> 0 < row es xs"
  by (induction xs) (auto intro!: mult_pos_pos simp: add_nonneg_nonneg intro: le_less_trans [rotated])

lemma sec_ok_es: "sec_ok es xs \<Longrightarrow> 0 < es"
  by (induction xs) auto

lemma sec_ok_elmts: "sec_ok es (x # xs) \<Longrightarrow> as_length x \<le> as_elmts x \<and> 0 < as_elmts x"
proof -
  assume ok: "sec_ok es (x # xs)"
  then have "(as_length x - 1) * 1 \<le> (as_length x - 1) * as_stride x" by (intro mult_left_mono) auto
  with ok show ?thesis by auto
qed

lemma spaced_append: "spaced c (xs @ ys) \<longleftrightarrow> spaced c xs \<and> spaced c ys \<and> (\<forall>x \<in> set xs. \<forall>y \<in> set ys. x + c \<le> y)"
  by (auto simp: spaced_def sorted_wrt_append)

lemma spaced_shift: "spaced c (map ((+) k) xs) = spaced c xs"
  by (simp add: spaced_def sorted_wrt_map algebra_simps)

lemma spaced_blocks:
  assumes xs: "spaced c xs" "\<forall>x \<in> set xs. 0 \<le> x \<and> x + c \<le> s" and c: "0 \<le> c"
  shows "spaced c (concat (map (\<lambda>i. map ((+) (s * int i)) xs) [0..<n]))"
proof (induction n)
  case 0 show ?case by (simp add: spaced_def)
next
  case (Suc n)
  have "s * int i + x + c \<le> s * int n + y" if "i < n" "x \<in> set xs" "y \<in> set xs" for i x y
  proof -
    have "0 \<le> s" using xs(2) c that by fastforce
    then have "s * (int i + 1) \<le> s * int n" using that by (intro mult_left_mono) auto
    moreover have "x + c \<le> s" "0 \<le> y" using xs(2) that by auto
    ultimately show ?thesis by (simp add: distrib_left)
  qed
  with Suc xs show ?case by (auto simp: spaced_append spaced_shift)
qed

lemma offs_range_spaced:
  "sec_ok es xs \<Longrightarrow> spaced es (offs xs) \<and> (\<forall>x \<in> set (offs xs). 0 \<le> x \<and> x + es \<le> row es xs)"
proof (induction xs)
  case Nil then show ?case by (simp add: spaced_def)
next
  case (Cons x xs)
  let ?s = "as_stride x * as_distance x"
  from Cons have ih: "spaced es (offs xs)" "\<forall>o1 \<in> set (offs xs). 0 \<le> o1 \<and> o1 + es \<le> row es xs"
    and x: "0 < as_length x" "0 < as_stride x" "as_distance x = row es xs" by auto
  have r: "0 < row es xs" using Cons.prems by (simp add: row_pos)
  have s: "row es xs \<le> ?s" using x r mult_right_mono [of 1 "as_stride x" "row es xs"] by simp
  have "?s * int i + row es xs \<le> row es (x # xs)" if "i < nat (as_length x)" for i
  proof -
    have "int i * as_stride x \<le> (as_length x - 1) * as_stride x" using that x by (intro mult_right_mono) auto
    moreover have "as_start x + (as_length x - 1) * as_stride x < as_elmts x" "0 \<le> as_start x" using Cons.prems by simp_all
    ultimately have "int i * as_stride x + 1 \<le> as_elmts x" by linarith
    from mult_right_mono [OF this, of "row es xs"] r show ?thesis by (simp add: x(3) algebra_simps)
  qed
  moreover have "0 \<le> ?s * int i" for i using s r by simp
  moreover have "spaced es (offs (x # xs))"
    unfolding offs_Cons using spaced_blocks [OF ih(1), of ?s] ih(2) s sec_ok_es [OF Cons.prems] by fastforce
  ultimately show ?case using ih(2) by (fastforce simp: offs_Cons)
qed

lemma offs_length: "length (offs xs) = (\<Prod>x\<leftarrow>xs. nat (as_length x))"
  by (induction xs) (simp_all add: offs_Cons length_concat comp_def map_replicate_trivial sum_list_replicate map_replicate_const)

lemma offs_hd: "sec_ok es xs \<Longrightarrow> offs xs \<noteq> [] \<and> hd (offs xs) = 0"
proof (induction xs)
  case (Cons x xs)
  then have "[0..<nat (as_length x)] = 0 # [1..<nat (as_length x)]" by (simp add: upt_conv_Cons)
  with Cons show ?case by (simp add: offs_Cons hd_append hd_map)
qed simp

subsection \<open>Chunks\<close>

text \<open>Each chunk of \<open>c\<close> bytes at an offset taken apart into elements.\<close>

definition expand :: "int \<Rightarrow> int \<Rightarrow> int list \<Rightarrow> int list" where
  "expand c es ds = concat (map (\<lambda>d. map (\<lambda>j. d + es * int j) [0..<nat (c div es)]) ds)"

text \<open>A dimension of which all elements are in the section.\<close>

definition full :: "array_section \<Rightarrow> bool" where
  "full x \<longleftrightarrow> as_length x = as_elmts x"

lemma concat_blocks:
  "concat (map (\<lambda>i. map (\<lambda>j. f (i * n + j)) [0..<n]) [0..<m]) = map f [0..<m * n]"
proof (induction m)
  case (Suc m)
  have "[0..<Suc m * n] = [0..<m * n] @ [m * n..<m * n + n]"
    using upt_add_eq_append [of 0 "m * n" n] by (simp add: add.commute)
  moreover have "[m * n..<m * n + n] = map (\<lambda>j. m * n + j) [0..<n]"
    using map_add_upt [of "m * n" n] by (simp add: add.commute)
  ultimately show ?case using Suc by (simp add: comp_def)
qed simp

lemma expand_concat: "expand c es (concat xss) = concat (map (expand c es) xss)"
  by (induction xss) (simp_all add: expand_def)

lemma expand_shift: "expand c es (map ((+) k) ds) = map ((+) k) (expand c es ds)"
  by (simp add: expand_def map_concat comp_def add.assoc)

lemma row_count: "sec_ok es xs \<Longrightarrow> row es xs = es * int (\<Prod>x\<leftarrow>xs. nat (as_elmts x))"
proof (induction xs)
  case (Cons x xs)
  then have "0 < as_elmts x" using sec_ok_elmts by blast
  with Cons show ?case by simp
qed simp

lemma full_stride: "sec_ok es (x # xs) \<Longrightarrow> full x \<Longrightarrow> as_length x = 1 \<or> as_stride x = 1"
proof (rule ccontr)
  assume ok: "sec_ok es (x # xs)" "full x" "\<not> (as_length x = 1 \<or> as_stride x = 1)"
  then have "(as_length x - 1) * 2 \<le> (as_length x - 1) * as_stride x" by (intro mult_left_mono) auto
  with ok show False by (auto simp: full_def)
qed

text \<open>A dimension of stride 1, or of one index, puts blocks of \<open>n\<close> elements side by side.\<close>

lemma join_blocks:
  assumes "s = 1 \<or> m = 1"
  shows "concat (map (\<lambda>i. map ((+) (s * (es * int n) * int i)) (map (\<lambda>j. es * int j) [0..<n])) [0..<m])
    = map (\<lambda>j. es * int j) [0..<m * n]"
proof -
  have eq: "map (\<lambda>i. map ((+) (s * (es * int n) * int i)) (map (\<lambda>j. es * int j) [0..<n])) [0..<m]
      = map (\<lambda>i. map (\<lambda>j. es * int (i * n + j)) [0..<n]) [0..<m]"
    using assms by (auto simp: algebra_simps)
  show ?thesis unfolding eq by (rule concat_blocks)
qed

lemma offs_full:
  "sec_ok es xs \<Longrightarrow> \<forall>x \<in> set xs. full x \<Longrightarrow> offs xs = map (\<lambda>j. es * int j) [0..<(\<Prod>x\<leftarrow>xs. nat (as_elmts x))]"
proof (induction xs)
  case (Cons x xs)
  let ?n = "\<Prod>x\<leftarrow>xs. nat (as_elmts x)"
  have "as_stride x = 1 \<or> nat (as_length x) = 1" using full_stride [OF Cons.prems(1)] Cons.prems(2) by auto
  from join_blocks [OF this, of es ?n] Cons row_count [of es xs] show ?case
    by (simp add: offs_Cons full_def)
qed simp

lemma level_expand:
  assumes "sec_ok es (pre @ x # suf)" and "\<forall>y \<in> set suf. full y"
    and "L = 1 \<or> L = nat (as_length x) \<and> (as_stride x = 1 \<or> as_length x = 1)"
  shows "offs (pre @ x # suf) = expand (int L * as_distance x) es (nest (map (dim_loop 1) pre @ [dim_loop L x]))"
  using assms(1)
proof (induction pre)
  case Nil
  define n where "n = (\<Prod>x\<leftarrow>suf. nat (as_elmts x))"
  have d: "as_distance x = es * int n" and suf: "offs suf = map (\<lambda>j. es * int j) [0..<n]" and es: "0 < es" and l: "0 < as_length x"
    using Nil offs_full [of es suf] assms(2) row_count [of es suf] sec_ok_es by (auto simp: n_def)
  have q: "nat (int L * as_distance x div es) = L * n" using es by (simp add: d nat_mult_distrib flip: of_nat_mult)
  show ?case
  proof (cases "L = 1")
    case True
    then show ?thesis using q
      by (simp add: offs_Cons suf expand_def dim_loop_def map_concat comp_def concat_map_singleton d)
  next
    case False
    then have L: "L = nat (as_length x)" "as_stride x = 1 \<or> nat (as_length x) = 1" using assms(3) by auto
    have "nest [dim_loop L x] = [0]" using L l by (simp add: dim_loop_def upto_by_self)
    with q join_blocks [OF L(2), of es n] L(1) show ?thesis by (simp add: offs_Cons suf expand_def d)
  qed
next
  case (Cons y pre)
  then show ?case
    by (simp add: offs_Cons dim_loop_def [of 1 y] dim_loop_def [of "Suc 0" y] expand_concat expand_shift comp_def)
qed

subsection \<open>The level of a chunk\<close>

text \<open>
  A chunk that the code chooses: the whole of a dimension \<open>m\<close> with stride 1 and all dimensions inside it, or one
  element.
\<close>

definition chunk_at :: "int \<Rightarrow> int \<Rightarrow> array_section list \<Rightarrow> nat \<Rightarrow> bool" where
  "chunk_at es c xs m \<longleftrightarrow>
     m < length xs \<and> (\<forall>j. m < j \<and> j < length xs \<longrightarrow> full (xs ! j)) \<and> (as_stride (xs ! m) = 1 \<or> as_length (xs ! m) = 1)
       \<and> c = as_length (xs ! m) * as_distance (xs ! m)
     \<or> m = length xs \<and> c = es"

lemma sec_ok_drop: "sec_ok es xs \<Longrightarrow> sec_ok es (drop i xs)"
  by (induction xs arbitrary: i) (auto simp: drop_Cons split: nat.split)

lemma sec_ok_nth:
  assumes "sec_ok es xs" "i < length xs"
  shows "as_distance (xs ! i) = row es (drop (Suc i) xs)" "row es (drop i xs) = as_elmts (xs ! i) * row es (drop (Suc i) xs)"
    "0 < as_length (xs ! i)" "as_length (xs ! i) \<le> as_elmts (xs ! i)" "0 < row es (drop i xs)" "0 < row es (drop (Suc i) xs)"
  using sec_ok_drop [OF assms(1), of i] sec_ok_elmts [of es "xs ! i" "drop (Suc i) xs"] row_pos [OF sec_ok_drop [OF assms(1)]]
  by (simp_all add: Cons_nth_drop_Suc [OF assms(2), symmetric])

lemma row_drop_le:
  assumes ok: "sec_ok es xs" and "i \<le> j" "j \<le> length xs"
  shows "row es (drop j xs) \<le> row es (drop i xs)"
  using assms(2,3)
proof (induction j)
  case (Suc j)
  show ?case
  proof (cases "i = Suc j")
    case False
    with Suc.prems have "j < length xs" by simp
    note s = sec_ok_nth [OF ok this]
    have "1 * row es (drop (Suc j) xs) \<le> as_elmts (xs ! j) * row es (drop (Suc j) xs)"
      using s by (intro mult_right_mono) auto
    moreover have "row es (drop j xs) \<le> row es (drop i xs)" using Suc False by simp
    ultimately show ?thesis using s(2) by linarith
  qed simp
qed simp

lemma row_drop_eq:
  assumes ok: "sec_ok es xs" and le: "row es (drop i xs) \<le> row es (drop j xs)" and k: "i \<le> k" "k < j" "j \<le> length xs"
  shows "full (xs ! k)"
proof -
  note s = sec_ok_nth [OF ok, of k]
  have "row es (drop k xs) \<le> row es (drop (Suc k) xs)"
    using row_drop_le [OF ok, of i k] row_drop_le [OF ok, of "Suc k" j] le k by linarith
  with s k have "as_elmts (xs ! k) * row es (drop (Suc k) xs) \<le> 1 * row es (drop (Suc k) xs)" by simp
  with s k have "as_elmts (xs ! k) \<le> 1" by (simp add: mult_le_cancel_right)
  with s k show ?thesis by (simp add: full_def)
qed

lemma chain_pick:
  "\<exists>t \<le> k. level_chain xs c k = level_store xs c t \<and> (t = 0 \<or> c < as_distance (xs ! (t - 1)))
     \<and> (\<forall>u. t < u \<and> u \<le> k \<longrightarrow> as_distance (xs ! (u - 1)) \<le> c)"
proof (induction k)
  case (Suc k)
  show ?case
  proof (cases "as_distance (xs ! k) > c")
    case False
    with Suc obtain t where "t \<le> k" "level_chain xs c k = level_store xs c t" "t = 0 \<or> c < as_distance (xs ! (t - 1))"
      "\<forall>u. t < u \<and> u \<le> k \<longrightarrow> as_distance (xs ! (u - 1)) \<le> c" by blast
    with False show ?thesis by (intro exI [of _ t]) (auto simp: le_Suc_eq)
  qed (auto intro!: exI [of _ "Suc k"])
qed simp

lemma level_chunk:
  assumes ok: "sec_ok es xs" and t: "t < length xs" "as_distance (xs ! t) \<le> c" "t = 0 \<or> c < as_distance (xs ! (t - 1))"
    and inner: "t < m \<Longrightarrow> m < length xs \<Longrightarrow> as_distance (xs ! (m - 1)) \<le> c" and m: "chunk_at es c xs m"
  shows "(\<forall>y \<in> set (drop (Suc t) xs). full y) \<and> (c = as_distance (xs ! t) \<or>
    c = as_length (xs ! t) * as_distance (xs ! t) \<and> (as_stride (xs ! t) = 1 \<or> as_length (xs ! t) = 1))"
proof -
  have "t \<le> m"
  proof (rule ccontr)
    assume a: "\<not> t \<le> m"
    then have m: "m < length xs" "c = as_length (xs ! m) * as_distance (xs ! m)" using m t(1) by (auto simp: chunk_at_def)
    have "1 * as_distance (xs ! m) \<le> c" unfolding m(2) using sec_ok_nth [OF ok m(1)] by (intro mult_right_mono) auto
    moreover have "as_distance (xs ! (t - 1)) \<le> as_distance (xs ! m)"
      using a t(1) sec_ok_nth(1) [OF ok] row_drop_le [OF ok, of "Suc m" t] m by simp
    ultimately show False using a t(3) by simp
  qed
  show ?thesis
  proof (cases "t = m")
    case True
    with m t(1) show ?thesis by (auto simp: chunk_at_def in_set_conv_nth)
  next
    case False
    with \<open>t \<le> m\<close> have tm: "t < m" "m \<le> length xs" using m by (auto simp: chunk_at_def)
    have c: "c \<le> row es (drop m xs) \<and> (m < length xs \<longrightarrow> full (xs ! m))"
    proof (cases "m < length xs")
      case True
      note s = sec_ok_nth [OF ok True]
      have eq: "c = as_length (xs ! m) * row es (drop (Suc m) xs)" using m True s(1) by (simp add: chunk_at_def)
      have "row es (drop m xs) \<le> c" using inner [OF tm(1) True] sec_ok_nth(1) [OF ok, of "m - 1"] tm True by simp
      then have "as_elmts (xs ! m) * row es (drop (Suc m) xs) \<le> as_length (xs ! m) * row es (drop (Suc m) xs)"
        unfolding eq s(2) .
      with s have "as_elmts (xs ! m) \<le> as_length (xs ! m)" by (simp add: mult_le_cancel_right)
      with s eq show ?thesis by (simp add: full_def)
    qed (use m tm in \<open>auto simp: chunk_at_def\<close>)
    have d: "as_distance (xs ! t) = row es (drop (Suc t) xs)" using sec_ok_nth(1) [OF ok t(1)] .
    have "full (xs ! j)" if "t < j" "j < length xs" for j
    proof (cases "j < m")
      case True
      with row_drop_eq [OF ok, of "Suc t" m j] that t(2) c d tm show ?thesis by simp
    next
      case False
      with c m that show ?thesis by (cases "j = m") (auto simp: chunk_at_def)
    qed
    moreover have "c = as_distance (xs ! t)"
      using c d t(2) row_drop_le [OF ok, of "Suc t" m] tm by simp
    ultimately show ?thesis by (auto simp: in_set_conv_nth)
  qed
qed

text \<open>The offsets of the chunks that the chain of tests gives are the offsets of the section.\<close>

lemma level_loops_expand:
  assumes ok: "sec_ok es xs" and t: "t < length xs" and suf: "\<forall>y \<in> set (drop (Suc t) xs). full y"
    and c: "c = as_distance (xs ! t) \<or> c = as_length (xs ! t) * as_distance (xs ! t) \<and> (as_stride (xs ! t) = 1 \<or> as_length (xs ! t) = 1)"
  shows "offs xs = expand c es (level_loops xs c t)"
proof -
  define L where "L = nat (c div as_distance (xs ! t))"
  note s = sec_ok_nth [OF ok t]
  have L: "c = int L * as_distance (xs ! t)" "L = 1 \<or> L = nat (as_length (xs ! t)) \<and> (as_stride (xs ! t) = 1 \<or> as_length (xs ! t) = 1)"
    using c s by (auto simp: L_def)
  have xs: "take t xs @ xs ! t # drop (Suc t) xs = xs" using t by (simp add: id_take_nth_drop [symmetric])
  show ?thesis
    using level_expand [OF _ suf L(2), of es "take t xs"] ok unfolding xs L(1) [symmetric]
    by (simp add: level_loops_def L_def)
qed

lemma level_chain_expand:
  assumes ok: "sec_ok es xs" and "xs \<noteq> []" and m: "chunk_at es c xs m" and "es \<le> c"
  shows "\<exists>ds. level_chain xs c (length xs - 1) = Inr ds \<and> offs xs = expand c es ds"
proof -
  obtain t where t: "t \<le> length xs - 1" "level_chain xs c (length xs - 1) = level_store xs c t"
    "t = 0 \<or> c < as_distance (xs ! (t - 1))" "\<forall>u. t < u \<and> u \<le> length xs - 1 \<longrightarrow> as_distance (xs ! (u - 1)) \<le> c"
    using chain_pick by blast
  have tl: "t < length xs" using t(1) assms(2) by (cases xs) auto
  have le: "as_distance (xs ! t) \<le> c"
  proof (cases "t = length xs - 1")
    case True
    with sec_ok_nth(1) [OF ok tl] tl assms(4) show ?thesis by simp
  next
    case False
    with t(1,4) show ?thesis by (metis Suc_leI diff_Suc_1 le_neq_implies_less lessI)
  qed
  moreover have "0 < c div as_distance (xs ! t)"
    using le sec_ok_nth [OF ok tl] by (simp add: pos_imp_zdiv_pos_iff)
  then have "level_store xs c t = Inr (level_loops xs c t)" by (simp add: level_store_def)
  ultimately show ?thesis
    using level_chunk [OF ok tl _ t(3) _ m] t(4) level_loops_expand [OF ok tl] t(2) by auto
qed

subsection \<open>The chunk of two sections\<close>

text \<open>The number of elements of a section in the dimensions from \<open>m\<close> on.\<close>

definition elems_from :: "array_section list \<Rightarrow> nat \<Rightarrow> nat" where
  "elems_from xs m = (\<Prod>n\<leftarrow>drop m (map as_length xs). nat n)"

lemma elems_from_0: "elems_from xs 0 = length (offs xs)"
  by (simp add: elems_from_def offs_length comp_def)

lemma elems_from_Suc: "m < length xs \<Longrightarrow> elems_from xs m = nat (as_length (xs ! m)) * elems_from xs (Suc m)"
  by (simp add: elems_from_def Cons_nth_drop_Suc [symmetric])

lemma full_row:
  assumes "sec_ok es xs" "\<forall>y \<in> set (drop m xs). full y"
  shows "row es (drop m xs) = es * int (elems_from xs m)"
proof -
  have "map (\<lambda>x. nat (as_elmts x)) (drop m xs) = map (\<lambda>x. nat (as_length x)) (drop m xs)"
    using assms(2) by (simp add: full_def)
  from arg_cong [OF this, of prod_list] show ?thesis
    using row_count [OF sec_ok_drop [OF assms(1)], of m] by (simp add: elems_from_def comp_def drop_map)
qed

lemma chunk_at_size:
  assumes ok: "sec_ok es xs" and m: "chunk_at es c xs m"
  shows "c = es * int (elems_from xs m)"
proof (cases "m < length xs")
  case True
  then have "\<forall>y \<in> set (drop (Suc m) xs). full y" using m by (auto simp: chunk_at_def in_set_conv_nth)
  from full_row [OF ok this] True m sec_ok_nth [OF ok True] show ?thesis
    by (auto simp: chunk_at_def elems_from_Suc)
qed (use m in \<open>auto simp: chunk_at_def elems_from_def\<close>)

lemma prod_nat_pos: "\<forall>n \<in> set ns. 0 < n \<Longrightarrow> 0 < (\<Prod>n\<leftarrow>ns. nat n)"
  by (induction ns) auto

lemma elems_from_pos: "sec_ok es xs \<Longrightarrow> 0 < elems_from xs m"
proof -
  assume "sec_ok es xs"
  then have "\<forall>x \<in> set xs. 0 < as_length x" by (induction xs) auto
  then have "0 < (\<Prod>n\<leftarrow>map as_length (drop m xs). nat n)"
    using set_drop_subset [of m xs] by (intro prod_nat_pos) (auto simp: subset_iff)
  then show ?thesis by (simp add: elems_from_def drop_map)
qed

lemma elems_from_mono: "sec_ok es xs \<Longrightarrow> m \<le> n \<Longrightarrow> n \<le> length xs \<Longrightarrow> elems_from xs n \<le> elems_from xs m"
proof (induction n)
  case (Suc n)
  show ?case
  proof (cases "m = Suc n")
    case False
    with Suc.prems have n: "n < length xs" by simp
    have "1 * elems_from xs (Suc n) \<le> nat (as_length (xs ! n)) * elems_from xs (Suc n)"
      using sec_ok_nth [OF Suc.prems(1) n] by (intro mult_right_mono) auto
    moreover have "elems_from xs n \<le> elems_from xs m" using Suc False by simp
    ultimately show ?thesis using elems_from_Suc [OF n] by linarith
  qed simp
qed simp

lemma chunk_at_full:
  assumes ok: "sec_ok es xs" and full: "\<forall>j. m \<le> j \<and> j < length xs \<longrightarrow> full (xs ! j)" and m: "m \<le> length xs"
  shows "chunk_at es (es * int (elems_from xs m)) xs m"
proof (cases "m < length xs")
  case True
  have "\<forall>y \<in> set (drop (Suc m) xs). full y" using full by (auto simp: in_set_conv_nth)
  from full_row [OF ok this] have "as_length (xs ! m) * as_distance (xs ! m) = es * int (elems_from xs m)"
    using sec_ok_nth [OF ok True] True by (simp add: elems_from_Suc)
  moreover have "as_stride (xs ! m) = 1 \<or> as_length (xs ! m) = 1"
    using full_stride [of es "xs ! m" "drop (Suc m) xs"] full True sec_ok_drop [OF ok, of m]
    by (auto simp: Cons_nth_drop_Suc)
  ultimately show ?thesis using full True by (simp add: chunk_at_def)
qed (use m in \<open>simp add: chunk_at_def elems_from_def\<close>)

lemma allelmts_spec:
  "XMP_get_dim_of_allelmts d xs \<le> d \<and> (\<forall>j. XMP_get_dim_of_allelmts d xs \<le> j \<and> j < d \<longrightarrow> full (xs ! j))"
  by (induction d) (auto simp: full_def less_Suc_eq)

lemma copy_chunk_at:
  assumes ok: "sec_ok es xs" and "xs \<noteq> []"
  shows "\<exists>m. chunk_at es (XMP_calc_copy_chunk (XMP_get_dim_of_allelmts (length xs) xs) xs) xs m"
proof -
  define k where "k = XMP_get_dim_of_allelmts (length xs) xs"
  have k: "k \<le> length xs" "\<forall>j. k \<le> j \<and> j < length xs \<longrightarrow> full (xs ! j)"
    using allelmts_spec [of "length xs" xs] by (auto simp: k_def)
  have suf: "\<forall>y \<in> set (drop k xs). full y" using k by (auto simp: in_set_conv_nth)
  show ?thesis unfolding k_def [symmetric]
  proof (cases "k = 0")
    case True
    have 0: "as_length (xs ! 0) * as_distance (xs ! 0) = es * int (elems_from xs 0)"
      using sec_ok_nth [OF ok, of 0] assms(2) full_row [OF ok, of "Suc 0"] suf True set_drop_subset [of 1 xs]
      by (auto simp: elems_from_Suc subset_iff)
    from chunk_at_full [OF ok, of 0] k True show "\<exists>m. chunk_at es (XMP_calc_copy_chunk k xs) xs m"
      by (auto simp: XMP_calc_copy_chunk_def 0)
  next
    case False
    show "\<exists>m. chunk_at es (XMP_calc_copy_chunk k xs) xs m"
    proof (cases "as_stride (xs ! (k - 1)) = 1")
      case True
      with False k show ?thesis by (intro exI [of _ "k - 1"]) (auto simp: XMP_calc_copy_chunk_def chunk_at_def Let_def)
    next
      case stride: False
      have "as_distance (xs ! (k - 1)) = es * int (elems_from xs k)"
        using sec_ok_nth(1) [OF ok, of "k - 1"] False k(1) full_row [OF ok suf] by simp
      with chunk_at_full [OF ok k(2,1)] stride False show ?thesis by (auto simp: XMP_calc_copy_chunk_def Let_def)
    qed
  qed
qed

lemma chunk_at_conform:
  assumes ok: "sec_ok es xs" "sec_ok es ys" and len: "map as_length xs = map as_length ys"
    and m: "chunk_at es c xs m" and n: "chunk_at es d ys n" and le: "c \<le> d"
  shows "\<exists>k. chunk_at es c ys k"
proof -
  have l: "length xs = length ys" and e: "elems_from ys = elems_from xs"
    using len map_eq_imp_length_eq by (auto simp: elems_from_def fun_eq_iff)
  have c: "c = es * int (elems_from xs m)" "d = es * int (elems_from xs n)"
    using chunk_at_size [OF ok(1) m] chunk_at_size [OF ok(2) n] e by auto
  have ml: "m \<le> length xs" "n \<le> length ys" using m n by (auto simp: chunk_at_def)
  show ?thesis
  proof (cases "m \<le> n")
    case True
    then have "elems_from xs n \<le> elems_from xs m" using elems_from_mono [OF ok(1) True] ml l by simp
    then have "es * int (elems_from xs n) \<le> es * int (elems_from xs m)" using sec_ok_es [OF ok(1)] by simp
    with c le have "c = d" by simp
    with n show ?thesis by blast
  next
    case False
    then have "\<forall>j. m \<le> j \<and> j < length ys \<longrightarrow> full (ys ! j)" using n ml l by (auto simp: chunk_at_def)
    from chunk_at_full [OF ok(2) this] ml l c(1) e show ?thesis by auto
  qed
qed

lemma max_chunk:
  assumes ok: "sec_ok es xs" "sec_ok es ys" and len: "map as_length xs = map as_length ys" and ne: "xs \<noteq> []"
    and c: "c = XMP_calc_max_copy_chunk (length xs) (length ys) xs ys"
  shows "\<exists>m. chunk_at es c xs m" "\<exists>m. chunk_at es c ys m"
proof -
  have "ys \<noteq> []" using len ne by auto
  from copy_chunk_at [OF ok(1) ne] copy_chunk_at [OF ok(2) this] obtain m n where
    m: "chunk_at es (XMP_calc_copy_chunk (XMP_get_dim_of_allelmts (length xs) xs) xs) xs m"
    and n: "chunk_at es (XMP_calc_copy_chunk (XMP_get_dim_of_allelmts (length ys) ys) ys) ys n" by blast
  then show "\<exists>m. chunk_at es c xs m" "\<exists>m. chunk_at es c ys m"
    using chunk_at_conform [OF ok len m n] chunk_at_conform [OF ok(2,1) len [symmetric] n m]
    unfolding c XMP_calc_max_copy_chunk_def Let_def min_def by auto
qed

end
