(* ===== verification/Xmp_Copy_Laws.thy ===== *)
theory Xmp_Copy_Laws
  imports Xmp_Coarray_Laws
begin

text \<open>
  What the copies of \<open>Xmp_Coarray\<close> do to memory, over the offsets of \<open>Xmp_Coarray_Laws\<close>.
\<close>

subsection \<open>Assignment of elements\<close>

text \<open>
  The elements of \<open>c\<close> bytes at the offsets \<open>ds\<close> of \<open>dst\<close> get the values that those at the offsets \<open>ss\<close> of \<open>src\<close> had
  before, and nothing else changes.
\<close>

definition assigned :: "int \<Rightarrow> int \<Rightarrow> int \<Rightarrow> int list \<Rightarrow> int list \<Rightarrow> 'b mem \<Rightarrow> 'b mem \<Rightarrow> bool" where
  "assigned c dst src ds ss m m' \<longleftrightarrow>
     (\<forall>d s t. (d, s) \<in> set (zip ds ss) \<longrightarrow> 0 \<le> t \<longrightarrow> t < c \<longrightarrow> m' (dst + d + t) = m (src + s + t))
     \<and> (\<forall>a. (\<forall>d \<in> set ds. a < dst + d \<or> dst + d + c \<le> a) \<longrightarrow> m' a = m a)"

lemma assignedD: "assigned c dst src ds ss m m' \<Longrightarrow> (d, s) \<in> set (zip ds ss) \<Longrightarrow> 0 \<le> t \<Longrightarrow> t < c \<Longrightarrow>
    m' (dst + d + t) = m (src + s + t)"
  by (simp add: assigned_def)

definition write_all :: "int \<Rightarrow> int \<Rightarrow> int \<Rightarrow> 'b mem \<Rightarrow> (int \<times> int) list \<Rightarrow> 'b mem \<Rightarrow> 'b mem" where
  "write_all dst src c m0 = fold (\<lambda>(d, s) m. write_block (dst + d) (read_block (src + s) c m0) m)"

lemma write_read: "write_block d (read_block s n m0) m = (\<lambda>a. if d \<le> a \<and> a < d + n then m0 (s + (a - d)) else m a)"
  by (auto simp: write_block_def read_block_def fun_eq_iff)

lemma buffered_write_all: "buffered_copy dst src c ds ss m = write_all dst src c m (zip ds ss) m"
  by (simp add: buffered_copy_def write_all_def zip_map2 fold_map comp_def split_def)

lemma write_all_spec:
  "spaced c ds \<Longrightarrow> length ds = length ss \<Longrightarrow>
   (\<forall>d s t. (d, s) \<in> set (zip ds ss) \<longrightarrow> 0 \<le> t \<longrightarrow> t < c \<longrightarrow> write_all dst src c m0 (zip ds ss) m (dst + d + t) = m0 (src + s + t))
   \<and> (\<forall>a. (\<forall>d \<in> set ds. a < dst + d \<or> dst + d + c \<le> a) \<longrightarrow> write_all dst src c m0 (zip ds ss) m a = m a)"
proof (induction ds arbitrary: ss m)
  case (Cons d ds)
  then obtain s ss' where ss: "ss = s # ss'" by (cases ss) auto
  define m1 where "m1 = write_block (dst + d) (read_block (src + s) c m0) m"
  have sp: "spaced c ds" "\<forall>d' \<in> set ds. d + c \<le> d'" using Cons.prems by (auto simp: spaced_def)
  have W: "write_all dst src c m0 (zip (d # ds) ss) m = write_all dst src c m0 (zip ds ss') m1"
    by (simp add: write_all_def ss m1_def)
  from Cons.IH [OF sp(1), of ss' m1] Cons.prems ss
  have ih: "\<And>d s t. (d, s) \<in> set (zip ds ss') \<Longrightarrow> 0 \<le> t \<Longrightarrow> t < c \<Longrightarrow> write_all dst src c m0 (zip ds ss') m1 (dst + d + t) = m0 (src + s + t)"
    "\<And>a. \<forall>d \<in> set ds. a < dst + d \<or> dst + d + c \<le> a \<Longrightarrow> write_all dst src c m0 (zip ds ss') m1 a = m1 a" by auto
  have "write_all dst src c m0 (zip ds ss') m1 (dst + d + t) = m0 (src + s + t)" if "0 \<le> t" "t < c" for t
  proof -
    have "\<forall>d' \<in> set ds. dst + d + t < dst + d' \<or> dst + d' + c \<le> dst + d + t" using sp(2) that by fastforce
    from ih(2) [OF this] show ?thesis using that by (simp add: m1_def write_read)
  qed
  with ih show ?case unfolding W by (auto simp: ss m1_def write_read)
qed (simp add: write_all_def)

lemma buffered_assigned:
  "spaced c ds \<Longrightarrow> length ds = length ss \<Longrightarrow> assigned c dst src ds ss m (buffered_copy dst src c ds ss m)"
  unfolding buffered_write_all assigned_def by (rule write_all_spec)

text \<open>When no chunk of the source overlaps one of the destination, copying directly is the same.\<close>

definition blocks_apart :: "int \<Rightarrow> int \<Rightarrow> int \<Rightarrow> int list \<Rightarrow> int list \<Rightarrow> bool" where
  "blocks_apart c dst src ds ss \<longleftrightarrow> (\<forall>d \<in> set ds. \<forall>s \<in> set ss. dst + d + c \<le> src + s \<or> src + s + c \<le> dst + d)"

lemma direct_write_all:
  assumes "\<forall>(d, s') \<in> set ps. \<forall>s \<in> S. dst + d + c \<le> src + s \<or> src + s + c \<le> dst + d" and "snd ` set ps \<subseteq> S"
    and "\<forall>s \<in> S. \<forall>t. 0 \<le> t \<and> t < c \<longrightarrow> m (src + s + t) = m0 (src + s + t)"
  shows "fold_res (\<lambda>m (d, s). memcpy (dst + d) (src + s) c m) m ps = Inr (write_all dst src c m0 ps m)"
  using assms
proof (induction ps arbitrary: m)
  case (Cons p ps)
  obtain d s where p: "p = (d, s)" by (cases p)
  let ?m1 = "write_block (dst + d) (read_block (src + s) c m0) m"
  have s: "s \<in> S" and apart: "\<And>s'. s' \<in> S \<Longrightarrow> dst + d + c \<le> src + s' \<or> src + s' + c \<le> dst + d"
    using Cons.prems p by auto
  have "m (src + s + (a - (dst + d))) = m0 (src + s + (a - (dst + d)))" if "dst + d \<le> a" "a < dst + d + c" for a
    using Cons.prems(3) s that by simp
  then have "memmove (dst + d) (src + s) c m = ?m1" by (auto simp: memmove_def write_read)
  with apart [OF s] have "memcpy (dst + d) (src + s) c m = Inr ?m1" by (auto simp: memcpy_def)
  moreover have "\<forall>s \<in> S. \<forall>t. 0 \<le> t \<and> t < c \<longrightarrow> ?m1 (src + s + t) = m0 (src + s + t)"
    using Cons.prems(3) apart by (fastforce simp: write_read)
  then have "fold_res (\<lambda>m (d, s). memcpy (dst + d) (src + s) c m) ?m1 ps = Inr (write_all dst src c m0 ps ?m1)"
    using Cons.IH [of ?m1] Cons.prems(1,2) by auto
  ultimately show ?case by (simp add: p write_all_def)
qed (simp add: write_all_def)

lemma direct_buffered:
  assumes "blocks_apart c dst src ds ss"
  shows "direct_copy dst src c ds ss m = Inr (buffered_copy dst src c ds ss m)"
  unfolding direct_copy_def buffered_write_all
  by (rule direct_write_all [where S = "set ss"]) (use assms in \<open>auto simp: blocks_apart_def dest: set_zip_leftD set_zip_rightD\<close>)

lemma zip_expand:
  "length ds = length ss \<Longrightarrow> zip (expand c es ds) (expand c es ss)
     = concat (map (\<lambda>(d, s). map (\<lambda>j. (d + es * int j, s + es * int j)) [0..<nat (c div es)]) (zip ds ss))"
proof (induction ds arbitrary: ss)
  case (Cons d ds)
  then show ?case by (cases ss) (simp_all add: expand_def zip_append zip_map_map zip_same_conv_map comp_def)
qed (simp add: expand_def)

lemma assigned_expand:
  assumes "assigned (es * int q) dst src ds ss m m'" and "length ds = length ss" and es: "0 < es"
  shows "assigned es dst src (expand (es * int q) es ds) (expand (es * int q) es ss) m m'"
  unfolding assigned_def
proof (intro conjI allI impI)
  fix d s t assume ds: "(d, s) \<in> set (zip (expand (es * int q) es ds) (expand (es * int q) es ss))" and t: "0 \<le> t" "t < es"
  then obtain d' s' j where j: "(d', s') \<in> set (zip ds ss)" "d = d' + es * int j" "s = s' + es * int j" "j < q"
    using es by (auto simp: zip_expand [OF assms(2)])
  have "es * (int j + 1) \<le> es * int q" using j(4) es by (intro mult_left_mono) auto
  then have "es * int j + t < es * int q" using t by (simp add: distrib_left)
  moreover have "0 \<le> es * int j + t" using t es by simp
  ultimately have "m' (dst + d' + (es * int j + t)) = m (src + s' + (es * int j + t))"
    using assms(1) j(1) unfolding assigned_def by blast
  then show "m' (dst + d + t) = m (src + s + t)" by (simp add: j(2,3) add.assoc)
next
  fix a assume a: "\<forall>d \<in> set (expand (es * int q) es ds). a < dst + d \<or> dst + d + es \<le> a"
  have "a < dst + d \<or> dst + d + es * int q \<le> a" if d: "d \<in> set ds" for d
  proof (rule ccontr)
    assume "\<not> ?thesis"
    then have in_d: "0 \<le> a - (dst + d)" "a - (dst + d) < es * int q" by auto
    define j where "j = nat ((a - (dst + d)) div es)"
    have j: "int j = (a - (dst + d)) div es" using in_d es by (simp add: j_def pos_imp_zdiv_nonneg_iff)
    have eq: "a - (dst + d) = es * int j + (a - (dst + d)) mod es" using j by simp
    have "es * int j < es * int q" using eq in_d(2) pos_mod_sign [OF es, of "a - (dst + d)"] by linarith
    then have "j < q" using es by simp
    then have "d + es * int j \<in> set (expand (es * int q) es ds)" using d es by (auto simp: expand_def intro!: bexI [of _ d] image_eqI [of _ _ j])
    with a have "a < dst + (d + es * int j) \<or> dst + (d + es * int j) + es \<le> a" by blast
    moreover note eq
    moreover have "0 \<le> (a - (dst + d)) mod es" "(a - (dst + d)) mod es < es" using es by simp_all
    ultimately show False by linarith
  qed
  then show "m' a = m a" using assms(1) by (simp add: assigned_def)
qed

subsection \<open>Sections that are not contiguous\<close>

lemma spaced_nth_mono: "spaced c xs \<Longrightarrow> 0 \<le> c \<Longrightarrow> i \<le> j \<Longrightarrow> j < length xs \<Longrightarrow> xs ! i \<le> xs ! j"
  by (cases "i = j") (auto simp: spaced_def dest!: sorted_wrt_nth_less [of _ _ i j])

lemma spaced_expand:
  assumes "spaced es (expand (es * int q) es ds)" and "0 < es" "0 < q"
  shows "spaced (es * int q) ds"
  using assms(1)
proof (induction ds)
  case (Cons d ds)
  have ex: "expand (es * int q) es (d # ds) = map (\<lambda>j. d + es * int j) [0..<q] @ expand (es * int q) es ds"
    using assms(2) by (simp add: expand_def)
  have "d + es * int q \<le> d'" if "d' \<in> set ds" for d'
  proof -
    have "d + es * int (q - 1) \<in> set (map (\<lambda>j. d + es * int j) [0..<q])"
      unfolding set_map set_upt by (rule imageI) (use assms(3) in simp)
    moreover have "d' \<in> set (expand (es * int q) es ds)" using that assms(2,3) by (force simp: expand_def)
    ultimately have "d + es * int (q - 1) + es \<le> d'" using Cons.prems unfolding ex spaced_append by blast
    then show ?thesis using assms(3) by (simp add: of_nat_diff algebra_simps)
  qed
  with Cons.IH Cons.prems ex show ?case by (simp add: spaced_append) (simp add: spaced_def)
qed (simp add: spaced_def)

lemma not_overlapping_apart:
  assumes "spaced c ds" "spaced c ss" "0 < c" "length ds = n" "length ss = n"
    and "\<not> XMP_check_overlapping (dst + ds ! 0) (dst + ds ! (n - 1) + c) (src + ss ! 0) (src + ss ! (n - 1) + c)"
  shows "blocks_apart c dst src ds ss"
  unfolding blocks_apart_def
proof (intro ballI)
  fix d s assume "d \<in> set ds" "s \<in> set ss"
  then obtain i j where i: "i < n" "d = ds ! i" and j: "j < n" "s = ss ! j"
    using assms(4,5) by (auto simp: in_set_conv_nth)
  have "ds ! 0 \<le> d" "d \<le> ds ! (n - 1)" "ss ! 0 \<le> s" "s \<le> ss ! (n - 1)"
    using i j assms by (auto intro!: spaced_nth_mono [where c = c])
  with assms(3,6) show "dst + d + c \<le> src + s \<or> src + s + c \<le> dst + d"
    unfolding XMP_check_overlapping_def by linarith
qed

lemma row_cong: "map as_elmts xs = map as_elmts ys \<Longrightarrow> row es xs = row es ys"
proof (induction xs arbitrary: ys)
  case (Cons x xs)
  from Cons.prems obtain y ys' where ys: "ys = y # ys'" "as_elmts x = as_elmts y" "map as_elmts xs = map as_elmts ys'"
    by (cases ys) auto
  from Cons.IH [OF ys(3)] ys(1,2) show ?case by simp
qed simp

lemma same_shape_eq:
  assumes ok: "sec_ok es xs" "sec_ok es ys" and shape: "is_the_same_shape (length xs) (length ys) xs ys"
  shows "xs = ys"
proof (rule nth_equalityI)
  show len: "length xs = length ys" using shape by (simp add: is_the_same_shape_def)
  have f: "as_start (xs ! i) = as_start (ys ! i)" "as_length (xs ! i) = as_length (ys ! i)"
    "as_elmts (xs ! i) = as_elmts (ys ! i)" "as_stride (xs ! i) = as_stride (ys ! i)" if "i < length xs" for i
    using shape that by (simp_all add: is_the_same_shape_def)
  have "map as_elmts xs = map as_elmts ys" by (rule nth_equalityI) (use len f in simp_all)
  then have "row es (drop i xs) = row es (drop i ys)" for i by (intro row_cong) (simp flip: drop_map)
  then have "as_distance (xs ! i) = as_distance (ys ! i)" if "i < length xs" for i
    using sec_ok_nth(1) [OF ok(1)] sec_ok_nth(1) [OF ok(2)] that len by simp
  with f show "xs ! i = ys ! i" if "i < length xs" for i using that by (intro array_section.equality) simp_all
qed

lemma set_stride_chain:
  assumes "length xs \<in> {1..5}" and "level_chain xs c (length xs - 1) = Inr ds"
  shows "XMP_set_stride junk xs (length xs) c (length ds) = Inr ds"
proof -
  have "length xs = 1 \<or> length xs = 2 \<or> length xs = 3 \<or> length xs = 4 \<or> length xs = 5" using assms(1) by auto
  with assms(2) show ?thesis
    by (auto simp: XMP_set_stride_def set_stride_1_def set_stride_2_def set_stride_3_def set_stride_4_def set_stride_5_def)
qed

lemma noncontiguous_assigns:
  assumes ok: "sec_ok es xs" "sec_ok es ys" and len: "map as_length xs = map as_length ys" and d: "length xs \<in> {1..5}"
    and N: "N = int (length (offs xs))"
  shows "\<exists>m'. local_NON_contiguous_copy junk dst src (length xs) (length ys) xs ys N N es m = Inr m'
    \<and> assigned es dst src (offs xs) (offs ys) m m'"
proof -
  have ly: "length ys = length xs" using len map_eq_imp_length_eq by metis
  define c where "c = XMP_calc_max_copy_chunk (length xs) (length ys) xs ys"
  have ne: "xs \<noteq> []" "ys \<noteq> []" using d ly by auto
  from max_chunk [OF ok len ne(1) c_def] obtain k l where k: "chunk_at es c xs k" "chunk_at es c ys l" by blast
  define q where "q = elems_from xs k"
  have es: "0 < es" and q: "0 < q" "c = es * int q"
    using sec_ok_es [OF ok(1)] elems_from_pos [OF ok(1)] chunk_at_size [OF ok(1) k(1)] by (auto simp: q_def)
  have c: "0 < c" "es \<le> c" "c div es = int q" using es q mult_left_mono [of 1 "int q" es] by auto
  obtain ds ss where ch: "level_chain xs c (length xs - 1) = Inr ds" "level_chain ys c (length ys - 1) = Inr ss"
    and ex: "offs xs = expand c es ds" "offs ys = expand c es ss"
    using level_chain_expand [OF ok(1) ne(1) k(1) c(2)] level_chain_expand [OF ok(2) ne(2) k(2) c(2)] by blast
  have lex: "length (expand c es zs) = length zs * q" for zs
    by (simp add: expand_def length_concat comp_def c(3) sum_list_triv)
  have "length (offs xs) = length (offs ys)" using len by (simp flip: elems_from_0 add: elems_from_def)
  then have n: "length ds = length ss" "nat (N div (c div es)) = length ds"
    using ex lex q(1) by (auto simp: N c(3))
  have pos: "0 < length ds" using offs_hd [OF ok(1)] lex ex(1) by (cases ds) (auto simp: expand_def)
  have sp: "spaced c ds" "spaced c ss"
    using spaced_expand [OF _ es q(1)] offs_range_spaced [OF ok(1)] offs_range_spaced [OF ok(2)] ex q(2) by auto
  have str: "XMP_set_stride junk xs (length xs) c (length ds) = Inr ds" "XMP_set_stride junk ys (length ys) c (length ds) = Inr ss"
    using set_stride_chain [OF d ch(1)] set_stride_chain [OF _ ch(2)] d ly n(1) by simp_all
  have same: "(if is_the_same_shape (length xs) (length ys) xs ys then Inr ds else XMP_set_stride junk ys (length ys) c (length ds)) = Inr ss"
    using str(2) same_shape_eq [OF ok] ch by auto
  have dir: "direct_copy dst src c ds ss m = Inr (buffered_copy dst src c ds ss m)"
    if "\<not> XMP_check_overlapping (dst + ds ! 0) (dst + ds ! (length ds - 1) + c) (src + ss ! 0) (src + ss ! (length ds - 1) + c)"
    using direct_buffered [OF not_overlapping_apart [OF sp c(1) refl n(1) [symmetric] that]] .
  have "local_NON_contiguous_copy junk dst src (length xs) (length ys) xs ys N N es m = Inr (buffered_copy dst src c ds ss m)"
    unfolding local_NON_contiguous_copy_def Let_def c_def [symmetric] n(2) str(1) bind_res_simps same
    using pos dir by simp
  with assigned_expand [OF buffered_assigned [OF sp(1) n(1), unfolded q(2)] n(1) es] ex q(2) show ?thesis by auto
qed

subsection \<open>Put and get on one node\<close>

text \<open>A contiguous section: its elements lie side by side.\<close>

definition contiguous :: "int \<Rightarrow> array_section list \<Rightarrow> bool" where
  "contiguous es xs \<longleftrightarrow> offs xs = map (\<lambda>j. es * int j) [0..<length (offs xs)]"

lemma memmove_assigned: "assigned n dst src [0] [0] m (memmove dst src n m)"
  by (auto simp: assigned_def memmove_def)

lemma contiguous_assigns:
  assumes es: "0 < es" and c: "contiguous es xs" "contiguous es ys" and len: "length (offs xs) = length (offs ys)"
    and N: "N = int (length (offs xs))"
  shows "\<exists>m'. XMP_local_contiguous_copy dst src N N es m = Inr m' \<and> assigned es dst src (offs xs) (offs ys) m m'"
proof -
  define n where "n = length (offs xs)"
  have "XMP_local_contiguous_copy dst src N N es m = Inr (memmove dst src (es * int n) m)"
    by (auto simp: XMP_local_contiguous_copy_def XMP_check_overlapping_def memcpy_def N n_def mult.commute Let_def)
  moreover have "offs zs = expand (es * int n) es [0]" if "contiguous es zs" "length (offs zs) = n" for zs
    using that es by (simp add: contiguous_def expand_def)
  then have "offs xs = expand (es * int n) es [0]" "offs ys = expand (es * int n) es [0]" using c len by (metis n_def)+
  ultimately show ?thesis
    using assigned_expand [OF memmove_assigned [of "es * int n" dst src m] _ es] by simp
qed

text \<open>
  C9. A put to the own node has the meaning of an array assignment: for conformable sections of one to five dimensions
  the copy succeeds without a use of memory that C leaves undefined, every element of the destination section gets the
  value that the element of the source section at the same place had before, also when the sections overlap, and no
  other byte changes. Sections passed as contiguous must be so.
\<close>

theorem local_put_assigns:
  assumes "sec_ok es dst_info" and "sec_ok es src_info" and "map as_length dst_info = map as_length src_info"
    and "length dst_info \<in> {1..5}" and "co_elmt_size desc = es" and "N = int (length (offs dst_info))"
    and "dc \<and> sc \<longrightarrow> contiguous es dst_info \<and> contiguous es src_info"
  shows "\<exists>m'. XMP_local_put junk desc src dc sc (length dst_info) (length src_info) dst_info src_info N N m = Inr m'
    \<and> assigned es (co_real_addr desc + XMP_get_offset dst_info (length dst_info)) (src + XMP_get_offset src_info (length src_info))
        (offs dst_info) (offs src_info) m m'"
proof -
  have l: "length (offs dst_info) = length (offs src_info)" using assms(3) by (simp flip: elems_from_0 add: elems_from_def)
  show ?thesis
  proof (cases "dc \<and> sc")
    case True
    then have "contiguous es dst_info" "contiguous es src_info" using assms(7) by auto
    from contiguous_assigns [OF sec_ok_es [OF assms(1)] this l assms(6)] True assms(5) show ?thesis
      by (simp add: XMP_local_put_def)
  next
    case False
    from noncontiguous_assigns [OF assms(1-4,6)] False assms(5) show ?thesis
      unfolding XMP_local_put_def Let_def by auto
  qed
qed

text \<open>Rows 1 and 3 of a matrix of 4 by 6 bytes go to columns 0 to 2 of rows 0 and 1 of the same matrix.\<close>

definition sec_src :: "array_section list" where
  "sec_src = [\<lparr>as_start = 1, as_length = 2, as_stride = 2, as_elmts = 4, as_distance = 6\<rparr>,
              \<lparr>as_start = 1, as_length = 3, as_stride = 2, as_elmts = 6, as_distance = 1\<rparr>]"

definition sec_dst :: "array_section list" where
  "sec_dst = [\<lparr>as_start = 0, as_length = 2, as_stride = 1, as_elmts = 4, as_distance = 6\<rparr>,
              \<lparr>as_start = 0, as_length = 3, as_stride = 1, as_elmts = 6, as_distance = 1\<rparr>]"

lemma sec_offs: "offs sec_dst = [0, 1, 2, 6, 7, 8]" "offs sec_src = [0, 2, 4, 12, 14, 16]"
  by (simp_all add: sec_src_def sec_dst_def offs_def dim_loop_def upto_by_def numeral_eq_Suc upt_rec)

theorem local_put_assigns_witness:
  "\<exists>m'. XMP_local_put (\<lambda>_. 0) \<lparr>co_real_addr = 100, co_elmt_size = 1\<rparr> 100 False False 2 2 sec_dst sec_src 6 6 (\<lambda>a. a) = Inr m'
     \<and> m' 100 = 107 \<and> m' 107 = 121 \<and> m' 103 = 103"
proof -
  let ?c = "\<lparr>co_real_addr = 100, co_elmt_size = 1\<rparr>"
  have ok: "sec_ok 1 sec_dst" "sec_ok 1 sec_src" "map as_length sec_dst = map as_length sec_src" "length sec_dst = 2" "length sec_src = 2"
    by (simp_all add: sec_src_def sec_dst_def)
  have g: "XMP_get_offset sec_dst 2 = 0" "XMP_get_offset sec_src 2 = 7"
    by (simp_all add: XMP_get_offset_def sec_src_def sec_dst_def)
  from local_put_assigns [of 1 sec_dst sec_src ?c 6 False False "\<lambda>_. 0" 100 "\<lambda>a. a"] ok
  obtain m' where m': "XMP_local_put (\<lambda>_. 0) ?c 100 False False 2 2 sec_dst sec_src 6 6 (\<lambda>a. a) = Inr m'"
    "assigned 1 100 107 [0, 1, 2, 6, 7, 8] [0, 2, 4, 12, 14, 16] (\<lambda>a. a) m'"
    by (auto simp: sec_offs g)
  have "m' (100 + 0 + 0) = 107 + 0 + 0" "m' (100 + 7 + 0) = 107 + 14 + 0"
    using assignedD [OF m'(2), of 0 0 0] assignedD [OF m'(2), of 7 14 0] by simp_all
  moreover have "m' 103 = 103" using m'(2) by (simp add: assigned_def)
  ultimately show ?thesis using m'(1) by simp
qed

lemma local_get_put:
  "XMP_local_get junk dst desc dc sc dd sd dst_info src_info dn sn m =
   XMP_local_put junk \<lparr>co_real_addr = dst, co_elmt_size = co_elmt_size desc\<rparr> (co_real_addr desc) dc sc dd sd dst_info src_info dn sn m"
  by (simp add: XMP_local_get_def XMP_local_put_def Let_def)

text \<open>
  In six and seven dimensions the copy of sections that are not contiguous fails: when a chunk is smaller than a
  step of dimension 3, the test that should be one of the alternatives is made as well, its loop has step 0, and the
  offsets are stored past the end of their array.
\<close>

theorem set_stride_overruns:
  assumes "sec_ok es xs" and "length xs = 6 \<or> length xs = 7" and "0 \<le> c" and "c < as_distance (xs ! 3)"
  shows "XMP_set_stride junk xs (length xs) c n = Inl OutOfBounds"
proof -
  have l: "3 < length xs" "2 < length xs" using assms(2) by auto
  have "as_distance (xs ! 3) \<le> as_distance (xs ! 2)"
    using sec_ok_nth(1) [OF assms(1) l(1)] sec_ok_nth(1) [OF assms(1) l(2)] row_drop_le [OF assms(1), of 3 4] assms(2) by auto
  moreover have "\<not> (\<exists>x \<in> set (take (Suc 3) xs). as_length x \<le> 0)"
    using sec_ok_nth(3) [OF assms(1)] by (force simp: in_set_conv_nth)
  then have "level_store xs c 3 = Inl OutOfBounds"
    using assms(3,4) by (simp add: level_store_def)
  moreover have "level_chain xs c 3 = (if as_distance (xs ! 2) > c then level_store xs c 3 else level_chain xs c 2)"
    using level_chain.simps(2) [of xs c 2] by simp
  ultimately have "level_chain xs c 3 = Inl OutOfBounds"
    using assms(4) by simp
  then have R: "bind_res r (\<lambda>a. bind_res (level_chain xs c 3) (\<lambda>b. Inr (a @ b))) = Inl OutOfBounds"
    if "r = Inl OutOfBounds \<or> (\<exists>a. r = Inr a)" for r :: "int list res"
    using that by auto
  have "set_stride_6 xs c = Inl OutOfBounds" "set_stride_7 xs c = Inl OutOfBounds"
    unfolding set_stride_6_def set_stride_7_def by (rule R; simp add: level_store_def guard_res_def)+
  with assms(2) show ?thesis by (auto simp: XMP_set_stride_def)
qed

text \<open>Every other element of the last dimension of an array with six dimensions of extent 2.\<close>

definition sec_six :: "array_section list" where
  "sec_six = map (\<lambda>d. \<lparr>as_start = 0, as_length = if d = 1 then 1 else 2, as_stride = if d = 1 then 2 else 1, as_elmts = 2, as_distance = d\<rparr>)
     [32, 16, 8, 4, 2, 1]"

theorem set_stride_overruns_witness:
  "sec_ok 1 sec_six \<and> XMP_calc_max_copy_chunk 6 6 sec_six sec_six = 1 \<and> XMP_set_stride (\<lambda>_. 0) sec_six 6 1 32 = Inl OutOfBounds"
proof -
  have six: "sec_ok 1 sec_six" "length sec_six = 6" "1 < as_distance (sec_six ! 3)" by (simp_all add: sec_six_def)
  moreover have "XMP_calc_max_copy_chunk 6 6 sec_six sec_six = 1" by code_simp
  ultimately show ?thesis using set_stride_overruns [of 1 sec_six 1 "\<lambda>_. 0" 32] by simp
qed

end
