(* ===== verification/Xmp_Pack_Laws.thy ===== *)
theory Xmp_Pack_Laws
  imports Xmp_Copy_Laws
begin

text \<open>
  Packing a section into a buffer, unpacking it and filling it with one value (\<open>_XMP_stride_memcpy_1dim\<close> to
  \<open>_XMP_stride_memcpy_7dim\<close>).
\<close>

subsection \<open>The function for a number of dimensions\<close>

definition memcpy_of :: "nat \<Rightarrow> int \<Rightarrow> int \<Rightarrow> array_section list \<Rightarrow> int \<Rightarrow> copy_kind \<Rightarrow> 'b mem \<Rightarrow> 'b mem res" where
  "memcpy_of n =
     (if n = 1 then XMP_stride_memcpy_1dim else if n = 2 then XMP_stride_memcpy_2dim else if n = 3 then XMP_stride_memcpy_3dim
      else if n = 4 then XMP_stride_memcpy_4dim else if n = 5 then XMP_stride_memcpy_5dim
      else if n = 6 then XMP_stride_memcpy_6dim else XMP_stride_memcpy_7dim)"

lemma memcpy_of: "n \<in> {1..7} \<Longrightarrow> memcpy_of n = stride_memcpy n"
proof -
  assume "n \<in> {1..7}"
  then have "n = 1 \<or> n = 2 \<or> n = 3 \<or> n = 4 \<or> n = 5 \<or> n = 6 \<or> n = 7" by auto
  then show ?thesis
    by (elim disjE) (simp_all add: memcpy_of_def XMP_stride_memcpy_1dim_def XMP_stride_memcpy_2dim_def XMP_stride_memcpy_3dim_def
      XMP_stride_memcpy_4dim_def XMP_stride_memcpy_5dim_def XMP_stride_memcpy_6dim_def XMP_stride_memcpy_7dim_def)
qed

subsection \<open>Loops over a buffer\<close>

text \<open>The offsets of \<open>n\<close> chunks side by side.\<close>

definition side_by_side :: "int \<Rightarrow> nat \<Rightarrow> int list" where
  "side_by_side c n = map (\<lambda>j. c * int j) [0..<n]"

lemma upt_Suc_shift: "[0..<Suc n] = 0 # map Suc [0..<n]"
  by (simp add: upt_conv_Cons map_Suc_upt del: upt_Suc)

lemma side_shift: "map (\<lambda>j. k + c * int j) [0..<Suc n] = k # map (\<lambda>j. (k + c) + c * int j) [0..<n]"
  by (simp add: upt_Suc_shift distrib_left add.assoc del: upt_Suc)

text \<open>Both loops count an offset into the buffer along; \<open>put_chunk\<close> is the copy of one chunk.\<close>

lemma counted_loop:
  "bind_res (fold_res (\<lambda>(m, off) tmp. bind_res (put_chunk off tmp m) (\<lambda>m. Inr (m, off + c))) (m, k) os) (\<lambda>(m, _). Inr m)
   = fold_res (\<lambda>m (d, s). put_chunk d s m) m (zip (map (\<lambda>j. k + c * int j) [0..<length os]) os)"
proof (induction os arbitrary: m k)
  case (Cons s os)
  show ?case
    unfolding list.size(4) add_0_right add_Suc_right side_shift zip_Cons_Cons
    by (cases "put_chunk k s m") (simp_all add: Cons.IH)
qed simp

lemma pack_loop_direct: "pack_loop b a c os m = direct_copy b a c (side_by_side c (length os)) os m"
  using counted_loop [of "\<lambda>off tmp. memcpy (b + off) (a + tmp) c" c m 0 os]
  by (simp add: pack_loop_def direct_copy_def side_by_side_def)

lemma fold_res_swap: "fold_res (\<lambda>m (d, s). f m s d) m (zip ds ss) = fold_res (\<lambda>m (s, d). f m s d) m (zip ss ds)"
proof (induction ds arbitrary: ss m)
  case (Cons d ds)
  show ?case
  proof (cases ss)
    case (Cons s ss')
    then show ?thesis using Cons.IH by (cases "f m s d") simp_all
  qed simp
qed simp

lemma unpack_loop_direct: "unpack_loop a b c os m = direct_copy a b c os (side_by_side c (length os)) m"
  using counted_loop [of "\<lambda>off tmp. memcpy (a + tmp) (b + off) c" c m 0 os]
  by (simp add: unpack_loop_def direct_copy_def side_by_side_def fold_res_swap [where f = "\<lambda>m d s. memcpy (a + d) (b + s) c m"])

lemma expand_side_by_side:
  assumes "0 < es"
  shows "expand (es * int q) es (side_by_side (es * int q) n) = side_by_side es (n * q)"
proof -
  have "expand (es * int q) es (side_by_side (es * int q) n) = concat (map (\<lambda>i. map (\<lambda>j. es * int (i * q + j)) [0..<q]) [0..<n])"
    using assms by (simp add: expand_def side_by_side_def comp_def algebra_simps)
  then show ?thesis using concat_blocks [of "\<lambda>j. es * int j" q n] by (simp only: side_by_side_def)
qed

lemma side_by_side_props:
  assumes "0 < c"
  shows "length (side_by_side c n) = n" "spaced c (side_by_side c n)" "\<forall>d \<in> set (side_by_side c n). 0 \<le> d \<and> d + c \<le> c * int n"
proof -
  show "length (side_by_side c n) = n" by (simp add: side_by_side_def)
  have le: "c * int i + c \<le> c * int j" if "i < j" for i j
    using mult_left_mono [of "int i + 1" "int j" c] that assms by (simp add: distrib_left)
  show "spaced c (side_by_side c n)"
    unfolding spaced_def side_by_side_def sorted_wrt_map by (rule sorted_wrt_mono_rel [OF _ sorted_wrt_upt]) (auto simp: le)
  show "\<forall>d \<in> set (side_by_side c n). 0 \<le> d \<and> d + c \<le> c * int n"
    using assms by (auto simp: side_by_side_def le)
qed

subsection \<open>Chunks of the last dimension\<close>

lemma nest_unit: "0 < n \<Longrightarrow> nest (ls @ [(n, n, s)]) = nest ls"
  by (induction ls) (auto simp: upto_by_self)

text \<open>
  \<open>q\<close> elements are copied together, at the offsets \<open>ds\<close>: all elements of the last dimension when its stride is 1, and
  one element otherwise.
\<close>

definition inner_chunks :: "int \<Rightarrow> array_section list \<Rightarrow> nat \<Rightarrow> int list \<Rightarrow> bool" where
  "inner_chunks es xs q ds \<longleftrightarrow>
     0 < q \<and> (if as_stride (last xs) = 1 then q = nat (as_length (last xs)) \<and> ds = nest (map (dim_loop 1) (butlast xs))
              else q = 1 \<and> ds = offs xs)"

lemma inner_chunks_ex:
  assumes ok: "sec_ok es xs" and ne: "xs \<noteq> []"
  obtains q ds where "inner_chunks es xs q ds" and "offs xs = expand (es * int q) es ds"
proof (cases "as_stride (last xs) = 1")
  case True
  define q where "q = nat (as_length (last xs))"
  let ?ds = "nest (map (dim_loop 1) (butlast xs))"
  have xs: "xs = butlast xs @ [last xs]" using ne by simp
  have l: "0 < as_length (last xs)" "as_distance (last xs) = es"
    using sec_ok_nth [OF ok, of "length xs - 1"] ne by (simp_all add: last_conv_nth)
  have "offs xs = expand (int q * as_distance (last xs)) es (nest (map (dim_loop 1) (butlast xs) @ [dim_loop q (last xs)]))"
    using level_expand [of es "butlast xs" "last xs" "[]" q] ok ne True by (simp add: q_def)
  then have "offs xs = expand (es * int q) es ?ds"
    using l by (simp add: dim_loop_def q_def nest_unit mult.commute)
  moreover have "inner_chunks es xs q ?ds" using True l by (simp add: inner_chunks_def q_def)
  ultimately show ?thesis by (rule that [rotated])
next
  case False
  have "offs xs = expand (es * int 1) es (offs xs)" using sec_ok_es [OF ok] by (simp add: expand_def)
  with False show ?thesis by (intro that [of 1 "offs xs"]) (simp_all add: inner_chunks_def)
qed

lemma inner_take: "xs \<noteq> [] \<Longrightarrow> xs ! (length xs - Suc 0) = last xs \<and> take (length xs - Suc 0) xs = butlast xs"
  by (simp add: last_conv_nth butlast_conv_take)

lemma stride_memcpy_chunks:
  assumes "inner_chunks es xs q ds" and "xs \<noteq> []" and "sec_ok es xs"
  shows "stride_memcpy (length xs) b a xs es XMP_PACK m = pack_loop b a (es * int q) ds m"
    and "stride_memcpy (length xs) a b xs es XMP_UNPACK m = unpack_loop a b (es * int q) ds m"
    and "stride_memcpy (length xs) a b xs es XMP_SCALAR_MCOPY m = scalar_loop a b es (offs xs) m"
  using assms(1) sec_ok_nth(3) [OF assms(3), of "length xs - 1"] assms(2)
  by (auto simp: stride_memcpy_def inner_chunks_def inner_take [OF assms(2)] offs_def Let_def split: if_splits)

lemma chunk_range:
  assumes "sec_ok es xs" and "offs xs = expand (es * int q) es ds" and "0 < q" and "d \<in> set ds"
  shows "0 \<le> d" and "d + es * int q \<le> row es xs"
proof -
  note es = sec_ok_es [OF assms(1)]
  have in_offs: "d + es * int j \<in> set (offs xs)" if "j < q" for j using assms(2,4) es that by (force simp: expand_def)
  note r = conjunct2 [OF offs_range_spaced [OF assms(1)], rule_format]
  show "0 \<le> d" using r [OF in_offs [OF assms(3)]] by simp
  have "d + es * int (q - 1) + es \<le> row es xs" using r [OF in_offs [of "q - 1"]] assms(3) by simp
  then show "d + es * int q \<le> row es xs" using assms(3) by (simp add: of_nat_diff algebra_simps)
qed

subsection \<open>Packing and unpacking\<close>

text \<open>The buffer at \<open>b\<close> holds the elements of the section and does not overlap the array from \<open>a\<close> on.\<close>

definition buffer_apart :: "int \<Rightarrow> array_section list \<Rightarrow> int \<Rightarrow> int \<Rightarrow> bool" where
  "buffer_apart es xs b a \<longleftrightarrow> b + es * int (length (offs xs)) \<le> a \<or> a + row es xs \<le> b"

lemma chunks_apart:
  assumes ok: "sec_ok es xs" and ex: "offs xs = expand (es * int q) es ds" and q: "0 < q" and apart: "buffer_apart es xs b a"
  shows "blocks_apart (es * int q) b a (side_by_side (es * int q) (length ds)) ds"
    and "blocks_apart (es * int q) a b ds (side_by_side (es * int q) (length ds))"
    and "side_by_side es (length (offs xs)) = expand (es * int q) es (side_by_side (es * int q) (length ds))"
    and "spaced (es * int q) ds" and "spaced (es * int q) (side_by_side (es * int q) (length ds))"
proof -
  note es = sec_ok_es [OF ok]
  have c: "0 < es * int q" using es q by simp
  have n: "length (offs xs) = length ds * q" unfolding ex using es by (simp add: expand_def length_concat comp_def sum_list_triv)
  have P: "b + d + es * int q \<le> a + s \<or> a + s + es * int q \<le> b + d"
    if "d \<in> set (side_by_side (es * int q) (length ds))" "s \<in> set ds" for d s
  proof -
    have "0 \<le> d" "d + es * int q \<le> es * int (length (offs xs))"
      using side_by_side_props(3) [OF c, of "length ds"] that(1) by (simp_all add: n algebra_simps)
    with chunk_range [OF ok ex q that(2)] apart show ?thesis unfolding buffer_apart_def by linarith
  qed
  then show "blocks_apart (es * int q) b a (side_by_side (es * int q) (length ds)) ds"
    and "blocks_apart (es * int q) a b ds (side_by_side (es * int q) (length ds))"
    by (auto simp: blocks_apart_def)
  show "side_by_side es (length (offs xs)) = expand (es * int q) es (side_by_side (es * int q) (length ds))"
    by (simp add: expand_side_by_side [OF es] n)
  show "spaced (es * int q) ds" using spaced_expand [OF _ es q] offs_range_spaced [OF ok] ex by auto
  show "spaced (es * int q) (side_by_side (es * int q) (length ds))" using side_by_side_props(2) [OF c] .
qed

lemma pack_unpack_assigned:
  assumes ok: "sec_ok es xs" and n: "length xs \<in> {1..7}" and apart: "buffer_apart es xs b a"
  shows "\<exists>m'. memcpy_of (length xs) b a xs es XMP_PACK m = Inr m' \<and> assigned es b a (side_by_side es (length (offs xs))) (offs xs) m m'"
    and "\<exists>m'. memcpy_of (length xs) a b xs es XMP_UNPACK m = Inr m' \<and> assigned es a b (offs xs) (side_by_side es (length (offs xs))) m m'"
proof -
  have ne: "xs \<noteq> []" using n by auto
  obtain q ds where qd: "inner_chunks es xs q ds" and ex: "offs xs = expand (es * int q) es ds"
    using inner_chunks_ex [OF ok ne] .
  then have q: "0 < q" by (simp add: inner_chunks_def)
  let ?c = "es * int q" and ?bs = "side_by_side (es * int q) (length ds)"
  note es = sec_ok_es [OF ok] and A = chunks_apart [OF ok ex q apart] and cp = stride_memcpy_chunks [OF qd ne ok]
  have l: "length ?bs = length ds" by (simp add: side_by_side_def)
  show "\<exists>m'. memcpy_of (length xs) b a xs es XMP_PACK m = Inr m' \<and> assigned es b a (side_by_side es (length (offs xs))) (offs xs) m m'"
    using assigned_expand [OF buffered_assigned [OF A(5) l, of b a m] l es]
    by (simp add: memcpy_of [OF n] cp(1) pack_loop_direct direct_buffered [OF A(1)] A(3) flip: ex)
  show "\<exists>m'. memcpy_of (length xs) a b xs es XMP_UNPACK m = Inr m' \<and> assigned es a b (offs xs) (side_by_side es (length (offs xs))) m m'"
    using assigned_expand [OF buffered_assigned [OF A(4) l [symmetric], of a b m] l [symmetric] es]
    by (simp add: memcpy_of [OF n] cp(2) unpack_loop_direct direct_buffered [OF A(2)] A(3) flip: ex)
qed

text \<open>
  C18. A section of one to seven dimensions that is packed into a buffer and unpacked from it into a conformable section
  arrives there: every element of the destination gets the value that the element of the source at the same place had
  before, also when source and destination overlap, and outside of the buffer nothing else changes.
\<close>

theorem pack_unpack_roundtrip:
  assumes "sec_ok es xs" and "sec_ok es ys" and "map as_length xs = map as_length ys" and "length xs \<in> {1..7}"
    and "buffer_apart es xs b a" and "buffer_apart es ys b a'"
  shows "\<exists>m1 m2. memcpy_of (length xs) b a xs es XMP_PACK m = Inr m1 \<and> memcpy_of (length ys) a' b ys es XMP_UNPACK m1 = Inr m2
    \<and> (\<forall>i t. i < length (offs xs) \<longrightarrow> 0 \<le> t \<longrightarrow> t < es \<longrightarrow> m2 (a' + offs ys ! i + t) = m (a + offs xs ! i + t))
    \<and> (\<forall>c. (c < b \<or> b + es * int (length (offs xs)) \<le> c) \<longrightarrow> (\<forall>d \<in> set (offs ys). c < a' + d \<or> a' + d + es \<le> c) \<longrightarrow> m2 c = m c)"
proof -
  let ?N = "length (offs xs)"
  have l: "length ys = length xs" "length (offs ys) = ?N"
    using assms(3) map_eq_imp_length_eq by (metis, simp flip: elems_from_0 add: elems_from_def)
  note es = sec_ok_es [OF assms(1)]
  obtain m1 where m1: "memcpy_of (length xs) b a xs es XMP_PACK m = Inr m1" "assigned es b a (side_by_side es ?N) (offs xs) m m1"
    using pack_unpack_assigned(1) [OF assms(1,4,5)] by blast
  obtain m2 where m2: "memcpy_of (length ys) a' b ys es XMP_UNPACK m1 = Inr m2" "assigned es a' b (offs ys) (side_by_side es ?N) m1 m2"
    using pack_unpack_assigned(2) [OF assms(2) _ assms(6)] assms(4) l by metis
  have bs: "length (side_by_side es ?N) = ?N" "\<forall>d \<in> set (side_by_side es ?N). 0 \<le> d \<and> d + es \<le> es * int ?N"
    using side_by_side_props [OF es] by auto
  have "m2 (a' + offs ys ! i + t) = m (a + offs xs ! i + t)" if "i < ?N" "0 \<le> t" "t < es" for i t
    using assignedD [OF m2(2), of "offs ys ! i" "side_by_side es ?N ! i"] assignedD [OF m1(2), of "side_by_side es ?N ! i" "offs xs ! i"]
      that l(2) bs(1) by (simp add: set_zip) metis
  moreover have "m2 c = m c" if "c < b \<or> b + es * int ?N \<le> c" "\<forall>d \<in> set (offs ys). c < a' + d \<or> a' + d + es \<le> c" for c
  proof -
    have "m2 c = m1 c" using m2(2) that(2) unfolding assigned_def by blast
    moreover have "\<forall>d \<in> set (side_by_side es ?N). c < b + d \<or> b + d + es \<le> c" using bs(2) that(1) by fastforce
    then have "m1 c = m c" using m1(2) unfolding assigned_def by blast
    ultimately show ?thesis by simp
  qed
  ultimately show ?thesis using m1(1) m2(1) by blast
qed

theorem pack_unpack_roundtrip_witness:
  "\<exists>m1 m2. memcpy_of 2 0 107 sec_src 1 XMP_PACK (\<lambda>a. a) = Inr m1 \<and> memcpy_of 2 100 0 sec_dst 1 XMP_UNPACK m1 = Inr m2
     \<and> m2 100 = 107 \<and> m2 107 = 121 \<and> m2 103 = 103"
proof -
  have ok: "sec_ok 1 sec_dst" "sec_ok 1 sec_src" "map as_length sec_src = map as_length sec_dst" "length sec_dst = 2" "length sec_src = 2"
    "row 1 sec_dst = 24" "row 1 sec_src = 24"
    by (simp_all add: sec_src_def sec_dst_def)
  have apart: "buffer_apart 1 sec_src 0 107" "buffer_apart 1 sec_dst 0 100" by (simp_all add: buffer_apart_def sec_offs ok)
  from pack_unpack_roundtrip [OF ok(2,1,3) _ apart, of "\<lambda>a. a", unfolded ok(4,5)] obtain m1 m2
    where m: "memcpy_of 2 0 107 sec_src 1 XMP_PACK (\<lambda>a. a) = Inr m1" "memcpy_of 2 100 0 sec_dst 1 XMP_UNPACK m1 = Inr m2"
      and v: "\<forall>i t. i < length (offs sec_src) \<longrightarrow> 0 \<le> t \<longrightarrow> t < 1 \<longrightarrow> m2 (100 + offs sec_dst ! i + t) = 107 + offs sec_src ! i + t"
      and k: "\<forall>c. (c < 0 \<or> 0 + 1 * int (length (offs sec_src)) \<le> c) \<longrightarrow>
        (\<forall>d \<in> set (offs sec_dst). c < 100 + d \<or> 100 + d + 1 \<le> c) \<longrightarrow> m2 c = c"
    by auto
  from v [rule_format, of 0 0] v [rule_format, of 4 0] spec [OF k, of 103] m show ?thesis by (simp add: sec_offs)
qed

subsection \<open>Filling a section with one value\<close>

definition value_apart :: "int \<Rightarrow> int \<Rightarrow> int \<Rightarrow> int list \<Rightarrow> bool" where
  "value_apart es dst src ds \<longleftrightarrow> (\<forall>d \<in> set ds. dst + d = src \<or> dst + d + es \<le> src \<or> src + es \<le> dst + d)"

lemma scalar_assigned:
  "spaced es ds \<Longrightarrow> value_apart es dst src ds \<Longrightarrow>
   \<exists>m'. scalar_loop dst src es ds m = Inr m' \<and> assigned es dst src ds (replicate (length ds) 0) m m'"
proof (induction ds arbitrary: m)
  case (Cons d ds)
  have sp: "spaced es ds" "\<And>d'. d' \<in> set ds \<Longrightarrow> d + es \<le> d'" and va: "value_apart es dst src ds"
    and d: "dst + d = src \<or> dst + d + es \<le> src \<or> src + es \<le> dst + d"
    using Cons.prems by (auto simp: spaced_def value_apart_def)
  define m1 where "m1 = (if dst + d \<noteq> src then memmove (dst + d) src es m else m)"
  have step: "scalar_loop dst src es (d # ds) m = scalar_loop dst src es ds m1"
    using d by (auto simp: scalar_loop_def memcpy_def m1_def guard_res_def)
  from Cons.IH [OF sp(1) va, of m1] obtain m' where m': "scalar_loop dst src es ds m1 = Inr m'"
    "assigned es dst src ds (replicate (length ds) 0) m1 m'" by blast
  have src: "m1 (src + t) = m (src + t)" if "0 \<le> t" "t < es" for t using d that by (auto simp: m1_def memmove_def)
  have new: "m1 (dst + d + t) = m (src + t)" if "0 \<le> t" "t < es" for t using that by (auto simp: m1_def memmove_def)
  have kept: "m' a = m1 a" if "\<forall>d' \<in> set ds. a < dst + d' \<or> dst + d' + es \<le> a" for a
    using m'(2) that by (simp add: assigned_def)
  have "m' (dst + d + t) = m (src + 0 + t)" if "0 \<le> t" "t < es" for t
    using kept [of "dst + d + t"] new [OF that] sp(2) that by force
  moreover have "m' (dst + d' + t) = m (src + s + t)"
    if "(d', s) \<in> set (zip ds (replicate (length ds) 0))" "0 \<le> t" "t < es" for d' s t
    using assignedD [OF m'(2) that] src [OF that(2,3)] set_zip_rightD [OF that(1)] by (auto split: if_splits)
  moreover have "m' a = m a" if "\<forall>d' \<in> set (d # ds). a < dst + d' \<or> dst + d' + es \<le> a" for a
    using kept [of a] that by (auto simp: m1_def memmove_def)
  ultimately have "assigned es dst src (d # ds) (replicate (length (d # ds)) 0) m m'"
    unfolding assigned_def by auto
  with m'(1) show ?case unfolding step by blast
qed (simp add: scalar_loop_def assigned_def)

text \<open>
  C20. A put of one element to a section of the own node fills the section: for one to seven dimensions every element
  of the section gets the value of the source element and no other byte changes, also when the source element is itself
  an element of the section.
\<close>

theorem local_put_fills:
  assumes "sec_ok es dst_info" and "length dst_info \<in> {1..7}" and "co_elmt_size desc = es"
    and "N = int (length (offs dst_info))" and "N \<noteq> 1" and "dc \<and> sc \<longrightarrow> contiguous es dst_info"
    and "dst = co_real_addr desc + XMP_get_offset dst_info (length dst_info)" and "elt = src + XMP_get_offset src_info src_dims"
    and "value_apart es dst elt (offs dst_info)"
  shows "\<exists>m'. XMP_local_put junk desc src dc sc (length dst_info) src_dims dst_info src_info N 1 m = Inr m'
    \<and> assigned es dst elt (offs dst_info) (replicate (nat N) 0) m m'"
proof -
  have ne: "dst_info \<noteq> []" using assms(2) by auto
  obtain q ds where "inner_chunks es dst_info q ds" using inner_chunks_ex [OF assms(1) ne] .
  note cp = stride_memcpy_chunks(3) [OF this ne assms(1)]
  have "local_NON_contiguous_copy junk dst elt (length dst_info) src_dims dst_info src_info N 1 es m
      = memcpy_of (length dst_info) dst elt dst_info es XMP_SCALAR_MCOPY m"
    using assms(2,5) by (simp add: local_NON_contiguous_copy_def memcpy_of_def)
  then have "local_NON_contiguous_copy junk dst elt (length dst_info) src_dims dst_info src_info N 1 es m = scalar_loop dst elt es (offs dst_info) m"
    by (simp add: memcpy_of [OF assms(2)] cp)
  moreover have "XMP_local_contiguous_copy dst elt N 1 es m = scalar_loop dst elt es (offs dst_info) m" if "contiguous es dst_info"
  proof -
    have "map (\<lambda>i. int i * es) [0..<nat N] = offs dst_info"
      using that assms(4) by (simp add: contiguous_def mult.commute [of _ es])
    then show ?thesis using assms(5) by (simp add: XMP_local_contiguous_copy_def)
  qed
  ultimately have "XMP_local_put junk desc src dc sc (length dst_info) src_dims dst_info src_info N 1 m = scalar_loop dst elt es (offs dst_info) m"
    using assms(3,6-8) by (auto simp: XMP_local_put_def Let_def)
  with scalar_assigned [OF conjunct1 [OF offs_range_spaced [OF assms(1)]] assms(9), of m] assms(4) show ?thesis by simp
qed

theorem local_put_fills_witness:
  "\<exists>m'. XMP_local_put (\<lambda>_. 0) \<lparr>co_real_addr = 100, co_elmt_size = 1\<rparr> 107 False True 2 0 sec_dst [] 6 1 (\<lambda>a. a) = Inr m'
     \<and> m' 100 = 107 \<and> m' 107 = 107 \<and> m' 103 = 103"
proof -
  let ?c = "\<lparr>co_real_addr = 100, co_elmt_size = 1\<rparr>"
  have ok: "sec_ok 1 sec_dst" "length sec_dst = 2" "XMP_get_offset sec_dst 2 = 0" "XMP_get_offset [] 0 = 0"
    by (simp_all add: sec_dst_def XMP_get_offset_def)
  have apart: "value_apart 1 100 107 (offs sec_dst)" by (simp add: value_apart_def sec_offs)
  from local_put_fills [of 1 sec_dst ?c 6 False True 100 107 107 "[]" 0 "\<lambda>_. 0" "\<lambda>a. a"] ok apart
  obtain m' where m': "XMP_local_put (\<lambda>_. 0) ?c 107 False True 2 0 sec_dst [] 6 1 (\<lambda>a. a) = Inr m'"
    "assigned 1 100 107 (offs sec_dst) (replicate 6 0) (\<lambda>a. a) m'"
    by (auto simp: sec_offs)
  have "m' (100 + 0 + 0) = 107 + 0 + 0" "m' (100 + 7 + 0) = 107 + 0 + 0"
    using assignedD [OF m'(2), of 0 0 0] assignedD [OF m'(2), of 7 0 0] by (simp_all add: sec_offs numeral_eq_Suc)
  moreover have "m' 103 = 103" using m'(2) by (simp add: assigned_def sec_offs)
  ultimately show ?thesis using m'(1) by simp
qed

end
