(* ===== verification/Cfe_Const.thy ===== *)
theory Cfe_Const
  imports Omni_Prelude "HOL-Library.Word"
begin

unbundle bit_operations_syntax

text \<open>
  Constant folding in the C front end: \<open>src/C-FrontEnd/src/c-const.c\<close>, and the values of enumerators in
  \<open>src/C-FrontEnd/src/c-comp.c\<close>. The front end runs on a 64-bit machine: \<open>int\<close> and \<open>wchar_t\<close> have 32 bits, \<open>long\<close> and
  \<open>long long\<close> 64. A number is a 64-bit word, read as signed (\<open>ll\<close>) or unsigned (\<open>ull\<close>), or a \<open>long double\<close>, whose
  arithmetic is a parameter (\<open>ld_ops\<close>). Sums, differences and products wrap around.

  Trees of expressions have an address at every node; the marks \<open>e_isError\<close> are a list of addresses. Type analysis
  (\<open>resolveType\<close>, and whether a call is of a constant function) is an argument.
\<close>

subsection \<open>Types\<close>

datatype basic_type =
    BT_UNDEF | BT_VOID | BT_BOOL | BT_CHAR | BT_UNSIGNED_CHAR | BT_SHORT | BT_UNSIGNED_SHORT | BT_INT | BT_UNSIGNED_INT
  | BT_LONG | BT_UNSIGNED_LONG | BT_WCHAR | BT_LONGLONG | BT_UNSIGNED_LONGLONG | BT_FLOAT | BT_DOUBLE | BT_LONGDOUBLE
  | BT_FLOAT_IMAGINARY | BT_DOUBLE_IMAGINARY | BT_LONGDOUBLE_IMAGINARY
  | BT_FLOAT_COMPLEX | BT_DOUBLE_COMPLEX | BT_LONGDOUBLE_COMPLEX | BT_END

datatype num_kind = NK_LL | NK_ULL | NK_LD

definition getNumValueKind :: "basic_type \<Rightarrow> num_kind res" where
  "getNumValueKind bt =
     (if bt \<in> {BT_BOOL, BT_CHAR, BT_WCHAR, BT_SHORT, BT_INT, BT_LONG, BT_LONGLONG} then Inr NK_LL
      else if bt \<in> {BT_UNSIGNED_CHAR, BT_UNSIGNED_SHORT, BT_UNSIGNED_INT, BT_UNSIGNED_LONG, BT_UNSIGNED_LONGLONG} then Inr NK_ULL
      else if bt \<in> {BT_FLOAT, BT_DOUBLE, BT_LONGDOUBLE} then Inr NK_LD
      else Inl AssertFail)"

subsection \<open>Numbers\<close>

text \<open>
  The machine's \<open>long double\<close>: conversions, operations, and the bytes that a value shares with an integer in the union.
\<close>

record 'f ld_ops =
  ld_of_int :: "int \<Rightarrow> 'f"
  float_of_int :: "int \<Rightarrow> 'f"
  double_of_int :: "int \<Rightarrow> 'f"
  ld_to_float :: "'f \<Rightarrow> 'f"
  ld_to_double :: "'f \<Rightarrow> 'f"
  ld_trunc :: "'f \<Rightarrow> int"
  ld_neg :: "'f \<Rightarrow> 'f"
  ld_add :: "'f \<Rightarrow> 'f \<Rightarrow> 'f"
  ld_sub :: "'f \<Rightarrow> 'f \<Rightarrow> 'f"
  ld_mul :: "'f \<Rightarrow> 'f \<Rightarrow> 'f"
  ld_div :: "'f \<Rightarrow> 'f \<Rightarrow> 'f"
  ld_eq :: "'f \<Rightarrow> 'f \<Rightarrow> bool"
  ld_lt :: "'f \<Rightarrow> 'f \<Rightarrow> bool"
  ld_le :: "'f \<Rightarrow> 'f \<Rightarrow> bool"
  ld_bits :: "'f \<Rightarrow> 64 word"
  bits_ld :: "64 word \<Rightarrow> 'f"

datatype 'f num_value = IntVal "64 word" | LdVal 'f

fun get_ll :: "'f ld_ops \<Rightarrow> 'f num_value \<Rightarrow> 64 word" where
  "get_ll L (IntVal w) = w"
| "get_ll L (LdVal f) = ld_bits L f"

fun get_ld :: "'f ld_ops \<Rightarrow> 'f num_value \<Rightarrow> 'f" where
  "get_ld L (IntVal w) = bits_ld L w"
| "get_ld L (LdVal f) = f"

record 'f nvt =
  nvt_basicType :: basic_type
  nvt_numKind :: num_kind
  nvt_numValue :: "'f num_value"
  nvt_isConstButMutable :: bool
  nvt_isConstButUnreducable :: bool

text \<open>The result after \<open>memset\<close>, and the integer 0.\<close>

definition nvt0 :: "'f nvt" where
  "nvt0 = \<lparr>nvt_basicType = BT_UNDEF, nvt_numKind = NK_LL, nvt_numValue = IntVal 0, nvt_isConstButMutable = False,
     nvt_isConstButUnreducable = False\<rparr>"

definition nvt_zero :: "'f nvt" where
  "nvt_zero = nvt0\<lparr>nvt_basicType := BT_INT\<rparr>"

definition getCastedLongValue :: "'f ld_ops \<Rightarrow> 'f nvt \<Rightarrow> int" where
  "getCastedLongValue L n =
     (case nvt_numKind n of
        NK_LL \<Rightarrow> sint (get_ll L (nvt_numValue n))
      | NK_ULL \<Rightarrow> sint (get_ll L (nvt_numValue n))
      | NK_LD \<Rightarrow> int64 (ld_trunc L (get_ld L (nvt_numValue n))))"

definition getCastedLongLongValue :: "'f ld_ops \<Rightarrow> 'f nvt \<Rightarrow> int" where
  "getCastedLongLongValue L n =
     (case nvt_numKind n of
        NK_LL \<Rightarrow> sint (get_ll L (nvt_numValue n))
      | NK_ULL \<Rightarrow> sint (get_ll L (nvt_numValue n))
      | NK_LD \<Rightarrow> int64 (ld_trunc L (get_ld L (nvt_numValue n))))"

subsection \<open>Casts\<close>

text \<open>
  The value that a C conversion to an integer type gives. From \<open>long double\<close> the conversion of a value that the type
  does not have is undefined; here it wraps around.
\<close>

fun int_conv :: "basic_type \<Rightarrow> (int \<Rightarrow> int) option" where
  "int_conv BT_BOOL = Some (\<lambda>x. of_bool (x \<noteq> 0))"
| "int_conv BT_CHAR = Some (signed_take_bit 7)"
| "int_conv BT_WCHAR = Some (signed_take_bit 31)"
| "int_conv BT_SHORT = Some (signed_take_bit 15)"
| "int_conv BT_INT = Some (signed_take_bit 31)"
| "int_conv BT_LONG = Some (signed_take_bit 63)"
| "int_conv BT_LONGLONG = Some (signed_take_bit 63)"
| "int_conv BT_UNSIGNED_CHAR = Some (take_bit 8)"
| "int_conv BT_UNSIGNED_SHORT = Some (take_bit 16)"
| "int_conv BT_UNSIGNED_INT = Some (take_bit 32)"
| "int_conv BT_UNSIGNED_LONG = Some (take_bit 64)"
| "int_conv BT_UNSIGNED_LONGLONG = Some (take_bit 64)"
| "int_conv _ = None"

fun float_conv :: "'f ld_ops \<Rightarrow> basic_type \<Rightarrow> ((int \<Rightarrow> 'f) \<times> ('f \<Rightarrow> 'f)) option" where
  "float_conv L BT_FLOAT = Some (float_of_int L, ld_to_float L)"
| "float_conv L BT_DOUBLE = Some (double_of_int L, ld_to_double L)"
| "float_conv L BT_LONGDOUBLE = Some (ld_of_int L, \<lambda>x. x)"
| "float_conv L _ = None"

text \<open>The boolean is false for the types that a number cannot be cast to.\<close>

definition castNumValue :: "'f ld_ops \<Rightarrow> 'f nvt \<Rightarrow> basic_type \<Rightarrow> ('f nvt \<times> bool) res" where
  "castNumValue L n bt0 =
     (let bt = (if bt0 = BT_UNDEF then BT_INT else bt0);
          v = nvt_numValue n;
          done = (\<lambda>v. bind_res (getNumValueKind bt) (\<lambda>k. Inr (n\<lparr>nvt_numValue := v, nvt_basicType := bt, nvt_numKind := k\<rparr>, True)))
      in case int_conv bt of
           Some conv \<Rightarrow>
             done (IntVal (word_of_int (case nvt_numKind n of
                 NK_LL \<Rightarrow> conv (sint (get_ll L v))
               | NK_ULL \<Rightarrow> conv (uint (get_ll L v))
               | NK_LD \<Rightarrow> if bt = BT_BOOL then of_bool (\<not> ld_eq L (get_ld L v) (ld_of_int L 0)) else conv (ld_trunc L (get_ld L v)))))
         | None \<Rightarrow>
             (case float_conv L bt of
                Some (from_int, from_ld) \<Rightarrow>
                  done (LdVal (case nvt_numKind n of
                      NK_LL \<Rightarrow> from_int (sint (get_ll L v))
                    | NK_ULL \<Rightarrow> from_int (uint (get_ll L v))
                    | NK_LD \<Rightarrow> from_ld (get_ld L v)))
              | None \<Rightarrow> Inr (n, False)))"

definition constToNumValueWithType :: "basic_type \<Rightarrow> 'f num_value \<Rightarrow> 'f nvt \<Rightarrow> 'f nvt res" where
  "constToNumValueWithType bt v n =
     bind_res (getNumValueKind bt) (\<lambda>k. Inr (n\<lparr>nvt_numValue := v, nvt_basicType := bt, nvt_numKind := k\<rparr>))"

text \<open>The types that the switch of \<open>fixNumValueType\<close> lists for the type of the first number: \<open>None\<close> where it returns 0.\<close>

fun lower_types :: "basic_type \<Rightarrow> basic_type list option" where
  "lower_types BT_BOOL = Some []"
| "lower_types BT_CHAR = Some [BT_BOOL]"
| "lower_types BT_SHORT = Some [BT_BOOL, BT_CHAR, BT_UNSIGNED_CHAR]"
| "lower_types BT_WCHAR = Some [BT_BOOL, BT_CHAR, BT_UNSIGNED_CHAR, BT_SHORT, BT_UNSIGNED_SHORT]"
| "lower_types BT_INT = Some [BT_BOOL, BT_CHAR, BT_UNSIGNED_CHAR, BT_SHORT, BT_UNSIGNED_SHORT]"
| "lower_types BT_LONG =
     Some [BT_BOOL, BT_CHAR, BT_UNSIGNED_CHAR, BT_SHORT, BT_UNSIGNED_SHORT, BT_INT, BT_UNSIGNED_INT, BT_WCHAR]"
| "lower_types BT_LONGLONG =
     Some [BT_BOOL, BT_CHAR, BT_UNSIGNED_CHAR, BT_SHORT, BT_UNSIGNED_SHORT, BT_INT, BT_UNSIGNED_INT, BT_WCHAR]"
| "lower_types BT_UNSIGNED_CHAR = Some [BT_BOOL, BT_CHAR]"
| "lower_types BT_UNSIGNED_SHORT = Some [BT_BOOL, BT_CHAR, BT_UNSIGNED_CHAR, BT_SHORT]"
| "lower_types BT_UNSIGNED_INT =
     Some [BT_BOOL, BT_CHAR, BT_UNSIGNED_CHAR, BT_SHORT, BT_UNSIGNED_SHORT, BT_INT, BT_WCHAR]"
| "lower_types BT_UNSIGNED_LONG =
     Some [BT_BOOL, BT_CHAR, BT_UNSIGNED_CHAR, BT_SHORT, BT_UNSIGNED_SHORT, BT_INT, BT_UNSIGNED_INT, BT_WCHAR, BT_LONG]"
| "lower_types BT_UNSIGNED_LONGLONG =
     Some [BT_BOOL, BT_CHAR, BT_UNSIGNED_CHAR, BT_SHORT, BT_UNSIGNED_SHORT, BT_INT, BT_UNSIGNED_INT, BT_WCHAR, BT_LONG,
       BT_UNSIGNED_LONG, BT_LONGLONG]"
| "lower_types BT_FLOAT =
     Some [BT_BOOL, BT_CHAR, BT_UNSIGNED_CHAR, BT_SHORT, BT_UNSIGNED_SHORT, BT_INT, BT_UNSIGNED_INT, BT_WCHAR, BT_LONG,
       BT_UNSIGNED_LONG, BT_LONGLONG, BT_UNSIGNED_LONGLONG]"
| "lower_types BT_DOUBLE =
     Some [BT_BOOL, BT_CHAR, BT_UNSIGNED_CHAR, BT_SHORT, BT_UNSIGNED_SHORT, BT_INT, BT_UNSIGNED_INT, BT_WCHAR, BT_LONG,
       BT_UNSIGNED_LONG, BT_LONGLONG, BT_UNSIGNED_LONGLONG, BT_FLOAT]"
| "lower_types BT_LONGDOUBLE =
     Some [BT_BOOL, BT_CHAR, BT_UNSIGNED_CHAR, BT_SHORT, BT_UNSIGNED_SHORT, BT_INT, BT_UNSIGNED_INT, BT_WCHAR, BT_LONG,
       BT_UNSIGNED_LONG, BT_LONGLONG, BT_UNSIGNED_LONGLONG, BT_FLOAT, BT_DOUBLE]"
| "lower_types _ = None"

definition fixNumValueType :: "'f ld_ops \<Rightarrow> 'f nvt \<Rightarrow> 'f nvt \<Rightarrow> ('f nvt \<times> 'f nvt \<times> bool) res" where
  "fixNumValueType L n1 n2 =
     (case lower_types (nvt_basicType n1) of
        None \<Rightarrow> Inr (n1, n2, False)
      | Some lower \<Rightarrow>
          if nvt_basicType n2 \<in> set lower
          then bind_res (castNumValue L n2 (nvt_basicType n1)) (\<lambda>(n2, ok). Inr (n1, n2, ok))
          else bind_res (castNumValue L n1 (nvt_basicType n2)) (\<lambda>(n1, ok). Inr (n1, n2, ok)))"

definition mergeConstFlag :: "'f nvt \<Rightarrow> 'f nvt \<Rightarrow> 'f nvt" where
  "mergeConstFlag dst src =
     dst\<lparr>nvt_isConstButMutable := nvt_isConstButMutable dst \<or> nvt_isConstButMutable src,
         nvt_isConstButUnreducable := nvt_isConstButUnreducable dst \<or> nvt_isConstButUnreducable src\<rparr>"

subsection \<open>Expressions\<close>

datatype ecode =
    EC_EXPRS | EC_BRACED_EXPR | EC_IDENT | EC_UNARY_MINUS | EC_BIT_NOT | EC_LOG_NOT | EC_CAST | EC_LSHIFT | EC_RSHIFT
  | EC_PLUS | EC_MINUS | EC_MUL | EC_DIV | EC_MOD | EC_ARITH_EQ | EC_ARITH_NE | EC_ARITH_GE | EC_ARITH_GT | EC_ARITH_LE
  | EC_ARITH_LT | EC_LOG_AND | EC_LOG_OR | EC_BIT_AND | EC_BIT_OR | EC_BIT_XOR | EC_CONDEXPR | EC_SIZE_OF | EC_GCC_ALIGN_OF
  | EC_XMP_DESC_OF | EC_FUNCTION_CALL | EC_GCC_BLTIN_OFFSET_OF | EC_TYPE_DESC | EC_NUMBER_CONST | EC_CHAR_CONST
  | EC_STRING_CONST | EC_NULL_NODE | EC_OTHER string

text \<open>
  A node has the address and the code that its header holds. \<open>NullE\<close> is a missing expression; \<open>OtherE\<close> stands for the
  structures of array declarations, error nodes and general code.
\<close>

datatype 'f cexpr =
    NullE
  | UnaryE nat ecode "'f cexpr"
  | BinaryE nat ecode "'f cexpr" "'f cexpr"
  | ListE nat ecode "'f cexpr list"
  | CharConst nat string
  | NumberConst nat basic_type "'f num_value"
  | StringConst nat string
  | SymbolE nat ecode string
  | TypeDescE nat
  | OtherE nat ecode

fun e_addr :: "'f cexpr \<Rightarrow> nat" where
  "e_addr NullE = 0"
| "e_addr (UnaryE a c e) = a"
| "e_addr (BinaryE a c e f) = a"
| "e_addr (ListE a c es) = a"
| "e_addr (CharConst a t) = a"
| "e_addr (NumberConst a bt v) = a"
| "e_addr (StringConst a t) = a"
| "e_addr (SymbolE a c s) = a"
| "e_addr (TypeDescE a) = a"
| "e_addr (OtherE a c) = a"

fun e_exprCode :: "'f cexpr \<Rightarrow> ecode" where
  "e_exprCode NullE = EC_NULL_NODE"
| "e_exprCode (UnaryE a c e) = c"
| "e_exprCode (BinaryE a c e f) = c"
| "e_exprCode (ListE a c es) = c"
| "e_exprCode (CharConst a t) = EC_CHAR_CONST"
| "e_exprCode (NumberConst a bt v) = EC_NUMBER_CONST"
| "e_exprCode (StringConst a t) = EC_STRING_CONST"
| "e_exprCode (SymbolE a c s) = c"
| "e_exprCode (TypeDescE a) = EC_TYPE_DESC"
| "e_exprCode (OtherE a c) = c"

definition exprListNextNData :: "'f cexpr list \<Rightarrow> nat \<Rightarrow> 'f cexpr" where
  "exprListNextNData es n = (if n < length es then es ! n else NullE)"

definition exprListTailData :: "'f cexpr list \<Rightarrow> 'f cexpr" where
  "exprListTailData es = (if es = [] then NullE else last es)"

subsection \<open>Symbols and types\<close>

datatype sym_type =
    ST_UNDEF | ST_TYPE | ST_FUNC | ST_VAR | ST_PARAM | ST_ENUM | ST_TAG | ST_LABEL | ST_GCC_LABEL | ST_FUNCID | ST_MEMBER
  | ST_GCC_BUILTIN | ST_GCC_ASM_IDENT | ST_END

record 'f csymbol =
  sy_addr :: nat
  sy_symType :: sym_type
  sy_valueExpr :: "'f cexpr"
  sy_isConstButUnreducable :: bool

text \<open>The table of identifiers of every scope, from the current one to its parents.\<close>

type_synonym 'f scopes = "(string \<rightharpoonup> 'f csymbol) list"

fun findSymbolByGroup :: "'f scopes \<Rightarrow> string \<Rightarrow> 'f csymbol option" where
  "findSymbolByGroup [] name = None"
| "findSymbolByGroup (tab # tabs) name = (case tab name of Some s \<Rightarrow> Some s | None \<Rightarrow> findSymbolByGroup tabs name)"

text \<open>Of a type descriptor, the basic type of the type it refers to, its size and its alignment. Assertions are compiled in.\<close>

record ctype =
  td_basicType :: basic_type
  td_size :: int
  td_align :: int

text \<open>\<open>isConstCall\<close> says whether a node is a call of a constant function with constant arguments.\<close>

record 'f cenv =
  resolveType :: "'f cexpr \<Rightarrow> ctype option"
  isConstCall :: "'f cexpr \<Rightarrow> bool"
  scopes :: "'f scopes"
  stackFlags :: "bool \<times> bool"

datatype cerr = CERR_015 | CERR_016 | CERR_017 | CERR_098 | CERR_099 | CERR_101 | CERR_102 | CERR_103 | CERR_121 | CERR_122

record cstate =
  e_isError :: "nat list"
  errorList :: "cerr list"
  nextNode :: nat

definition addError :: "nat \<Rightarrow> cerr \<Rightarrow> cstate \<Rightarrow> cstate" where
  "addError a c st = st\<lparr>e_isError := a # e_isError st, errorList := c # errorList st\<rparr>"

definition isUnreducableConst :: "'f cenv \<Rightarrow> 'f cexpr \<Rightarrow> bool" where
  "isUnreducableConst E e \<longleftrightarrow>
     e_exprCode e = EC_GCC_BLTIN_OFFSET_OF \<or> e_exprCode e = EC_FUNCTION_CALL \<and> isConstCall E e"

text \<open>A node that \<open>EXPR_ALLOC\<close> makes has an address of its own.\<close>

definition alloc_node :: "cstate \<Rightarrow> nat \<times> cstate" where
  "alloc_node st = (nextNode st, st\<lparr>nextNode := Suc (nextNode st)\<rparr>)"

subsection \<open>Operators\<close>

text \<open>
  The cases \<open>NK_LL\<close>, \<open>NK_ULL\<close> and \<open>NK_LD\<close> of every operator: \<open>None\<close> where the code returns 0. The count of a shift
  must be from 0 to 63.
\<close>

definition ll_op :: "ecode \<Rightarrow> 64 word \<Rightarrow> 64 word \<Rightarrow> int \<Rightarrow> 64 word option res" where
  "ll_op c a b k =
     (case c of
        EC_EXPRS \<Rightarrow> Inr (Some a)
      | EC_BRACED_EXPR \<Rightarrow> Inr (Some a)
      | EC_IDENT \<Rightarrow> Inr (Some a)
      | EC_UNARY_MINUS \<Rightarrow> Inr (Some (- a))
      | EC_BIT_NOT \<Rightarrow> Inr (Some (NOT a))
      | EC_LOG_NOT \<Rightarrow> Inr (Some (of_bool (a = 0)))
      | EC_LSHIFT \<Rightarrow> guard_res (0 \<le> k \<and> k < 64) BadArith (Inr (Some (push_bit (nat k) a)))
      | EC_RSHIFT \<Rightarrow> guard_res (0 \<le> k \<and> k < 64) BadArith (Inr (Some (word_of_int (drop_bit (nat k) (sint a)))))
      | EC_PLUS \<Rightarrow> Inr (Some (a + b))
      | EC_MINUS \<Rightarrow> Inr (Some (a - b))
      | EC_MUL \<Rightarrow> Inr (Some (a * b))
      | EC_DIV \<Rightarrow> guard_res (sint a \<noteq> - (2 ^ 63) \<or> sint b \<noteq> - 1) BadArith (Inr (Some (word_of_int (sint a sdiv sint b))))
      | EC_MOD \<Rightarrow> guard_res (sint a \<noteq> - (2 ^ 63) \<or> sint b \<noteq> - 1) BadArith (Inr (Some (word_of_int (sint a smod sint b))))
      | EC_ARITH_EQ \<Rightarrow> Inr (Some (of_bool (a = b)))
      | EC_ARITH_NE \<Rightarrow> Inr (Some (of_bool (a \<noteq> b)))
      | EC_ARITH_GE \<Rightarrow> Inr (Some (of_bool (sint a \<ge> sint b)))
      | EC_ARITH_GT \<Rightarrow> Inr (Some (of_bool (sint a > sint b)))
      | EC_ARITH_LE \<Rightarrow> Inr (Some (of_bool (sint a \<le> sint b)))
      | EC_ARITH_LT \<Rightarrow> Inr (Some (of_bool (sint a < sint b)))
      | EC_LOG_AND \<Rightarrow> Inr (Some (of_bool (a \<noteq> 0 \<and> b \<noteq> 0)))
      | EC_LOG_OR \<Rightarrow> Inr (Some (of_bool (a \<noteq> 0 \<or> b \<noteq> 0)))
      | EC_BIT_AND \<Rightarrow> Inr (Some (a AND b))
      | EC_BIT_OR \<Rightarrow> Inr (Some (a OR b))
      | EC_BIT_XOR \<Rightarrow> Inr (Some (a XOR b))
      | _ \<Rightarrow> Inr None)"

definition ull_op :: "ecode \<Rightarrow> 64 word \<Rightarrow> 64 word \<Rightarrow> int \<Rightarrow> 64 word option res" where
  "ull_op c a b k =
     (case c of
        EC_EXPRS \<Rightarrow> Inr (Some a)
      | EC_BRACED_EXPR \<Rightarrow> Inr (Some a)
      | EC_IDENT \<Rightarrow> Inr (Some a)
      | EC_UNARY_MINUS \<Rightarrow> Inr (Some (- a))
      | EC_BIT_NOT \<Rightarrow> Inr (Some (NOT a))
      | EC_LOG_NOT \<Rightarrow> Inr (Some (of_bool (a = 0)))
      | EC_LSHIFT \<Rightarrow> guard_res (0 \<le> k \<and> k < 64) BadArith (Inr (Some (push_bit (nat k) a)))
      | EC_RSHIFT \<Rightarrow> guard_res (0 \<le> k \<and> k < 64) BadArith (Inr (Some (drop_bit (nat k) a)))
      | EC_PLUS \<Rightarrow> Inr (Some (a + b))
      | EC_MINUS \<Rightarrow> Inr (Some (a - b))
      | EC_MUL \<Rightarrow> Inr (Some (a * b))
      | EC_DIV \<Rightarrow> Inr (Some (a div b))
      | EC_MOD \<Rightarrow> Inr (Some (a mod b))
      | EC_ARITH_EQ \<Rightarrow> Inr (Some (of_bool (a = b)))
      | EC_ARITH_NE \<Rightarrow> Inr (Some (of_bool (a \<noteq> b)))
      | EC_ARITH_GE \<Rightarrow> Inr (Some (of_bool (a \<ge> b)))
      | EC_ARITH_GT \<Rightarrow> Inr (Some (of_bool (a > b)))
      | EC_ARITH_LE \<Rightarrow> Inr (Some (of_bool (a \<le> b)))
      | EC_ARITH_LT \<Rightarrow> Inr (Some (of_bool (a < b)))
      | EC_LOG_AND \<Rightarrow> Inr (Some (of_bool (a \<noteq> 0 \<and> b \<noteq> 0)))
      | EC_LOG_OR \<Rightarrow> Inr (Some (of_bool (a \<noteq> 0 \<or> b \<noteq> 0)))
      | EC_BIT_AND \<Rightarrow> Inr (Some (a AND b))
      | EC_BIT_OR \<Rightarrow> Inr (Some (a OR b))
      | EC_BIT_XOR \<Rightarrow> Inr (Some (a XOR b))
      | _ \<Rightarrow> Inr None)"

definition ld_op :: "'f ld_ops \<Rightarrow> ecode \<Rightarrow> 'f \<Rightarrow> 'f \<Rightarrow> 'f option" where
  "ld_op L c a b =
     (let bool = (\<lambda>b. Some (ld_of_int L (of_bool b)))
      in case c of
           EC_EXPRS \<Rightarrow> Some a
         | EC_BRACED_EXPR \<Rightarrow> Some a
         | EC_IDENT \<Rightarrow> Some a
         | EC_UNARY_MINUS \<Rightarrow> Some (ld_neg L a)
         | EC_LOG_NOT \<Rightarrow> bool (ld_eq L a (ld_of_int L 0))
         | EC_PLUS \<Rightarrow> Some (ld_add L a b)
         | EC_MINUS \<Rightarrow> Some (ld_sub L a b)
         | EC_MUL \<Rightarrow> Some (ld_mul L a b)
         | EC_DIV \<Rightarrow> Some (ld_div L a b)
         | EC_ARITH_EQ \<Rightarrow> bool (ld_eq L a b)
         | EC_ARITH_NE \<Rightarrow> bool (\<not> ld_eq L a b)
         | EC_ARITH_GE \<Rightarrow> bool (ld_le L b a)
         | EC_ARITH_GT \<Rightarrow> bool (ld_lt L b a)
         | EC_ARITH_LE \<Rightarrow> bool (ld_le L a b)
         | EC_ARITH_LT \<Rightarrow> bool (ld_lt L a b)
         | _ \<Rightarrow> None)"

definition num_op :: "'f ld_ops \<Rightarrow> ecode \<Rightarrow> num_kind \<Rightarrow> 'f num_value \<Rightarrow> 'f num_value \<Rightarrow> int \<Rightarrow> 'f num_value option res" where
  "num_op L c nk v1 v2 ni2 =
     (case nk of
        NK_LL \<Rightarrow> bind_res (ll_op c (get_ll L v1) (get_ll L v2) ni2) (\<lambda>w. Inr (map_option IntVal w))
      | NK_ULL \<Rightarrow> bind_res (ull_op c (get_ll L v1) (get_ll L v2) ni2) (\<lambda>w. Inr (map_option IntVal w))
      | NK_LD \<Rightarrow> Inr (map_option LdVal (ld_op L c (get_ld L v1) (get_ld L v2))))"

definition is_zero :: "'f ld_ops \<Rightarrow> num_kind \<Rightarrow> 'f num_value \<Rightarrow> bool" where
  "is_zero L nk v = (case nk of NK_LD \<Rightarrow> ld_eq L (get_ld L v) (ld_of_int L 0) | _ \<Rightarrow> get_ll L v = 0)"

definition checkDivisionByZero :: "'f ld_ops \<Rightarrow> nat \<Rightarrow> num_kind \<Rightarrow> 'f num_value \<Rightarrow> cstate \<Rightarrow> cstate \<times> bool" where
  "checkDivisionByZero L a nk v st = (if is_zero L nk v then (addError a CERR_015 st, True) else (st, False))"

text \<open>The member of the union that belongs to a kind, copied.\<close>

definition copy_member :: "'f ld_ops \<Rightarrow> num_kind \<Rightarrow> 'f num_value \<Rightarrow> 'f num_value" where
  "copy_member L nk v = (case nk of NK_LD \<Rightarrow> LdVal (get_ld L v) | _ \<Rightarrow> IntVal (get_ll L v))"

subsection \<open>Folding\<close>

type_synonym 'f folded = "'f nvt \<times> bool \<times> cstate"

text \<open>The second or third operand takes part: it and the first get a common type; \<open>None\<close> where the code returns 0.\<close>

definition use_operand :: "'f ld_ops \<Rightarrow> bool \<Rightarrow> 'f nvt \<Rightarrow> 'f nvt \<Rightarrow> 'f nvt \<Rightarrow> ('f nvt \<times> 'f nvt \<times> 'f nvt) option res" where
  "use_operand L isCondExpr n1 n result =
     bind_res (fixNumValueType L n1 n) (\<lambda>(n1, n, ok).
       if \<not> ok \<and> \<not> isCondExpr then Inr None else Inr (Some (n1, n, mergeConstFlag result n)))"

text \<open>The operation of a node on operands whose types are adjusted.\<close>

definition apply_code ::
  "'f ld_ops \<Rightarrow> 'f cenv \<Rightarrow> 'f cexpr \<Rightarrow> 'f nvt \<Rightarrow> 'f nvt \<Rightarrow> 'f nvt \<Rightarrow> int \<Rightarrow> bool \<Rightarrow> bool \<Rightarrow> 'f nvt \<Rightarrow> cstate \<Rightarrow> 'f folded res" where
  "apply_code L E e n1 n2 n3 ni2 isConst2 isConst3 result st =
     (let nk = nvt_numKind n1;
          v1 = nvt_numValue n1; v2 = nvt_numValue n2; v3 = nvt_numValue n3;
          finish = (\<lambda>n1 v r. Inr (result\<lparr>nvt_numValue := v, nvt_basicType := nvt_basicType n1, nvt_numKind := nvt_numKind n1\<rparr>, r, st));
          operate = bind_res (num_op L (e_exprCode e) nk v1 v2 ni2)
            (\<lambda>v. case v of None \<Rightarrow> Inr (result, False, st) | Some v \<Rightarrow> finish n1 v True)
      in case e_exprCode e of
           EC_CAST \<Rightarrow>
             (case e of
                BinaryE a c t f \<Rightarrow>
                  (case resolveType E t of
                     None \<Rightarrow> Inr (result, False, st)
                   | Some td \<Rightarrow>
                       bind_res (castNumValue L n1 (td_basicType td)) (\<lambda>(n1, ok).
                         if ok then finish n1 (copy_member L (nvt_numKind n1) (nvt_numValue n1)) True
                         else Inr (result, False, addError a CERR_016 st)))
              | _ \<Rightarrow> Inr (result, False, st))
         | EC_CONDEXPR \<Rightarrow>
             (let taken = \<not> is_zero L nk v1
              in finish n1 (copy_member L nk (if taken then v2 else v3)) (if taken then isConst2 else isConst3))
         | EC_DIV \<Rightarrow>
             (case checkDivisionByZero L (e_addr e) nk v2 st of (st', err) \<Rightarrow> if err then Inr (result, False, st') else operate)
         | EC_MOD \<Rightarrow>
             (case checkDivisionByZero L (e_addr e) nk v2 st of (st', err) \<Rightarrow> if err then Inr (result, False, st') else operate)
         | _ \<Rightarrow> operate)"

definition fold_op ::
  "'f ld_ops \<Rightarrow> 'f cenv \<Rightarrow> 'f cexpr \<Rightarrow> 'f nvt \<Rightarrow> 'f nvt \<Rightarrow> 'f nvt \<Rightarrow> bool \<Rightarrow> bool \<Rightarrow> bool \<Rightarrow> bool \<Rightarrow> cstate \<Rightarrow> 'f folded res" where
  "fold_op L E e n1 n2 n3 use2 use3 isConst2 isConst3 st =
     (let isCondExpr = (e_exprCode e = EC_CONDEXPR);
          result = mergeConstFlag nvt0 n1;
          ni2 = (if use2 then int32 (getCastedLongValue L n2) else 0)
      in bind_res (if use2 then use_operand L isCondExpr n1 n2 result else Inr (Some (n1, n2, result))) (\<lambda>r.
         case r of
           None \<Rightarrow> Inr (result, False, st)
         | Some (n1, n2, result) \<Rightarrow>
             bind_res (if use3 then use_operand L isCondExpr n1 n3 result else Inr (Some (n1, n3, result))) (\<lambda>r.
             case r of
               None \<Rightarrow> Inr (result, False, st)
             | Some (n1, n3, result) \<Rightarrow> apply_code L E e n1 n2 n3 ni2 isConst2 isConst3 result st)))"

definition not_const :: "'f nvt \<Rightarrow> cstate \<Rightarrow> 'f folded res option" where
  "not_const n st = Some (Inr (n, False, st))"

definition size_value :: "'f cenv \<Rightarrow> ecode \<Rightarrow> 'f cexpr \<Rightarrow> cstate \<Rightarrow> 'f folded res option" where
  "size_value E c node st =
     (case resolveType E node of
        None \<Rightarrow> not_const nvt0 st
      | Some td \<Rightarrow>
          let value = (\<lambda>x. Inr (nvt_zero\<lparr>nvt_isConstButMutable := True, nvt_numValue := IntVal (word_of_int x)\<rparr>, True, st))
          in Some (if c = EC_SIZE_OF then value (td_size td) else guard_res (td_align td \<noteq> 0) AssertFail (value (td_align td))))"

partial_function (option) getConstNumValue ::
  "'f ld_ops \<Rightarrow> 'f cenv \<Rightarrow> 'f cexpr \<Rightarrow> cstate \<Rightarrow> 'f folded res option" where
  "getConstNumValue L E e st =
     (if e = NullE \<or> e_addr e \<in> set (e_isError st) then Some (Inr (nvt_zero, True, st))
      else if e_exprCode e = EC_XMP_DESC_OF then not_const nvt0 st
      else case e of
        UnaryE a c node \<Rightarrow>
          if c = EC_SIZE_OF \<or> c = EC_GCC_ALIGN_OF then size_value E c node st
          else bind_ro (getConstNumValue L E node st) (\<lambda>(n1, ok, st).
            if \<not> ok then not_const (mergeConstFlag nvt0 n1) st
            else Some (fold_op L E e n1 nvt0 nvt0 False False False False st))
      | BinaryE a c node1 node2 \<Rightarrow>
          if isUnreducableConst E e then not_const (nvt0\<lparr>nvt_isConstButUnreducable := True\<rparr>) st
          else if e_exprCode node1 = EC_TYPE_DESC then
            bind_ro (getConstNumValue L E node2 st) (\<lambda>(n2, ok, st).
              if \<not> ok then not_const nvt0 st
              else Some (fold_op L E e n2 n2 nvt0 False False False False st))
          else
            bind_ro (getConstNumValue L E node1 st) (\<lambda>(n1, ok, st).
              if \<not> ok then not_const (mergeConstFlag nvt0 n1) st
              else bind_ro (getConstNumValue L E node2 st) (\<lambda>(n2, ok, st).
                if \<not> ok then not_const (mergeConstFlag (mergeConstFlag nvt0 n1) n2) st
                else Some (fold_op L E e n1 n2 nvt0 True False False False st)))
      | ListE a c es \<Rightarrow>
          if c = EC_CONDEXPR then
            bind_ro (getConstNumValue L E (exprListNextNData es 0) st) (\<lambda>(n1, ok, st).
              if \<not> ok then not_const (mergeConstFlag nvt0 n1) st
              else bind_ro (getConstNumValue L E (exprListNextNData es 1) st) (\<lambda>(n2, isConst2, st).
                   bind_ro (getConstNumValue L E (exprListNextNData es 2) st) (\<lambda>(n3, isConst3, st).
                     Some (fold_op L E e n1 n2 n3 True True isConst2 isConst3 st))))
          else
            bind_ro (getConstNumValue L E (exprListTailData es) st) (\<lambda>(n1, ok, st).
              if \<not> ok then not_const (mergeConstFlag nvt0 n1) st
              else Some (fold_op L E e n1 nvt0 nvt0 False False False False st))
      | CharConst a tok \<Rightarrow>
          Some (Inr (nvt0\<lparr>nvt_basicType := BT_CHAR,
            nvt_numValue := IntVal (word_of_int (signed_take_bit 7 (if tok = [] then 0 else of_char (hd tok))))\<rparr>, True, st))
      | NumberConst a bt v \<Rightarrow> Some (bind_res (constToNumValueWithType bt v nvt0) (\<lambda>n. Inr (n, True, st)))
      | SymbolE a c name \<Rightarrow>
          (let junk = mergeConstFlag nvt0 (nvt0\<lparr>nvt_isConstButMutable := fst (stackFlags E), nvt_isConstButUnreducable := snd (stackFlags E)\<rparr>)
           in case findSymbolByGroup (scopes E) name of
                None \<Rightarrow> not_const junk st
              | Some tsym \<Rightarrow>
                  if sy_symType tsym \<noteq> ST_ENUM \<or> sy_isConstButUnreducable tsym then
                    not_const (if sy_isConstButUnreducable tsym then junk\<lparr>nvt_isConstButUnreducable := True\<rparr> else junk) st
                  else bind_ro (getConstNumValue L E (sy_valueExpr tsym) st) (\<lambda>(n1, ok, st).
                    if \<not> ok then not_const (mergeConstFlag nvt0 n1) st
                    else Some (fold_op L E e n1 nvt0 nvt0 False False False False st)))
      | StringConst a t \<Rightarrow> Some (Inl AssertFail)
      | TypeDescE a \<Rightarrow> not_const nvt0 st
      | OtherE a c \<Rightarrow> not_const nvt0 st)"

subsection \<open>Uses of folding\<close>

definition num_equals :: "bool \<Rightarrow> 'f ld_ops \<Rightarrow> 'f cenv \<Rightarrow> 'f cexpr \<Rightarrow> 'f cexpr \<Rightarrow> cstate \<Rightarrow> (bool \<times> cstate) res option" where
  "num_equals mutable L E e1 e2 st =
     bind_ro (getConstNumValue L E e1 st) (\<lambda>(n1, ok, st).
       if \<not> ok \<or> \<not> mutable \<and> nvt_isConstButMutable n1 then Some (Inr (False, st))
       else bind_ro (getConstNumValue L E e2 st) (\<lambda>(n2, ok, st).
         if \<not> ok \<or> \<not> mutable \<and> nvt_isConstButMutable n2 then Some (Inr (False, st))
         else Some (Inr (get_ll L (nvt_numValue n1) = get_ll L (nvt_numValue n2), st))))"

definition isConstNumEquals :: "'f ld_ops \<Rightarrow> 'f cenv \<Rightarrow> 'f cexpr \<Rightarrow> 'f cexpr \<Rightarrow> cstate \<Rightarrow> (bool \<times> cstate) res option" where
  "isConstNumEquals = num_equals False"

definition isConstNumEqualsWithMutable :: "'f ld_ops \<Rightarrow> 'f cenv \<Rightarrow> 'f cexpr \<Rightarrow> 'f cexpr \<Rightarrow> cstate \<Rightarrow> (bool \<times> cstate) res option" where
  "isConstNumEqualsWithMutable = num_equals True"

definition getNumberConstAsLong :: "'f ld_ops \<Rightarrow> basic_type \<Rightarrow> 'f num_value \<Rightarrow> int res" where
  "getNumberConstAsLong L bt v =
     bind_res (constToNumValueWithType bt v nvt0) (\<lambda>n.
     bind_res (castNumValue L n BT_LONG) (\<lambda>(n, ok). Inr (sint (get_ll L (nvt_numValue n)))))"

text \<open>The value, or \<open>None\<close> when the expression is not constant.\<close>

definition getCastedLongValueOfExpr :: "'f ld_ops \<Rightarrow> 'f cenv \<Rightarrow> 'f cexpr \<Rightarrow> cstate \<Rightarrow> (int option \<times> cstate) res option" where
  "getCastedLongValueOfExpr L E e st =
     bind_ro (getConstNumValue L E e st) (\<lambda>(n, ok, st).
       if \<not> ok then Some (Inr (None, st))
       else Some (bind_res (castNumValue L n BT_LONG) (\<lambda>(n, ok). Inr (Some (sint (get_ll L (nvt_numValue n))), st))))"

definition isConstZero :: "'f ld_ops \<Rightarrow> 'f cenv \<Rightarrow> 'f cexpr \<Rightarrow> cstate \<Rightarrow> (bool \<times> cstate) res option" where
  "isConstZero L E e st = bind_ro (getCastedLongValueOfExpr L E e st) (\<lambda>(n, st). Some (Inr (n = Some 0, st)))"

subsection \<open>Enumerators\<close>

text \<open>Entering an enumerator into the current scope (\<open>addSymbolAt\<close> for \<open>ST_ENUM\<close>, with the check for redeclarations).\<close>

definition add_enumerator :: "nat \<Rightarrow> string \<Rightarrow> 'f cexpr \<Rightarrow> 'f scopes \<Rightarrow> cstate \<Rightarrow> 'f scopes \<times> cstate" where
  "add_enumerator a name v tabs st =
     (case tabs of
        [] \<Rightarrow> (tabs, st)
      | tab # parents \<Rightarrow>
          (case tab name of
             None \<Rightarrow> (tab(name \<mapsto> \<lparr>sy_addr = a, sy_symType = ST_ENUM, sy_valueExpr = v, sy_isConstButUnreducable = False\<rparr>) # parents, st)
           | Some hsym \<Rightarrow>
               if sy_addr hsym = a then (tab(name \<mapsto> hsym\<lparr>sy_symType := ST_ENUM\<rparr>) # parents, st)
               else (tabs, addError a (if sy_symType hsym \<noteq> ST_ENUM then CERR_099 else CERR_098) st)))"

text \<open>An update of the symbol at an address, which the current scope has under a name or not at all.\<close>

definition update_symbol :: "nat \<Rightarrow> string \<Rightarrow> ('f csymbol \<Rightarrow> 'f csymbol) \<Rightarrow> 'f scopes \<Rightarrow> 'f scopes" where
  "update_symbol a name f tabs =
     (case tabs of
        [] \<Rightarrow> []
      | tab # parents \<Rightarrow>
          (case tab name of
             Some s \<Rightarrow> if sy_addr s = a then tab(name \<mapsto> f s) # parents else tabs
           | None \<Rightarrow> tabs))"

text \<open>The variables of the loop: \<open>preValExpr\<close> by whether it is set.\<close>

record 'f enum_state =
  en_scopes :: "'f scopes"
  en_val :: int
  en_err :: bool
  en_pre :: bool
  en_st :: cstate

text \<open>The value of an enumerator that has one: whether it is a pure constant, and the variables after.\<close>

definition enum_value :: "'f ld_ops \<Rightarrow> 'f cenv \<Rightarrow> nat \<Rightarrow> 'f cexpr \<Rightarrow> 'f enum_state \<Rightarrow> (bool \<times> 'f enum_state) res option" where
  "enum_value L E a v s =
     bind_ro (getConstNumValue L (E\<lparr>scopes := en_scopes s\<rparr>) v (en_st s)) (\<lambda>(n, ok, st).
       let bad = (\<not> ok \<or> nvt_numKind n \<noteq> NK_LL \<and> nvt_numKind n \<noteq> NK_ULL) \<and> \<not> nvt_isConstButUnreducable n;
           s = s\<lparr>en_st := (if bad then addError a CERR_017 st else st), en_err := en_err s \<or> bad\<rparr>
       in Some (Inr (
            if en_err s then (False, s)
            else if nvt_isConstButMutable n \<or> nvt_isConstButUnreducable n then (False, s\<lparr>en_pre := True\<rparr>)
            else (True, s\<lparr>en_val := int32 (getCastedLongValue L n), en_pre := False\<rparr>))))"

definition enum_step :: "'f ld_ops \<Rightarrow> 'f cenv \<Rightarrow> 'f enum_state \<Rightarrow> nat \<times> string \<times> 'f cexpr \<Rightarrow> 'f enum_state res option" where
  "enum_step L E s = (\<lambda>(a, name, v).
     (case add_enumerator a name v (en_scopes s) (en_st s) of (tabs, st) \<Rightarrow>
       bind_ro (if v = NullE then Some (Inr (\<not> en_pre s, s\<lparr>en_scopes := tabs, en_st := st\<rparr>))
                else enum_value L E a v (s\<lparr>en_scopes := tabs, en_st := st\<rparr>)) (\<lambda>(isPureConst, s).
         if en_err s then Some (Inr s)
         else if isPureConst then
           (case alloc_node (en_st s) of (node, st) \<Rightarrow>
             Some (Inr (s\<lparr>en_scopes := update_symbol a name
                 (\<lambda>sym. sym\<lparr>sy_valueExpr := NumberConst node BT_INT (IntVal (word_of_int (en_val s)))\<rparr>) (en_scopes s),
               en_val := int32 (en_val s + 1), en_st := st\<rparr>)))
         else Some (Inr (s\<lparr>en_scopes := update_symbol a name (\<lambda>sym. sym\<lparr>sy_isConstButUnreducable := True\<rparr>) (en_scopes s),
           en_val := int32 (en_val s + 1)\<rparr>)))))"

fun enum_loop :: "'f ld_ops \<Rightarrow> 'f cenv \<Rightarrow> 'f enum_state \<Rightarrow> (nat \<times> string \<times> 'f cexpr) list \<Rightarrow> 'f enum_state res option" where
  "enum_loop L E s [] = Some (Inr s)"
| "enum_loop L E s (x # xs) = bind_ro (enum_step L E s x) (\<lambda>s. enum_loop L E s xs)"

definition addEnumeratorSymbols ::
  "'f ld_ops \<Rightarrow> 'f cenv \<Rightarrow> (nat \<times> string \<times> 'f cexpr) list \<Rightarrow> cstate \<Rightarrow> ('f scopes \<times> cstate) res option" where
  "addEnumeratorSymbols L E enums st =
     bind_ro (enum_loop L E \<lparr>en_scopes = scopes E, en_val = 0, en_err = False, en_pre = False, en_st = st\<rparr> enums)
       (\<lambda>s. Some (Inr (en_scopes s, en_st s)))"

end
