(* ===== verification/Cfe_Fold_Laws.thy ===== *)
theory Cfe_Fold_Laws
  imports Cfe_Const
begin

text \<open>
  Constant folding against the meaning that the C standard gives to integer constant expressions over \<open>int\<close>, \<open>long\<close>,
  \<open>unsigned long\<close> and \<open>unsigned long long\<close>.
\<close>

subsection \<open>Integer constant expressions in C\<close>

definition c_unsigned :: "basic_type \<Rightarrow> bool" where
  "c_unsigned t \<longleftrightarrow> t = BT_UNSIGNED_LONG \<or> t = BT_UNSIGNED_LONGLONG"

definition c_type :: "basic_type \<Rightarrow> bool" where
  "c_type t \<longleftrightarrow> t \<in> {BT_INT, BT_LONG, BT_UNSIGNED_LONG, BT_UNSIGNED_LONGLONG}"

text \<open>Conversion to a type; the values of a type are those that conversion keeps.\<close>

definition c_conv :: "basic_type \<Rightarrow> int \<Rightarrow> int" where
  "c_conv t = (if c_unsigned t then take_bit 64 else if t = BT_INT then signed_take_bit 31 else signed_take_bit 63)"

definition c_norm :: "basic_type \<Rightarrow> int \<Rightarrow> (basic_type \<times> int) option" where
  "c_norm t x = (if c_unsigned t \<or> c_conv t x = x then Some (t, c_conv t x) else None)"

text \<open>The usual arithmetic conversions.\<close>

definition c_common :: "basic_type \<Rightarrow> basic_type \<Rightarrow> basic_type" where
  "c_common t u =
     (if t = BT_UNSIGNED_LONGLONG \<or> u = BT_UNSIGNED_LONGLONG then BT_UNSIGNED_LONGLONG
      else if t = BT_UNSIGNED_LONG \<or> u = BT_UNSIGNED_LONG then BT_UNSIGNED_LONG
      else if t = BT_LONG \<or> u = BT_LONG then BT_LONG
      else BT_INT)"

definition c_bool :: "bool \<Rightarrow> (basic_type \<times> int) option" where
  "c_bool b = Some (BT_INT, of_bool b)"

definition c_width :: "basic_type \<Rightarrow> int" where
  "c_width t = (if t = BT_INT then 32 else 64)"

text \<open>Operators; \<open>None\<close> is undefined behaviour.\<close>

fun c_unary :: "ecode \<Rightarrow> basic_type \<Rightarrow> int \<Rightarrow> (basic_type \<times> int) option" where
  "c_unary EC_BRACED_EXPR t x = Some (t, x)"
| "c_unary EC_UNARY_MINUS t x = c_norm t (- x)"
| "c_unary EC_BIT_NOT t x = c_norm t (NOT x)"
| "c_unary EC_LOG_NOT t x = c_bool (x = 0)"
| "c_unary _ t x = None"

definition c_shift :: "ecode \<Rightarrow> basic_type \<Rightarrow> int \<Rightarrow> int \<Rightarrow> (basic_type \<times> int) option" where
  "c_shift c t x y =
     (if y < 0 \<or> c_width t \<le> y then None
      else if c = EC_RSHIFT then Some (t, drop_bit (nat y) x)
      else if \<not> c_unsigned t \<and> x < 0 then None
      else c_norm t (push_bit (nat y) x))"

text \<open>Operators on operands of a common type.\<close>

fun c_arith :: "ecode \<Rightarrow> basic_type \<Rightarrow> int \<Rightarrow> int \<Rightarrow> (basic_type \<times> int) option" where
  "c_arith EC_PLUS t x y = c_norm t (x + y)"
| "c_arith EC_MINUS t x y = c_norm t (x - y)"
| "c_arith EC_MUL t x y = c_norm t (x * y)"
| "c_arith EC_DIV t x y = (if y = 0 then None else c_norm t (x sdiv y))"
| "c_arith EC_MOD t x y = (if y = 0 \<or> c_norm t (x sdiv y) = None then None else Some (t, x smod y))"
| "c_arith EC_BIT_AND t x y = Some (t, x AND y)"
| "c_arith EC_BIT_OR t x y = Some (t, x OR y)"
| "c_arith EC_BIT_XOR t x y = Some (t, x XOR y)"
| "c_arith EC_ARITH_EQ t x y = c_bool (x = y)"
| "c_arith EC_ARITH_NE t x y = c_bool (x \<noteq> y)"
| "c_arith EC_ARITH_GE t x y = c_bool (x \<ge> y)"
| "c_arith EC_ARITH_GT t x y = c_bool (x > y)"
| "c_arith EC_ARITH_LE t x y = c_bool (x \<le> y)"
| "c_arith EC_ARITH_LT t x y = c_bool (x < y)"
| "c_arith _ t x y = None"

definition c_binary :: "ecode \<Rightarrow> basic_type \<times> int \<Rightarrow> basic_type \<times> int \<Rightarrow> (basic_type \<times> int) option" where
  "c_binary c = (\<lambda>(t, x) (u, y).
     if c = EC_LSHIFT \<or> c = EC_RSHIFT then c_shift c t x y
     else if c = EC_LOG_AND then c_bool (x \<noteq> 0 \<and> y \<noteq> 0)
     else if c = EC_LOG_OR then c_bool (x \<noteq> 0 \<or> y \<noteq> 0)
     else let s = c_common t u in c_arith c s (c_conv s x) (c_conv s y))"

text \<open>The value of an enumerator whose value is known.\<close>

definition enum_const :: "'f csymbol \<Rightarrow> int option" where
  "enum_const s =
     (if sy_symType s = ST_ENUM \<and> \<not> sy_isConstButUnreducable s
      then case sy_valueExpr s of NumberConst b t (IntVal w) \<Rightarrow> if t = BT_INT \<and> c_conv BT_INT (sint w) = sint w then Some (sint w) else None
           | _ \<Rightarrow> None
      else None)"

lemma size_nth [termination_simp]: "i < length es \<Longrightarrow> size (es ! i) < Suc (size_list size es)"
  using size_list_estimation' [of "es ! i" es "size (es ! i)" size] by simp

lemma size_last [termination_simp]: "es \<noteq> [] \<Longrightarrow> size (last es) < Suc (size_list size es)"
  using size_list_estimation' [of "last es" es "size (last es)" size] by simp

fun c_eval :: "'f cenv \<Rightarrow> 'f cexpr \<Rightarrow> (basic_type \<times> int) option" where
  "c_eval E (NumberConst a t v) =
     (case v of
        IntVal w \<Rightarrow>
          (let x = (if c_unsigned t then uint w else sint w) in if c_type t \<and> c_conv t x = x then Some (t, x) else None)
      | LdVal f \<Rightarrow> None)"
| "c_eval E (SymbolE a c name) =
     (if c = EC_IDENT
      then case findSymbolByGroup (scopes E) name of None \<Rightarrow> None | Some s \<Rightarrow> map_option (Pair BT_INT) (enum_const s)
      else None)"
| "c_eval E (UnaryE a c e) = (case c_eval E e of None \<Rightarrow> None | Some (t, x) \<Rightarrow> c_unary c t x)"
| "c_eval E (BinaryE a c e f) =
     (if c = EC_CAST then
        (case resolveType E e of
           None \<Rightarrow> None
         | Some td \<Rightarrow>
             if e_exprCode e = EC_TYPE_DESC \<and> c_type (td_basicType td)
             then map_option (\<lambda>(t, x). (td_basicType td, c_conv (td_basicType td) x)) (c_eval E f) else None)
      else case c_eval E e of None \<Rightarrow> None | Some p \<Rightarrow> (case c_eval E f of None \<Rightarrow> None | Some q \<Rightarrow> c_binary c p q))"
| "c_eval E (ListE a c es) =
     (if c = EC_EXPRS \<and> es \<noteq> [] then c_eval E (last es)
      else if c = EC_CONDEXPR \<and> length es = 3 then
        (case c_eval E (es ! 0) of None \<Rightarrow> None | Some (t, x) \<Rightarrow>
        (case c_eval E (es ! 1) of None \<Rightarrow> None | Some (u, y) \<Rightarrow>
        (case c_eval E (es ! 2) of None \<Rightarrow> None | Some (v, z) \<Rightarrow>
           Some (c_common u v, c_conv (c_common u v) (if x \<noteq> 0 then y else z)))))
      else None)"
| "c_eval E _ = None"

text \<open>
  Where the front end keeps to C: it gives the result of a comparison or of a logical operator the type of the operands,
  and lets the count of a shift and the condition of a conditional take part in the choice of the type. These must not
  make a type unsigned that is signed in C.
\<close>

definition c_signed_at :: "'f cenv \<Rightarrow> 'f cexpr \<Rightarrow> bool" where
  "c_signed_at E e \<longleftrightarrow> (case c_eval E e of None \<Rightarrow> False | Some (t, x) \<Rightarrow> \<not> c_unsigned t)"

definition truth_code :: "ecode \<Rightarrow> bool" where
  "truth_code c \<longleftrightarrow> c \<in> {EC_ARITH_EQ, EC_ARITH_NE, EC_ARITH_GE, EC_ARITH_GT, EC_ARITH_LE, EC_ARITH_LT, EC_LOG_AND, EC_LOG_OR}"

fun foldable :: "'f cenv \<Rightarrow> 'f cexpr \<Rightarrow> bool" where
  "foldable E (UnaryE a c e) \<longleftrightarrow> foldable E e \<and> (c = EC_LOG_NOT \<longrightarrow> c_signed_at E e)"
| "foldable E (BinaryE a c e f) \<longleftrightarrow>
     (if c = EC_CAST then foldable E f
      else foldable E e \<and> foldable E f \<and> e_exprCode e \<noteq> EC_TYPE_DESC
        \<and> (truth_code c \<longrightarrow> c_signed_at E e \<and> c_signed_at E f)
        \<and> (c = EC_LSHIFT \<or> c = EC_RSHIFT \<longrightarrow> c_signed_at E e \<longrightarrow> c_signed_at E f))"
| "foldable E (ListE a c es) \<longleftrightarrow>
     (if c = EC_CONDEXPR then
        (if length es = 3
         then foldable E (es ! 0) \<and> foldable E (es ! 1) \<and> foldable E (es ! 2)
           \<and> (c_signed_at E (es ! 1) \<and> c_signed_at E (es ! 2) \<longrightarrow> c_signed_at E (es ! 0))
         else False)
      else if es \<noteq> [] then foldable E (last es) else False)"
| "foldable E e \<longleftrightarrow> True"

subsection \<open>Conversions\<close>

lemma c_conv_idem [simp]: "c_conv t (c_conv t x) = c_conv t x"
  by (simp add: c_conv_def)

lemma c_conv_mono: "c_conv BT_INT x = x \<Longrightarrow> c_conv BT_LONG x = x"
proof -
  assume "c_conv BT_INT x = x"
  then have e: "signed_take_bit 31 x = x" by (simp add: c_conv_def c_unsigned_def)
  have "signed_take_bit 63 (signed_take_bit 31 x) = signed_take_bit 31 x" by simp
  then show ?thesis unfolding e by (simp add: c_conv_def c_unsigned_def)
qed

text \<open>The type that the front end computes is that of C, wider among the signed types or the other unsigned one.\<close>

definition agrees :: "basic_type \<Rightarrow> basic_type \<Rightarrow> bool" where
  "agrees t f \<longleftrightarrow> c_type t \<and> c_type f \<and> c_unsigned t = c_unsigned f \<and> (t = BT_LONG \<longrightarrow> f = BT_LONG)"

lemmas type_defs = c_type_def c_unsigned_def c_common_def agrees_def

lemma agrees_common: "agrees t f \<Longrightarrow> agrees u g \<Longrightarrow> agrees (c_common t u) (c_common f g)"
  by (auto simp: type_defs)

lemma agrees_range: "agrees t f \<Longrightarrow> c_conv t x = x \<Longrightarrow> c_conv f x = x"
  using c_conv_mono [of x] by (auto simp: type_defs) (auto simp: c_conv_def c_unsigned_def)

lemma common_conv:
  assumes "agrees t f" "agrees u g" "c_conv t x = x"
  shows "c_conv (c_common t u) x = c_conv (c_common f g) x"
  using assms c_conv_mono [of x] by (auto simp: type_defs) (auto simp: c_conv_def c_unsigned_def)

subsection \<open>Numbers that stand for a typed value\<close>

definition good :: "'f nvt \<Rightarrow> basic_type \<Rightarrow> int \<Rightarrow> bool" where
  "good n f x \<longleftrightarrow> c_type f \<and> c_conv f x = x \<and> nvt_basicType n = f \<and> nvt_numKind n = (if c_unsigned f then NK_ULL else NK_LL)
     \<and> nvt_numValue n = IntVal (word_of_int x) \<and> \<not> nvt_isConstButMutable n \<and> \<not> nvt_isConstButUnreducable n"

text \<open>The value of a number as its kind reads it.\<close>

definition num_of :: "'f ld_ops \<Rightarrow> 'f nvt \<Rightarrow> int" where
  "num_of L n = (if nvt_numKind n = NK_ULL then uint (get_ll L (nvt_numValue n)) else sint (get_ll L (nvt_numValue n)))"

lemma signed_range: "c_type f \<Longrightarrow> \<not> c_unsigned f \<Longrightarrow> c_conv f x = x \<Longrightarrow> signed_take_bit 63 x = x"
  using c_conv_mono [of x] by (auto simp: type_defs c_conv_def)

lemma read_word:
  assumes "c_type f" "c_conv f x = x"
  shows "\<not> c_unsigned f \<Longrightarrow> sint (word_of_int x :: 64 word) = x" and "c_unsigned f \<Longrightarrow> uint (word_of_int x :: 64 word) = x"
  using assms signed_range [OF assms(1) _ assms(2)] by (simp_all add: signed_of_int uint_word_of_int_eq c_conv_def)

lemma num_of_good: "good n f x \<Longrightarrow> num_of L n = x"
  using read_word [of f x] by (auto simp: good_def num_of_def)

lemma kind_of_type: "c_type f \<Longrightarrow> getNumValueKind f = Inr (if c_unsigned f then NK_ULL else NK_LL)"
  by (auto simp: type_defs getNumValueKind_def)

lemma int_conv_type: "c_type f \<Longrightarrow> int_conv f = Some (c_conv f)"
  by (auto simp: type_defs c_conv_def)

lemma cast_good:
  assumes "good n f x" and "c_type t"
  shows "\<exists>n'. castNumValue L n t = Inr (n', True) \<and> good n' t (c_conv t x)"
proof -
  have "t \<noteq> BT_UNDEF" using assms(2) by (auto simp: c_type_def)
  moreover have "(case nvt_numKind n of NK_LL \<Rightarrow> c_conv t (sint (get_ll L (nvt_numValue n)))
      | NK_ULL \<Rightarrow> c_conv t (uint (get_ll L (nvt_numValue n))) | NK_LD \<Rightarrow> v) = c_conv t x" for v
    using assms(1) read_word [of f x] by (auto simp: good_def)
  ultimately show ?thesis
    using assms unfolding castNumValue_def
    by (simp add: int_conv_type kind_of_type) (simp add: good_def)
qed

lemma lower_types_common:
  assumes "c_type f" "c_type g"
  shows "lower_types f \<noteq> None \<and> (if g \<in> set (the (lower_types f)) then c_common f g = f else c_common f g = g)"
  using assms by (auto simp: type_defs)

lemma fix_good:
  assumes "good n1 f x" and "good n2 g y" and s: "s = c_common f g"
  shows "\<exists>n1' n2'. fixNumValueType L n1 n2 = Inr (n1', n2', True) \<and> good n1' s (c_conv s x) \<and> good n2' s (c_conv s y)"
proof -
  have t: "c_type f" "c_type g" "nvt_basicType n1 = f" "nvt_basicType n2 = g" "c_conv f x = x" "c_conv g y = y"
    using assms by (auto simp: good_def)
  obtain lower where lower: "lower_types f = Some lower" "if g \<in> set lower then c_common f g = f else c_common f g = g"
    using lower_types_common [OF t(1,2)] by force
  show ?thesis
  proof (cases "g \<in> set lower")
    case True
    with lower s have "s = f" by simp
    with cast_good [OF assms(2) t(1), of L] True lower t assms(1) show ?thesis by (auto simp: fixNumValueType_def)
  next
    case False
    with lower s have "s = g" by simp
    with cast_good [OF assms(1) t(2), of L] False lower t assms(2) show ?thesis by (auto simp: fixNumValueType_def)
  qed
qed

subsection \<open>Operators on words\<close>

lemma norm_word: "c_norm t v = Some (u, z) \<Longrightarrow> u = t \<and> c_conv t z = z \<and> (word_of_int z :: 64 word) = word_of_int v"
proof -
  have "(word_of_int (take_bit 64 v) :: 64 word) = word_of_int v" by (transfer, simp)
  then show "c_norm t v = Some (u, z) \<Longrightarrow> ?thesis" by (auto simp: c_norm_def c_conv_def split: if_splits)
qed

lemma range_bits:
  assumes "c_conv t x = x" "c_conv t y = y"
  shows "c_conv t (x AND y) = x AND y" "c_conv t (x OR y) = x OR y" "c_conv t (x XOR y) = x XOR y"
proof -
  have s: "signed_take_bit n (x AND y) = signed_take_bit n x AND signed_take_bit n y"
    "signed_take_bit n (x OR y) = signed_take_bit n x OR signed_take_bit n y"
    "signed_take_bit n (x XOR y) = signed_take_bit n x XOR signed_take_bit n y" for n
    by (simp_all add: bit_eq_iff bit_signed_take_bit_iff bit_and_iff bit_or_iff bit_xor_iff)
  show "c_conv t (x AND y) = x AND y" "c_conv t (x OR y) = x OR y" "c_conv t (x XOR y) = x XOR y"
    using assms by (auto simp add: c_conv_def s split: if_splits)
qed

lemma conv_range:
  "c_conv t x = x \<longleftrightarrow> (if c_unsigned t then 0 \<le> x \<and> x < 2 ^ 64 else if t = BT_INT then - (2 ^ 31) \<le> x \<and> x < 2 ^ 31 else - (2 ^ 63) \<le> x \<and> x < 2 ^ 63)"
  by (simp add: c_conv_def take_bit_int_eq_self_iff signed_take_bit_int_eq_self_iff)

lemma range_shrink: "c_conv t x = x \<Longrightarrow> 0 \<le> x \<and> 0 \<le> y \<and> y \<le> x \<or> x \<le> 0 \<and> y \<le> 0 \<and> x \<le> y \<Longrightarrow> c_conv t y = y"
  by (auto simp: conv_range split: if_splits)

lemma drop_bit_shrink: "(0::int) \<le> x \<and> 0 \<le> drop_bit k x \<and> drop_bit k x \<le> x \<or> x \<le> 0 \<and> drop_bit k x \<le> 0 \<and> x \<le> drop_bit k x"
proof (cases "0 \<le> x")
  case True
  then show ?thesis using zdiv_mono2 [of x 1 "2 ^ k"] by (simp add: drop_bit_eq_div pos_imp_zdiv_nonneg_iff)
next
  case False
  have "x = x * 2 ^ k div 2 ^ k" by simp
  also have "\<dots> \<le> x div 2 ^ k" using False mult_left_mono_neg [of 1 "2 ^ k" x] by (intro zdiv_mono1) auto
  finally show ?thesis using False by (simp add: drop_bit_eq_div) (simp add: neg_imp_zdiv_nonneg_iff div_nonpos_pos_le0)
qed

lemma smod_shrink: "y \<noteq> 0 \<Longrightarrow> (0::int) \<le> x \<and> 0 \<le> x smod y \<and> x smod y \<le> x \<or> x \<le> 0 \<and> x smod y \<le> 0 \<and> x \<le> x smod y"
proof -
  assume "y \<noteq> 0"
  then have "0 \<le> \<bar>x\<bar> mod \<bar>y\<bar>" "\<bar>x\<bar> mod \<bar>y\<bar> \<le> \<bar>x\<bar>" by (simp_all add: zmod_le_nonneg_dividend)
  moreover have "x smod y = sgn x * (\<bar>x\<bar> mod \<bar>y\<bar>)" by (simp add: signed_modulo_int_def)
  ultimately show ?thesis by (cases "0 < x"; cases "x = 0") auto
qed

lemma sdiv_smod_nonneg: "0 \<le> x \<Longrightarrow> 0 \<le> y \<Longrightarrow> x sdiv y = x div y \<and> x smod y = x mod y" for x :: int
  by (cases "y = 0") (auto simp: signed_modulo_int_def signed_divide_int_def sgn_if minus_mult_div_eq_mod)

definition word_op :: "ecode \<Rightarrow> basic_type \<Rightarrow> 64 word \<Rightarrow> 64 word \<Rightarrow> int \<Rightarrow> 64 word option res" where
  "word_op c f = (if c_unsigned f then ull_op c else ll_op c)"

lemma word_eq_iff_int:
  assumes "c_type f" "c_conv f x = x" "c_conv f y = y"
  shows "(word_of_int x :: 64 word) = word_of_int y \<longleftrightarrow> x = y"
  using read_word [OF assms(1,2)] read_word [OF assms(1,3)] by metis

lemma conv_0 [simp]: "c_conv t 0 = 0" "c_conv BT_INT 1 = 1" "c_conv BT_INT (of_bool b) = of_bool b"
  by (simp_all add: c_conv_def c_unsigned_def)

lemma word_zero_iff: "c_type f \<Longrightarrow> c_conv f x = x \<Longrightarrow> (word_of_int x :: 64 word) = 0 \<longleftrightarrow> x = 0"
  using word_eq_iff_int [of f x 0] by simp

lemma agrees_bool: "agrees t f \<Longrightarrow> \<not> c_unsigned t \<Longrightarrow> agrees BT_INT f"
  by (auto simp: type_defs)

lemma agrees_type: "agrees t f \<Longrightarrow> c_type f" "agrees t f \<Longrightarrow> c_unsigned f = c_unsigned t"
  by (auto simp: agrees_def)

text \<open>What one operator of the front end owes to C: the word of the value, in a type that agrees.\<close>

definition op_ok :: "64 word option res \<Rightarrow> basic_type \<Rightarrow> basic_type \<times> int \<Rightarrow> bool" where
  "op_ok r f = (\<lambda>(u, z). r = Inr (Some (word_of_int z)) \<and> agrees u f \<and> c_conv u z = z)"

lemma op_ok_norm:
  "c_norm t v = Some p \<Longrightarrow> agrees t f \<Longrightarrow> r = Inr (Some (word_of_int v)) \<Longrightarrow> op_ok r f p"
  using norm_word [of t v "fst p" "snd p"] by (cases p) (auto simp: op_ok_def)

lemma op_ok_bool:
  "c_bool b = Some p \<Longrightarrow> agrees t f \<Longrightarrow> \<not> c_unsigned t \<Longrightarrow> r = Inr (Some (of_bool b)) \<Longrightarrow> op_ok r f p"
  using agrees_bool [of t f] by (auto simp: op_ok_def c_bool_def)

lemma unary_ok:
  assumes "c_unary c t x = Some p" and "agrees t f" and "c_conv t x = x" and "c = EC_LOG_NOT \<longrightarrow> \<not> c_unsigned t"
  shows "op_ok (word_op c f (word_of_int x) b k) f p"
proof -
  note f = agrees_type(1) [OF assms(2)] agrees_range [OF assms(2,3)]
  consider "c = EC_BRACED_EXPR" | "c = EC_UNARY_MINUS" | "c = EC_BIT_NOT" | "c = EC_LOG_NOT"
    using assms(1) by (cases c) auto
  then show ?thesis
  proof cases
    case 1
    with assms show ?thesis by (auto simp: op_ok_def word_op_def ll_op_def ull_op_def)
  next
    case 2
    with assms(1) show ?thesis by (intro op_ok_norm [OF _ assms(2)]) (auto simp: word_op_def ll_op_def ull_op_def)
  next
    case 3
    with assms(1) show ?thesis by (intro op_ok_norm [OF _ assms(2)]) (auto simp: word_op_def ll_op_def ull_op_def of_int_not_eq)
  next
    case 4
    with assms f show ?thesis by (intro op_ok_bool [OF _ assms(2)]) (auto simp: word_op_def ll_op_def ull_op_def word_zero_iff)
  qed
qed

lemma div_ok:
  assumes f: "c_type f" "c_conv f x = x" "c_conv f y = y" and "c_norm t (x sdiv y) \<noteq> None" and "agrees t f"
  shows "word_op EC_DIV f (word_of_int x) (word_of_int y) k = Inr (Some (word_of_int (x sdiv y)))"
    and "word_op EC_MOD f (word_of_int x) (word_of_int y) k = Inr (Some (word_of_int (x smod y)))"
proof -
  have "word_op EC_DIV f (word_of_int x) (word_of_int y) k = Inr (Some (word_of_int (x sdiv y)))
    \<and> word_op EC_MOD f (word_of_int x) (word_of_int y) k = Inr (Some (word_of_int (x smod y)))"
  proof (cases "c_unsigned f")
    case True
    with f have "0 \<le> x" "0 \<le> y" by (auto simp: conv_range)
    with True read_word(2) [OF f(1,2)] read_word(2) [OF f(1,3)] show ?thesis
      by (simp add: word_op_def ull_op_def sdiv_smod_nonneg word_div_def word_mod_def)
  next
    case False
    have "\<not> (x = - (2 ^ 63) \<and> y = - 1)"
      using assms(4,5) False by (auto simp: c_norm_def conv_range agrees_def signed_divide_int_def split: if_splits)
    with False read_word(1) [OF f(1,2)] read_word(1) [OF f(1,3)] show ?thesis
      by (auto simp: word_op_def ll_op_def)
  qed
  then show "word_op EC_DIV f (word_of_int x) (word_of_int y) k = Inr (Some (word_of_int (x sdiv y)))"
    and "word_op EC_MOD f (word_of_int x) (word_of_int y) k = Inr (Some (word_of_int (x smod y)))" by auto
qed

lemma bits_ok:
  assumes "c \<in> {EC_BIT_AND, EC_BIT_OR, EC_BIT_XOR}" and "c_arith c t x y = Some p" and "agrees t f" "c_conv t x = x" "c_conv t y = y"
  shows "op_ok (word_op c f (word_of_int x) (word_of_int y) k) f p"
proof -
  from assms(1) consider "c = EC_BIT_AND" | "c = EC_BIT_OR" | "c = EC_BIT_XOR" by blast
  then show ?thesis
    using assms(2,3) range_bits [OF assms(4,5)]
    by cases (auto simp: op_ok_def word_op_def ll_op_def ull_op_def of_int_and_eq of_int_or_eq of_int_xor_eq)
qed

lemma truth_ok:
  assumes "truth_code c" "c \<noteq> EC_LOG_AND" "c \<noteq> EC_LOG_OR" and "c_arith c t x y = Some p" and "agrees t f" "\<not> c_unsigned t"
    and "c_conv t x = x" "c_conv t y = y"
  shows "op_ok (word_op c f (word_of_int x) (word_of_int y) k) f p"
proof -
  note f = agrees_type(1) [OF assms(5)] agrees_range [OF assms(5,7)] agrees_range [OF assms(5,8)]
  have u: "\<not> c_unsigned f" using assms(5,6) by (simp add: agrees_def)
  note rd = read_word(1) [OF f(1,2) u] read_word(1) [OF f(1,3) u] word_eq_iff_int [OF f]
  from assms(1-3) consider "c = EC_ARITH_EQ" | "c = EC_ARITH_NE" | "c = EC_ARITH_GE" | "c = EC_ARITH_GT" | "c = EC_ARITH_LE" | "c = EC_ARITH_LT"
    by (auto simp: truth_code_def)
  then show ?thesis
    by cases (use assms(4) in \<open>auto intro!: op_ok_bool [OF _ assms(5,6)] simp: word_op_def ll_op_def u rd\<close>)
qed

lemma arith_ok:
  assumes ar: "c_arith c t x y = Some p" and ag: "agrees t f" and r: "c_conv t x = x" "c_conv t y = y" and "truth_code c \<longrightarrow> \<not> c_unsigned t"
  shows "op_ok (word_op c f (word_of_int x) (word_of_int y) k) f p"
proof -
  note f = agrees_type(1) [OF ag] agrees_range [OF ag r(1)] agrees_range [OF ag r(2)]
  consider "c = EC_PLUS" | "c = EC_MINUS" | "c = EC_MUL" | "c = EC_DIV" | "c = EC_MOD" | "c \<in> {EC_BIT_AND, EC_BIT_OR, EC_BIT_XOR}"
    | "truth_code c" "c \<noteq> EC_LOG_AND" "c \<noteq> EC_LOG_OR"
    using ar by (cases c) (auto simp: truth_code_def)
  then show ?thesis
  proof cases
    case 1
    with ar show ?thesis by (intro op_ok_norm [OF _ ag]) (auto simp: word_op_def ll_op_def ull_op_def)
  next
    case 2
    with ar show ?thesis by (intro op_ok_norm [OF _ ag]) (auto simp: word_op_def ll_op_def ull_op_def)
  next
    case 3
    with ar show ?thesis by (intro op_ok_norm [OF _ ag]) (auto simp: word_op_def ll_op_def ull_op_def)
  next
    case 4
    with ar have n: "c_norm t (x sdiv y) = Some p" by (simp split: if_splits)
    with 4 div_ok(1) [OF f _ ag] show ?thesis by (intro op_ok_norm [OF n ag]) simp
  next
    case 5
    with ar have n: "c_norm t (x sdiv y) \<noteq> None" and y: "y \<noteq> 0" and p: "p = (t, x smod y)" by (auto split: if_splits)
    have "c_conv t (x smod y) = x smod y" using range_shrink [OF r(1) smod_shrink [OF y]] .
    with 5 p div_ok(2) [OF f n ag] ag show ?thesis by (simp add: op_ok_def)
  next
    case 6
    then show ?thesis using bits_ok [OF _ ar ag r] by simp
  next
    case 7
    then show ?thesis using truth_ok [OF _ _ _ ar ag _ r] assms(5) by simp
  qed
qed

lemma shift_ok:
  assumes sh: "c_shift c t x y = Some p" and c: "c = EC_LSHIFT \<or> c = EC_RSHIFT" and ag: "agrees t f" and r: "c_conv t x = x"
  shows "op_ok (word_op c f (word_of_int x) b y) f p"
proof -
  note f = agrees_type(1) [OF ag] agrees_range [OF ag r]
  have y: "0 \<le> y" "y < 64" using sh by (auto simp: c_shift_def c_width_def split: if_splits)
  show ?thesis
  proof (cases "c = EC_RSHIFT")
    case True
    with sh have p: "p = (t, drop_bit (nat y) x)" by (auto simp: c_shift_def split: if_splits)
    have "c_conv t (drop_bit (nat y) x) = drop_bit (nat y) x" using range_shrink [OF r drop_bit_shrink] .
    moreover have "word_op c f (word_of_int x) b y = Inr (Some (word_of_int (drop_bit (nat y) x)))"
    proof (cases "c_unsigned f")
      case u: True
      have "uint (drop_bit (nat y) (word_of_int x :: 64 word)) = drop_bit (nat y) x"
        using f u by (simp add: unsigned_drop_bit_eq uint_word_of_int_eq c_conv_def)
      then have "drop_bit (nat y) (word_of_int x :: 64 word) = word_of_int (drop_bit (nat y) x)" by (metis word_of_int_uint)
      with u True y show ?thesis by (simp add: word_op_def ull_op_def)
    next
      case False
      with True y read_word(1) [OF f False] show ?thesis by (simp add: word_op_def ll_op_def)
    qed
    ultimately show ?thesis using p ag by (simp add: op_ok_def)
  next
    case False
    with sh have n: "c_norm t (push_bit (nat y) x) = Some p" by (auto simp: c_shift_def split: if_splits)
    have "push_bit (nat y) (word_of_int x :: 64 word) = word_of_int (push_bit (nat y) x)" by (simp add: push_bit_eq_mult)
    with False c y show ?thesis by (intro op_ok_norm [OF n ag]) (auto simp: word_op_def ll_op_def ull_op_def)
  qed
qed

subsection \<open>Nodes\<close>

lemma merge_nvt0: "good n f x \<Longrightarrow> mergeConstFlag nvt0 n = nvt0"
  by (simp add: good_def mergeConstFlag_def nvt0_def)

lemma num_op_word:
  "num_op L c (if c_unsigned f then NK_ULL else NK_LL) (IntVal a) (IntVal b) k = bind_res (word_op c f a b k) (\<lambda>w. Inr (map_option IntVal w))"
  by (simp add: num_op_def word_op_def)

lemma apply_operator:
  assumes "e_exprCode e \<noteq> EC_CAST" "e_exprCode e \<noteq> EC_CONDEXPR" and div: "e_exprCode e = EC_DIV \<or> e_exprCode e = EC_MOD \<longrightarrow> w \<noteq> 0"
    and good: "good n1 f x" and n2: "nvt_numValue n2 = IntVal w"
    and op: "op_ok (word_op (e_exprCode e) f (word_of_int x) w k) f (u, z)"
  shows "\<exists>n. apply_code L E e n1 n2 n3 k c2 c3 nvt0 st = Inr (n, True, st) \<and> good n f z \<and> agrees u f \<and> c_conv u z = z"
proof -
  from op have w: "word_op (e_exprCode e) f (word_of_int x) w k = Inr (Some (word_of_int z))" and u: "agrees u f" "c_conv u z = z"
    by (auto simp: op_ok_def)
  let ?r = "nvt0\<lparr>nvt_numValue := IntVal (word_of_int z), nvt_basicType := f, nvt_numKind := if c_unsigned f then NK_ULL else NK_LL\<rparr>"
  have n1: "nvt_numKind n1 = (if c_unsigned f then NK_ULL else NK_LL)" "nvt_numValue n1 = IntVal (word_of_int x)" "nvt_basicType n1 = f" "c_type f"
    using good by (auto simp: good_def)
  have z: "is_zero L (if c_unsigned f then NK_ULL else NK_LL) (IntVal w) \<longleftrightarrow> w = 0" by (simp add: is_zero_def)
  have "apply_code L E e n1 n2 n3 k c2 c3 nvt0 st = Inr (?r, True, st)"
    using assms(1-3) w unfolding apply_code_def Let_def n1 n2 num_op_word checkDivisionByZero_def z
    by (cases "e_exprCode e") simp_all
  moreover have "good ?r f z" using n1(4) agrees_range [OF u] by (simp add: good_def nvt0_def)
  ultimately show ?thesis using u by blast
qed

lemma fold_unary:
  assumes "e_exprCode e \<notin> {EC_CAST, EC_CONDEXPR, EC_DIV, EC_MOD}" and good: "good n1 f x"
    and op: "op_ok (word_op (e_exprCode e) f (word_of_int x) 0 0) f (u, z)"
  shows "\<exists>n. fold_op L E e n1 nvt0 nvt0 False False False False st = Inr (n, True, st) \<and> good n f z \<and> agrees u f \<and> c_conv u z = z"
proof -
  have "nvt_numValue nvt0 = IntVal 0" by (simp add: nvt0_def)
  from apply_operator [OF _ _ _ good this op, of L E nvt0 False False st] assms(1) merge_nvt0 [OF good] show ?thesis
    by (auto simp: fold_op_def)
qed

lemma int32_small: "0 \<le> y \<Longrightarrow> y < 64 \<Longrightarrow> int32 y = y"
  by (simp add: int32_def)

lemma casted_good: "good n f x \<Longrightarrow> getCastedLongValue L n = signed_take_bit 63 x"
  by (simp add: good_def getCastedLongValue_def signed_of_int)

lemma fold_binary:
  assumes code: "e_exprCode e \<notin> {EC_CAST, EC_CONDEXPR}" and g1: "good n1 f x" and g2: "good n2 g y" and s: "s = c_common f g"
    and div: "e_exprCode e = EC_DIV \<or> e_exprCode e = EC_MOD \<longrightarrow> c_conv s y \<noteq> 0"
    and op: "op_ok (word_op (e_exprCode e) s (word_of_int (c_conv s x)) (word_of_int (c_conv s y)) (int32 (signed_take_bit 63 y))) s (u, z)"
  shows "\<exists>n. fold_op L E e n1 n2 nvt0 True False False False st = Inr (n, True, st) \<and> good n s z \<and> agrees u s \<and> c_conv u z = z"
proof -
  obtain m1 m2 where fx: "fixNumValueType L n1 n2 = Inr (m1, m2, True)" and m1: "good m1 s (c_conv s x)" and m2: "good m2 s (c_conv s y)"
    using fix_good [OF g1 g2 s] by blast
  have v2: "nvt_numValue m2 = IntVal (word_of_int (c_conv s y))" and ty: "c_type s" using m2 by (auto simp: good_def)
  have "e_exprCode e = EC_DIV \<or> e_exprCode e = EC_MOD \<longrightarrow> (word_of_int (c_conv s y) :: 64 word) \<noteq> 0"
    using div word_zero_iff [OF ty, of "c_conv s y"] by simp
  from apply_operator [OF _ _ this m1 v2 op, of L E nvt0 False False st] code
  show ?thesis
    by (simp add: fold_op_def casted_good [OF g2] use_operand_def fx merge_nvt0 [OF g1] merge_nvt0 [OF m2])
qed

lemma common_commute: "c_common t u = c_common u t"
  by (auto simp: c_common_def)

lemma binary_ok:
  assumes op: "c_binary c (t, x) (u, y) = Some p" and ag: "agrees t f" "agrees u g" and r: "c_conv t x = x" "c_conv u y = y"
    and s: "s = c_common f g" and truth: "truth_code c \<longrightarrow> \<not> c_unsigned t \<and> \<not> c_unsigned u"
    and shift: "c = EC_LSHIFT \<or> c = EC_RSHIFT \<longrightarrow> \<not> c_unsigned t \<longrightarrow> \<not> c_unsigned u"
  shows "op_ok (word_op c s (word_of_int (c_conv s x)) (word_of_int (c_conv s y)) (int32 (signed_take_bit 63 y))) s p"
    and "c = EC_DIV \<or> c = EC_MOD \<longrightarrow> c_conv s y \<noteq> 0"
proof -
  let ?T = "c_common t u"
  have T: "agrees ?T s" using agrees_common [OF ag] s by simp
  have cv: "c_conv ?T x = c_conv s x" "c_conv ?T y = c_conv s y"
    using common_conv [OF ag r(1)] common_conv [OF ag(2,1) r(2)] s by (simp_all add: common_commute)
  have rs: "c_conv ?T (c_conv s x) = c_conv s x" "c_conv ?T (c_conv s y) = c_conv s y" by (metis c_conv_idem cv(1)) (metis c_conv_idem cv(2))
  consider (sh) "c = EC_LSHIFT \<or> c = EC_RSHIFT" | (lg) "c = EC_LOG_AND \<or> c = EC_LOG_OR"
    | (ar) "c_arith c ?T (c_conv s x) (c_conv s y) = Some p"
    using op cv by (auto simp: c_binary_def Let_def split: if_splits)
  then show "op_ok (word_op c s (word_of_int (c_conv s x)) (word_of_int (c_conv s y)) (int32 (signed_take_bit 63 y))) s p"
  proof cases
    case sh
    then have p: "c_shift c t x y = Some p" using op by (auto simp: c_binary_def)
    then have y: "0 \<le> y" "y < 64" by (auto simp: c_shift_def c_width_def split: if_splits)
    then have "int32 (signed_take_bit 63 y) = y" by (simp add: int32_small signed_take_bit_int_eq_self)
    moreover have "agrees t s" using ag shift sh s by (auto simp: type_defs)
    moreover from this have "c_conv s x = x" using r(1) by (rule agrees_range)
    ultimately show ?thesis using shift_ok [OF p sh, of s] r(1) by simp
  next
    case lg
    with truth have u: "\<not> c_unsigned t" "\<not> c_unsigned u" by (auto simp: truth_code_def)
    then have uT: "\<not> c_unsigned ?T" "\<not> c_unsigned s" using ag T by (auto simp: type_defs)
    have "c_conv ?T x = x" "c_conv ?T y = y" using u ag r c_conv_mono [of x] c_conv_mono [of y] by (auto simp: type_defs)
    then have x: "c_conv s x = x" "c_conv s y = y" using cv by simp_all
    with lg op show ?thesis
      by (auto intro!: op_ok_bool [OF _ T uT(1)] simp: c_binary_def word_op_def uT ll_op_def word_zero_iff [OF agrees_type(1) [OF T]])
  next
    case ar
    have "truth_code c \<longrightarrow> \<not> c_unsigned ?T" using truth ag by (auto simp: type_defs)
    from arith_ok [OF ar T rs this] show ?thesis .
  qed
  show "c = EC_DIV \<or> c = EC_MOD \<longrightarrow> c_conv s y \<noteq> 0"
    using op cv by (auto simp: c_binary_def Let_def split: if_splits)
qed

lemma common_word:
  assumes "c_type f" "c_type g" "c_conv f x = x"
  shows "(word_of_int (c_conv (c_common f g) x) :: 64 word) = word_of_int x"
    and "(word_of_int (c_conv (c_common g f) x) :: 64 word) = word_of_int x"
proof -
  have "(word_of_int (take_bit 64 x) :: 64 word) = word_of_int x" by (transfer, simp)
  moreover have "c_unsigned (c_common f g) \<or> c_conv (c_common f g) x = x"
    using assms c_conv_mono [of x] by (auto simp: type_defs)
  ultimately show "(word_of_int (c_conv (c_common f g) x) :: 64 word) = word_of_int x" by (auto simp: c_conv_def)
  then show "(word_of_int (c_conv (c_common g f) x) :: 64 word) = word_of_int x" by (simp add: common_commute)
qed

lemma fold_cond:
  assumes code: "e_exprCode e = EC_CONDEXPR" and g: "good n1 f x" "good n2 g y" "good n3 h z"
    and T: "agrees T (c_common (c_common f g) h)" "c_conv T v = v" "(word_of_int v :: 64 word) = word_of_int (if x \<noteq> 0 then y else z)"
  shows "\<exists>n. fold_op L E e n1 n2 n3 True True True True st = Inr (n, True, st) \<and> good n (c_common (c_common f g) h) v"
proof -
  define s where "s = c_common (c_common f g) h"
  have ty: "c_type f" "c_type g" "c_type h" "c_conv f x = x" "c_conv g y = y" "c_conv h z = z" using g by (auto simp: good_def)
  then have ty2: "c_type (c_common f g)" "c_type s" by (auto simp: type_defs s_def)
  obtain m1 m2 where m: "fixNumValueType L n1 n2 = Inr (m1, m2, True)" "good m1 (c_common f g) (c_conv (c_common f g) x)"
    "good m2 (c_common f g) (c_conv (c_common f g) y)" using fix_good [OF g(1,2) refl] by blast
  obtain k1 k3 where k: "fixNumValueType L m1 n3 = Inr (k1, k3, True)" "good k1 s (c_conv s (c_conv (c_common f g) x))"
    "good k3 s (c_conv s z)" using fix_good [OF m(2) g(3) s_def] by blast
  have "(word_of_int (c_conv s (c_conv (c_common f g) x)) :: 64 word) = word_of_int x"
    unfolding s_def using common_word(1) [OF ty2(1) ty(3), of "c_conv (c_common f g) x"] common_word(1) [OF ty(1,2,4)] by simp
  moreover have "(word_of_int (c_conv s z) :: 64 word) = word_of_int z" unfolding s_def using common_word(2) [OF ty(3) ty2(1) ty(6)] .
  moreover have "(word_of_int (c_conv (c_common f g) y) :: 64 word) = word_of_int y" using common_word(2) [OF ty(2,1,5)] .
  ultimately have vs: "nvt_numValue k1 = IntVal (word_of_int x)" "nvt_numValue m2 = IntVal (word_of_int y)" "nvt_numValue k3 = IntVal (word_of_int z)"
    "nvt_numKind k1 = (if c_unsigned s then NK_ULL else NK_LL)" "nvt_basicType k1 = s"
    using m k by (simp_all add: good_def)
  have x0: "(word_of_int x :: 64 word) = 0 \<longleftrightarrow> x = 0" using word_zero_iff [OF ty(1,4)] .
  let ?r = "nvt0\<lparr>nvt_numValue := IntVal (word_of_int v), nvt_basicType := s, nvt_numKind := if c_unsigned s then NK_ULL else NK_LL\<rparr>"
  have "apply_code L E e k1 m2 k3 (int32 (getCastedLongValue L n2)) True True nvt0 st = Inr (?r, True, st)"
    using T(3) by (simp add: apply_code_def code Let_def vs is_zero_def copy_member_def x0)
  then have "fold_op L E e n1 n2 n3 True True True True st = Inr (?r, True, st)"
    by (simp add: fold_op_def use_operand_def m(1) k(1) merge_nvt0 [OF g(1)] merge_nvt0 [OF m(3)] merge_nvt0 [OF k(3)])
  moreover have "good ?r s v" using ty2(2) agrees_range [OF T(1,2)] by (simp add: good_def nvt0_def s_def)
  ultimately show ?thesis unfolding s_def by blast
qed

subsection \<open>Folding is evaluation\<close>

text \<open>What folding owes to an expression with a value in C.\<close>

definition folds :: "'f ld_ops \<Rightarrow> 'f cenv \<Rightarrow> 'f cexpr \<Rightarrow> cstate \<Rightarrow> basic_type \<Rightarrow> int \<Rightarrow> bool" where
  "folds L E e st t x \<longleftrightarrow> c_conv t x = x \<and>
     (\<exists>n f. getConstNumValue L E e st = Some (Inr (n, True, st)) \<and> good n f x \<and> agrees t f)"

lemma foldsI:
  "getConstNumValue L E e st = Some r \<Longrightarrow> \<exists>n. r = Inr (n, True, st) \<and> good n f x \<and> agrees t f \<and> c_conv t x = x \<Longrightarrow> folds L E e st t x"
  by (auto simp: folds_def)

lemma folds_number:
  assumes "c_eval E (NumberConst a bt v) = Some (t, x)" and "e_isError st = []"
  shows "folds L E (NumberConst a bt v) st t x"
proof -
  obtain w where v: "v = IntVal w" using assms(1) by (cases v) auto
  with assms(1) have t: "t = bt" "c_type t" "c_conv t x = x" "x = (if c_unsigned t then uint w else sint w)"
    by (auto simp: Let_def split: if_splits)
  have w: "(word_of_int x :: 64 word) = w" unfolding t(4) by simp
  show ?thesis
    by (rule foldsI [OF getConstNumValue.simps [THEN trans], where f = t])
      (use assms t w v in \<open>auto simp: constToNumValueWithType_def kind_of_type good_def nvt0_def agrees_def\<close>)
qed

lemma folds_symbol:
  assumes "c_eval E (SymbolE a c name) = Some (t, x)" and "e_isError st = []"
  shows "folds L E (SymbolE a c name) st t x"
proof -
  from assms(1) obtain sy where sy: "c = EC_IDENT" "findSymbolByGroup (scopes E) name = Some sy" "enum_const sy = Some x" "t = BT_INT"
    by (auto split: if_splits option.splits)
  then obtain b w where v: "sy_symType sy = ST_ENUM" "\<not> sy_isConstButUnreducable sy" "sy_valueExpr sy = NumberConst b BT_INT (IntVal w)"
    "x = sint w" "c_conv BT_INT x = x"
    by (auto simp: enum_const_def split: if_splits cexpr.splits num_value.splits)
  have "c_eval E (sy_valueExpr sy) = Some (BT_INT, x)" using v by (simp add: type_defs)
  from folds_number [OF this [unfolded v(3)] assms(2), of L] obtain n f
    where n: "getConstNumValue L E (sy_valueExpr sy) st = Some (Inr (n, True, st))" "good n f x" "agrees BT_INT f"
    by (auto simp: folds_def v(3))
  have "op_ok (word_op EC_IDENT f (word_of_int x) 0 0) f (BT_INT, x)"
    using n(3) v(5) by (simp add: op_ok_def word_op_def ll_op_def ull_op_def)
  with fold_unary [OF _ n(2), of "SymbolE a c name" BT_INT x L E st] sy(1)
  obtain m where "fold_op L E (SymbolE a c name) n nvt0 nvt0 False False False False st = Inr (m, True, st)" "good m f x" by auto
  with sy n v(1,2,5) assms(2) show ?thesis
    by (intro foldsI [OF getConstNumValue.simps [THEN trans], where f = f]) (auto simp: Let_def)
qed

lemma folds_unary:
  assumes ev: "c_unary c t x = Some (u, z)" and e: "folds L E e st t x" and st: "e_isError st = []" and "c = EC_LOG_NOT \<longrightarrow> \<not> c_unsigned t"
  shows "folds L E (UnaryE a c e) st u z"
proof -
  have c: "c \<in> {EC_BRACED_EXPR, EC_UNARY_MINUS, EC_BIT_NOT, EC_LOG_NOT}" using ev by (cases c) auto
  from e obtain n f where n: "getConstNumValue L E e st = Some (Inr (n, True, st))" "good n f x" "agrees t f" "c_conv t x = x"
    by (auto simp: folds_def)
  from fold_unary [OF _ n(2), of "UnaryE a c e" u z L E st] unary_ok [OF ev n(3,4) assms(4)] c
  obtain m where "fold_op L E (UnaryE a c e) n nvt0 nvt0 False False False False st = Inr (m, True, st)" "good m f z" "agrees u f" "c_conv u z = z"
    by auto
  with n(1) c st show ?thesis by (intro foldsI [OF getConstNumValue.simps [THEN trans]]) auto
qed

lemma folds_binary:
  assumes ev: "c_binary c (t, x) (u, y) = Some (v, z)" and e: "folds L E e st t x" and f: "folds L E f st u y" and st: "e_isError st = []"
    and c: "c \<noteq> EC_CAST" and td: "e_exprCode e \<noteq> EC_TYPE_DESC"
    and truth: "truth_code c \<longrightarrow> \<not> c_unsigned t \<and> \<not> c_unsigned u"
    and shift: "c = EC_LSHIFT \<or> c = EC_RSHIFT \<longrightarrow> \<not> c_unsigned t \<longrightarrow> \<not> c_unsigned u"
  shows "folds L E (BinaryE a c e f) st v z"
proof -
  have c': "c \<notin> {EC_CONDEXPR, EC_XMP_DESC_OF, EC_FUNCTION_CALL, EC_GCC_BLTIN_OFFSET_OF}"
    using ev by (auto simp: c_binary_def Let_def split: if_splits)
  from e obtain n1 f1 where n1: "getConstNumValue L E e st = Some (Inr (n1, True, st))" "good n1 f1 x" "agrees t f1" "c_conv t x = x"
    by (auto simp: folds_def)
  from f obtain n2 f2 where n2: "getConstNumValue L E f st = Some (Inr (n2, True, st))" "good n2 f2 y" "agrees u f2" "c_conv u y = y"
    by (auto simp: folds_def)
  note ok = binary_ok [OF ev n1(3) n2(3) n1(4) n2(4) refl truth shift]
  obtain m where "fold_op L E (BinaryE a c e f) n1 n2 nvt0 True False False False st = Inr (m, True, st)"
    "good m (c_common f1 f2) z" "agrees v (c_common f1 f2)" "c_conv v z = z"
    using fold_binary [OF _ n1(2) n2(2) refl, of "BinaryE a c e f" v z L E st] ok c c' by auto
  with n1(1) n2(1) c c' st td show ?thesis
    by (intro foldsI [OF getConstNumValue.simps [THEN trans]]) (auto simp: isUnreducableConst_def)
qed

lemma folds_cast:
  assumes td: "resolveType E e = Some td" "e_exprCode e = EC_TYPE_DESC" "c_type (td_basicType td)" and f: "folds L E f st t x" and st: "e_isError st = []"
  shows "folds L E (BinaryE a EC_CAST e f) st (td_basicType td) (c_conv (td_basicType td) x)"
proof -
  from f obtain n g where n: "getConstNumValue L E f st = Some (Inr (n, True, st))" "good n g x" by (auto simp: folds_def)
  obtain m where m: "castNumValue L n (td_basicType td) = Inr (m, True)" "good m (td_basicType td) (c_conv (td_basicType td) x)"
    using cast_good [OF n(2) td(3)] by blast
  let ?r = "nvt0\<lparr>nvt_numValue := nvt_numValue m, nvt_basicType := nvt_basicType m, nvt_numKind := nvt_numKind m\<rparr>"
  have cp: "copy_member L (nvt_numKind m) (nvt_numValue m) = nvt_numValue m" using m(2) by (simp add: good_def copy_member_def)
  have "fold_op L E (BinaryE a EC_CAST e f) n n nvt0 False False False False st = Inr (?r, True, st)"
    by (simp add: fold_op_def apply_code_def Let_def td(1) m(1) cp merge_nvt0 [OF n(2)])
  moreover have "good ?r (td_basicType td) (c_conv (td_basicType td) x)" using m(2) by (simp add: good_def nvt0_def)
  ultimately show ?thesis using n(1) st td(2,3)
    by (intro foldsI [OF getConstNumValue.simps [THEN trans]]) (auto simp: isUnreducableConst_def agrees_def)
qed

lemma folds_last:
  assumes "es \<noteq> []" and e: "folds L E (last es) st t x" and st: "e_isError st = []"
  shows "folds L E (ListE a EC_EXPRS es) st t x"
proof -
  from e obtain n f where n: "getConstNumValue L E (last es) st = Some (Inr (n, True, st))" "good n f x" "agrees t f" "c_conv t x = x"
    by (auto simp: folds_def)
  have "op_ok (word_op EC_EXPRS f (word_of_int x) 0 0) f (t, x)"
    using n(3,4) by (simp add: op_ok_def word_op_def ll_op_def ull_op_def)
  with fold_unary [OF _ n(2), of "ListE a EC_EXPRS es" t x L E st]
  obtain m where "fold_op L E (ListE a EC_EXPRS es) n nvt0 nvt0 False False False False st = Inr (m, True, st)" "good m f x" by auto
  with n assms(1) st show ?thesis
    by (intro foldsI [OF getConstNumValue.simps [THEN trans], where f = f]) (auto simp: exprListTailData_def)
qed

lemma folds_cond:
  assumes len: "length es = 3" and e: "folds L E (es ! 0) st t x" "folds L E (es ! 1) st u y" "folds L E (es ! 2) st v z" and st: "e_isError st = []"
    and signed: "\<not> c_unsigned u \<and> \<not> c_unsigned v \<longrightarrow> \<not> c_unsigned t"
  shows "folds L E (ListE a EC_CONDEXPR es) st (c_common u v) (c_conv (c_common u v) (if x \<noteq> 0 then y else z))"
proof -
  from e(1) obtain n1 f where n1: "getConstNumValue L E (es ! 0) st = Some (Inr (n1, True, st))" "good n1 f x" "agrees t f" by (auto simp: folds_def)
  from e(2) obtain n2 g where n2: "getConstNumValue L E (es ! 1) st = Some (Inr (n2, True, st))" "good n2 g y" "agrees u g" "c_conv u y = y"
    by (auto simp: folds_def)
  from e(3) obtain n3 h where n3: "getConstNumValue L E (es ! 2) st = Some (Inr (n3, True, st))" "good n3 h z" "agrees v h" "c_conv v z = z"
    by (auto simp: folds_def)
  let ?T = "c_common u v" and ?w = "c_conv (c_common u v) (if x \<noteq> 0 then y else z)"
  have ty: "c_type u" "c_type v" using n2 n3 by (auto simp: agrees_def)
  have T: "agrees ?T (c_common (c_common f g) h)" using n1(3) n2(3) n3(3) signed by (auto simp: type_defs)
  have "(word_of_int ?w :: 64 word) = word_of_int (if x \<noteq> 0 then y else z)"
    using common_word(1) [OF ty n2(4)] common_word(2) [OF ty(2,1) n3(4)] by simp
  from fold_cond [OF _ n1(2) n2(2) n3(2) T _ this, of "ListE a EC_CONDEXPR es" L E st]
  obtain m where "fold_op L E (ListE a EC_CONDEXPR es) n1 n2 n3 True True True True st = Inr (m, True, st)"
    "good m (c_common (c_common f g) h) ?w" by auto
  with n1(1) n2(1) n3(1) T st len show ?thesis
    by (intro foldsI [OF getConstNumValue.simps [THEN trans]]) (auto simp: exprListNextNData_def)
qed

lemma signed_atD: "c_signed_at E e \<longleftrightarrow> \<not> c_unsigned t" if "c_eval E e = Some (t, x)"
  using that by (simp add: c_signed_at_def)

lemma eval_folds: "c_eval E e = Some (t, x) \<Longrightarrow> foldable E e \<Longrightarrow> e_isError st = [] \<Longrightarrow> folds L E e st t x"
proof (induction E e arbitrary: t x rule: c_eval.induct)
  case (1 E a bt v)
  then show ?case by (intro folds_number)
next
  case (2 E a c name)
  then show ?case by (intro folds_symbol)
next
  case (3 E a c e)
  then obtain u y where e: "c_eval E e = Some (u, y)" "c_unary c u y = Some (t, x)" by (auto split: option.splits)
  with 3 show ?case by (intro folds_unary [OF e(2)]) (auto simp: signed_atD [OF e(1)])
next
  case (4 E a c e f)
  show ?case
  proof (cases "c = EC_CAST")
    case True
    then obtain td u y where td: "resolveType E e = Some td" "e_exprCode e = EC_TYPE_DESC" "c_type (td_basicType td)"
      and f: "c_eval E f = Some (u, y)" and t: "t = td_basicType td" "x = c_conv (td_basicType td) y"
      using "4.prems"(1) by (auto split: option.splits if_splits)
    have "folds L E f st u y" using "4.IH"(1) [OF True td(1)] td f "4.prems"(2,3) True by auto
    from folds_cast [OF td this "4.prems"(3)] True t show ?thesis by simp
  next
    case False
    then obtain u y v z where e: "c_eval E e = Some (u, y)" and f: "c_eval E f = Some (v, z)" and op: "c_binary c (u, y) (v, z) = Some (t, x)"
      using "4.prems"(1) by (auto split: option.splits)
    have fo: "foldable E e" "foldable E f" "e_exprCode e \<noteq> EC_TYPE_DESC" "truth_code c \<longrightarrow> \<not> c_unsigned u \<and> \<not> c_unsigned v"
      "c = EC_LSHIFT \<or> c = EC_RSHIFT \<longrightarrow> \<not> c_unsigned u \<longrightarrow> \<not> c_unsigned v"
      using "4.prems"(2) False by (auto simp: signed_atD [OF e] signed_atD [OF f])
    from folds_binary [OF op "4.IH"(2) [OF False e fo(1) "4.prems"(3)] "4.IH"(3) [OF False e f fo(2) "4.prems"(3)] "4.prems"(3) False fo(3-5)]
    show ?thesis .
  qed
next
  case (5 E a c es)
  show ?case
  proof (cases "c = EC_EXPRS \<and> es \<noteq> []")
    case True
    with 5 show ?thesis using folds_last [of es L E st t x a] by auto
  next
    case False
    with "5.prems"(1) have c: "c = EC_CONDEXPR" "length es = 3" by (auto split: if_splits)
    with "5.prems"(1) obtain t1 x1 t2 x2 t3 x3 where ev: "c_eval E (es ! 0) = Some (t1, x1)" "c_eval E (es ! 1) = Some (t2, x2)" "c_eval E (es ! 2) = Some (t3, x3)"
      and t: "t = c_common t2 t3" "x = c_conv (c_common t2 t3) (if x1 \<noteq> 0 then x2 else x3)" by (auto split: option.splits)
    have fo: "foldable E (es ! 0)" "foldable E (es ! 1)" "foldable E (es ! 2)" "\<not> c_unsigned t2 \<and> \<not> c_unsigned t3 \<longrightarrow> \<not> c_unsigned t1"
      using "5.prems"(2) c by (auto simp: signed_atD [OF ev(1)] signed_atD [OF ev(2)] signed_atD [OF ev(3)] simp del: One_nat_def)
    have "folds L E (es ! 0) st t1 x1" "folds L E (es ! 1) st t2 x2" "folds L E (es ! 2) st t3 x3"
      using 5 c ev fo by auto
    from folds_cond [OF c(2) this "5.prems"(3) fo(4)] c t show ?thesis by simp
  qed
qed simp_all

text \<open>
  C7. Constant folding computes the value that C gives to an integer constant expression, for expressions with these
  properties. The constants and casts are of type \<open>int\<close>, \<open>long\<close>, \<open>unsigned long\<close> or \<open>unsigned long long\<close> (no \<open>char\<close>,
  \<open>short\<close> or \<open>unsigned int\<close>); there are unary minus, \<open>~\<close> and \<open>!\<close>, arithmetic, bitwise, shift, comparison and logical operators,
  casts, conditionals, commas, and enumerators that have a value. Every operand has a defined value, also one that C does not evaluate: \<open>2 || 1 / 0\<close> is not covered. The operands of comparisons and of logical
  operators are signed, and no unsigned shift count or condition meets operands that are all signed (\<open>foldable\<close>). And no
  error has been recorded for a node of the program before. Then the call returns, reports a constant with this value in a
  type of the same sign that holds it, and records no error.
\<close>

theorem const_fold_correct:
  assumes "c_eval E e = Some (t, x)" and "foldable E e" and "e_isError st = []"
  shows "\<exists>n. getConstNumValue L E e st = Some (Inr (n, True, st)) \<and> num_of L n = x \<and> agrees t (nvt_basicType n)"
proof -
  obtain n f where n: "getConstNumValue L E e st = Some (Inr (n, True, st))" "good n f x" "agrees t f"
    using eval_folds [OF assms, of L] by (auto simp: folds_def)
  have "nvt_basicType n = f" using n(2) by (simp add: good_def)
  with n num_of_good [OF n(2)] show ?thesis by blast
qed

text \<open>The condition \<open>-7 / 2 + (5 > 3L ? 10 : 1UL) << 2\<close> with the enumerator \<open>A = 5\<close> in place of the 5.\<close>

definition number :: "nat \<Rightarrow> basic_type \<Rightarrow> int \<Rightarrow> unit cexpr" where
  "number a t x = NumberConst a t (IntVal (word_of_int x))"

definition no_ld :: "unit ld_ops" where
  "no_ld = \<lparr>ld_of_int = \<lambda>_. (), float_of_int = \<lambda>_. (), double_of_int = \<lambda>_. (), ld_to_float = \<lambda>_. (), ld_to_double = \<lambda>_. (),
     ld_trunc = \<lambda>_. 0, ld_neg = \<lambda>_. (), ld_add = \<lambda>_ _. (), ld_sub = \<lambda>_ _. (), ld_mul = \<lambda>_ _. (), ld_div = \<lambda>_ _. (),
     ld_eq = \<lambda>_ _. True, ld_lt = \<lambda>_ _. False, ld_le = \<lambda>_ _. True, ld_bits = \<lambda>_. 0, bits_ld = \<lambda>_. ()\<rparr>"

definition enum_A :: "unit cenv" where
  "enum_A = \<lparr>resolveType = \<lambda>_. None, isConstCall = \<lambda>_. False,
     scopes = [[''A'' \<mapsto> \<lparr>sy_addr = 1, sy_symType = ST_ENUM, sy_valueExpr = number 2 BT_INT 5, sy_isConstButUnreducable = False\<rparr>]],
     stackFlags = (False, False)\<rparr>"

definition sample_expr :: "unit cexpr" where
  "sample_expr =
     BinaryE 10 EC_PLUS
       (BinaryE 11 EC_DIV (UnaryE 12 EC_UNARY_MINUS (number 13 BT_INT 7)) (number 14 BT_INT 2))
       (BinaryE 15 EC_LSHIFT
         (ListE 16 EC_CONDEXPR
           [BinaryE 17 EC_ARITH_GT (SymbolE 18 EC_IDENT ''A'') (number 19 BT_LONG 3), number 20 BT_INT 10, number 21 BT_UNSIGNED_LONG 1])
         (number 22 BT_INT 2))"

lemma sample_eval: "c_eval enum_A sample_expr = Some (BT_UNSIGNED_LONG, 37)"
  by (simp add: sample_expr_def enum_A_def number_def enum_const_def c_binary_def c_conv_def type_defs c_norm_def c_bool_def
      c_shift_def c_width_def signed_of_int signed_divide_int_def numeral_eq_Suc [where k = num.One])

theorem const_fold_correct_witness:
  "\<exists>n. getConstNumValue no_ld enum_A sample_expr \<lparr>e_isError = [], errorList = [], nextNode = 23\<rparr>
     = Some (Inr (n, True, \<lparr>e_isError = [], errorList = [], nextNode = 23\<rparr>)) \<and> num_of no_ld n = 37"
proof -
  have "foldable enum_A sample_expr"
    by (simp add: sample_expr_def enum_A_def number_def enum_const_def c_signed_at_def truth_code_def c_binary_def c_conv_def type_defs
        c_norm_def c_bool_def signed_of_int)
  from const_fold_correct [OF sample_eval this, of "\<lparr>e_isError = [], errorList = [], nextNode = 23\<rparr>" no_ld] show ?thesis by auto
qed

subsection \<open>Where folding is not C\<close>

lemma fold_char:
  "e_isError st = [] \<Longrightarrow> getConstNumValue L E (CharConst a [ch]) st =
     Some (Inr (nvt0\<lparr>nvt_basicType := BT_CHAR, nvt_numValue := IntVal (word_of_int (signed_take_bit 7 (of_char ch)))\<rparr>, True, st))"
  by (subst getConstNumValue.simps) simp

lemma fold_binary_node:
  assumes "e_isError st = []" and "c \<notin> {EC_XMP_DESC_OF, EC_GCC_BLTIN_OFFSET_OF, EC_FUNCTION_CALL}" and "e_exprCode e \<noteq> EC_TYPE_DESC"
    and "getConstNumValue L E e st = Some (Inr (n1, True, st))" and "getConstNumValue L E f st = Some (Inr (n2, True, st))"
  shows "getConstNumValue L E (BinaryE a c e f) st = Some (fold_op L E (BinaryE a c e f) n1 n2 nvt0 True False False False st)"
  using assms by (subst getConstNumValue.simps) (auto simp: isUnreducableConst_def)

text \<open>
  \<open>2 || 1 / 0\<close>, whose value is 1 in C, where the second operand is not evaluated: both operands are folded, and a division by
  zero is reported.
\<close>

theorem log_or_folds_both:
  "\<exists>n st. getConstNumValue no_ld enum_A
       (BinaryE 1 EC_LOG_OR (number 2 BT_INT 2) (BinaryE 3 EC_DIV (number 4 BT_INT 1) (number 5 BT_INT 0))) \<lparr>e_isError = [], errorList = [], nextNode = 6\<rparr>
     = Some (Inr (n, False, st)) \<and> errorList st = [CERR_015]"
proof -
  let ?st = "\<lparr>e_isError = [], errorList = [], nextNode = 6\<rparr>"
  let ?n = "\<lambda>x. nvt0\<lparr>nvt_basicType := BT_INT, nvt_numValue := IntVal (word_of_int x)\<rparr>"
  have leaf: "getConstNumValue no_ld enum_A (number a BT_INT x) ?st = Some (Inr (?n x, True, ?st))" for a x
    by (subst getConstNumValue.simps) (simp add: number_def nvt0_def getNumValueKind_def constToNumValueWithType_def)
  have c: "e_exprCode (number a t x) \<noteq> EC_TYPE_DESC" for a t x by (simp add: number_def)
  have "getConstNumValue no_ld enum_A (BinaryE 3 EC_DIV (number 4 BT_INT 1) (number 5 BT_INT 0)) ?st =
      Some (fold_op no_ld enum_A (BinaryE 3 EC_DIV (number 4 BT_INT 1) (number 5 BT_INT 0)) (?n 1) (?n 0) nvt0 True False False False ?st)"
    by (rule fold_binary_node) (simp_all add: leaf c)
  also have "\<exists>n. \<dots> = Some (Inr (n, False, addError 3 CERR_015 ?st))"
    by (simp add: fold_op_def use_operand_def fixNumValueType_def castNumValue_def getNumValueKind_def nvt0_def
      mergeConstFlag_def apply_code_def Let_def checkDivisionByZero_def is_zero_def)
  finally obtain n where n: "getConstNumValue no_ld enum_A (BinaryE 3 EC_DIV (number 4 BT_INT 1) (number 5 BT_INT 0)) ?st
      = Some (Inr (n, False, addError 3 CERR_015 ?st))" by blast
  show ?thesis
    by (subst getConstNumValue.simps) (simp add: n leaf c isUnreducableConst_def addError_def not_const_def)
qed

text \<open>A sum of numbers whose type the front end takes for \<open>char\<close>.\<close>

lemma char_plus:
  assumes "n1 = nvt0\<lparr>nvt_basicType := BT_CHAR, nvt_numValue := IntVal (word_of_int x)\<rparr>"
    and "n2 = nvt0\<lparr>nvt_basicType := BT_CHAR, nvt_numValue := IntVal (word_of_int y)\<rparr>" and "signed_take_bit 63 x = x"
  shows "fold_op L E (BinaryE a EC_PLUS e f) n1 n2 nvt0 True False False False st =
    Inr (nvt0\<lparr>nvt_basicType := BT_CHAR, nvt_numValue := IntVal (word_of_int (signed_take_bit 7 x + y))\<rparr>, True, st)"
  using assms(3) by (simp add: assms(1,2) fold_op_def use_operand_def fixNumValueType_def castNumValue_def getNumValueKind_def nvt0_def
      mergeConstFlag_def apply_code_def Let_def num_op_def ll_op_def signed_of_int)

text \<open>
  C40. A sum of character constants is not folded to its value: the constants have type \<open>char\<close> for the front end, where
  C gives them the type \<open>int\<close>, and every sum is cut to 8 bits before the next one is added. For \<open>'a' + 'b' + 'c'\<close> the
  result is 38 and not 294.
\<close>

theorem char_sum_wraps:
  assumes "e_isError st = []" and "of_char c1 < (128 :: int)" "of_char c2 < (128 :: int)" "of_char c3 < (128 :: int)"
  shows "\<exists>n. getConstNumValue L E (BinaryE a1 EC_PLUS (BinaryE a2 EC_PLUS (CharConst b1 [c1]) (CharConst b2 [c2])) (CharConst b3 [c3])) st
      = Some (Inr (n, True, st)) \<and> num_of L n = signed_take_bit 7 (of_char c1 + of_char c2) + of_char c3"
proof -
  have "0 \<le> (of_char c :: int)" for c by (metis of_nat_of_char of_nat_0_le_iff)
  then have ch: "signed_take_bit 7 (of_char c :: int) = of_char c \<and> 0 \<le> (of_char c :: int)" if "of_char c < (128 :: int)" for c
    using that by (simp add: signed_take_bit_int_eq_self_iff order_trans [of "- 128" 0])
  let ?n = "\<lambda>x. nvt0\<lparr>nvt_basicType := BT_CHAR, nvt_numValue := IntVal (word_of_int x)\<rparr>"
  have leaf: "getConstNumValue L E (CharConst a [c]) st = Some (Inr (?n (of_char c), True, st))" if "of_char c < (128 :: int)" for a c
    using fold_char [OF assms(1), of L E a c] ch [OF that] by simp
  have plus: "getConstNumValue L E (BinaryE a EC_PLUS e f) st = Some (Inr (?n (signed_take_bit 7 x + y), True, st))"
    if "getConstNumValue L E e st = Some (Inr (?n x, True, st))" "getConstNumValue L E f st = Some (Inr (?n y, True, st))"
      "e_exprCode e \<noteq> EC_TYPE_DESC" "0 \<le> x" "x < 256" for a e f x y
  proof -
    have "signed_take_bit 63 x = x" using that by (simp add: signed_take_bit_int_eq_self_iff)
    with fold_binary_node [OF assms(1) _ that(3,1,2), of EC_PLUS a] char_plus [OF refl refl, of x L E a e f y st] show ?thesis by simp
  qed
  let ?s = "of_char c1 + of_char c2 :: int"
  have "getConstNumValue L E (BinaryE a2 EC_PLUS (CharConst b1 [c1]) (CharConst b2 [c2])) st
      = Some (Inr (?n (signed_take_bit 7 (of_char c1) + of_char c2), True, st))"
    using ch [OF assms(2)] assms(2) by (intro plus leaf assms) auto
  then have "getConstNumValue L E (BinaryE a2 EC_PLUS (CharConst b1 [c1]) (CharConst b2 [c2])) st = Some (Inr (?n ?s, True, st))"
    using ch [OF assms(2)] by simp
  then have "getConstNumValue L E (BinaryE a1 EC_PLUS (BinaryE a2 EC_PLUS (CharConst b1 [c1]) (CharConst b2 [c2])) (CharConst b3 [c3])) st
      = Some (Inr (?n (signed_take_bit 7 ?s + of_char c3), True, st))"
    using ch [OF assms(2)] ch [OF assms(3)] assms(2,3) by (intro plus leaf assms) auto
  moreover have rd: "num_of L (?n z) = z" if "- 128 \<le> z" "z < 256" for z
    using that by (simp add: num_of_def nvt0_def signed_of_int signed_take_bit_int_eq_self_iff)
  have "num_of L (?n (signed_take_bit 7 ?s + of_char c3)) = signed_take_bit 7 ?s + of_char c3"
    using ch [OF assms(4)] assms(4) signed_take_bit_int_greater_eq_minus_exp [of 7 ?s] signed_take_bit_int_less_exp [of 7 ?s]
    by (intro rd) simp_all
  ultimately show ?thesis by blast
qed

theorem char_sum_wraps_witness:
  "\<exists>n. getConstNumValue no_ld enum_A
       (BinaryE 1 EC_PLUS (BinaryE 2 EC_PLUS (CharConst 3 ''a'') (CharConst 4 ''b'')) (CharConst 5 ''c'')) \<lparr>e_isError = [], errorList = [], nextNode = 6\<rparr>
     = Some (Inr (n, True, \<lparr>e_isError = [], errorList = [], nextNode = 6\<rparr>)) \<and> num_of no_ld n = 38"
  using char_sum_wraps [of "\<lparr>e_isError = [], errorList = [], nextNode = 6\<rparr>" "CHR ''a''" "CHR ''b''" "CHR ''c''" no_ld enum_A 1 2 3 4 5]
  by simp

end
