(* ===== verification/Cfe_Enum_Laws.thy ===== *)
theory Cfe_Enum_Laws
  imports Cfe_Fold_Laws
begin

text \<open>
  The values that the C front end gives to enumerators (\<open>addEnumeratorSymbols\<close> of \<open>c-comp.c\<close>).
\<close>

subsection \<open>Enumerations in C\<close>

text \<open>
  An enumerator without expression has the value after that of its predecessor, one with an expression the value of the
  expression, in which the enumerators before it are known. Values must fit an \<open>int\<close> and names be new. The scope
  is given as the front end represents it: \<open>known\<close> is a symbol whose value is known.
\<close>

definition raw :: "nat \<Rightarrow> 'f cexpr \<Rightarrow> 'f csymbol" where
  "raw a v = \<lparr>sy_addr = a, sy_symType = ST_ENUM, sy_valueExpr = v, sy_isConstButUnreducable = False\<rparr>"

definition known :: "nat \<Rightarrow> nat \<Rightarrow> int \<Rightarrow> 'f csymbol" where
  "known a node x = raw a (NumberConst node BT_INT (IntVal (word_of_int x)))"

definition enum_val :: "'f cenv \<Rightarrow> int \<Rightarrow> 'f cexpr \<Rightarrow> int option" where
  "enum_val E k v =
     (case if v = NullE then Some k else if foldable E v then map_option snd (c_eval E v) else None of
        Some x \<Rightarrow> if c_conv BT_INT x = x then Some x else None
      | None \<Rightarrow> None)"

fun enum_spec :: "'f cenv \<Rightarrow> (string \<rightharpoonup> 'f csymbol) \<Rightarrow> 'f scopes \<Rightarrow> nat \<Rightarrow> int \<Rightarrow> (nat \<times> string \<times> 'f cexpr) list \<Rightarrow> int list option" where
  "enum_spec E tab tabs node k [] = Some []"
| "enum_spec E tab tabs node k ((a, name, v) # xs) =
     (if tab name \<noteq> None then None
      else case enum_val (E\<lparr>scopes := tab(name \<mapsto> raw a v) # tabs\<rparr>) k v of
             None \<Rightarrow> None
           | Some x \<Rightarrow> map_option (Cons x) (enum_spec E (tab(name \<mapsto> known a node x)) tabs (Suc node) (x + 1) xs))"

lemma known_const: "c_conv BT_INT x = x \<Longrightarrow> enum_const (known a node x) = Some x"
  by (simp add: enum_const_def known_def raw_def read_word(1) [of BT_INT] type_defs)

lemma int32_conv: "int32 x = signed_take_bit 31 x"
  by (simp add: int32_def signed_take_bit_eq_take_bit_shift take_bit_eq_mod)

lemma int_range32: "c_conv BT_INT x = x \<Longrightarrow> int32 x = x"
  by (simp add: int32_conv c_conv_def c_unsigned_def)

subsection \<open>One enumerator\<close>

lemma enum_value_pure:
  assumes "c_eval (E\<lparr>scopes := en_scopes s\<rparr>) v = Some (t, x)" and "foldable (E\<lparr>scopes := en_scopes s\<rparr>) v" and "e_isError (en_st s) = []"
    and "\<not> en_err s" and "c_conv BT_INT x = x"
  shows "enum_value L E a v s = Some (Inr (True, s\<lparr>en_val := x, en_pre := False\<rparr>))"
proof -
  obtain n f where n: "getConstNumValue L (E\<lparr>scopes := en_scopes s\<rparr>) v (en_st s) = Some (Inr (n, True, en_st s))" "good n f x"
    using eval_folds [OF assms(1-3), of L] by (auto simp: folds_def)
  have fl: "nvt_numKind n = NK_LL \<or> nvt_numKind n = NK_ULL" "\<not> nvt_isConstButMutable n" "\<not> nvt_isConstButUnreducable n"
    using n(2) by (auto simp: good_def)
  have "int32 (getCastedLongValue L n) = x"
    using casted_good [OF n(2), of L] c_conv_mono [OF assms(5)] int_range32 [OF assms(5)] by (simp add: c_conv_def c_unsigned_def)
  with n(1) fl assms(4) show ?thesis by (auto simp: enum_value_def Let_def)
qed

lemma enum_step_spec:
  assumes tab: "en_scopes s = tab # tabs" "tab name = None" and val: "enum_val (E\<lparr>scopes := tab(name \<mapsto> raw a v) # tabs\<rparr>) (en_val s) v = Some x"
    and s: "\<not> en_err s" "\<not> en_pre s" "e_isError (en_st s) = []"
  shows "enum_step L E s (a, name, v) = Some (Inr (s\<lparr>en_scopes := tab(name \<mapsto> known a (nextNode (en_st s)) x) # tabs, en_val := int32 (x + 1),
    en_st := (en_st s)\<lparr>nextNode := Suc (nextNode (en_st s))\<rparr>\<rparr>))"
proof -
  let ?s = "s\<lparr>en_scopes := tab(name \<mapsto> raw a v) # tabs\<rparr>"
  have add: "add_enumerator a name v (en_scopes s) (en_st s) = (tab(name \<mapsto> raw a v) # tabs, en_st s)"
    by (simp add: add_enumerator_def tab raw_def)
  have x: "c_conv BT_INT x = x" using val by (auto simp: enum_val_def split: option.splits if_splits)
  have v: "(if v = NullE then Some (Inr (\<not> en_pre s, ?s)) else enum_value L E a v ?s) = Some (Inr (True, ?s\<lparr>en_val := x, en_pre := False\<rparr>))"
  proof (cases "v = NullE")
    case True
    with val have "x = en_val s" by (auto simp: enum_val_def split: if_splits)
    with True s show ?thesis by simp
  next
    case False
    with val obtain t where "foldable (E\<lparr>scopes := en_scopes ?s\<rparr>) v" "c_eval (E\<lparr>scopes := en_scopes ?s\<rparr>) v = Some (t, x)"
      by (auto simp: enum_val_def split: option.splits if_splits)
    with False enum_value_pure [of ?s E v t x L a] s x show ?thesis by simp
  qed
  have up: "update_symbol a name (sy_valueExpr_update (\<lambda>_. w)) (tab(name \<mapsto> raw a v) # tabs) = tab(name \<mapsto> raw a w) # tabs" for w
    by (simp add: update_symbol_def raw_def)
  have st: "s\<lparr>en_scopes := X, en_st := en_st s\<rparr> = s\<lparr>en_scopes := X\<rparr>" for X by simp
  have pre: "s\<lparr>en_scopes := X, en_val := y, en_pre := False, en_st := z\<rparr> = s\<lparr>en_scopes := X, en_val := y, en_st := z\<rparr>" for X y z
    using s(2) by (cases s) simp
  show ?thesis
    unfolding enum_step_def prod.case add st v using s by (simp add: alloc_node_def up known_def pre)
qed

subsection \<open>All enumerators\<close>

lemma enum_val_int32: "enum_val E k v = Some x \<Longrightarrow> enum_val E (int32 k) v = Some x"
  using int_range32 [of k] by (auto simp: enum_val_def split: if_splits)

text \<open>What the symbol of an enumerator says about its value.\<close>

definition has_value :: "(string \<rightharpoonup> 'f csymbol) \<Rightarrow> string \<Rightarrow> int \<Rightarrow> bool" where
  "has_value tab name x \<longleftrightarrow> (case tab name of None \<Rightarrow> False | Some sy \<Rightarrow> enum_const sy = Some x)"

lemma enum_loop_spec:
  assumes "enum_spec E tab tabs (nextNode (en_st s)) k enums = Some vals" and "en_val s = int32 k" and "en_scopes s = tab # tabs"
    and "\<not> en_err s" "\<not> en_pre s" "e_isError (en_st s) = []"
  shows "\<exists>tab' s'. enum_loop L E s enums = Some (Inr s') \<and> en_scopes s' = tab' # tabs \<and> errorList (en_st s') = errorList (en_st s)
    \<and> list_all2 (has_value tab') (map (fst \<circ> snd) enums) vals
    \<and> (\<forall>name. tab name \<noteq> None \<or> name \<notin> fst ` snd ` set enums \<longrightarrow> tab' name = tab name)"
  using assms
proof (induction enums arbitrary: s tab k vals)
  case (Cons e enums)
  obtain a name v where e: "e = (a, name, v)" by (cases e)
  let ?n = "nextNode (en_st s)"
  from Cons.prems(1) e obtain x vs where new: "tab name = None" and x: "enum_val (E\<lparr>scopes := tab(name \<mapsto> raw a v) # tabs\<rparr>) k v = Some x"
    and vs: "enum_spec E (tab(name \<mapsto> known a ?n x)) tabs (Suc ?n) (x + 1) enums = Some vs" "vals = x # vs"
    by (auto split: option.splits if_splits)
  define s1 where "s1 = s\<lparr>en_scopes := tab(name \<mapsto> known a ?n x) # tabs, en_val := int32 (x + 1), en_st := (en_st s)\<lparr>nextNode := Suc ?n\<rparr>\<rparr>"
  have step: "enum_step L E s e = Some (Inr s1)"
    using enum_step_spec [OF Cons.prems(3) new _ Cons.prems(4-6), where v = v] enum_val_int32 [OF x] Cons.prems(2) by (simp add: e s1_def)
  define T where "T = tab(name \<mapsto> known a ?n x)"
  have s1: "nextNode (en_st s1) = Suc ?n" "en_val s1 = int32 (x + 1)" "en_scopes s1 = T # tabs" "\<not> en_err s1" "\<not> en_pre s1"
    "e_isError (en_st s1) = []" "errorList (en_st s1) = errorList (en_st s)"
    using Cons.prems(4-6) by (simp_all add: s1_def T_def)
  from Cons.IH [OF vs(1) [folded T_def s1(1)] s1(2-6)] obtain tab' s' where ih: "enum_loop L E s1 enums = Some (Inr s')" "en_scopes s' = tab' # tabs"
    "errorList (en_st s') = errorList (en_st s)" "list_all2 (has_value tab') (map (fst \<circ> snd) enums) vs"
    "\<forall>nm. T nm \<noteq> None \<or> nm \<notin> fst ` snd ` set enums \<longrightarrow> tab' nm = T nm"
    unfolding s1(7) by blast
  have "c_conv BT_INT x = x" using x by (auto simp: enum_val_def split: option.splits if_splits)
  then have "has_value tab' name x" using spec [OF ih(5), of name] known_const [of x a ?n] by (simp add: has_value_def T_def)
  moreover have "tab' nm = tab nm" if "tab nm \<noteq> None \<or> nm \<notin> fst ` snd ` set (e # enums)" for nm
    using spec [OF ih(5), of nm] that new e by (auto simp: T_def split: if_splits)
  ultimately show ?case using step ih vs(2) e by (auto simp: comp_def)
qed simp

text \<open>
  C17. An enumeration gets the values of C, when the following holds (\<open>enum_spec\<close> is defined): every expression among its
  enumerators, with the enumerators before it in scope, is one that folding computes (over \<open>int\<close>, \<open>long\<close>, \<open>unsigned long\<close>
  and \<open>unsigned long long\<close>, every operand defined, no unsigned operand of a comparison, \<open>foldable\<close>) and does not name its own
  enumerator; all values, also those counted on, fit an \<open>int\<close>; the names are distinct and new in the innermost scope; and no
  error has been recorded for a node before. Then the compilation of the enumeration returns without an error, every
  enumerator is a constant with its value, those without expression the value after their predecessor's, and the rest of
  the scope is unchanged.
\<close>

theorem enum_values:
  assumes "enum_spec E tab tabs (nextNode st) 0 enums = Some vals" and "scopes E = tab # tabs" and "e_isError st = []"
  shows "\<exists>tab' st'. addEnumeratorSymbols L E enums st = Some (Inr (tab' # tabs, st')) \<and> errorList st' = errorList st
    \<and> list_all2 (has_value tab') (map (fst \<circ> snd) enums) vals
    \<and> (\<forall>name. name \<notin> fst ` snd ` set enums \<longrightarrow> tab' name = tab name)"
  using enum_loop_spec [of E tab tabs "\<lparr>en_scopes = scopes E, en_val = 0, en_err = False, en_pre = False, en_st = st\<rparr>" 0 enums vals L] assms
  by (auto simp: addEnumeratorSymbols_def int32_def)

text \<open>\<open>enum { R, G = R + 4, B }\<close>.\<close>

definition enum_RGB :: "(nat \<times> string \<times> unit cexpr) list" where
  "enum_RGB = [(1, ''R'', NullE), (2, ''G'', BinaryE 3 EC_PLUS (SymbolE 4 EC_IDENT ''R'') (number 5 BT_INT 4)), (6, ''B'', NullE)]"

theorem enum_values_witness:
  "\<exists>tab' st'. addEnumeratorSymbols no_ld (enum_A\<lparr>scopes := [Map.empty]\<rparr>) enum_RGB \<lparr>e_isError = [], errorList = [], nextNode = 10\<rparr> = Some (Inr ([tab'], st'))
     \<and> errorList st' = [] \<and> has_value tab' ''R'' 0 \<and> has_value tab' ''G'' 4 \<and> has_value tab' ''B'' 5"
proof -
  let ?E = "enum_A\<lparr>scopes := [Map.empty]\<rparr>" and ?st = "\<lparr>e_isError = [], errorList = [], nextNode = 10\<rparr>"
  have "enum_spec ?E Map.empty [] (nextNode ?st) 0 enum_RGB = Some [0, 4, 5]"
    by (simp add: enum_RGB_def enum_val_def number_def raw_def known_def truth_code_def enum_const_def c_binary_def c_conv_def type_defs c_norm_def signed_of_int)
  from enum_values [OF this, of no_ld] show ?thesis by (auto simp: enum_RGB_def)
qed

subsection \<open>An enumerator that refers to itself\<close>

lemma self_fold_stuck:
  assumes "findSymbolByGroup (scopes E) name = Some sy" and "sy_symType sy = ST_ENUM" "\<not> sy_isConstButUnreducable sy"
    and "sy_valueExpr sy = SymbolE b EC_IDENT name"
  shows "e_isError st = [] \<Longrightarrow> getConstNumValue L E (SymbolE a EC_IDENT name) st = None"
proof -
  have "E' = E \<longrightarrow> (\<exists>a. e = SymbolE a EC_IDENT name) \<longrightarrow> e_isError st = [] \<longrightarrow> False"
    if "getConstNumValue L E' e st = Some r" for L E' e r st
  proof (rule getConstNumValue.raw_induct [OF _ that], goal_cases)
    case (1 f L E' e st r)
    have "f L E (SymbolE b EC_IDENT name) st = None" if "e_isError st = []"
      using 1(1) [of L E "SymbolE b EC_IDENT name" st] that by (cases "f L E (SymbolE b EC_IDENT name) st") auto
    with 1(2) assms show ?case by (auto simp: Let_def)
  qed
  then show "e_isError st = [] \<Longrightarrow> getConstNumValue L E (SymbolE a EC_IDENT name) st = None"
    by (metis not_None_eq)
qed

text \<open>
  C39. The compilation of \<open>enum { A = A };\<close> does not return: the enumerator is entered into the scope before its
  expression is folded, so that the name in the expression refers to the enumerator itself, and folding recurses
  without end.
\<close>

theorem enum_self_diverges:
  assumes "scopes E = tab # tabs" and "tab name = None" and "e_isError st = []"
  shows "addEnumeratorSymbols L E ((a, name, SymbolE b EC_IDENT name) # enums) st = None"
proof -
  let ?E = "E\<lparr>scopes := tab(name \<mapsto> raw a (SymbolE b EC_IDENT name)) # tabs\<rparr>"
  have "getConstNumValue L ?E (SymbolE b EC_IDENT name) st = None"
    using assms(3) by (intro self_fold_stuck [of _ _ "raw a (SymbolE b EC_IDENT name)"]) (simp_all add: raw_def)
  then show ?thesis
    using assms(1,2) by (simp add: addEnumeratorSymbols_def enum_step_def enum_value_def add_enumerator_def raw_def)
qed

theorem enum_self_diverges_witness:
  "addEnumeratorSymbols no_ld (enum_A\<lparr>scopes := [Map.empty]\<rparr>) [(1, ''A'', SymbolE 2 EC_IDENT ''A'')]
     \<lparr>e_isError = [], errorList = [], nextNode = 3\<rparr> = None"
  using enum_self_diverges [of "enum_A\<lparr>scopes := [Map.empty]\<rparr>" Map.empty "[]" "''A''" "\<lparr>e_isError = [], errorList = [], nextNode = 3\<rparr>" no_ld 1 2 "[]"]
  by simp

end
