(* ===== verification/Cfe_Literal.thy ===== *)
theory Cfe_Literal
  imports Cfe_Const
begin

text \<open>
  Character and string constants of the C front end: the decoder of escape sequences, \<open>unescChar\<close> of
  \<open>src/C-FrontEnd/src/c-const.c\<close>, and its callers in \<open>src/C-FrontEnd/src/c-expr.c\<close>.
\<close>

subsection \<open>The decoder\<close>

datatype unesc_mode = MODE_NORM | MODE_IN_ESC | MODE_ESC_OCT | MODE_ESC_HEX

text \<open>
  The variables of the loop. The output is a block of memory and the position of \<open>s\<close> in it; \<open>None\<close> when \<open>s\<close> is NULL.
  A write past the block is an error.
\<close>

record unesc =
  u_mode :: unesc_mode
  u_stock :: int
  u_stockCnt :: nat
  u_result :: bool
  u_n :: nat
  u_uni :: bool
  u_out :: "(char list \<times> nat) option"

definition store_at :: "nat \<Rightarrow> char \<Rightarrow> unesc \<Rightarrow> unesc res" where
  "store_at p x u =
     (case u_out u of
        None \<Rightarrow> Inr u
      | Some (buf, q) \<Rightarrow> guard_res (p < length buf) OutOfBounds (Inr (u\<lparr>u_out := Some (buf[p := x], q)\<rparr>)))"

definition INCR_S :: "unesc \<Rightarrow> unesc" where
  "INCR_S u = u\<lparr>u_out := map_option (\<lambda>(buf, q). (buf, Suc q)) (u_out u)\<rparr>"

definition SET_TO_S :: "char \<Rightarrow> unesc \<Rightarrow> unesc res" where
  "SET_TO_S x u = store_at (case u_out u of None \<Rightarrow> 0 | Some (buf, q) \<Rightarrow> q) x u"

definition ADD_TO_S :: "bool \<Rightarrow> char \<Rightarrow> unesc \<Rightarrow> unesc res" where
  "ADD_TO_S isWChar x u = bind_res (SET_TO_S x (if isWChar then INCR_S u else u)) (\<lambda>u. Inr (INCR_S u))"

text \<open>\<open>SWAP_WC\<close> assigns to \<open>*(s - 1)\<close> twice, so that it changes nothing.\<close>

definition SWAP_WC :: "unesc \<Rightarrow> unesc" where
  "SWAP_WC u =
     (case u_out u of
        None \<Rightarrow> u
      | Some (buf, q) \<Rightarrow> let tmp = buf ! (q - 1) in u\<lparr>u_out := Some ((buf[q - 1 := buf ! (q - 2)])[q - 1 := tmp], q)\<rparr>)"

definition count_char :: "unesc \<Rightarrow> unesc" where
  "count_char u = u\<lparr>u_n := Suc (u_n u)\<rparr>"

definition low_byte :: "int \<Rightarrow> char" where
  "low_byte x = char_of (nat (x AND 255))"

definition norm_step :: "bool \<Rightarrow> char \<Rightarrow> unesc \<Rightarrow> unesc res" where
  "norm_step isWChar c u =
     (if c = CHR 92 then Inr (u\<lparr>u_mode := MODE_IN_ESC\<rparr>)
      else bind_res (ADD_TO_S isWChar c u) (\<lambda>u. Inr (count_char u)))"

definition is_oct :: "char \<Rightarrow> bool" where
  "is_oct c \<longleftrightarrow> c \<in> set ''01234567''"

definition is_hex :: "char \<Rightarrow> bool" where
  "is_hex c \<longleftrightarrow> c \<in> set ''0123456789ABCDEFabcdef''"

definition oct_step :: "bool \<Rightarrow> char \<Rightarrow> unesc \<Rightarrow> unesc res" where
  "oct_step isWChar c u =
     (if is_oct c then
        let stock = push_bit 3 (u_stock u) OR (of_char c - of_char CHR ''0'');
            cnt = Suc (u_stockCnt u)
        in bind_res (SET_TO_S (low_byte stock) (u\<lparr>u_stock := stock, u_stockCnt := cnt\<rparr>)) (\<lambda>u.
             if stock > 255 \<or> cnt \<ge> 3
             then Inr (count_char (INCR_S (u\<lparr>u_mode := MODE_NORM, u_result := u_result u \<and> stock \<le> 255\<rparr>)))
             else Inr u)
      else
        bind_res (if u_stockCnt u = 0 then Inr (u\<lparr>u_result := False\<rparr>)
                  else bind_res (ADD_TO_S isWChar (low_byte (u_stock u)) u) (\<lambda>u. Inr (count_char u))) (\<lambda>u.
        norm_step isWChar c (u\<lparr>u_mode := MODE_NORM\<rparr>)))"

text \<open>The digits from \<open>A\<close> on are not raised by 10, and small letters are counted down from \<open>f\<close>.\<close>

definition hex_digit :: "char \<Rightarrow> int" where
  "hex_digit c =
     (let x = of_char c :: int
      in x - (if x \<le> of_char CHR ''9'' then of_char CHR ''0'' else if x \<le> of_char CHR ''F'' then of_char CHR ''A'' else of_char CHR ''f''))"

definition hex_step :: "bool \<Rightarrow> char \<Rightarrow> unesc \<Rightarrow> unesc res" where
  "hex_step isWChar c u =
     (if is_hex c then
        let stock = push_bit 4 (u_stock u) OR hex_digit c;
            cnt = Suc (u_stockCnt u)
        in bind_res (SET_TO_S (low_byte stock) (u\<lparr>u_stock := stock, u_stockCnt := cnt\<rparr>)) (\<lambda>u.
           let u = (if cnt mod 2 = 0 then count_char (INCR_S u)\<lparr>u_stock := 0\<rparr> else u)
           in if \<not> u_uni u \<and> cnt \<ge> 3 then Inr (u\<lparr>u_mode := MODE_NORM, u_result := False\<rparr>)
              else if u_uni u \<and> cnt \<ge> 4
              then let u = SWAP_WC (u\<lparr>u_mode := MODE_NORM, u_uni := False\<rparr>) in Inr (if isWChar then u\<lparr>u_n := u_n u - 1\<rparr> else u)
              else Inr u)
      else
        norm_step isWChar c
          ((if u_stockCnt u = 0 then u\<lparr>u_result := False\<rparr> else count_char u)\<lparr>u_mode := MODE_NORM, u_uni := False\<rparr>))"

text \<open>The characters that stand for others after a backslash.\<close>

fun simple_escape :: "char list \<Rightarrow> char \<Rightarrow> char option" where
  "simple_escape [] c = None"
| "simple_escape (x # y # t) c = (if c = x then Some y else simple_escape t c)"
| "simple_escape [x] c = None"

definition escape_table :: "char list" where
  "escape_table = [CHR ''a'', CHR 7, CHR ''b'', CHR 8, CHR ''f'', CHR 12, CHR ''n'', CHR 10, CHR ''r'', CHR 13,
     CHR ''t'', CHR 9, CHR ''v'', CHR 11, CHR 92, CHR 92, CHR 39, CHR 39, CHR 34, CHR 34, CHR 63, CHR 63]"

definition esc_step :: "bool \<Rightarrow> char \<Rightarrow> unesc \<Rightarrow> unesc res" where
  "esc_step isWChar c u =
     (case simple_escape escape_table c of
        Some x \<Rightarrow> bind_res (ADD_TO_S isWChar x u) (\<lambda>u. Inr (count_char u\<lparr>u_mode := MODE_NORM\<rparr>))
      | None \<Rightarrow>
          if is_oct c then oct_step isWChar c (u\<lparr>u_mode := MODE_ESC_OCT, u_stock := 0, u_stockCnt := 0\<rparr>)
          else if c = CHR ''x'' then Inr (u\<lparr>u_mode := MODE_ESC_HEX, u_stock := 0, u_stockCnt := 0\<rparr>)
          else if c = CHR ''u'' then Inr (u\<lparr>u_mode := MODE_ESC_HEX, u_uni := True, u_stock := 0, u_stockCnt := 0\<rparr>)
          else Inr (u\<lparr>u_mode := MODE_NORM, u_result := False\<rparr>))"

definition unesc_step :: "bool \<Rightarrow> unesc \<Rightarrow> char \<Rightarrow> unesc res" where
  "unesc_step isWChar u c =
     (case u_mode u of
        MODE_NORM \<Rightarrow> norm_step isWChar c u
      | MODE_IN_ESC \<Rightarrow> esc_step isWChar c u
      | MODE_ESC_OCT \<Rightarrow> oct_step isWChar c u
      | MODE_ESC_HEX \<Rightarrow> hex_step isWChar c u)"

text \<open>The output block, the number of characters and whether the constant is well formed.\<close>

definition unescChar :: "char list option \<Rightarrow> string \<Rightarrow> bool \<Rightarrow> (char list option \<times> nat \<times> bool) res" where
  "unescChar s cstr isWChar =
     bind_res (fold_res (unesc_step isWChar)
       \<lparr>u_mode = MODE_NORM, u_stock = 0, u_stockCnt = 0, u_result = True, u_n = 0, u_uni = False, u_out = map_option (\<lambda>buf. (buf, 0)) s\<rparr> cstr) (\<lambda>u.
     let u = (if u_uni u then if u_stockCnt u < 4 then u\<lparr>u_result := False\<rparr> else SWAP_WC u else u)
     in bind_res (SET_TO_S (CHR 0x00) u) (\<lambda>u. Inr (map_option fst (u_out u), u_n u, u_result u)))"

subsection \<open>Constants\<close>

datatype char_type = CT_MB | CT_WIDE

text \<open>The decoded characters of a character constant, up to the first that is 0; \<open>junk\<close> is what the new block holds.\<close>

definition allocExprOfCharConst :: "char list \<Rightarrow> string \<Rightarrow> char_type \<Rightarrow> cstate \<Rightarrow> ('f cexpr \<times> cstate) res" where
  "allocExprOfCharConst junk orgToken charType st =
     (case alloc_node st of (a, st) \<Rightarrow>
       bind_res (unescChar (Some (take 8 junk)) orgToken (charType = CT_WIDE)) (\<lambda>(s, numChar, ok).
         if \<not> ok then Inr (CharConst a [], addError a CERR_101 st)
         else if charType = CT_MB \<and> numChar > 1 \<or> numChar > 2 then Inr (CharConst a [], addError a CERR_102 st)
         else Inr (CharConst a (takeWhile (\<lambda>c. c \<noteq> CHR 0x00) (case s of None \<Rightarrow> [] | Some buf \<Rightarrow> buf)), st)))"

text \<open>A string constant keeps its token and the number of its characters.\<close>

definition allocExprOfStringConst :: "string \<Rightarrow> cstate \<Rightarrow> ('f cexpr \<times> nat \<times> cstate) res" where
  "allocExprOfStringConst orgToken st =
     (case alloc_node st of (a, st) \<Rightarrow>
       bind_res (unescChar None orgToken False) (\<lambda>(s, numChar, ok).
         Inr (StringConst a orgToken, numChar, if ok then st else addError a CERR_103 st)))"

subsection \<open>Number constants\<close>

datatype cardinal = CD_BIN | CD_OCT | CD_DEC | CD_HEX

fun base_of :: "cardinal \<Rightarrow> nat" where
  "base_of CD_BIN = 2"
| "base_of CD_OCT = 8"
| "base_of CD_DEC = 10"
| "base_of CD_HEX = 16"

text \<open>The standard functions \<open>strtoll\<close> and \<open>strtoull\<close>: the digits up to the first other character, and whether \<open>errno\<close> is set.\<close>

definition digit_value :: "nat \<Rightarrow> char \<Rightarrow> nat option" where
  "digit_value base c =
     (let x = of_char c :: nat;
          d = (if 48 \<le> x \<and> x \<le> 57 then x - 48 else if 65 \<le> x \<and> x \<le> 90 then x - 55 else if 97 \<le> x \<and> x \<le> 122 then x - 87 else base)
      in if d < base then Some d else None)"

fun digits_value :: "nat \<Rightarrow> int \<Rightarrow> string \<Rightarrow> int" where
  "digits_value base acc [] = acc"
| "digits_value base acc (c # cs) =
     (case digit_value base c of None \<Rightarrow> acc | Some d \<Rightarrow> digits_value base (acc * int base + int d) cs)"

definition strto_value :: "nat \<Rightarrow> string \<Rightarrow> int" where
  "strto_value base s =
     (if s \<noteq> [] \<and> hd s = CHR ''-'' then - digits_value base 0 (List.tl s) else digits_value base 0 s)"

definition strtoll :: "nat \<Rightarrow> string \<Rightarrow> int \<times> bool" where
  "strtoll base s =
     (let v = strto_value base s
      in if v > 2 ^ 63 - 1 then (2 ^ 63 - 1, True) else if v < - (2 ^ 63) then (- (2 ^ 63), True) else (v, False))"

definition strtoull :: "nat \<Rightarrow> string \<Rightarrow> int \<times> bool" where
  "strtoull base s =
     (let v = strto_value base s
      in if \<bar>v\<bar> > 2 ^ 64 - 1 then (2 ^ 64 - 1, True) else (v mod 2 ^ 64, False))"

text \<open>The token without the prefix of its base.\<close>

definition number_digits :: "string \<Rightarrow> string" where
  "number_digits tok =
     (if length tok > 2 \<and> hd tok = CHR ''0''
      then if tok ! 1 \<in> set ''xXbB'' then drop 2 tok else drop 1 tok
      else tok)"

text \<open>A signed constant: its type, its value and whether it is out of range.\<close>

definition signed_const :: "basic_type \<Rightarrow> nat \<Rightarrow> string \<Rightarrow> basic_type \<times> int \<times> bool" where
  "signed_const bt base digits =
     (case strtoll base digits of (n, errno) \<Rightarrow>
        if errno then
          if bt = BT_LONGLONG then (case strtoull base digits of (m, errno) \<Rightarrow> (BT_UNSIGNED_LONGLONG, m, errno))
          else (bt, n, True)
        else if bt = BT_CHAR then (if n > 255 then (bt, n, True) else if n > 127 then (BT_UNSIGNED_CHAR, n, False) else (bt, n, False))
        else if bt = BT_SHORT then (if n > 65535 then (bt, n, True) else if n > 32767 then (BT_UNSIGNED_SHORT, n, False) else (bt, n, False))
        else if bt = BT_INT then
          (if n > 4294967295 then (bt, n, True) else if n > 2147483647 then (BT_UNSIGNED_INT, n, False) else (bt, n, False))
        else if bt = BT_LONG then
          (if n mod 2 ^ 64 > 2 ^ 64 - 1 then (bt, n, True) else if n > 2 ^ 63 - 1 then (BT_UNSIGNED_LONG, n, False) else (bt, n, False))
        else (bt, n, False))"

text \<open>An unsigned one: the inner switch has the names of the signed types, so no range but that of \<open>strtoull\<close> is checked.\<close>

definition unsigned_const :: "basic_type \<Rightarrow> nat \<Rightarrow> string \<Rightarrow> basic_type \<times> int \<times> bool" where
  "unsigned_const bt base digits = (case strtoull base digits of (n, errno) \<Rightarrow> (bt, n, errno))"

text \<open>
  The constant that a token stands for. Reading a floating constant is an argument, with whether it is out of range.
\<close>

definition allocExprOfNumberConst ::
  "(basic_type \<Rightarrow> string \<Rightarrow> 'f \<times> bool) \<Rightarrow> basic_type \<Rightarrow> cardinal \<Rightarrow> string option \<Rightarrow> cstate \<Rightarrow> ('f cexpr \<times> cstate) res" where
  "allocExprOfNumberConst read_ld bt c orgToken st =
     (case alloc_node st of (a, st) \<Rightarrow>
        let node = (\<lambda>(bt, n, over). (NumberConst a bt (IntVal (word_of_int n)), if over then addError a CERR_121 st else st))
        in case orgToken of
             None \<Rightarrow> Inr (node (bt, 0, False))
           | Some tok \<Rightarrow>
               let digits = number_digits tok
               in if digits = [] then Inr (node (bt, 0, False))
                  else if bt \<in> {BT_CHAR, BT_SHORT, BT_INT, BT_LONG, BT_LONGLONG} then Inr (node (signed_const bt (base_of c) digits))
                  else if bt \<in> {BT_UNSIGNED_CHAR, BT_UNSIGNED_SHORT, BT_UNSIGNED_INT, BT_UNSIGNED_LONG, BT_UNSIGNED_LONGLONG}
                  then Inr (node (unsigned_const bt (base_of c) digits))
                  else if bt \<in> {BT_FLOAT, BT_DOUBLE, BT_LONGDOUBLE, BT_FLOAT_IMAGINARY, BT_DOUBLE_IMAGINARY}
                  then (case read_ld bt digits of (x, over) \<Rightarrow>
                    Inr (NumberConst a bt (LdVal x), if over then addError a CERR_122 st else st))
                  else Inl AssertFail)"

end
