(* ===== verification/Cfe_Literal_Laws.thy ===== *)
theory Cfe_Literal_Laws
  imports Cfe_Literal
begin

text \<open>
  What the decoder of character and string constants makes of the ways to write a character.
\<close>

subsection \<open>Encodings of a character\<close>

definition oct_value :: "char \<Rightarrow> int" where
  "oct_value c = of_char c - of_char CHR ''0''"

text \<open>A character as itself, as a simple escape sequence, or as a backslash with three octal digits.\<close>

definition encodes :: "char \<Rightarrow> string \<Rightarrow> bool" where
  "encodes c w \<longleftrightarrow>
     w = [c] \<and> c \<noteq> CHR 92 \<and> c \<noteq> CHR 0x00
     \<or> (\<exists>x. w = [CHR 92, x] \<and> simple_escape escape_table x = Some c)
     \<or> (\<exists>x y z. w = [CHR 92, x, y, z] \<and> is_oct x \<and> is_oct y \<and> is_oct z \<and> (oct_value x * 8 + oct_value y) * 8 + oct_value z \<le> 255
          \<and> c = char_of (nat ((oct_value x * 8 + oct_value y) * 8 + oct_value z)))"

subsection \<open>The output\<close>

definition put_out :: "char \<Rightarrow> (char list \<times> nat) option \<Rightarrow> (char list \<times> nat) option" where
  "put_out c = map_option (\<lambda>(buf, q). (buf[q := c], Suc q))"

definition room :: "(char list \<times> nat) option \<Rightarrow> bool" where
  "room out \<longleftrightarrow> (case out of None \<Rightarrow> True | Some (buf, q) \<Rightarrow> q < length buf)"

text \<open>The decoder between two characters.\<close>

definition ready :: "unesc \<Rightarrow> (char list \<times> nat) option \<Rightarrow> nat \<Rightarrow> bool" where
  "ready u out n \<longleftrightarrow> u_mode u = MODE_NORM \<and> u_result u \<and> \<not> u_uni u \<and> u_n u = n \<and> u_out u = out"

definition set_out :: "char \<Rightarrow> (char list \<times> nat) option \<Rightarrow> (char list \<times> nat) option" where
  "set_out c = map_option (\<lambda>(buf, q). (buf[q := c], q))"

lemma SET_TO_S_room: "room (u_out u) \<Longrightarrow> SET_TO_S c u = Inr (u\<lparr>u_out := set_out c (u_out u)\<rparr>)"
  by (cases u) (auto simp: SET_TO_S_def store_at_def room_def set_out_def split: option.splits)

lemma ADD_TO_S_room: "room (u_out u) \<Longrightarrow> ADD_TO_S False c u = Inr (u\<lparr>u_out := put_out c (u_out u)\<rparr>)"
  by (simp add: ADD_TO_S_def SET_TO_S_room INCR_S_def set_out_def put_out_def option.map_comp comp_def split_def)

lemma incr_set: "INCR_S (u\<lparr>u_out := set_out c out\<rparr>) = u\<lparr>u_out := put_out c out\<rparr>"
  by (simp add: INCR_S_def set_out_def put_out_def option.map_comp comp_def split_def)

lemma set_set: "set_out c (set_out d out) = set_out c out" "room (set_out d out) = room out"
  by (cases out; auto simp: set_out_def room_def)+

subsection \<open>Octal digits\<close>

lemma oct_range: "is_oct c \<Longrightarrow> 0 \<le> oct_value c \<and> oct_value c < 8"
  by (auto simp: is_oct_def oct_value_def)

lemma oct_not_simple: "is_oct c \<Longrightarrow> simple_escape escape_table c = None"
  by (auto simp: is_oct_def escape_table_def)

lemma push_or: "0 \<le> v \<Longrightarrow> v < 8 \<Longrightarrow> push_bit 3 s OR v = s * 8 + v" for s v :: int
proof -
  assume "0 \<le> v" "v < 8"
  then have v: "take_bit 3 v = v" by (simp add: take_bit_int_eq_self_iff)
  have "push_bit 3 s OR v = concat_bit 3 v s" by (simp add: concat_bit_def v or.commute)
  also have "\<dots> = s * 8 + v" by (simp add: concat_bit_eq v push_bit_eq_mult)
  finally show ?thesis .
qed

lemma low_byte_char: "0 \<le> v \<Longrightarrow> v \<le> 255 \<Longrightarrow> low_byte v = char_of (nat v)"
proof -
  assume "0 \<le> v" "v \<le> 255"
  then have "take_bit 8 v = v" by (simp add: take_bit_int_eq_self_iff)
  then have "v AND 255 = v" by (simp add: take_bit_eq_mask mask_eq_exp_minus_1)
  then show ?thesis by (simp add: low_byte_def)
qed

lemma oct_step_digit:
  assumes "is_oct c" "room (u_out u)" "v = u_stock u * 8 + oct_value c"
  shows "oct_step False c u = (if v > 255 \<or> u_stockCnt u \<ge> 2
    then Inr (count_char (u\<lparr>u_stock := v, u_stockCnt := Suc (u_stockCnt u), u_mode := MODE_NORM, u_result := u_result u \<and> v \<le> 255,
      u_out := put_out (low_byte v) (u_out u)\<rparr>))
    else Inr (u\<lparr>u_stock := v, u_stockCnt := Suc (u_stockCnt u), u_out := set_out (low_byte v) (u_out u)\<rparr>))"
proof -
  have v: "push_bit 3 (u_stock u) OR (of_char c - of_char CHR ''0'') = v"
    using push_or [of "oct_value c" "u_stock u"] oct_range [OF assms(1)] assms(3) by (simp add: oct_value_def)
  show ?thesis
    unfolding oct_step_def Let_def v using assms(1,2)
    by (simp add: SET_TO_S_room INCR_S_def set_out_def put_out_def option.map_comp comp_def split_def)
qed

subsection \<open>One character\<close>

lemma encoded_step:
  assumes "encodes c w" and u: "ready u out n" and "room out"
  shows "\<exists>u'. fold_res (unesc_step False) u w = Inr u' \<and> ready u' (put_out c out) (Suc n)"
proof -
  note r = u [unfolded ready_def]
  from assms(1) consider (self) "w = [c]" "c \<noteq> CHR 92" | (simple) x where "w = [CHR 92, x]" "simple_escape escape_table x = Some c"
    | (oct) x y z where "w = [CHR 92, x, y, z]" "is_oct x" "is_oct y" "is_oct z" "(oct_value x * 8 + oct_value y) * 8 + oct_value z \<le> 255"
        "c = char_of (nat ((oct_value x * 8 + oct_value y) * 8 + oct_value z))"
    unfolding encodes_def by blast
  then show ?thesis
  proof cases
    case self
    then show ?thesis using r assms(3) by (simp add: unesc_step_def norm_step_def ADD_TO_S_room count_char_def ready_def)
  next
    case simple
    then show ?thesis using r assms(3) by (simp add: unesc_step_def norm_step_def esc_step_def ADD_TO_S_room count_char_def ready_def)
  next
    case oct
    let ?v = "(oct_value x * 8 + oct_value y) * 8 + oct_value z"
    note o = oct_range [OF oct(2)] oct_range [OF oct(3)] oct_range [OF oct(4)]
    have le: "oct_value x \<le> 255" "oct_value x * 8 + oct_value y \<le> 255" using o by auto
    have "low_byte ?v = c" using oct(5,6) o by (simp add: low_byte_char)
    then show ?thesis
      using r assms(3) oct le
      by (simp add: unesc_step_def norm_step_def esc_step_def oct_not_simple oct_step_digit set_set count_char_def ready_def)
        (simp add: put_out_def set_out_def option.map_comp comp_def split_def)
  qed
qed

subsection \<open>All characters\<close>

text \<open>The output after the characters of a constant, of which the block has room for one more.\<close>

definition out_of :: "char list option \<Rightarrow> char list \<Rightarrow> (char list \<times> nat) option" where
  "out_of s cs = map_option (\<lambda>buf. (cs @ drop (length cs) buf, length cs)) s"

definition fits_out :: "char list option \<Rightarrow> nat \<Rightarrow> bool" where
  "fits_out s n \<longleftrightarrow> (case s of None \<Rightarrow> True | Some buf \<Rightarrow> n < length buf)"

lemma out_of_put: "fits_out s (length cs) \<Longrightarrow> room (out_of s cs) \<and> put_out c (out_of s cs) = out_of s (cs @ [c])"
  by (cases s) (auto simp: fits_out_def out_of_def room_def put_out_def list_update_append Cons_nth_drop_Suc [symmetric])

lemma encoded_fold:
  assumes "list_all2 encodes cs ws" and "ready u (out_of s ds) (length ds)" and "fits_out s (length ds + length cs)"
  shows "\<exists>u'. fold_res (unesc_step False) u (concat ws) = Inr u' \<and> ready u' (out_of s (ds @ cs)) (length ds + length cs)"
  using assms
proof (induction cs ws arbitrary: u ds rule: list_all2_induct)
  case (Cons c cs w ws)
  have f: "fits_out s (length ds)" using Cons.prems(2) by (auto simp: fits_out_def split: option.splits)
  obtain u1 where u1: "fold_res (unesc_step False) u w = Inr u1" "ready u1 (out_of s (ds @ [c])) (length (ds @ [c]))"
    using encoded_step [OF Cons.hyps(1) Cons.prems(1)] out_of_put [OF f, of c] by auto
  from Cons.IH [OF u1(2)] Cons.prems(2) u1(1) show ?case by (auto simp: fold_res_append)
qed auto

definition unesc0 :: "char list option \<Rightarrow> unesc" where
  "unesc0 s = \<lparr>u_mode = MODE_NORM, u_stock = 0, u_stockCnt = 0, u_result = True, u_n = 0, u_uni = False, u_out = map_option (\<lambda>buf. (buf, 0)) s\<rparr>"

lemma unescChar_unesc0:
  "unescChar s cstr isWChar = bind_res (fold_res (unesc_step isWChar) (unesc0 s) cstr) (\<lambda>u.
     bind_res (SET_TO_S (CHR 0x00) (if u_uni u then if u_stockCnt u < 4 then u\<lparr>u_result := False\<rparr> else SWAP_WC u else u))
       (\<lambda>u. Inr (map_option fst (u_out u), u_n u, u_result u)))"
  by (simp add: unescChar_def unesc0_def)

lemma unesc0_ready: "ready (unesc0 s) (out_of s []) (length [])"
  by (simp add: unesc0_def ready_def out_of_def)

text \<open>
  C19. Decoding inverts encoding: whichever way each character of a constant is written, as itself, as a simple escape
  sequence or with three octal digits, the decoder accepts the constant, counts its characters, and with a block that is
  large enough stores exactly these characters and a final 0.
\<close>

theorem unesc_roundtrip:
  assumes "list_all2 encodes cs ws" and "fits_out s (length cs)"
  shows "unescChar s (concat ws) False = Inr (map_option (\<lambda>buf. cs @ CHR 0x00 # drop (Suc (length cs)) buf) s, length cs, True)"
proof -
  obtain u where u: "fold_res (unesc_step False) (unesc0 s) (concat ws) = Inr u" "ready u (out_of s cs) (length cs)"
    using encoded_fold [OF assms(1) unesc0_ready] assms(2) by auto
  have "room (u_out u)" and out: "map_option fst (set_out (CHR 0x00) (u_out u)) = map_option (\<lambda>buf. cs @ CHR 0x00 # drop (Suc (length cs)) buf) s"
    using u(2) out_of_put [OF assms(2), of "CHR 0x00"] assms(2)
    by (cases s; auto simp: ready_def out_of_def set_out_def fits_out_def list_update_append Cons_nth_drop_Suc [symmetric])+
  with u show ?thesis by (simp add: unescChar_unesc0 ready_def SET_TO_S_room out)
qed

lemma char_65: "char_of (65 :: nat) = CHR ''A''"
  by code_simp

theorem unesc_roundtrip_witness:
  "unescChar (Some (replicate 8 CHR ''?'')) [CHR ''a'', CHR 92, CHR ''n'', CHR 92, CHR ''1'', CHR ''0'', CHR ''1''] False
     = Inr (Some [CHR ''a'', CHR 10, CHR ''A'', CHR 0x00, CHR ''?'', CHR ''?'', CHR ''?'', CHR ''?''], 3, True)"
proof -
  have "list_all2 encodes [CHR ''a'', CHR 10, CHR ''A''] [[CHR ''a''], [CHR 92, CHR ''n''], [CHR 92, CHR ''1'', CHR ''0'', CHR ''1'']]"
    using char_65 by (simp add: encodes_def escape_table_def is_oct_def oct_value_def)
  from unesc_roundtrip [OF this, of "Some (replicate 8 CHR ''?'')"] show ?thesis by (simp add: fits_out_def numeral_eq_Suc)
qed

text \<open>
  An octal escape sequence of one digit at the end of a string is lost: the string \<open>"a\0"\<close>, with two characters in C,
  has one for the front end, and an array that is initialised with it is declared one element too short.
\<close>

theorem octal_at_end_lost:
  assumes "list_all2 encodes cs ws" and "is_oct d"
  shows "unescChar None (concat ws @ [CHR 92, d]) False = Inr (None, length cs, True)"
proof -
  obtain u where u: "fold_res (unesc_step False) (unesc0 None) (concat ws) = Inr u" "ready u (out_of None cs) (length cs)"
    using encoded_fold [OF assms(1) unesc0_ready, of None] by (auto simp: fits_out_def)
  have v: "oct_value d \<le> 255" using oct_range [OF assms(2)] by simp
  have "fold_res (unesc_step False) u [CHR 92, d]
      = Inr (u\<lparr>u_mode := MODE_ESC_OCT, u_stock := oct_value d, u_stockCnt := 1\<rparr>)"
    using u(2) assms(2) v
    by (cases u) (simp add: ready_def out_of_def unesc_step_def norm_step_def esc_step_def oct_not_simple oct_step_digit room_def set_out_def)
  with u show ?thesis
    by (simp add: unescChar_unesc0 fold_res_append ready_def out_of_def SET_TO_S_room room_def set_out_def)
qed

theorem octal_at_end_lost_witness:
  "allocExprOfStringConst [CHR ''a'', CHR 92, CHR ''0''] \<lparr>e_isError = [], errorList = [], nextNode = 1\<rparr>
     = Inr (StringConst 1 [CHR ''a'', CHR 92, CHR ''0''] :: unit cexpr, 1, \<lparr>e_isError = [], errorList = [], nextNode = 2\<rparr>)"
proof -
  have "list_all2 encodes ''a'' [''a'']" "is_oct CHR ''0''" by (simp_all add: encodes_def is_oct_def)
  from octal_at_end_lost [OF this] show ?thesis by (simp add: allocExprOfStringConst_def alloc_node_def)
qed

text \<open>The hexadecimal digits from \<open>A\<close> to \<open>F\<close> count from 0, and a hexadecimal sequence before another character is counted twice.\<close>

lemma hex_digits_wrong: "hex_digit CHR ''A'' = 0" "hex_digit CHR ''F'' = 5" "hex_digit CHR ''a'' = - 5" "hex_digit CHR ''f'' = 0"
  by (simp_all add: hex_digit_def)

lemma hex_counted_twice: "unescChar None [CHR 92, CHR ''x'', CHR ''4'', CHR ''1'', CHR ''Z''] False = Inr (None, 3, True)"
  by code_simp

subsection \<open>Number constants\<close>

text \<open>
  The decimal constant \<open>5000000000\<close>, of type \<open>long\<close> in C, is refused, and \<open>5000000000u\<close>, of type \<open>unsigned long\<close>, becomes an
  \<open>unsigned int\<close> with a value that this type does not have.
\<close>

lemma big_decimal_refused:
  "allocExprOfNumberConst read_ld BT_INT CD_DEC (Some ''5000000000'') \<lparr>e_isError = [], errorList = [], nextNode = 1\<rparr>
     = Inr (NumberConst 1 BT_INT (IntVal (word_of_int 5000000000)), \<lparr>e_isError = [1], errorList = [CERR_121], nextNode = 2\<rparr>)"
  "allocExprOfNumberConst read_ld BT_UNSIGNED_INT CD_DEC (Some ''5000000000u'') \<lparr>e_isError = [], errorList = [], nextNode = 1\<rparr>
     = Inr (NumberConst 1 BT_UNSIGNED_INT (IntVal (word_of_int 5000000000)), \<lparr>e_isError = [], errorList = [], nextNode = 2\<rparr>)"
  by (simp_all add: allocExprOfNumberConst_def alloc_node_def addError_def number_digits_def signed_const_def unsigned_const_def
      strtoll_def strtoull_def strto_value_def digit_value_def)

end
