(* ===== verification/Ccol_List.thy ===== *)
theory Ccol_List
  imports Omni_Prelude
begin

text \<open>
  The linked lists of the C front end, \<open>src/C-FrontEnd/src/ccol-list.c\<close>: a heap of nodes at addresses, of which 0 is
  NULL. Reading or writing a node that is not allocated is \<open>NullDeref\<close>. Allocation does not fail. Loops that follow links
  are partial functions, with \<open>None\<close> for a loop without end.
\<close>

subsection \<open>Doubly linked lists\<close>

record 'd dnode =
  dln_prev :: nat
  dln_next :: nat
  dln_data :: 'd

record dlist =
  dl_head :: nat
  dl_tail :: nat
  dl_size :: int

record 'n nheap =
  nodes :: "nat \<rightharpoonup> 'n"
  brk :: nat

definition empty_dlist :: dlist where
  "empty_dlist = \<lparr>dl_head = 0, dl_tail = 0, dl_size = 0\<rparr>"

definition node_at :: "'n nheap \<Rightarrow> nat \<Rightarrow> 'n res" where
  "node_at h a = (case nodes h a of None \<Rightarrow> Inl NullDeref | Some x \<Rightarrow> Inr x)"

definition alloc_at :: "'n \<Rightarrow> 'n nheap \<Rightarrow> nat \<times> 'n nheap" where
  "alloc_at x h = (brk h, h\<lparr>nodes := (nodes h)(brk h \<mapsto> x), brk := Suc (brk h)\<rparr>)"

definition store_node :: "nat \<Rightarrow> ('n \<Rightarrow> 'n) \<Rightarrow> 'n nheap \<Rightarrow> 'n nheap res" where
  "store_node a f h = bind_res (node_at h a) (\<lambda>x. Inr (h\<lparr>nodes := (nodes h)(a \<mapsto> f x)\<rparr>))"

definition free_node :: "nat \<Rightarrow> 'n nheap \<Rightarrow> 'n nheap" where
  "free_node a h = h\<lparr>nodes := (nodes h)(a := None)\<rparr>"

text \<open>An assignment that is made only when a pointer is not NULL.\<close>

definition store_if :: "nat \<Rightarrow> ('n \<Rightarrow> 'n) \<Rightarrow> 'n nheap \<Rightarrow> 'n nheap res" where
  "store_if a f h = (if a \<noteq> 0 then store_node a f h else Inr h)"

fun ccol_DListNextN :: "'d dnode nheap \<Rightarrow> nat \<Rightarrow> nat \<Rightarrow> nat res" where
  "ccol_DListNextN h x 0 = Inr x"
| "ccol_DListNextN h x (Suc n) =
     bind_res (node_at h x) (\<lambda>nd. if dln_next nd = 0 then Inr 0 else ccol_DListNextN h (dln_next nd) n)"

fun ccol_DListPrevN :: "'d dnode nheap \<Rightarrow> nat \<Rightarrow> nat \<Rightarrow> nat res" where
  "ccol_DListPrevN h x 0 = Inr x"
| "ccol_DListPrevN h x (Suc n) =
     bind_res (node_at h x) (\<lambda>nd. if dln_prev nd = 0 then Inr 0 else ccol_DListPrevN h (dln_prev nd) n)"

definition ccol_DListAt :: "'d dnode nheap \<Rightarrow> dlist \<Rightarrow> nat \<Rightarrow> nat res" where
  "ccol_DListAt h l n = ccol_DListNextN h (dl_head l) n"

definition ccol_DListTailAt :: "'d dnode nheap \<Rightarrow> dlist \<Rightarrow> nat \<Rightarrow> nat res" where
  "ccol_DListTailAt h l n = ccol_DListPrevN h (dl_tail l) n"

definition ccol_DListAdd :: "dlist \<Rightarrow> 'd \<Rightarrow> 'd dnode nheap \<Rightarrow> (dlist \<times> 'd dnode nheap) res" where
  "ccol_DListAdd l d h =
     (case alloc_at \<lparr>dln_prev = 0, dln_next = 0, dln_data = d\<rparr> h of (x, h) \<Rightarrow>
       bind_res (store_if (dl_tail l) (\<lambda>nd. nd\<lparr>dln_next := x\<rparr>) h) (\<lambda>h.
       bind_res (store_node x (\<lambda>nd. nd\<lparr>dln_prev := dl_tail l, dln_next := 0\<rparr>) h) (\<lambda>h.
         Inr (\<lparr>dl_head = (if dl_head l = 0 then x else dl_head l), dl_tail = x, dl_size = dl_size l + 1\<rparr>, h))))"

definition ccol_DListCons :: "dlist \<Rightarrow> 'd \<Rightarrow> 'd dnode nheap \<Rightarrow> (dlist \<times> 'd dnode nheap) res" where
  "ccol_DListCons l d h =
     (case alloc_at \<lparr>dln_prev = 0, dln_next = 0, dln_data = d\<rparr> h of (x, h) \<Rightarrow>
       bind_res (store_if (dl_head l) (\<lambda>nd. nd\<lparr>dln_prev := x\<rparr>) h) (\<lambda>h.
       bind_res (store_node x (\<lambda>nd. nd\<lparr>dln_next := dl_head l, dln_prev := 0\<rparr>) h) (\<lambda>h.
         Inr (\<lparr>dl_head = x, dl_tail = (if dl_tail l = 0 then x else dl_tail l), dl_size = dl_size l + 1\<rparr>, h))))"

text \<open>The second list, which must be another object, is empty afterwards.\<close>

definition ccol_DListJoin :: "dlist \<Rightarrow> dlist \<Rightarrow> 'd dnode nheap \<Rightarrow> (dlist \<times> dlist \<times> 'd dnode nheap) res" where
  "ccol_DListJoin l m h =
     (if dl_head m = 0 then Inr (l, m, h)
      else if dl_head l = 0 then Inr (m, empty_dlist, h)
      else
        bind_res (store_node (dl_tail l) (\<lambda>nd. nd\<lparr>dln_next := dl_head m\<rparr>) h) (\<lambda>h.
        bind_res (store_node (dl_head m) (\<lambda>nd. nd\<lparr>dln_prev := dl_tail l\<rparr>) h) (\<lambda>h.
          Inr (l\<lparr>dl_tail := dl_tail m, dl_size := dl_size l + dl_size m\<rparr>, empty_dlist, h))))"

definition ccol_DListInsertPrev :: "dlist \<Rightarrow> 'd \<Rightarrow> nat \<Rightarrow> 'd dnode nheap \<Rightarrow> (nat \<times> dlist \<times> 'd dnode nheap) res" where
  "ccol_DListInsertPrev l d nxt h =
     (case alloc_at \<lparr>dln_prev = 0, dln_next = 0, dln_data = d\<rparr> h of (x, h) \<Rightarrow>
       bind_res (node_at h nxt) (\<lambda>nn.
       bind_res (store_node x (\<lambda>nd. nd\<lparr>dln_prev := dln_prev nn, dln_next := nxt\<rparr>) h) (\<lambda>h.
       bind_res (store_node nxt (\<lambda>nd. nd\<lparr>dln_prev := x\<rparr>) h) (\<lambda>h.
       bind_res (store_if (dln_prev nn) (\<lambda>nd. nd\<lparr>dln_next := x\<rparr>) h) (\<lambda>h.
         Inr (x, l\<lparr>dl_head := (if dl_head l = nxt then x else dl_head l), dl_size := dl_size l + 1\<rparr>, h))))))"

definition ccol_DListInsertNext :: "dlist \<Rightarrow> 'd \<Rightarrow> nat \<Rightarrow> 'd dnode nheap \<Rightarrow> (nat \<times> dlist \<times> 'd dnode nheap) res" where
  "ccol_DListInsertNext l d prv h =
     (case alloc_at \<lparr>dln_prev = 0, dln_next = 0, dln_data = d\<rparr> h of (x, h) \<Rightarrow>
       bind_res (node_at h prv) (\<lambda>pn.
       bind_res (store_node x (\<lambda>nd. nd\<lparr>dln_next := dln_next pn, dln_prev := prv\<rparr>) h) (\<lambda>h.
       bind_res (store_node prv (\<lambda>nd. nd\<lparr>dln_next := x\<rparr>) h) (\<lambda>h.
       bind_res (store_if (dln_next pn) (\<lambda>nd. nd\<lparr>dln_prev := x\<rparr>) h) (\<lambda>h.
         Inr (x, l\<lparr>dl_tail := (if dl_tail l = prv then x else dl_tail l), dl_size := dl_size l + 1\<rparr>, h))))))"

text \<open>The loop that looks for a node.\<close>

partial_function (option) find_dnode :: "'d dnode nheap \<Rightarrow> nat \<Rightarrow> nat \<Rightarrow> nat res option" where
  "find_dnode h p x =
     (if p = 0 \<or> p = x then Some (Inr p)
      else bind_ro (Some (node_at h p)) (\<lambda>nd. find_dnode h (dln_next nd) x))"

text \<open>Taking a node out of the list; the data, if there was a node.\<close>

definition unlink_dnode :: "dlist \<Rightarrow> nat \<Rightarrow> 'd dnode nheap \<Rightarrow> ('d option \<times> dlist \<times> 'd dnode nheap) res" where
  "unlink_dnode l x h =
     bind_res (node_at h x) (\<lambda>nd.
     bind_res (store_if (dln_prev nd) (\<lambda>pn. pn\<lparr>dln_next := dln_next nd\<rparr>) h) (\<lambda>h.
     bind_res (store_if (dln_next nd) (\<lambda>nn. nn\<lparr>dln_prev := dln_prev nd\<rparr>) h) (\<lambda>h.
       Inr (Some (dln_data nd),
         \<lparr>dl_head = (if dl_head l = x then dln_next nd else dl_head l), dl_tail = (if dl_tail l = x then dln_prev nd else dl_tail l),
          dl_size = dl_size l - 1\<rparr>, free_node x h))))"

definition ccol_DListRemove :: "dlist \<Rightarrow> nat \<Rightarrow> 'd dnode nheap \<Rightarrow> ('d option \<times> dlist \<times> 'd dnode nheap) res option" where
  "ccol_DListRemove l x h =
     (if x = 0 \<or> dl_head l = 0 then Some (Inr (None, l, h))
      else bind_ro (find_dnode h (dl_head l) x) (\<lambda>p. if p = 0 then Some (Inr (None, l, h)) else Some (unlink_dnode l x h)))"

definition ccol_DListRemoveHead :: "dlist \<Rightarrow> 'd dnode nheap \<Rightarrow> ('d option \<times> dlist \<times> 'd dnode nheap) res" where
  "ccol_DListRemoveHead l h =
     (if dl_head l = 0 then Inr (None, l, h)
      else
        bind_res (node_at h (dl_head l)) (\<lambda>nd.
        bind_res (store_if (dln_next nd) (\<lambda>nn. nn\<lparr>dln_prev := 0\<rparr>) h) (\<lambda>h.
          Inr (Some (dln_data nd),
            \<lparr>dl_head = dln_next nd, dl_tail = (if dl_head l = dl_tail l then 0 else dl_tail l), dl_size = dl_size l - 1\<rparr>,
            free_node (dl_head l) h))))"

definition ccol_DListRemoveTail :: "dlist \<Rightarrow> 'd dnode nheap \<Rightarrow> ('d option \<times> dlist \<times> 'd dnode nheap) res" where
  "ccol_DListRemoveTail l h =
     (if dl_tail l = 0 then Inr (None, l, h)
      else
        bind_res (node_at h (dl_tail l)) (\<lambda>nd.
        bind_res (store_if (dln_prev nd) (\<lambda>pn. pn\<lparr>dln_next := 0\<rparr>) h) (\<lambda>h.
          Inr (Some (dln_data nd),
            \<lparr>dl_head = (if dl_tail l = dl_head l then 0 else dl_head l), dl_tail = dln_prev nd, dl_size = dl_size l - 1\<rparr>,
            free_node (dl_tail l) h))))"

partial_function (option) free_dnodes :: "nat \<Rightarrow> 'd dnode nheap \<Rightarrow> 'd dnode nheap res option" where
  "free_dnodes p h =
     (if p = 0 then Some (Inr h)
      else bind_ro (Some (node_at h p)) (\<lambda>nd. free_dnodes (dln_next nd) (free_node p h)))"

definition ccol_DListClear :: "dlist \<Rightarrow> 'd dnode nheap \<Rightarrow> (dlist \<times> 'd dnode nheap) res option" where
  "ccol_DListClear l h = bind_ro (free_dnodes (dl_head l) h) (\<lambda>h. Some (Inr (empty_dlist, h)))"

subsection \<open>Singly linked lists\<close>

record 'd snode =
  sln_next :: nat
  sln_data :: 'd

record slist =
  sl_head :: nat
  sl_size :: nat

fun ccol_SListNextN :: "'d snode nheap \<Rightarrow> nat \<Rightarrow> nat \<Rightarrow> nat res" where
  "ccol_SListNextN h x 0 = Inr x"
| "ccol_SListNextN h x (Suc n) =
     bind_res (node_at h x) (\<lambda>nd. if sln_next nd = 0 then Inr 0 else ccol_SListNextN h (sln_next nd) n)"

definition ccol_SListAt :: "'d snode nheap \<Rightarrow> slist \<Rightarrow> nat \<Rightarrow> nat res" where
  "ccol_SListAt h l n = ccol_SListNextN h (sl_head l) n"

definition ccol_SListCons :: "slist \<Rightarrow> 'd \<Rightarrow> 'd snode nheap \<Rightarrow> slist \<times> 'd snode nheap" where
  "ccol_SListCons l d h =
     (case alloc_at \<lparr>sln_next = sl_head l, sln_data = d\<rparr> h of (x, h) \<Rightarrow> (\<lparr>sl_head = x, sl_size = sl_size l + 1\<rparr>, h))"

partial_function (option) last_snode :: "'d snode nheap \<Rightarrow> nat \<Rightarrow> nat res option" where
  "last_snode h x =
     bind_ro (Some (node_at h x)) (\<lambda>nd. if sln_next nd = 0 then Some (Inr x) else last_snode h (sln_next nd))"

text \<open>The first list goes to the end of the second one, which is the result.\<close>

definition ccol_SListJoin :: "slist \<Rightarrow> slist \<Rightarrow> 'd snode nheap \<Rightarrow> (slist \<times> slist \<times> 'd snode nheap) res option" where
  "ccol_SListJoin m l h =
     (if sl_head m = 0 then Some (Inr (l, m, h))
      else if sl_head l = 0 then Some (Inr (m, \<lparr>sl_head = 0, sl_size = 0\<rparr>, h))
      else bind_ro (last_snode h (sl_head l)) (\<lambda>tail.
        Some (bind_res (store_node tail (\<lambda>nd. nd\<lparr>sln_next := sl_head m\<rparr>) h) (\<lambda>h.
          Inr (l\<lparr>sl_size := sl_size l + sl_size m\<rparr>, \<lparr>sl_head = 0, sl_size = 0\<rparr>, h)))))"

definition ccol_SListInsertNext :: "slist \<Rightarrow> 'd \<Rightarrow> nat \<Rightarrow> 'd snode nheap \<Rightarrow> (nat \<times> slist \<times> 'd snode nheap) res" where
  "ccol_SListInsertNext l d prv h =
     bind_res (node_at h prv) (\<lambda>pn.
       case alloc_at \<lparr>sln_next = sln_next pn, sln_data = d\<rparr> h of (x, h) \<Rightarrow>
         bind_res (store_node prv (\<lambda>nd. nd\<lparr>sln_next := x\<rparr>) h) (\<lambda>h. Inr (x, l\<lparr>sl_size := sl_size l + 1\<rparr>, h)))"

text \<open>The loop that looks for the node before another one; it does not stop at the end of the list.\<close>

partial_function (option) before_snode :: "'d snode nheap \<Rightarrow> nat \<Rightarrow> nat \<Rightarrow> nat res option" where
  "before_snode h prv x =
     bind_ro (Some (node_at h prv)) (\<lambda>nd. if sln_next nd = x then Some (Inr prv) else before_snode h (sln_next nd) x)"

definition ccol_SListRemove :: "slist \<Rightarrow> nat \<Rightarrow> 'd snode nheap \<Rightarrow> ('d option \<times> slist \<times> 'd snode nheap) res option" where
  "ccol_SListRemove l x h =
     (if x = 0 \<or> sl_head l = 0 then Some (Inr (None, l, h))
      else bind_ro (before_snode h (sl_head l) x) (\<lambda>prv.
        Some (bind_res (node_at h x) (\<lambda>nd.
          bind_res (store_node prv (\<lambda>pn. pn\<lparr>sln_next := sln_next nd\<rparr>) h) (\<lambda>h.
            Inr (Some (sln_data nd), l\<lparr>sl_size := sl_size l - 1\<rparr>, free_node x h))))))"

definition ccol_SListRemoveHead :: "slist \<Rightarrow> 'd snode nheap \<Rightarrow> ('d option \<times> slist \<times> 'd snode nheap) res" where
  "ccol_SListRemoveHead l h =
     (if sl_head l = 0 then Inr (None, l, h)
      else bind_res (node_at h (sl_head l)) (\<lambda>nd.
        Inr (Some (sln_data nd), \<lparr>sl_head = sln_next nd, sl_size = sl_size l - 1\<rparr>, free_node (sl_head l) h)))"

text \<open>The loop with \<open>x\<close>, \<open>n\<close> and \<open>p\<close>; its result is \<open>p\<close>.\<close>

partial_function (option) reverse_snodes :: "nat \<Rightarrow> nat \<Rightarrow> nat \<Rightarrow> 'd snode nheap \<Rightarrow> (nat \<times> 'd snode nheap) res option" where
  "reverse_snodes x n p h =
     (if x = 0 then Some (Inr (p, h))
      else bind_ro (Some (store_node x (\<lambda>nd. nd\<lparr>sln_next := p\<rparr>) h)) (\<lambda>h.
        bind_ro (Some (if n = 0 then Inr 0 else bind_res (node_at h n) (\<lambda>nd. Inr (sln_next nd)))) (\<lambda>n'.
          reverse_snodes n n' x h)))"

definition ccol_SListReverse :: "slist \<Rightarrow> 'd snode nheap \<Rightarrow> (slist \<times> 'd snode nheap) res option" where
  "ccol_SListReverse l h =
     (if sl_size l \<le> 1 then Some (Inr (l, h))
      else bind_ro (Some (node_at h (sl_head l))) (\<lambda>nd.
        bind_ro (reverse_snodes (sl_head l) (sln_next nd) 0 h) (\<lambda>(p, h). Some (Inr (l\<lparr>sl_head := p\<rparr>, h)))))"

partial_function (option) free_snodes :: "nat \<Rightarrow> 'd snode nheap \<Rightarrow> 'd snode nheap res option" where
  "free_snodes p h =
     (if p = 0 then Some (Inr h)
      else bind_ro (Some (node_at h p)) (\<lambda>nd. free_snodes (sln_next nd) (free_node p h)))"

definition ccol_SListClear :: "slist \<Rightarrow> 'd snode nheap \<Rightarrow> (slist \<times> 'd snode nheap) res option" where
  "ccol_SListClear l h = bind_ro (free_snodes (sl_head l) h) (\<lambda>h. Some (Inr (\<lparr>sl_head = 0, sl_size = 0\<rparr>, h)))"

end
