(* ===== verification/Ccol_List_Laws.thy ===== *)
theory Ccol_List_Laws
  imports Ccol_List
begin

text \<open>
  The linked lists of the C front end represent lists: every operation on nodes is the operation on the list of data, and
  touches no node outside the list.
\<close>

subsection \<open>Chains of nodes\<close>

text \<open>
  The nodes \<open>xs\<close> are linked in this order and hold \<open>ds\<close>; \<open>p\<close> is before the first and \<open>n\<close> after the last.
\<close>

definition hd_or :: "nat \<Rightarrow> nat list \<Rightarrow> nat" where
  "hd_or n xs = (case xs of [] \<Rightarrow> n | x # _ \<Rightarrow> x)"

definition last_or :: "nat \<Rightarrow> nat list \<Rightarrow> nat" where
  "last_or p xs = (if xs = [] then p else last xs)"

fun chain :: "(nat \<rightharpoonup> 'd dnode) \<Rightarrow> nat \<Rightarrow> nat list \<Rightarrow> nat \<Rightarrow> 'd list \<Rightarrow> bool" where
  "chain m p [] n ds \<longleftrightarrow> ds = []"
| "chain m p (x # xs) n [] \<longleftrightarrow> False"
| "chain m p (x # xs) n (d # ds) \<longleftrightarrow>
     x \<noteq> 0 \<and> m x = Some \<lparr>dln_prev = p, dln_next = hd_or n xs, dln_data = d\<rparr> \<and> chain m x xs n ds"

lemma or_simps [simp]:
  "hd_or n [] = n" "hd_or n (x # xs) = x" "last_or p [] = p" "last_or p (x # xs) = last_or x xs" "last_or p (xs @ [x]) = x"
  "hd_or n (xs @ ys) = hd_or (hd_or n ys) xs"
  by (auto simp: hd_or_def last_or_def split: list.split)

lemma last_or_append [simp]: "last_or p (xs @ ys) = last_or (last_or p xs) ys"
  by (simp add: last_or_def)

lemma last_or_in: "last_or p xs = p \<and> xs = [] \<or> last_or p xs \<in> set xs"
  by (simp add: last_or_def)

lemma hd_or_in: "hd_or n xs = n \<and> xs = [] \<or> hd_or n xs \<in> set xs"
  by (cases xs) auto

lemma chain_length: "chain m p xs n ds \<Longrightarrow> length ds = length xs"
  by (induction m p xs n ds rule: chain.induct) auto

lemma chain_append:
  "length xs = length ds \<Longrightarrow>
   chain m p (xs @ ys) n (ds @ es) \<longleftrightarrow> chain m p xs (hd_or n ys) ds \<and> chain m (last_or p xs) ys n es"
  by (induction xs ds arbitrary: p rule: list_induct2) auto

lemma chain_nonzero: "chain m p xs n ds \<Longrightarrow> 0 \<notin> set xs"
  by (induction m p xs n ds rule: chain.induct) auto

lemma chain_dom: "chain m p xs n ds \<Longrightarrow> x \<in> set xs \<Longrightarrow> m x \<noteq> None"
  by (induction m p xs n ds rule: chain.induct) auto

lemma dchain_cong: "chain m p xs n ds \<Longrightarrow> \<forall>x \<in> set xs. m' x = m x \<Longrightarrow> chain m' p xs n ds"
  by (induction m p xs n ds rule: chain.induct) auto

text \<open>The links at both ends can be redirected.\<close>

lemma chain_next:
  assumes "chain m p xs n ds" "distinct xs" "xs \<noteq> []"
  shows "\<exists>nd. m (last xs) = Some nd \<and> chain (m(last xs \<mapsto> nd\<lparr>dln_next := n'\<rparr>)) p xs n' ds"
  using assms
proof (induction m p xs n ds rule: chain.induct)
  case (3 m p x xs n d ds)
  have c: "x \<noteq> 0" "m x = Some \<lparr>dln_prev = p, dln_next = hd_or n xs, dln_data = d\<rparr>" "chain m x xs n ds" and dx: "x \<notin> set xs" "distinct xs"
    using "3.prems" by auto
  show ?case
  proof (cases "xs = []")
    case True
    with c show ?thesis by simp
  next
    case False
    obtain nd where nd: "m (last xs) = Some nd" "chain (m(last xs \<mapsto> nd\<lparr>dln_next := n'\<rparr>)) x xs n' ds"
      using "3.IH" [OF c(3) dx(2) False] by blast
    have "last xs \<noteq> x" using dx(1) False by auto
    moreover have "hd_or n xs = hd_or n' xs" using False by (cases xs) auto
    ultimately have "chain (m(last xs \<mapsto> nd\<lparr>dln_next := n'\<rparr>)) p (x # xs) n' (d # ds)" using c nd(2) by simp
    moreover have "last (x # xs) = last xs" using False by simp
    ultimately show ?thesis using nd(1) by metis
  qed
qed simp_all

lemma chain_prev:
  assumes "chain m p xs n ds" "distinct xs" "xs \<noteq> []"
  shows "\<exists>nd. m (hd xs) = Some nd \<and> chain (m(hd xs \<mapsto> nd\<lparr>dln_prev := p'\<rparr>)) p' xs n ds"
proof -
  obtain x ys where xs: "xs = x # ys" using assms(3) by (cases xs) auto
  obtain d es where ds: "ds = d # es" using assms(1) xs by (cases ds) auto
  have c: "x \<noteq> 0" "m x = Some \<lparr>dln_prev = p, dln_next = hd_or n ys, dln_data = d\<rparr>" "chain m x ys n es" and dx: "x \<notin> set ys"
    using assms(1,2) by (simp_all add: xs ds)
  have "chain (m(x \<mapsto> v)) x ys n es" for v by (rule dchain_cong [OF c(3)]) (use dx in auto)
  with c(1,2) show ?thesis by (simp add: xs ds del: fun_upd_apply) simp
qed

subsection \<open>Lists\<close>

definition dl_rep :: "'d dnode nheap \<Rightarrow> dlist \<Rightarrow> nat list \<Rightarrow> 'd list \<Rightarrow> bool" where
  "dl_rep h l xs ds \<longleftrightarrow> chain (nodes h) 0 xs 0 ds \<and> distinct xs \<and> dl_head l = hd_or 0 xs \<and> dl_tail l = last_or 0 xs
     \<and> dl_size l = int (length ds) \<and> 0 < brk h \<and> dom (nodes h) \<subseteq> {0 <..< brk h}"

lemma dl_repD:
  assumes "dl_rep h l xs ds"
  shows "length ds = length xs" "0 \<notin> set xs" "\<And>x. x \<in> set xs \<Longrightarrow> 0 < x \<and> x < brk h" "dl_head l = 0 \<longleftrightarrow> xs = []" "dl_tail l = 0 \<longleftrightarrow> xs = []"
proof -
  have c: "chain (nodes h) 0 xs 0 ds" and d: "dom (nodes h) \<subseteq> {0 <..< brk h}" using assms by (auto simp: dl_rep_def)
  show "length ds = length xs" "0 \<notin> set xs" using chain_length [OF c] chain_nonzero [OF c] by auto
  show "0 < x \<and> x < brk h" if "x \<in> set xs" for x using chain_dom [OF c that] d by auto
  show "dl_head l = 0 \<longleftrightarrow> xs = []" "dl_tail l = 0 \<longleftrightarrow> xs = []"
    using assms chain_nonzero [OF c] hd_or_in [of 0 xs] last_or_in [of 0 xs] by (auto simp: dl_rep_def)
qed

text \<open>What an operation keeps of the heap: nodes that are not in the list, and were allocated.\<close>

definition keeps_others :: "'n nheap \<Rightarrow> nat list \<Rightarrow> 'n nheap \<Rightarrow> bool" where
  "keeps_others h xs h' \<longleftrightarrow> brk h \<le> brk h' \<and> (\<forall>a. a \<notin> set xs \<and> a < brk h \<longrightarrow> nodes h' a = nodes h a)"

lemma store_node_some: "nodes h a = Some nd \<Longrightarrow> store_node a f h = Inr (h\<lparr>nodes := (nodes h)(a \<mapsto> f nd)\<rparr>)"
  by (simp add: store_node_def node_at_def)

lemma fresh_none: "dom (nodes h) \<subseteq> {0 <..< brk h} \<Longrightarrow> nodes h (brk h) = None"
  by (auto simp: dom_def subset_iff)

subsection \<open>Relinking\<close>

text \<open>The map in which the last node of \<open>as\<close> is followed by \<open>n\<close> and the first of \<open>bs\<close> preceded by \<open>p\<close>.\<close>

definition relinked :: "(nat \<rightharpoonup> 'd dnode) \<Rightarrow> nat list \<Rightarrow> nat \<Rightarrow> nat \<Rightarrow> nat list \<Rightarrow> nat \<Rightarrow> 'd dnode option" where
  "relinked m as n p bs a =
     (if as \<noteq> [] \<and> a = last as then map_option (\<lambda>nd. nd\<lparr>dln_next := n\<rparr>) (m a)
      else if bs \<noteq> [] \<and> a = hd bs then map_option (\<lambda>nd. nd\<lparr>dln_prev := p\<rparr>) (m a)
      else m a)"

lemma relink:
  assumes as: "chain m p as n' ds" and bs: "chain m p' bs n es" and dist: "distinct (as @ bs)"
    and m': "\<And>a. a \<in> set as \<union> set bs \<Longrightarrow> m' a = relinked m as N P bs a"
  shows "chain m' p as N ds" and "chain m' P bs n es"
proof -
  show "chain m' p as N ds"
  proof (cases "as = []")
    case False
    obtain nd where nd: "m (last as) = Some nd" "chain (m(last as \<mapsto> nd\<lparr>dln_next := N\<rparr>)) p as N ds"
      using chain_next [OF as _ False] dist by auto
    have "m' a = (m(last as \<mapsto> nd\<lparr>dln_next := N\<rparr>)) a" if "a \<in> set as" for a
    proof -
      have "a \<notin> set bs" using that dist by auto
      then have "\<not> (bs \<noteq> [] \<and> a = hd bs)" using hd_in_set by blast
      with m' [of a] that nd(1) False show ?thesis by (auto simp: relinked_def)
    qed
    with nd(2) show ?thesis by (intro dchain_cong [OF nd(2)]) blast
  qed (use as in auto)
  show "chain m' P bs n es"
  proof (cases "bs = []")
    case False
    obtain nd where nd: "m (hd bs) = Some nd" "chain (m(hd bs \<mapsto> nd\<lparr>dln_prev := P\<rparr>)) P bs n es"
      using chain_prev [OF bs _ False] dist by auto
    have "m' a = (m(hd bs \<mapsto> nd\<lparr>dln_prev := P\<rparr>)) a" if "a \<in> set bs" for a
    proof -
      have "a \<notin> set as" using that dist by auto
      then have "\<not> (as \<noteq> [] \<and> a = last as)" using last_in_set by blast
      with m' [of a] that nd(1) False show ?thesis by (auto simp: relinked_def)
    qed
    with nd(2) show ?thesis by (intro dchain_cong [OF nd(2)]) blast
  qed (use bs in auto)
qed

lemma chain_insert:
  assumes c: "chain m 0 (as @ bs) 0 (ds @ es)" and l: "length as = length ds" and dist: "distinct (as @ bs)" and x: "x \<noteq> 0" "x \<notin> set (as @ bs)"
    and mx: "m' x = Some \<lparr>dln_prev = last_or 0 as, dln_next = hd_or 0 bs, dln_data = d\<rparr>"
    and m': "\<And>a. a \<in> set as \<union> set bs \<Longrightarrow> m' a = relinked m as x x bs a"
  shows "chain m' 0 (as @ x # bs) 0 (ds @ d # es)"
proof -
  have p: "chain m 0 as (hd_or 0 bs) ds" "chain m (last_or 0 as) bs 0 es" using c l by (simp_all add: chain_append)
  from relink [OF p dist m'] x mx l show ?thesis by (simp add: chain_append)
qed

lemma dchain_unlink:
  assumes c: "chain m 0 (as @ x # bs) 0 (ds @ d # es)" and l: "length as = length ds" and dist: "distinct (as @ x # bs)"
    and m': "\<And>a. a \<in> set as \<union> set bs \<Longrightarrow> m' a = relinked m as (hd_or 0 bs) (last_or 0 as) bs a"
  shows "chain m' 0 (as @ bs) 0 (ds @ es)"
proof -
  have p: "chain m 0 as x ds" "chain m x bs 0 es" using c l by (simp_all add: chain_append)
  from relink [OF p _ m'] dist l show ?thesis by (simp add: chain_append)
qed

text \<open>A list is split at a node by its position.\<close>

lemma dl_rep_split:
  assumes "dl_rep h l (as @ x # bs) ds'"
  obtains ds d es where "ds' = ds @ d # es" "length as = length ds"
    "nodes h x = Some \<lparr>dln_prev = last_or 0 as, dln_next = hd_or 0 bs, dln_data = d\<rparr>"
proof -
  have l: "length ds' = length as + Suc (length bs)" using dl_repD(1) [OF assms] by simp
  define ds d es where "ds = take (length as) ds'" and "d = ds' ! length as" and "es = drop (Suc (length as)) ds'"
  have sp: "ds' = ds @ d # es" using l by (simp add: ds_def d_def es_def id_take_nth_drop)
  have ll: "length as = length ds" using l by (simp add: ds_def)
  have "chain (nodes h) 0 (as @ x # bs) 0 (ds @ d # es)" using assms sp by (simp add: dl_rep_def)
  then have "nodes h x = Some \<lparr>dln_prev = last_or 0 as, dln_next = hd_or 0 bs, dln_data = d\<rparr>"
    using ll by (simp add: chain_append)
  with sp ll show ?thesis by (rule that)
qed

subsection \<open>Operations\<close>

lemma store_if_nodes:
  assumes "a = 0 \<or> nodes h a \<noteq> None"
  shows "\<exists>h'. store_if a f h = Inr h' \<and> brk h' = brk h \<and> (\<forall>b. nodes h' b = (if a \<noteq> 0 \<and> b = a then map_option f (nodes h a) else nodes h b))"
  using assms by (auto simp: store_if_def store_node_def node_at_def split: option.split)

lemma store_node_nodes:
  assumes "nodes h a \<noteq> None"
  shows "\<exists>h'. store_node a f h = Inr h' \<and> brk h' = brk h \<and> (\<forall>b. nodes h' b = (if b = a then map_option f (nodes h a) else nodes h b))"
  using assms by (auto simp: store_node_def node_at_def split: option.split)

lemma hd_last_or: "xs \<noteq> [] \<Longrightarrow> hd_or n xs = hd xs \<and> last_or p xs = last xs"
  by (cases xs) (auto simp: last_or_def)

text \<open>A new node between two parts of the list: the common effect of the four insertions.\<close>

lemma dl_rep_insert:
  assumes r: "dl_rep h l (as @ bs) (ds @ es)" and len: "length as = length ds" and x: "x = brk h"
    and h': "brk h' = Suc (brk h)" "nodes h' x = Some \<lparr>dln_prev = last_or 0 as, dln_next = hd_or 0 bs, dln_data = d\<rparr>"
      "\<And>a. a \<noteq> x \<Longrightarrow> nodes h' a = relinked (nodes h) as x x bs a"
    and l': "dl_head l' = hd_or x as" "dl_tail l' = last_or x bs" "dl_size l' = dl_size l + 1"
  shows "dl_rep h' l' (as @ x # bs) (ds @ d # es) \<and> keeps_others h (as @ bs) h'"
proof -
  note D = dl_repD [OF r]
  have c: "chain (nodes h) 0 (as @ bs) 0 (ds @ es)" "distinct (as @ bs)" "dom (nodes h) \<subseteq> {0 <..< brk h}" "dl_size l = int (length (ds @ es))" "x \<noteq> 0"
    using r x by (auto simp: dl_rep_def)
  have new: "x \<notin> set (as @ bs)" using D(3) x by blast
  then have "nodes h' a = relinked (nodes h) as x x bs a" if "a \<in> set as \<union> set bs" for a using h'(3) [of a] that by auto
  from chain_insert [OF c(1) len c(2,5) new h'(2) this] have ch: "chain (nodes h') 0 (as @ x # bs) 0 (ds @ d # es)" .
  have "dom (nodes h') \<subseteq> insert x (dom (nodes h))" using h'(3) by (force simp: dom_def relinked_def split: if_splits)
  moreover have "insert x (dom (nodes h)) \<subseteq> {0 <..< brk h'}" using c(3,5) h'(1) x by force
  ultimately have dm: "dom (nodes h') \<subseteq> {0 <..< brk h'}" by (rule subset_trans)
  have "nodes h' a = nodes h a" if "a \<notin> set (as @ bs)" "a < brk h" for a
  proof -
    have "\<not> (as \<noteq> [] \<and> a = last as)" "\<not> (bs \<noteq> [] \<and> a = hd bs)" using that(1) last_in_set [of as] hd_in_set [of bs] by auto
    then show ?thesis using h'(3) [of a] that(2) x by (auto simp: relinked_def)
  qed
  then show ?thesis
    using ch dm c new l' h'(1) by (auto simp: dl_rep_def keeps_others_def)
qed

lemma add_rep:
  assumes r: "dl_rep h l xs ds"
  shows "\<exists>l' h'. ccol_DListAdd l d h = Inr (l', h') \<and> dl_rep h' l' (xs @ [brk h]) (ds @ [d]) \<and> keeps_others h xs h'"
proof -
  let ?x = "brk h" and ?h = "h\<lparr>nodes := (nodes h)(brk h \<mapsto> \<lparr>dln_prev = 0, dln_next = 0, dln_data = d\<rparr>), brk := Suc (brk h)\<rparr>"
  note D = dl_repD [OF r]
  have tl: "dl_tail l = last_or 0 xs" "dl_head l = hd_or 0 xs" "dl_size l = int (length ds)" "0 < ?x" using r by (auto simp: dl_rep_def)
  have xin: "xs \<noteq> [] \<Longrightarrow> last xs \<noteq> ?x \<and> last xs \<noteq> 0 \<and> nodes h (last xs) \<noteq> None"
    using D(3) [of "last xs"] chain_dom [of "nodes h" 0 xs 0 ds "last xs"] r by (auto simp: dl_rep_def)
  have "dl_tail l = 0 \<or> nodes ?h (dl_tail l) \<noteq> None" using tl xin by (cases "xs = []") (auto simp: hd_last_or)
  then obtain h1 where h1: "store_if (dl_tail l) (\<lambda>nd. nd\<lparr>dln_next := ?x\<rparr>) ?h = Inr h1" "brk h1 = Suc ?x"
    "\<And>b. nodes h1 b = (if dl_tail l \<noteq> 0 \<and> b = dl_tail l then map_option (\<lambda>nd. nd\<lparr>dln_next := ?x\<rparr>) (nodes ?h (dl_tail l)) else nodes ?h b)"
    using store_if_nodes [of "dl_tail l" ?h "\<lambda>nd. nd\<lparr>dln_next := ?x\<rparr>"] by auto
  have x1: "nodes h1 ?x = Some \<lparr>dln_prev = 0, dln_next = 0, dln_data = d\<rparr>" using h1(3) tl xin by (cases "xs = []") (auto simp: hd_last_or)
  then obtain h2 where h2: "store_node ?x (\<lambda>nd. nd\<lparr>dln_prev := dl_tail l, dln_next := 0\<rparr>) h1 = Inr h2" "brk h2 = brk h1"
    "\<And>b. nodes h2 b = (if b = ?x then map_option (\<lambda>nd. nd\<lparr>dln_prev := dl_tail l, dln_next := 0\<rparr>) (nodes h1 ?x) else nodes h1 b)"
    using store_node_nodes [of h1 ?x] by blast
  let ?l = "\<lparr>dl_head = (if dl_head l = 0 then ?x else dl_head l), dl_tail = ?x, dl_size = dl_size l + 1\<rparr>"
  have run: "ccol_DListAdd l d h = Inr (?l, h2)" by (simp add: ccol_DListAdd_def alloc_at_def h1(1) h2(1))
  have rl: "nodes h2 a = relinked (nodes h) xs ?x ?x [] a" if "a \<noteq> ?x" for a
    using h2(3) h1(3) that tl xin by (cases "xs = []") (auto simp: relinked_def hd_last_or)
  have nx: "nodes h2 ?x = Some \<lparr>dln_prev = last_or 0 xs, dln_next = hd_or 0 [], dln_data = d\<rparr>" using h2(3) x1 tl by simp
  have "dl_rep h2 ?l (xs @ [?x]) (ds @ [d]) \<and> keeps_others h (xs @ []) h2"
    by (rule dl_rep_insert [OF _ D(1) [symmetric] refl _ nx rl]) (use r h1(2) h2(2) tl D(4) in \<open>cases "xs = []"; simp add: hd_last_or\<close>)+
  with run show ?thesis by auto
qed

lemma dl_rep_nodes:
  assumes "dl_rep h l (as @ x # bs) ds"
  obtains nd where "nodes h x = Some nd" "dln_prev nd = last_or 0 as" "dln_next nd = hd_or 0 bs" "0 < x" "x < brk h"
  using dl_rep_split [OF assms] dl_repD(3) [OF assms, of x] by (metis dnode.select_convs(1,2) in_set_conv_decomp)

lemmas heap_ops = alloc_at_def store_if_def store_node_def node_at_def free_node_def

lemma cons_rep:
  assumes r: "dl_rep h l xs ds"
  shows "\<exists>l' h'. ccol_DListCons l d h = Inr (l', h') \<and> dl_rep h' l' (brk h # xs) (d # ds) \<and> keeps_others h xs h'"
proof -
  let ?x = "brk h" and ?l = "\<lparr>dl_head = brk h, dl_tail = (if dl_tail l = 0 then brk h else dl_tail l), dl_size = dl_size l + 1\<rparr>"
  note D = dl_repD [OF r]
  have l: "dl_tail l = last_or 0 xs" "dl_head l = hd_or 0 xs" "dl_size l = int (length ds)" "0 < ?x" using r by (auto simp: dl_rep_def)
  have hd_nd: "\<exists>nd. nodes h (hd xs) = Some nd \<and> hd xs \<noteq> ?x \<and> hd xs \<noteq> 0" if "xs \<noteq> []"
    using dl_rep_nodes [of h l "[]" "hd xs" "List.tl xs" ds] r that by fastforce
  obtain h' where run: "ccol_DListCons l d h = Inr (?l, h')" "brk h' = Suc ?x"
    and nx: "nodes h' ?x = Some \<lparr>dln_prev = last_or 0 [], dln_next = hd_or 0 xs, dln_data = d\<rparr>"
    and rl: "\<And>a. a \<noteq> ?x \<Longrightarrow> nodes h' a = relinked (nodes h) [] ?x ?x xs a"
    using hd_nd l by (cases "xs = []") (fastforce simp: ccol_DListCons_def heap_ops hd_last_or relinked_def)+
  have "dl_rep h' ?l ([] @ ?x # xs) ([] @ d # ds) \<and> keeps_others h ([] @ xs) h'"
    by (rule dl_rep_insert [OF _ _ refl run(2) nx rl]) (use r l D(5) in \<open>cases "xs = []"; simp add: hd_last_or\<close>)+
  with run(1) show ?thesis by auto
qed

lemma last_node:
  assumes "dl_rep h l (as @ bs) ds" and "as \<noteq> []"
  obtains nd where "nodes h (last as) = Some nd" "0 < last as" "last as < brk h" "last_or 0 as = last as"
proof -
  have "as = butlast as @ [last as]" using assms(2) by simp
  then have "dl_rep h l (butlast as @ last as # bs) ds" using assms(1) by (metis append.assoc append_Cons append_Nil)
  from dl_rep_nodes [OF this] show ?thesis using that assms(2) by (metis last_or_def)
qed

lemma first_node:
  assumes "dl_rep h l (as @ bs) ds" and "bs \<noteq> []"
  obtains nd where "nodes h (hd bs) = Some nd" "0 < hd bs" "hd bs < brk h" "hd_or 0 bs = hd bs"
proof -
  have "bs = hd bs # List.tl bs" using assms(2) by simp
  then have "dl_rep h l (as @ hd bs # List.tl bs) ds" using assms(1) by metis
  from dl_rep_nodes [OF this] show ?thesis using that assms(2) hd_last_or by metis
qed

lemma insert_prev_rep:
  assumes r: "dl_rep h l (as @ nxt # bs) (ds @ es)" and len: "length as = length ds"
  shows "\<exists>l' h'. ccol_DListInsertPrev l d nxt h = Inr (brk h, l', h') \<and> dl_rep h' l' (as @ brk h # nxt # bs) (ds @ d # es)
    \<and> keeps_others h (as @ nxt # bs) h'"
proof -
  let ?x = "brk h" and ?l = "l\<lparr>dl_head := (if dl_head l = nxt then brk h else dl_head l), dl_size := dl_size l + 1\<rparr>"
  have l: "dl_tail l = last_or 0 (as @ nxt # bs)" "dl_head l = hd_or nxt as" "0 < ?x" "nxt \<notin> set as"
    using r by (auto simp: dl_rep_def)
  obtain nn where nn: "nodes h nxt = Some nn" "dln_prev nn = last_or 0 as" "0 < nxt" "nxt < ?x" using dl_rep_nodes [OF r] by metis
  have pn: "\<exists>nd. nodes h (last as) = Some nd \<and> last as \<noteq> ?x \<and> last as \<noteq> nxt \<and> last as \<noteq> 0" if "as \<noteq> []"
    using last_node [OF r that] l(4) that by (metis last_in_set less_irrefl)
  have hd: "dl_head l = nxt \<longleftrightarrow> as = []" using l(2,4) hd_or_in [of nxt as] by auto
  obtain h' where run: "ccol_DListInsertPrev l d nxt h = Inr (?x, ?l, h')" "brk h' = Suc ?x"
    and nx: "nodes h' ?x = Some \<lparr>dln_prev = last_or 0 as, dln_next = hd_or 0 (nxt # bs), dln_data = d\<rparr>"
    and rl: "\<And>a. a \<noteq> ?x \<Longrightarrow> nodes h' a = relinked (nodes h) as ?x ?x (nxt # bs) a"
    using nn pn by (cases "as = []") (fastforce simp: ccol_DListInsertPrev_def heap_ops hd_last_or relinked_def)+
  have "dl_rep h' ?l (as @ ?x # nxt # bs) (ds @ d # es) \<and> keeps_others h (as @ nxt # bs) h'"
    by (rule dl_rep_insert [OF r len refl run(2) nx rl]) (use l hd in \<open>cases "as = []"; simp add: hd_last_or\<close>)+
  with run(1) show ?thesis by blast
qed

lemma insert_next_rep:
  assumes r: "dl_rep h l ((as @ [prv]) @ bs) (ds @ es)" and len: "length (as @ [prv]) = length ds"
  shows "\<exists>l' h'. ccol_DListInsertNext l d prv h = Inr (brk h, l', h') \<and> dl_rep h' l' ((as @ [prv]) @ brk h # bs) (ds @ d # es)
    \<and> keeps_others h ((as @ [prv]) @ bs) h'"
proof -
  let ?x = "brk h" and ?l = "l\<lparr>dl_tail := (if dl_tail l = prv then brk h else dl_tail l), dl_size := dl_size l + 1\<rparr>"
  have l: "dl_tail l = last_or prv bs" "dl_head l = hd_or 0 (as @ [prv] @ bs)" "0 < ?x" "prv \<notin> set bs"
    using r by (auto simp: dl_rep_def)
  obtain pn where pn: "nodes h prv = Some pn" "dln_next pn = hd_or 0 bs" "0 < prv" "prv < ?x"
    using dl_rep_nodes [of h l as prv bs] r by (metis append.assoc append_Cons append_Nil)
  have nn: "\<exists>nd. nodes h (hd bs) = Some nd \<and> hd bs \<noteq> ?x \<and> hd bs \<noteq> prv \<and> hd bs \<noteq> 0" if "bs \<noteq> []"
    using first_node [OF r that] l(4) that by (metis hd_in_set less_irrefl)
  have tl: "dl_tail l = prv \<longleftrightarrow> bs = []" using l(1,4) last_or_in [of prv bs] by auto
  obtain h' where run: "ccol_DListInsertNext l d prv h = Inr (?x, ?l, h')" "brk h' = Suc ?x"
    and nx: "nodes h' ?x = Some \<lparr>dln_prev = last_or 0 (as @ [prv]), dln_next = hd_or 0 bs, dln_data = d\<rparr>"
    and rl: "\<And>a. a \<noteq> ?x \<Longrightarrow> nodes h' a = relinked (nodes h) (as @ [prv]) ?x ?x bs a"
    using pn nn by (cases "bs = []") (fastforce simp: ccol_DListInsertNext_def heap_ops hd_last_or relinked_def)+
  have "dl_rep h' ?l ((as @ [prv]) @ ?x # bs) (ds @ d # es) \<and> keeps_others h ((as @ [prv]) @ bs) h'"
    by (rule dl_rep_insert [OF r len refl run(2) nx rl]) (use l tl in \<open>cases "bs = []"; cases "as = []"; simp add: hd_last_or\<close>)+
  with run(1) show ?thesis by blast
qed

text \<open>A node taken out: the common effect of the three removals.\<close>

lemma dl_rep_remove:
  assumes r: "dl_rep h l (as @ x # bs) (ds @ d # es)" and len: "length as = length ds"
    and h': "brk h' = brk h" "nodes h' x = None" "\<And>a. a \<noteq> x \<Longrightarrow> nodes h' a = relinked (nodes h) as (hd_or 0 bs) (last_or 0 as) bs a"
    and l': "dl_head l' = hd_or 0 (as @ bs)" "dl_tail l' = last_or 0 (as @ bs)" "dl_size l' = dl_size l - 1"
  shows "dl_rep h' l' (as @ bs) (ds @ es) \<and> keeps_others h (as @ x # bs) h'"
proof -
  have c: "chain (nodes h) 0 (as @ x # bs) 0 (ds @ d # es)" "distinct (as @ x # bs)" "dom (nodes h) \<subseteq> {0 <..< brk h}"
    "dl_size l = int (length (ds @ d # es))" "0 < brk h" using r by (auto simp: dl_rep_def)
  have "nodes h' a = relinked (nodes h) as (hd_or 0 bs) (last_or 0 as) bs a" if "a \<in> set as \<union> set bs" for a
    using h'(3) [of a] that c(2) by auto
  from dchain_unlink [OF c(1) len c(2) this] have ch: "chain (nodes h') 0 (as @ bs) 0 (ds @ es)" .
  have "nodes h' a = None" if "nodes h a = None" for a using h'(2,3) that by (cases "a = x") (auto simp: relinked_def)
  then have dm: "dom (nodes h') \<subseteq> {0 <..< brk h'}" using c(3) h'(1) by (force simp: dom_def)
  have "nodes h' a = nodes h a" if "a \<notin> set (as @ x # bs)" for a
  proof -
    have "\<not> (as \<noteq> [] \<and> a = last as)" "\<not> (bs \<noteq> [] \<and> a = hd bs)" using that last_in_set [of as] hd_in_set [of bs] by auto
    then show ?thesis using h'(3) [of a] that by (auto simp: relinked_def)
  qed
  then show ?thesis using ch dm c l' h'(1) by (auto simp: dl_rep_def keeps_others_def)
qed

lemma ends_in_parts:
  assumes "distinct (as @ x # bs)" "0 \<notin> set (as @ x # bs)"
  shows "hd_or x as = x \<longleftrightarrow> as = []" "last_or x bs = x \<longleftrightarrow> bs = []" "last_or 0 as \<noteq> x" "hd_or 0 bs \<noteq> x"
    "as \<noteq> [] \<Longrightarrow> bs \<noteq> [] \<Longrightarrow> last as \<noteq> hd bs"
proof -
  show "hd_or x as = x \<longleftrightarrow> as = []" "last_or x bs = x \<longleftrightarrow> bs = []" "last_or 0 as \<noteq> x" "hd_or 0 bs \<noteq> x"
    using assms hd_or_in [of x as] last_or_in [of x bs] last_or_in [of 0 as] hd_or_in [of 0 bs] by auto
  show "last as \<noteq> hd bs" if "as \<noteq> []" "bs \<noteq> []"
    using last_in_set [OF that(1)] hd_in_set [OF that(2)] assms(1) by (metis disjoint_iff distinct_append list.set_intros(2))
qed

lemma unlink_rep:
  assumes r: "dl_rep h l (as @ x # bs) (ds @ d # es)" and len: "length as = length ds"
  shows "\<exists>l' h'. unlink_dnode l x h = Inr (Some d, l', h') \<and> dl_rep h' l' (as @ bs) (ds @ es) \<and> keeps_others h (as @ x # bs) h'"
proof -
  let ?l = "\<lparr>dl_head = (if dl_head l = x then hd_or 0 bs else dl_head l), dl_tail = (if dl_tail l = x then last_or 0 as else dl_tail l), dl_size = dl_size l - 1\<rparr>"
  have l: "dl_tail l = last_or x bs" "dl_head l = hd_or x as" "distinct (as @ x # bs)" using r by (auto simp: dl_rep_def)
  note E = ends_in_parts [OF l(3) dl_repD(2) [OF r]]
  have x: "nodes h x = Some \<lparr>dln_prev = last_or 0 as, dln_next = hd_or 0 bs, dln_data = d\<rparr>"
    using dl_rep_split [OF r] len by (metis append_eq_append_conv list.inject)
  have "last_or 0 as = 0 \<or> nodes h (last_or 0 as) \<noteq> None" using last_node [OF r] by (metis last_or_def option.distinct(1))
  from store_if_nodes [OF this, where f = "\<lambda>pn. pn\<lparr>dln_next := hd_or 0 bs\<rparr>"] obtain h1 where
    h1: "store_if (last_or 0 as) (\<lambda>pn. pn\<lparr>dln_next := hd_or 0 bs\<rparr>) h = Inr h1" "brk h1 = brk h"
    "\<And>b. nodes h1 b = (if last_or 0 as \<noteq> 0 \<and> b = last_or 0 as then map_option (\<lambda>pn. pn\<lparr>dln_next := hd_or 0 bs\<rparr>) (nodes h (last_or 0 as)) else nodes h b)"
    by blast
  have r': "dl_rep h l ((as @ [x]) @ bs) (ds @ d # es)" using r by simp
  have "bs = [] \<or> nodes h (hd_or 0 bs) \<noteq> None" using first_node [OF r'] by (metis option.distinct(1))
  then have "hd_or 0 bs = 0 \<or> nodes h (hd_or 0 bs) \<noteq> None" by auto
  then have "hd_or 0 bs = 0 \<or> nodes h1 (hd_or 0 bs) \<noteq> None" using h1(3) by auto
  from store_if_nodes [OF this, where f = "\<lambda>nn. nn\<lparr>dln_prev := last_or 0 as\<rparr>"] obtain h2 where
    h2: "store_if (hd_or 0 bs) (\<lambda>nn. nn\<lparr>dln_prev := last_or 0 as\<rparr>) h1 = Inr h2" "brk h2 = brk h1"
    "\<And>b. nodes h2 b = (if hd_or 0 bs \<noteq> 0 \<and> b = hd_or 0 bs then map_option (\<lambda>nn. nn\<lparr>dln_prev := last_or 0 as\<rparr>) (nodes h1 (hd_or 0 bs)) else nodes h1 b)"
    by blast
  define h' where "h' = free_node x h2"
  have run: "unlink_dnode l x h = Inr (Some d, ?l, h')" "brk h' = brk h" "nodes h' x = None"
    by (simp_all add: unlink_dnode_def node_at_def x h1(1,2) h2(1,2) h'_def) (simp_all add: free_node_def h1(2) h2(2))
  have nz: "as \<noteq> [] \<Longrightarrow> last as \<noteq> 0" "bs \<noteq> [] \<Longrightarrow> hd bs \<noteq> 0"
    using dl_repD(2) [OF r] last_in_set [of as] hd_in_set [of bs] by (metis Un_iff set_append, metis Un_iff list.set_intros(2) set_append)
  have rl: "nodes h' a = relinked (nodes h) as (hd_or 0 bs) (last_or 0 as) bs a" if "a \<noteq> x" for a
    using that h1(3) h2(3) E(5) nz
    by (cases "as = []"; cases "bs = []") (auto simp: h'_def free_node_def relinked_def hd_last_or)
  have "dl_rep h' ?l (as @ bs) (ds @ es) \<and> keeps_others h (as @ x # bs) h'"
    by (rule dl_rep_remove [OF r len run(2,3) rl]) (use l E in \<open>cases "as = []"; cases "bs = []"; simp add: hd_last_or\<close>)+
  with run(1) show ?thesis by blast
qed

lemma remove_head_rep:
  assumes r: "dl_rep h l (x # bs) (d # es)"
  shows "\<exists>l' h'. ccol_DListRemoveHead l h = Inr (Some d, l', h') \<and> dl_rep h' l' bs es \<and> keeps_others h (x # bs) h'"
proof -
  have l: "dl_head l = x" "dl_tail l = last_or x bs" "x \<noteq> 0" "distinct (x # bs)" and c: "nodes h x = Some \<lparr>dln_prev = 0, dln_next = hd_or 0 bs, dln_data = d\<rparr>"
    using r by (auto simp: dl_rep_def)
  have t: "x = last_or x bs \<longleftrightarrow> bs = []" "last_or x bs = x \<longleftrightarrow> bs = []" using l last_or_in [of x bs] by auto
  have "node_at h x = Inr \<lparr>dln_prev = 0, dln_next = hd_or 0 bs, dln_data = d\<rparr>" using c by (simp add: node_at_def)
  then have "ccol_DListRemoveHead l h = unlink_dnode l x h"
    using l(3) by (simp add: ccol_DListRemoveHead_def unlink_dnode_def l(1,2) t store_if_def)
  with unlink_rep [of h l "[]" x bs "[]" d es] r show ?thesis by simp
qed

lemma remove_tail_rep:
  assumes r: "dl_rep h l (as @ [x]) (ds @ [d])"
  shows "\<exists>l' h'. ccol_DListRemoveTail l h = Inr (Some d, l', h') \<and> dl_rep h' l' as ds \<and> keeps_others h (as @ [x]) h'"
proof -
  have len: "length as = length ds" using dl_repD(1) [OF r] by simp
  have l: "dl_head l = hd_or x as" "dl_tail l = x" "distinct (as @ [x])" "0 \<notin> set (as @ [x])" using r dl_repD(2) [OF r] by (auto simp: dl_rep_def)
  have c: "nodes h x = Some \<lparr>dln_prev = last_or 0 as, dln_next = 0, dln_data = d\<rparr>" using r len by (auto simp: dl_rep_def chain_append)
  have t: "x = hd_or x as \<longleftrightarrow> as = []" "hd_or x as = x \<longleftrightarrow> as = []" using l hd_or_in [of x as] by auto
  have "node_at h x = Inr \<lparr>dln_prev = last_or 0 as, dln_next = 0, dln_data = d\<rparr>" using c by (simp add: node_at_def)
  then have "ccol_DListRemoveTail l h = unlink_dnode l x h"
    using l(4) by (simp add: ccol_DListRemoveTail_def unlink_dnode_def l(1,2) t store_if_def)
  with unlink_rep [of h l as x "[]" ds d "[]"] r len show ?thesis by simp
qed

lemma find_dnode_chain:
  assumes "chain (nodes h) p xs 0 ds" and "x \<noteq> 0"
  shows "find_dnode h (hd_or 0 xs) x = Some (Inr (if x \<in> set xs then x else 0))"
  using assms(1)
proof (induction xs arbitrary: p ds)
  case Nil
  show ?case by (subst find_dnode.simps) simp
next
  case (Cons y xs)
  then obtain d es where c: "y \<noteq> 0" "nodes h y = Some \<lparr>dln_prev = p, dln_next = hd_or 0 xs, dln_data = d\<rparr>" "chain (nodes h) y xs 0 es"
    by (cases ds) auto
  show ?case using Cons.IH [OF c(3)] c(1,2) by (subst find_dnode.simps) (simp add: node_at_def)
qed

lemma remove_rep:
  assumes r: "dl_rep h l (as @ x # bs) (ds @ d # es)" and len: "length as = length ds"
  shows "\<exists>l' h'. ccol_DListRemove l x h = Some (Inr (Some d, l', h')) \<and> dl_rep h' l' (as @ bs) (ds @ es) \<and> keeps_others h (as @ x # bs) h'"
proof -
  have x: "x \<noteq> 0" "dl_head l \<noteq> 0" "dl_head l = hd_or 0 (as @ x # bs)" "chain (nodes h) 0 (as @ x # bs) 0 (ds @ d # es)"
    using dl_repD(2,4) [OF r] r by (auto simp: dl_rep_def)
  have "find_dnode h (dl_head l) x = Some (Inr x)" using find_dnode_chain [OF x(4,1)] x(3) by simp
  with unlink_rep [OF r len] x(1,2) show ?thesis by (auto simp: ccol_DListRemove_def)
qed

lemma join_rep:
  assumes r: "dl_rep h l xs ds" and r': "dl_rep h m ys es" and disj: "set xs \<inter> set ys = {}"
  shows "\<exists>l' h'. ccol_DListJoin l m h = Inr (l', empty_dlist, h') \<and> dl_rep h' l' (xs @ ys) (ds @ es) \<and> keeps_others h (xs @ ys) h'
    \<or> ys = [] \<and> ccol_DListJoin l m h = Inr (l, m, h)"
proof (cases "ys = [] \<or> xs = []")
  case True
  then show ?thesis
    using r r' dl_repD(4) [OF r] dl_repD(4) [OF r'] by (auto simp: ccol_DListJoin_def dl_rep_def keeps_others_def)
next
  case False
  let ?l = "l\<lparr>dl_tail := dl_tail m, dl_size := dl_size l + dl_size m\<rparr>"
  have l: "dl_head l = hd xs" "dl_tail l = last xs" "dl_head m = hd ys" "dl_tail m = last ys" "dl_size l = int (length ds)" "dl_size m = int (length es)"
    using r r' False by (auto simp: dl_rep_def hd_last_or)
  have c: "chain (nodes h) 0 xs 0 ds" "chain (nodes h) 0 ys 0 es" "distinct (xs @ ys)" "dom (nodes h) \<subseteq> {0 <..< brk h}" "0 < brk h"
    using r r' disj by (auto simp: dl_rep_def)
  have "last xs \<in> set xs" "hd ys \<in> set ys" using False by simp_all
  then have ends: "last xs \<noteq> hd ys" "dl_head l \<noteq> 0" "dl_head m \<noteq> 0"
    using disj False dl_repD(4) [OF r] dl_repD(4) [OF r'] by (metis disjoint_iff, simp_all)
  have "nodes h (last xs) \<noteq> None" "nodes h (hd ys) \<noteq> None" using chain_dom [OF c(1)] chain_dom [OF c(2)] False by auto
  then obtain nx ny where n: "nodes h (last xs) = Some nx" "nodes h (hd ys) = Some ny" by blast
  define h' where "h' = h\<lparr>nodes := (nodes h)(last xs \<mapsto> nx\<lparr>dln_next := hd ys\<rparr>, hd ys \<mapsto> ny\<lparr>dln_prev := last xs\<rparr>)\<rparr>"
  have run: "ccol_DListJoin l m h = Inr (?l, empty_dlist, h')"
    using ends n l by (simp add: ccol_DListJoin_def store_node_some h'_def)
  have rl: "nodes h' a = relinked (nodes h) xs (hd ys) (last xs) ys a" for a
    using False ends(1) n by (auto simp: h'_def relinked_def)
  from relink [OF c(1-3) rl] have "chain (nodes h') 0 (xs @ ys) 0 (ds @ es)"
    using False chain_length [OF c(1)] by (simp add: chain_append hd_last_or)
  moreover have "dom (nodes h') \<subseteq> {0 <..< brk h'}" using c(4) n by (auto simp: h'_def)
  moreover have "keeps_others h (xs @ ys) h'" using False by (auto simp: keeps_others_def h'_def)
  ultimately have "dl_rep h' ?l (xs @ ys) (ds @ es) \<and> keeps_others h (xs @ ys) h'"
    using c(3,5) l False by (auto simp: dl_rep_def h'_def hd_last_or)
  with run show ?thesis by blast
qed

lemma next_n_chain:
  "chain (nodes h) p xs 0 ds \<Longrightarrow> n < length xs \<Longrightarrow> ccol_DListNextN h (hd xs) n = Inr (xs ! n)"
proof (induction xs arbitrary: p ds n)
  case (Cons y xs)
  obtain d es where c: "nodes h y = Some \<lparr>dln_prev = p, dln_next = hd_or 0 xs, dln_data = d\<rparr>" "chain (nodes h) y xs 0 es" and ds: "ds = d # es"
    using Cons.prems(1) by (cases ds) auto
  show ?case
  proof (cases n)
    case (Suc k)
    then have "xs \<noteq> []" "k < length xs" using Cons.prems(2) by auto
    moreover have "hd xs \<noteq> 0" using chain_nonzero [OF c(2)] \<open>xs \<noteq> []\<close> hd_in_set by metis
    ultimately show ?thesis using Cons.IH [OF c(2)] c(1) by (simp add: Suc node_at_def hd_last_or)
  qed simp
qed simp

lemma at_rep: "dl_rep h l xs ds \<Longrightarrow> n < length xs \<Longrightarrow> ccol_DListAt h l n = Inr (xs ! n)"
  using next_n_chain [of h 0 xs ds n] by (cases "xs = []") (auto simp: dl_rep_def ccol_DListAt_def hd_last_or)

lemma prev_n_chain:
  "chain (nodes h) 0 xs n' ds \<Longrightarrow> n < length xs \<Longrightarrow> ccol_DListPrevN h (last xs) n = Inr (List.rev xs ! n)"
proof (induction xs arbitrary: n' ds n rule: rev_induct)
  case (snoc y xs)
  obtain es d where ds: "ds = es @ [d]" "length xs = length es"
    using chain_length [OF snoc.prems(1)] by (metis length_append_singleton length_Suc_conv_rev add_right_cancel)
  then have c: "chain (nodes h) 0 xs y es" "nodes h y = Some \<lparr>dln_prev = last_or 0 xs, dln_next = n', dln_data = d\<rparr>"
    using snoc.prems(1) by (auto simp: chain_append)
  show ?case
  proof (cases n)
    case (Suc k)
    then have "xs \<noteq> []" "k < length xs" using snoc.prems(2) by auto
    moreover have "last xs \<noteq> 0" using chain_nonzero [OF c(1)] \<open>xs \<noteq> []\<close> last_in_set by metis
    ultimately show ?thesis using snoc.IH [OF c(1)] c(2) by (simp add: Suc node_at_def hd_last_or)
  qed simp
qed simp

lemma tail_at_rep: "dl_rep h l xs ds \<Longrightarrow> n < length xs \<Longrightarrow> ccol_DListTailAt h l n = Inr (List.rev xs ! n)"
  using prev_n_chain [of h xs 0 ds n] by (cases "xs = []") (auto simp: dl_rep_def ccol_DListTailAt_def hd_last_or)

lemma free_chain:
  "chain (nodes h) p xs 0 ds \<Longrightarrow> distinct xs \<Longrightarrow> free_dnodes (hd_or 0 xs) h = Some (Inr (h\<lparr>nodes := (nodes h) |` (- set xs)\<rparr>))"
proof (induction xs arbitrary: p ds h)
  case Nil
  have "nodes h |` UNIV = nodes h" by (simp add: restrict_map_def)
  then show ?case by (subst free_dnodes.simps) simp
next
  case (Cons y xs)
  obtain d es where c: "y \<noteq> 0" "nodes h y = Some \<lparr>dln_prev = p, dln_next = hd_or 0 xs, dln_data = d\<rparr>" "chain (nodes h) y xs 0 es"
    using Cons.prems(1) by (cases ds) auto
  let ?h = "free_node y h"
  have "chain (nodes ?h) y xs 0 es" by (rule dchain_cong [OF c(3)]) (use Cons.prems(2) in \<open>auto simp: free_node_def\<close>)
  moreover have "nodes ?h |` (- set xs) = nodes h |` (- set (y # xs))" by (auto simp: free_node_def restrict_map_def fun_eq_iff)
  ultimately show ?case using Cons.IH [of ?h y es] Cons.prems(2) c(1,2)
    by (subst free_dnodes.simps) (simp add: node_at_def, simp add: free_node_def)
qed

lemma clear_rep:
  assumes "dl_rep h l xs ds"
  shows "\<exists>h'. ccol_DListClear l h = Some (Inr (empty_dlist, h')) \<and> dl_rep h' empty_dlist [] [] \<and> keeps_others h xs h'"
proof -
  let ?h = "h\<lparr>nodes := (nodes h) |` (- set xs)\<rparr>"
  have r: "chain (nodes h) 0 xs 0 ds" "distinct xs" "dl_head l = hd_or 0 xs" "dom (nodes h) \<subseteq> {0 <..< brk h}" "0 < brk h"
    using assms by (auto simp: dl_rep_def)
  have "ccol_DListClear l h = Some (Inr (empty_dlist, ?h))" using free_chain [OF r(1,2)] r(3) by (simp add: ccol_DListClear_def)
  moreover have "dom (nodes ?h) \<subseteq> {0 <..< brk h}" using r(4) by auto
  then have "dl_rep ?h empty_dlist [] []" using r(5) by (simp add: dl_rep_def empty_dlist_def)
  moreover have "keeps_others h xs ?h" by (simp add: keeps_others_def)
  ultimately show ?thesis by blast
qed

subsection \<open>Sequences of operations\<close>

datatype 'd dl_op = Add 'd | Cons_op 'd | Insert_before nat 'd | Insert_after nat 'd | Remove_at nat | Remove_head | Remove_tail

text \<open>The operations on a list, with the data that is removed; positions outside of the list are refused by the caller.\<close>

fun list_op :: "'d dl_op \<Rightarrow> 'd list \<Rightarrow> 'd list \<times> 'd option" where
  "list_op (Add d) ds = (ds @ [d], None)"
| "list_op (Cons_op d) ds = (d # ds, None)"
| "list_op (Insert_before i d) ds = (if i < length ds then take i ds @ d # drop i ds else ds, None)"
| "list_op (Insert_after i d) ds = (if i < length ds then take (Suc i) ds @ d # drop (Suc i) ds else ds, None)"
| "list_op (Remove_at i) ds = (if i < length ds then (take i ds @ drop (Suc i) ds, Some (ds ! i)) else (ds, None))"
| "list_op Remove_head ds = (if ds = [] then (ds, None) else (List.tl ds, Some (hd ds)))"
| "list_op Remove_tail ds = (if ds = [] then (ds, None) else (butlast ds, Some (last ds)))"

type_synonym 'd dstate = "dlist \<times> 'd dnode nheap"

text \<open>The calls that perform an operation; a node is found by its position.\<close>

fun dl_exec :: "'d dl_op \<Rightarrow> 'd dstate \<Rightarrow> ('d dstate \<times> 'd option) res option" where
  "dl_exec (Add d) (l, h) = Some (bind_res (ccol_DListAdd l d h) (\<lambda>s. Inr (s, None)))"
| "dl_exec (Cons_op d) (l, h) = Some (bind_res (ccol_DListCons l d h) (\<lambda>s. Inr (s, None)))"
| "dl_exec (Insert_before i d) (l, h) =
     (if int i < dl_size l
      then Some (bind_res (ccol_DListAt h l i) (\<lambda>x. bind_res (ccol_DListInsertPrev l d x h) (\<lambda>(x, l, h). Inr ((l, h), None))))
      else Some (Inr ((l, h), None)))"
| "dl_exec (Insert_after i d) (l, h) =
     (if int i < dl_size l
      then Some (bind_res (ccol_DListAt h l i) (\<lambda>x. bind_res (ccol_DListInsertNext l d x h) (\<lambda>(x, l, h). Inr ((l, h), None))))
      else Some (Inr ((l, h), None)))"
| "dl_exec (Remove_at i) (l, h) =
     (if int i < dl_size l
      then bind_ro (Some (ccol_DListAt h l i)) (\<lambda>x. bind_ro (ccol_DListRemove l x h) (\<lambda>(d, l, h). Some (Inr ((l, h), d))))
      else Some (Inr ((l, h), None)))"
| "dl_exec Remove_head (l, h) = Some (bind_res (ccol_DListRemoveHead l h) (\<lambda>(d, l, h). Inr ((l, h), d)))"
| "dl_exec Remove_tail (l, h) = Some (bind_res (ccol_DListRemoveTail l h) (\<lambda>(d, l, h). Inr ((l, h), d)))"

lemma split_rep:
  assumes "dl_rep h l xs ds" and "i < length ds"
  shows "dl_rep h l (take i xs @ xs ! i # drop (Suc i) xs) (take i ds @ ds ! i # drop (Suc i) ds)" "length (take i xs) = length (take i ds)"
proof -
  have l: "length xs = length ds" using dl_repD(1) [OF assms(1)] by simp
  show "dl_rep h l (take i xs @ xs ! i # drop (Suc i) xs) (take i ds @ ds ! i # drop (Suc i) ds)"
    using assms l by (simp flip: id_take_nth_drop)
  show "length (take i xs) = length (take i ds)" using l by simp
qed

text \<open>After an operation on the list with nodes \<open>xs\<close>: its state, and that it uses no node of another list.\<close>

definition op_done :: "'d dnode nheap \<Rightarrow> nat list \<Rightarrow> 'd dstate \<Rightarrow> nat list \<Rightarrow> 'd list \<Rightarrow> bool" where
  "op_done h xs s xs' ds' \<longleftrightarrow> dl_rep (snd s) (fst s) xs' ds' \<and> keeps_others h xs (snd s) \<and> set xs' \<subseteq> insert (brk h) (set xs)"

lemma op_doneI: "dl_rep h' l' xs' ds' \<and> keeps_others h xs h' \<Longrightarrow> set xs' \<subseteq> insert (brk h) (set xs) \<Longrightarrow> op_done h xs (l', h') xs' ds'"
  by (simp add: op_done_def)

lemma op_done_same: "dl_rep h l xs ds \<Longrightarrow> op_done h xs (l, h) xs ds"
  by (auto simp: op_done_def keeps_others_def)

lemma set_parts: "i < length xs \<Longrightarrow> set (take i xs) \<union> {xs ! i} \<union> set (drop (Suc i) xs) = set xs"
  using id_take_nth_drop [of i xs] by (metis Un_assoc insert_is_Un list.simps(15) set_append)

text \<open>A list and its nodes around a position.\<close>

lemma rep_at:
  assumes "dl_rep h l xs ds"
  shows "length xs = length ds" "dl_size l = int (length ds)" "i < length ds \<Longrightarrow> ccol_DListAt h l i = Inr (xs ! i)"
    "i < length ds \<Longrightarrow> take i xs @ xs ! i # drop (Suc i) xs = xs"
proof -
  show len: "length xs = length ds" using dl_repD(1) [OF assms] by simp
  show "dl_size l = int (length ds)" using assms by (auto simp: dl_rep_def)
  show "i < length ds \<Longrightarrow> ccol_DListAt h l i = Inr (xs ! i)" using at_rep [OF assms] len by simp
  show "i < length ds \<Longrightarrow> take i xs @ xs ! i # drop (Suc i) xs = xs" using len by (simp flip: id_take_nth_drop)
qed

lemma exec_insert_before:
  assumes r: "dl_rep h l xs ds"
  shows "\<exists>s' xs'. dl_exec (Insert_before i d) (l, h) = Some (Inr (s', snd (list_op (Insert_before i d) ds))) \<and> op_done h xs s' xs' (fst (list_op (Insert_before i d) ds))"
proof (cases "i < length ds")
  case True
  obtain l' h' where a: "ccol_DListInsertPrev l d (xs ! i) h = Inr (brk h, l', h')"
    "dl_rep h' l' (take i xs @ brk h # xs ! i # drop (Suc i) xs) (take i ds @ d # ds ! i # drop (Suc i) ds) \<and> keeps_others h xs h'"
    using insert_prev_rep [OF split_rep [OF r True], of d] rep_at(4) [OF r True] by auto
  have b: "set (take i xs @ brk h # xs ! i # drop (Suc i) xs) \<subseteq> insert (brk h) (set xs)" using set_parts [of i xs] True rep_at(1) [OF r] by auto
  from op_doneI [OF a(2) b] a(1) True show ?thesis by (auto simp: rep_at(2,3) [OF r] Cons_nth_drop_Suc)
qed (use r in \<open>auto simp: rep_at(2) [OF r] intro: op_done_same\<close>)

lemma exec_insert_after:
  assumes r: "dl_rep h l xs ds"
  shows "\<exists>s' xs'. dl_exec (Insert_after i d) (l, h) = Some (Inr (s', snd (list_op (Insert_after i d) ds))) \<and> op_done h xs s' xs' (fst (list_op (Insert_after i d) ds))"
proof (cases "i < length ds")
  case True
  note len = rep_at(1) [OF r]
  have tk: "take i xs @ [xs ! i] = take (Suc i) xs" "take i ds @ [ds ! i] = take (Suc i) ds" using True len by (simp_all add: take_Suc_conv_app_nth)
  have "dl_rep h l ((take i xs @ [xs ! i]) @ drop (Suc i) xs) ((take i ds @ [ds ! i]) @ drop (Suc i) ds)" using split_rep(1) [OF r True] by simp
  then obtain l' h' where a: "ccol_DListInsertNext l d (xs ! i) h = Inr (brk h, l', h')"
    "dl_rep h' l' (take (Suc i) xs @ brk h # drop (Suc i) xs) (take (Suc i) ds @ d # drop (Suc i) ds) \<and> keeps_others h xs h'"
    using insert_next_rep [of h l "take i xs" "xs ! i" "drop (Suc i) xs" "take i ds @ [ds ! i]" "drop (Suc i) ds" d] True len by (auto simp: tk)
  have b: "set (take (Suc i) xs @ brk h # drop (Suc i) xs) \<subseteq> insert (brk h) (set xs)" using set_parts [of i xs] True len by (auto simp flip: tk)
  from op_doneI [OF a(2) b] a(1) True show ?thesis by (auto simp: rep_at(2,3) [OF r])
qed (use r in \<open>auto simp: rep_at(2) [OF r] intro: op_done_same\<close>)

lemma exec_remove_at:
  assumes r: "dl_rep h l xs ds"
  shows "\<exists>s' xs'. dl_exec (Remove_at i) (l, h) = Some (Inr (s', snd (list_op (Remove_at i) ds))) \<and> op_done h xs s' xs' (fst (list_op (Remove_at i) ds))"
proof (cases "i < length ds")
  case True
  obtain l' h' where a: "ccol_DListRemove l (xs ! i) h = Some (Inr (Some (ds ! i), l', h'))"
    "dl_rep h' l' (take i xs @ drop (Suc i) xs) (take i ds @ drop (Suc i) ds) \<and> keeps_others h xs h'"
    using remove_rep [OF split_rep [OF r True]] rep_at(4) [OF r True] by auto
  have b: "set (take i xs @ drop (Suc i) xs) \<subseteq> insert (brk h) (set xs)" using set_parts [of i xs] True rep_at(1) [OF r] by auto
  from op_doneI [OF a(2) b] a(1) True show ?thesis by (auto simp: rep_at(2,3) [OF r])
qed (use r in \<open>auto simp: rep_at(2) [OF r] intro: op_done_same\<close>)

lemma exec_remove_head:
  assumes r: "dl_rep h l xs ds"
  shows "\<exists>s' xs'. dl_exec Remove_head (l, h) = Some (Inr (s', snd (list_op Remove_head ds))) \<and> op_done h xs s' xs' (fst (list_op Remove_head ds))"
proof (cases xs)
  case Nil
  with r rep_at(1) [OF r] show ?thesis using dl_repD(4) [OF r] by (auto simp: ccol_DListRemoveHead_def intro: op_done_same)
next
  case (Cons x bs)
  with rep_at(1) [OF r] obtain d es where "ds = d # es" by (cases ds) auto
  with remove_head_rep [of h l x bs d es] r Cons show ?thesis by (auto intro!: op_doneI exI [of _ bs])
qed

lemma exec_remove_tail:
  assumes r: "dl_rep h l xs ds"
  shows "\<exists>s' xs'. dl_exec Remove_tail (l, h) = Some (Inr (s', snd (list_op Remove_tail ds))) \<and> op_done h xs s' xs' (fst (list_op Remove_tail ds))"
proof (cases xs rule: rev_cases)
  case Nil
  with r rep_at(1) [OF r] show ?thesis using dl_repD(5) [OF r] by (auto simp: ccol_DListRemoveTail_def intro: op_done_same)
next
  case (snoc as x)
  with rep_at(1) [OF r] obtain es d where "ds = es @ [d]" by (cases ds rule: rev_cases) auto
  with remove_tail_rep [of h l as x es d] r snoc show ?thesis by (auto intro!: op_doneI exI [of _ as])
qed

lemma exec_step:
  assumes r: "dl_rep h l xs ds"
  shows "\<exists>s' xs'. dl_exec c (l, h) = Some (Inr (s', snd (list_op c ds))) \<and> op_done h xs s' xs' (fst (list_op c ds))"
proof (cases c)
  case (Add d)
  from add_rep [OF r, of d] show ?thesis by (auto simp: Add intro!: op_doneI exI [of _ "xs @ [brk h]"])
next
  case (Cons_op d)
  from cons_rep [OF r, of d] show ?thesis by (auto simp: Cons_op intro!: op_doneI exI [of _ "brk h # xs"])
qed (use exec_insert_before [OF r] exec_insert_after [OF r] exec_remove_at [OF r] exec_remove_head [OF r] exec_remove_tail [OF r] in blast)+

lemma op_done_frame:
  assumes "op_done h xs s xs' ds'" and r: "dl_rep h m ys es" and disj: "set xs \<inter> set ys = {}"
  shows "dl_rep (snd s) m ys es" and "set xs' \<inter> set ys = {}"
proof -
  have d: "dl_rep (snd s) (fst s) xs' ds'" "keeps_others h xs (snd s)" "set xs' \<subseteq> insert (brk h) (set xs)"
    using assms(1) by (auto simp: op_done_def)
  have y: "a \<notin> set xs" "a < brk h" if "a \<in> set ys" for a using that disj dl_repD(3) [OF r] by auto
  have "chain (nodes h) 0 ys 0 es" using r by (simp add: dl_rep_def)
  then have "chain (nodes (snd s)) 0 ys 0 es" by (rule dchain_cong) (use y d(2) in \<open>auto simp: keeps_others_def\<close>)
  with r d(1) show "dl_rep (snd s) m ys es" by (auto simp: dl_rep_def)
  show "set xs' \<inter> set ys = {}" using d(3) y by fastforce
qed

fun list_run :: "'d dl_op list \<Rightarrow> 'd list \<Rightarrow> 'd list \<times> 'd option list" where
  "list_run [] ds = (ds, [])"
| "list_run (c # cs) ds = (case list_op c ds of (ds, r) \<Rightarrow> case list_run cs ds of (ds, rs) \<Rightarrow> (ds, r # rs))"

fun dl_run :: "'d dl_op list \<Rightarrow> 'd dstate \<Rightarrow> ('d dstate \<times> 'd option list) res option" where
  "dl_run [] s = Some (Inr (s, []))"
| "dl_run (c # cs) s = bind_ro (dl_exec c s) (\<lambda>(s, r). bind_ro (dl_run cs s) (\<lambda>(s, rs). Some (Inr (s, r # rs))))"

text \<open>
  C8. Doubly linked lists refine lists: every sequence of insertions at the ends and at positions and of removals from
  them returns, uses no freed or NULL node, yields the data that the operations on the list of data yield and leaves
  nodes that represent the resulting list, while another list in the same heap stays as it is.
\<close>

theorem dlist_refines_list:
  assumes "dl_rep h l xs ds" and "dl_rep h m ys es" and "set xs \<inter> set ys = {}"
  shows "\<exists>l' h' xs'. dl_run cs (l, h) = Some (Inr ((l', h'), snd (list_run cs ds))) \<and> dl_rep h' l' xs' (fst (list_run cs ds)) \<and> dl_rep h' m ys es"
  using assms
proof (induction cs arbitrary: h l xs ds)
  case (Cons c cs)
  obtain l1 h1 xs1 where s: "dl_exec c (l, h) = Some (Inr ((l1, h1), snd (list_op c ds)))" "op_done h xs (l1, h1) xs1 (fst (list_op c ds))"
    using exec_step [OF Cons.prems(1), of c] by auto
  have r1: "dl_rep h1 l1 xs1 (fst (list_op c ds))" using s(2) by (simp add: op_done_def)
  from Cons.IH [OF r1] op_done_frame [OF s(2) Cons.prems(2,3)] s(1) show ?case
    by (auto simp: split_def)
qed auto

text \<open>Two empty lists in an empty heap: 1 and 2 are added to one of them, 3 goes before the 2, and the head is removed.\<close>

lemma empty_rep: "dl_rep \<lparr>nodes = Map.empty, brk = 1\<rparr> empty_dlist [] []"
  by (simp add: dl_rep_def empty_dlist_def)

theorem dlist_refines_list_witness:
  "\<exists>l' h' xs'. dl_run [Add (1 :: nat), Add 2, Insert_before 1 3, Remove_head] (empty_dlist, \<lparr>nodes = Map.empty, brk = 1\<rparr>)
       = Some (Inr ((l', h'), [None, None, None, Some 1])) \<and> dl_rep h' l' xs' [3, 2] \<and> dl_rep h' empty_dlist [] []"
proof -
  have "list_run [Add (1 :: nat), Add 2, Insert_before 1 3, Remove_head] [] = ([3, 2], [None, None, None, Some 1])" by simp
  with dlist_refines_list [OF empty_rep empty_rep, of "[Add (1 :: nat), Add 2, Insert_before 1 3, Remove_head]"] show ?thesis
    by (simp only: fst_conv snd_conv) simp
qed

subsection \<open>Singly linked lists\<close>

fun schain :: "(nat \<rightharpoonup> 'd snode) \<Rightarrow> nat list \<Rightarrow> nat \<Rightarrow> 'd list \<Rightarrow> bool" where
  "schain m [] n ds \<longleftrightarrow> ds = []"
| "schain m (x # xs) n [] \<longleftrightarrow> False"
| "schain m (x # xs) n (d # ds) \<longleftrightarrow> x \<noteq> 0 \<and> m x = Some \<lparr>sln_next = hd_or n xs, sln_data = d\<rparr> \<and> schain m xs n ds"

definition sl_rep :: "'d snode nheap \<Rightarrow> slist \<Rightarrow> nat list \<Rightarrow> 'd list \<Rightarrow> bool" where
  "sl_rep h l xs ds \<longleftrightarrow> schain (nodes h) xs 0 ds \<and> distinct xs \<and> sl_head l = hd_or 0 xs \<and> sl_size l = length ds
     \<and> 0 < brk h \<and> dom (nodes h) \<subseteq> {0 <..< brk h}"

lemma schain_length: "schain m xs n ds \<Longrightarrow> length ds = length xs"
  by (induction m xs n ds rule: schain.induct) auto

lemma schain_dom: "schain m xs n ds \<Longrightarrow> x \<in> set xs \<Longrightarrow> x \<noteq> 0 \<and> m x \<noteq> None"
  by (induction m xs n ds rule: schain.induct) auto

lemma schain_cong: "schain m xs n ds \<Longrightarrow> \<forall>x \<in> set xs. m' x = m x \<Longrightarrow> schain m' xs n ds"
  by (induction m xs n ds rule: schain.induct) auto

lemma schain_append: "length xs = length ds \<Longrightarrow> schain m (xs @ ys) n (ds @ es) \<longleftrightarrow> schain m xs (hd_or n ys) ds \<and> schain m ys n es"
  by (induction xs ds rule: list_induct2) auto

lemma scons_rep:
  assumes "sl_rep h l xs ds"
  shows "\<exists>l' h'. ccol_SListCons l d h = (l', h') \<and> sl_rep h' l' (brk h # xs) (d # ds)"
proof -
  have r: "schain (nodes h) xs 0 ds" "dom (nodes h) \<subseteq> {0 <..< brk h}" "0 < brk h" "distinct xs" "sl_head l = hd_or 0 xs" "sl_size l = length ds"
    using assms by (auto simp: sl_rep_def)
  have new: "brk h \<notin> set xs" using schain_dom [OF r(1)] r(2) by (auto simp: dom_def subset_iff)
  have "schain ((nodes h)(brk h \<mapsto> v)) xs 0 ds" for v by (rule schain_cong [OF r(1)]) (use new in auto)
  with r new show ?thesis by (auto simp: ccol_SListCons_def alloc_at_def sl_rep_def)
qed

lemma sremove_head_rep:
  assumes "sl_rep h l (x # xs) (d # ds)"
  shows "\<exists>l' h'. ccol_SListRemoveHead l h = Inr (Some d, l', h') \<and> sl_rep h' l' xs ds"
proof -
  have r: "schain (nodes h) xs 0 ds" "nodes h x = Some \<lparr>sln_next = hd_or 0 xs, sln_data = d\<rparr>" "x \<noteq> 0" "x \<notin> set xs" "distinct xs" "sl_head l = x"
    "sl_size l = Suc (length ds)" "dom (nodes h) \<subseteq> {0 <..< brk h}" "0 < brk h"
    using assms by (auto simp: sl_rep_def)
  have "schain ((nodes h)(x := None)) xs 0 ds" by (rule schain_cong [OF r(1)]) (use r(4) in auto)
  with r show ?thesis by (auto simp: ccol_SListRemoveHead_def node_at_def free_node_def sl_rep_def)
qed

text \<open>Reversal: the nodes of \<open>xs\<close> are still to be turned, those of \<open>ys\<close> have been.\<close>

lemma reverse_chain:
  assumes "schain (nodes h) xs 0 ds" "schain (nodes h) ys 0 es" "distinct (xs @ ys)"
  shows "\<exists>h'. reverse_snodes (hd_or 0 xs) (hd_or 0 (List.tl xs)) (hd_or 0 ys) h = Some (Inr (hd_or 0 (List.rev xs @ ys), h'))
    \<and> schain (nodes h') (List.rev xs @ ys) 0 (List.rev ds @ es) \<and> brk h' = brk h \<and> dom (nodes h') = dom (nodes h)"
  using assms
proof (induction xs arbitrary: ys es ds h)
  case Nil
  then show ?case by (subst reverse_snodes.simps) simp
next
  case (Cons x xs)
  obtain d ds' where ds: "ds = d # ds'" using Cons.prems(1) by (cases ds) auto
  have x: "x \<noteq> 0" "nodes h x = Some \<lparr>sln_next = hd_or 0 xs, sln_data = d\<rparr>" "schain (nodes h) xs 0 ds'" "x \<notin> set xs" "x \<notin> set ys"
    using Cons.prems by (auto simp: ds)
  define h1 where "h1 = h\<lparr>nodes := (nodes h)(x \<mapsto> \<lparr>sln_next = hd_or 0 ys, sln_data = d\<rparr>)\<rparr>"
  have st: "store_node x (\<lambda>nd. nd\<lparr>sln_next := hd_or 0 ys\<rparr>) h = Inr h1" using x(2) by (simp add: store_node_some h1_def)
  have h1: "brk h1 = brk h" "dom (nodes h1) = dom (nodes h)" using x(2) by (auto simp: h1_def)
  have c: "schain (nodes h1) xs 0 ds'" "schain (nodes h1) (x # ys) 0 (d # es)"
    using schain_cong [OF x(3), of "nodes h1"] schain_cong [OF Cons.prems(2), of "nodes h1"] x by (auto simp: h1_def)
  have nxt: "(if hd_or 0 xs = 0 then Inr 0 else bind_res (node_at h1 (hd_or 0 xs)) (\<lambda>nd. Inr (sln_next nd))) = Inr (hd_or 0 (List.tl xs))"
    using c(1) x(4) by (cases xs; cases ds') (auto simp: node_at_def)
  have "distinct (xs @ x # ys)" using Cons.prems(3) by auto
  from Cons.IH [OF c this] obtain h' where ih: "reverse_snodes (hd_or 0 xs) (hd_or 0 (List.tl xs)) (hd_or 0 (x # ys)) h1 = Some (Inr (hd_or 0 (List.rev xs @ x # ys), h'))"
    "schain (nodes h') (List.rev xs @ x # ys) 0 (List.rev ds' @ d # es)" "brk h' = brk h" "dom (nodes h') = dom (nodes h)"
    unfolding h1 by blast
  have step: "reverse_snodes x (hd_or 0 xs) (hd_or 0 ys) h = reverse_snodes (hd_or 0 xs) (hd_or 0 (List.tl xs)) x h1"
    by (subst reverse_snodes.simps) (simp add: x(1) st nxt split del: if_split)
  show ?case using step ih by (simp add: ds)
qed

text \<open>
  Reversing a singly linked list, as is done with the list of error messages, returns and leaves the same nodes
  linked in reverse order.
\<close>

theorem slist_reverse:
  assumes "sl_rep h l xs ds"
  shows "\<exists>l' h'. ccol_SListReverse l h = Some (Inr (l', h')) \<and> sl_rep h' l' (List.rev xs) (List.rev ds)"
proof (cases "sl_size l \<le> 1")
  case True
  then have "length ds \<le> 1" using assms by (simp add: sl_rep_def)
  moreover have "length xs = length ds" using assms schain_length by (fastforce simp: sl_rep_def)
  ultimately have "List.rev xs = xs" "List.rev ds = ds" by (cases xs; cases "List.tl xs"; cases ds; cases "List.tl ds"; auto)+
  with True assms show ?thesis by (simp add: ccol_SListReverse_def)
next
  case False
  have r: "schain (nodes h) xs 0 ds" "distinct (xs @ [])" "sl_head l = hd_or 0 xs" "sl_size l = length ds" using assms by (auto simp: sl_rep_def)
  obtain x ys d es where xs: "xs = x # ys" "ds = d # es" using False r(4) schain_length [OF r(1)] by (cases xs; cases ds) auto
  have nd: "node_at h (sl_head l) = Inr \<lparr>sln_next = hd_or 0 (List.tl xs), sln_data = d\<rparr>" using r(1,3) by (simp add: xs node_at_def)
  obtain h' where "reverse_snodes (hd_or 0 xs) (hd_or 0 (List.tl xs)) (hd_or 0 []) h = Some (Inr (hd_or 0 (List.rev xs @ []), h'))"
    "schain (nodes h') (List.rev xs @ []) 0 (List.rev ds @ [])" "brk h' = brk h" "dom (nodes h') = dom (nodes h)"
    using reverse_chain [OF r(1) _ r(2), of "[]"] by auto
  with nd False assms show ?thesis by (auto simp: ccol_SListReverse_def sl_rep_def)
qed

theorem slist_reverse_witness:
  "\<exists>l' h'. ccol_SListReverse (fst (ccol_SListCons \<lparr>sl_head = 0, sl_size = 0\<rparr> True \<lparr>nodes = Map.empty, brk = 1\<rparr>))
       (snd (ccol_SListCons \<lparr>sl_head = 0, sl_size = 0\<rparr> True \<lparr>nodes = Map.empty, brk = 1\<rparr>)) = Some (Inr (l', h')) \<and> sl_rep h' l' [1] [True]"
proof -
  have "sl_rep \<lparr>nodes = Map.empty, brk = 1\<rparr> \<lparr>sl_head = 0, sl_size = 0\<rparr> [] []" by (simp add: sl_rep_def)
  from scons_rep [OF this, of True] slist_reverse [of _ _ "[1]" "[True]"] show ?thesis by fastforce
qed

text \<open>
  Removing the first node by \<open>ccol_SListRemove\<close> fails: the search for the node before it starts at the node itself and
  runs over the end of the list.
\<close>

lemma before_first:
  assumes "schain (nodes h) xs 0 ds" and "nodes h 0 = None" and "x \<noteq> 0" and "x \<notin> set (List.tl xs)"
  shows "before_snode h (hd_or 0 xs) x = Some (Inl NullDeref)"
  using assms(1,4)
proof (induction xs arbitrary: ds)
  case Nil
  show ?case using assms(2) by (subst before_snode.simps) (simp add: node_at_def)
next
  case (Cons y ys)
  then obtain d es where "nodes h y = Some \<lparr>sln_next = hd_or 0 ys, sln_data = d\<rparr>" "schain (nodes h) ys 0 es" by (cases ds) auto
  moreover have "hd_or 0 ys \<noteq> x" "x \<notin> set (List.tl ys)" using Cons.prems(2) assms(3) by (cases ys; auto)+
  ultimately show ?case using Cons.IH by (subst before_snode.simps) (simp add: node_at_def)
qed

lemma remove_first_fails:
  assumes "sl_rep h l (x # xs) ds"
  shows "ccol_SListRemove l x h = Some (Inl NullDeref)"
proof -
  have "schain (nodes h) (x # xs) 0 ds" "x \<notin> set (List.tl (x # xs))" "nodes h 0 = None" "sl_head l = x" "x \<noteq> 0"
    using assms schain_dom [of "nodes h" "x # xs" 0 ds x] by (auto simp: sl_rep_def dom_def subset_iff)
  with before_first [of h "x # xs" ds x] show ?thesis by (simp add: ccol_SListRemove_def)
qed

subsection \<open>Stacks\<close>

text \<open>Both kinds of lists are used as stacks: the interface, and that elements come back in reverse order.\<close>

locale list_stack =
  fixes rep :: "'s \<Rightarrow> 'd list \<Rightarrow> bool" and push :: "'d \<Rightarrow> 's \<Rightarrow> 's res" and pop :: "'s \<Rightarrow> ('d option \<times> 's) res"
  assumes push_rep: "rep s ds \<Longrightarrow> \<exists>s'. push d s = Inr s' \<and> rep s' (d # ds)"
    and pop_rep: "rep s (d # ds) \<Longrightarrow> \<exists>s'. pop s = Inr (Some d, s') \<and> rep s' ds"
    and pop_empty: "rep s [] \<Longrightarrow> pop s = Inr (None, s)"
begin

fun push_all :: "'d list \<Rightarrow> 's \<Rightarrow> 's res" where
  "push_all [] s = Inr s"
| "push_all (d # ds) s = bind_res (push d s) (push_all ds)"

fun pop_n :: "nat \<Rightarrow> 's \<Rightarrow> ('d option list \<times> 's) res" where
  "pop_n 0 s = Inr ([], s)"
| "pop_n (Suc n) s = bind_res (pop s) (\<lambda>(d, s). bind_res (pop_n n s) (\<lambda>(ds, s). Inr (d # ds, s)))"

lemma push_all_rep: "rep s es \<Longrightarrow> \<exists>s'. push_all ds s = Inr s' \<and> rep s' (List.rev ds @ es)"
proof (induction ds arbitrary: s es)
  case (Cons d ds)
  obtain s1 where "push d s = Inr s1" "rep s1 (d # es)" using push_rep [OF Cons.prems] by blast
  with Cons.IH [of s1 "d # es"] show ?case by auto
qed simp

lemma pop_n_rep: "rep s (ds @ es) \<Longrightarrow> \<exists>s'. pop_n (length ds) s = Inr (map Some ds, s') \<and> rep s' es"
proof (induction ds arbitrary: s)
  case (Cons d ds)
  obtain s1 where "pop s = Inr (Some d, s1)" "rep s1 (ds @ es)" using pop_rep [of s d "ds @ es"] Cons.prems by auto
  with Cons.IH [of s1] show ?case by auto
qed simp

lemma lifo: "rep s es \<Longrightarrow> \<exists>s1 s2. push_all ds s = Inr s1 \<and> pop_n (length ds) s1 = Inr (map Some (List.rev ds), s2) \<and> rep s2 es"
  using push_all_rep [of s es ds] pop_n_rep [of _ "List.rev ds" es] by fastforce

end

definition dl_push :: "'d \<Rightarrow> 'd dstate \<Rightarrow> 'd dstate res" where
  "dl_push d s = ccol_DListCons (fst s) d (snd s)"

definition dl_pop :: "'d dstate \<Rightarrow> ('d option \<times> 'd dstate) res" where
  "dl_pop s = ccol_DListRemoveHead (fst s) (snd s)"

definition sl_push :: "'d \<Rightarrow> slist \<times> 'd snode nheap \<Rightarrow> (slist \<times> 'd snode nheap) res" where
  "sl_push d s = Inr (ccol_SListCons (fst s) d (snd s))"

definition sl_pop :: "slist \<times> 'd snode nheap \<Rightarrow> ('d option \<times> slist \<times> 'd snode nheap) res" where
  "sl_pop s = ccol_SListRemoveHead (fst s) (snd s)"

interpretation dl_stack: list_stack "\<lambda>s ds. \<exists>xs. dl_rep (snd s) (fst s) xs ds" dl_push dl_pop
proof
  fix s :: "'a dstate" and ds d
  show "\<exists>xs. dl_rep (snd s) (fst s) xs ds \<Longrightarrow> \<exists>s'. dl_push d s = Inr s' \<and> (\<exists>xs. dl_rep (snd s') (fst s') xs (d # ds))"
    unfolding dl_push_def using cons_rep by fastforce
  show "\<exists>s'. dl_pop s = Inr (Some d, s') \<and> (\<exists>xs. dl_rep (snd s') (fst s') xs ds)" if "\<exists>xs. dl_rep (snd s) (fst s) xs (d # ds)"
  proof -
    from that obtain xs where r: "dl_rep (snd s) (fst s) xs (d # ds)" by blast
    then obtain x bs where "xs = x # bs" using dl_repD(1) [OF r] by (cases xs) auto
    with remove_head_rep r show ?thesis unfolding dl_pop_def by fastforce
  qed
  show "\<exists>xs. dl_rep (snd s) (fst s) xs [] \<Longrightarrow> dl_pop s = Inr (None, s)"
    using dl_repD(1,4) by (fastforce simp: dl_pop_def ccol_DListRemoveHead_def)
qed

interpretation sl_stack: list_stack "\<lambda>s ds. \<exists>xs. sl_rep (snd s) (fst s) xs ds" sl_push sl_pop
proof
  fix s :: "slist \<times> 'a snode nheap" and ds d
  show "\<exists>xs. sl_rep (snd s) (fst s) xs ds \<Longrightarrow> \<exists>s'. sl_push d s = Inr s' \<and> (\<exists>xs. sl_rep (snd s') (fst s') xs (d # ds))"
    unfolding sl_push_def using scons_rep by fastforce
  show "\<exists>s'. sl_pop s = Inr (Some d, s') \<and> (\<exists>xs. sl_rep (snd s') (fst s') xs ds)" if "\<exists>xs. sl_rep (snd s) (fst s) xs (d # ds)"
  proof -
    from that obtain xs where r: "sl_rep (snd s) (fst s) xs (d # ds)" by blast
    then obtain x bs where "xs = x # bs" by (cases xs) (auto simp: sl_rep_def)
    with sremove_head_rep r show ?thesis unfolding sl_pop_def by fastforce
  qed
  show "\<exists>xs. sl_rep (snd s) (fst s) xs [] \<Longrightarrow> sl_pop s = Inr (None, s)"
    using schain_length by (fastforce simp: sl_pop_def ccol_SListRemoveHead_def sl_rep_def)
qed

end
