(* ===== verification/Spec2Isabelle.thy ===== *)
theory Spec2Isabelle
  imports Xmp_Section Xmp_Align_Laws Xmp_Async_Laws Ompc_Dynamic_Laws Ompc_Lock Ompc_Runtime_Laws Ompc_Team_Laws
    Xmp_Post_Laws Xmp_Pack_Laws Cfe_Enum_Laws Cfe_Literal_Laws Ccol_List_Laws
begin

text \<open>
  Verification of the runtime libraries of the Omni compiler and of parts of its C front end.

  \<^bold>\<open>The program.\<close> Omni translates C and Fortran programs with XcalableMP, OpenMP and OpenACC directives. The front ends
  (\<open>C-FrontEnd\<close>, \<open>F-FrontEnd\<close>) parse a program into XcodeML, the translators (Java) replace directives by calls, the back
  ends print C or Fortran again, and the result is linked with a runtime library. What a directive means is decided by
  the runtime: which process owns an index of a distributed array, which thread runs an iteration of a loop, who waits
  for whom. The development is about these libraries and about what the C front end computes itself.

  \<^item> \<open>libxmp\<close>, the XcalableMP runtime. A program declares node sets, templates distributed onto node sets, and arrays
    aligned with templates. A parallel loop asks the runtime for the local part of its range; communication directives
    compute what each pair of nodes exchanges from section descriptors; asynchronous ones are registered until they are
    waited for; post and wait directives match requests between nodes; assignments between sections of coarrays on one
    node are copies of chunks of memory.
  \<^item> \<open>libompc\<close>, the OpenMP runtime. A parallel region takes processes from a table and makes them the threads of a team;
    the threads share loops by static, dynamic or guided schedules, meet at barriers, and enter single and locked
    regions.
  \<^item> \<open>C-FrontEnd\<close>. The lexer and the parser, which are generated, build trees of expressions, whose lists are linked lists;
    literals are decoded when their nodes are made; constant expressions (lengths of arrays, widths of bit fields, values of
    enumerators) are folded.

  \<^bold>\<open>Conventions.\<close> Functions that return are HOL functions with the parameters of the C function; what a function
  stores through a pointer is part of its result, and static variables and heaps are state that is passed. A call that ends the program,
  an access out of bounds or a loop without end is a value of the type \<open>res\<close> of \<open>Omni_Prelude\<close> (\<open>Inl\<close> of an error).
  C integers are \<open>int\<close>, with conversions (\<open>int32\<close>, \<open>uint64\<close>) where the code has them; addresses compared as
  pointers are compared as unsigned 64-bit numbers. In the loop schedules of the OpenMP runtime sums and products of type
  \<open>int\<close> are kept at 32 bits, and a division by zero is an error; elsewhere signed arithmetic has its mathematical value. MPI is not part of the repository: communicators are symbolic, and
  messages are events or arguments. Loops that may not end are \<open>partial_function (option)\<close>, with \<open>None\<close> for not returning, and theorems
  that say that they return prove a \<open>Some\<close>. Fuel is used once, in \<open>translate_ranks\<close>, whose recursion has the depth of the
  number of dimensions, which \<open>translate_ranks_returns\<close> proves to be enough.

  \<^bold>\<open>Shared theories.\<close> \<open>Omni_Prelude\<close>: errors, C arithmetic, loops and triplets as sets, the interface \<open>distribution\<close>
  (parts that cover a space, every index with one owner) and the interface \<open>coding\<close> (coordinates and numbers). \<open>Omni_Fair\<close>:
  interleaved threads under a fair scheduler and the interface \<open>progress\<close> (an invariant, and a rank that some enabled step
  decreases).

  \<^bold>\<open>XcalableMP.\<close>
  \<^item> \<open>Xmp_Math\<close> (\<open>xmp_math_function.c\<close>, macros): rounding, gcd, counting, overlap of triplets.
  \<^item> \<open>Xmp_Section\<close> (\<open>xmp_section_desc.c\<close>): RSD, BSD and CSD as the code stores them, with the set of indices each stands
    for. Intersections and communication sets are exactly the intersections of those sets where the code is right.
  \<^item> \<open>Xmp_Nodes\<close>, \<open>Xmp_Nodes_Laws\<close> (\<open>xmp_nodes.c\<close>, \<open>xmp_nodes_stack.c\<close>, \<open>xmp_world.c\<close>): a heap of node descriptors and the
    execution stack. A process is a member of a named node set exactly when its coordinates are in the section; linear
    ranks and coordinates are a bijection (\<open>coding\<close>); the rank on an ancestor is always found.
  \<^item> \<open>Xmp_Template\<close>, \<open>Xmp_Template_Laws\<close> (\<open>xmp_template.c\<close>): block, cyclic, block-cyclic and general block distributions are
    instances of \<open>distribution\<close>, and the owner is what \<open>_XMP_calc_template_owner_SCALAR\<close> computes.
  \<^item> \<open>Xmp_Loop\<close>, \<open>Xmp_Loop_Laws\<close> (\<open>xmp_loop.c\<close>): the local loops of all processes run every iteration of the serial loop
    exactly once (interface \<open>scheduling\<close>, which extends \<open>distribution\<close>).
  \<^item> \<open>Xmp_Align\<close>, \<open>Xmp_Align_Laws\<close> (\<open>xmp_align.c\<close>, the data types of \<open>xmp_reduce.c\<close>): the elements a process stores are those
    whose template index it owns; the layout of the local block is a bijection onto the allocated elements.
  \<^item> \<open>Xmp_Async\<close>, \<open>Xmp_Async_Laws\<close> (\<open>xmp_async.c\<close>): the hash table with chained cells is a finite map from ids to
    descriptors (interface \<open>keyed_table\<close>), in every reachable state, without access to freed cells.
  \<^item> \<open>Xmp_Post\<close>, \<open>Xmp_Post_Laws\<close> (\<open>xmp_post_wait.c\<close>, \<open>xmp_post_wait_mpi.c\<close>): the table of requests is a multiset (interface
    \<open>request_bag\<close>), a wait consumes one matching request, and processes that post, wait and receive in any order do
    not lose or double a request.
  \<^item> \<open>Xmp_Coarray\<close> (\<open>xmp_coarray_utils.c\<close>, \<open>xmp_coarray_local.c\<close>): memory as a function from addresses to bytes, the loop nests
    that the code writes out for every number of dimensions as lists of offsets. \<open>Xmp_Coarray_Laws\<close>: sections as sets of
    elements and their splitting into chunks. \<open>Xmp_Copy_Laws\<close>: a put to the own node is an assignment of sections.
    \<open>Xmp_Pack_Laws\<close>: packing and unpacking, and filling a section with one element.

  \<^bold>\<open>OpenMP.\<close> The threads of a team run interleaved; every read or write of a shared variable outside a lock is a step, a
  region under a lock is one step, and memory is sequentially consistent (the code has barriers, \<open>MBAR\<close>, at its stores).
  The build without POSIX barriers and with spin locks for I386 is modelled.
  \<^item> \<open>Ompc_Runtime\<close> (\<open>ompc_runtime.c\<close>): thread descriptors, schedules, sections, single, ordered, \<open>OMP_SCHEDULE\<close>.
    \<open>Ompc_Sched_Laws\<close>, \<open>Ompc_Chunk_Laws\<close>: the cyclic, block and chunked static schedules are instances of
    \<open>distribution\<close>, and the loop over the chunks ends. \<open>Ompc_Runtime_Laws\<close>: reading of \<open>OMP_SCHEDULE\<close>, and the chunk size and the
    first index with which a loop is started under the schedule that was read.
  \<^item> \<open>Ompc_Barrier\<close>, \<open>Ompc_Single\<close>, \<open>Ompc_Dynamic\<close>, \<open>Ompc_Dynamic_Laws\<close>: step functions of a thread, their reachable
    states and invariants, and instances of \<open>progress\<close>: no thread passes a barrier early, a single region has one
    executor, every iteration of a dynamic or guided loop is given out once, and all of them end under every fair
    schedule.
  \<^item> The theorems on loops hold for loops with a step that is not 0 and a positive chunk size, in which no \<open>int\<close> overflows
    (\<open>span_ok\<close>, \<open>chunk_loop_ok\<close>, \<open>dyn_ok\<close>); with chunks also for addresses that are not negative and leave room for
    the chunks of all threads, and for loops that count up or are of a C program. Outside of these conditions the code
    goes wrong (\<open>bsched_last_lost\<close>, \<open>static_sched_negative_start\<close>, \<open>static_sched_down_to_zero\<close>, \<open>static_sched_fortran_down\<close>),
    and after an empty dynamic loop a team is not ready for its next construct.
  \<^item> \<open>Ompc_Lock\<close> (\<open>ompc_lock.c\<close>): nestable locks exclude other threads and refine an abstract re-entrant lock.
  \<^item> \<open>Ompc_Team\<close>, \<open>Ompc_Team_Laws\<close> (\<open>ompc_thread.c\<close>): the table of processes and the forming of teams of at most \<open>MAX_PROC\<close>
    threads.

  \<^bold>\<open>C front end.\<close>
  \<^item> \<open>Cfe_Const\<close> (\<open>c-const.c\<close>, \<open>addEnumeratorSymbols\<close> of \<open>c-comp.c\<close>): numbers as 64-bit words or \<open>long double\<close> values of a given
    arithmetic (\<open>ld_ops\<close>), casts, common types, all operators, and folding as a partial function over trees and scopes.
    Type analysis (\<open>resolveType\<close>, \<open>isConstCall\<close>) is an argument. \<open>Cfe_Fold_Laws\<close>: a reference semantics \<open>c_eval\<close> of integer constant expressions
    after the C standard, independent of the code, over \<open>int\<close>, \<open>long\<close>, \<open>unsigned long\<close> and \<open>unsigned long long\<close>, defined where
    every operand is, and that folding agrees with it on the expressions where \<open>foldable\<close> holds.
    \<open>Cfe_Enum_Laws\<close>: the values of enumerators.
  \<^item> \<open>Cfe_Literal\<close>, \<open>Cfe_Literal_Laws\<close> (\<open>unescChar\<close> of \<open>c-const.c\<close>, constants of \<open>c-expr.c\<close>): the decoder of escape sequences as a
    state machine over the characters, which inverts the encoding of characters; character, string and number
    constants.
  \<^item> \<open>Ccol_List\<close>, \<open>Ccol_List_Laws\<close> (\<open>ccol-list.c\<close>): linked lists in a heap of nodes, which refine lists under every sequence of
    operations and leave other lists of the heap alone; the interface \<open>list_stack\<close> of their use as stacks.

  \<^bold>\<open>Findings.\<close> Where the code does not do what it means to, a theorem shows what it does instead: for instance
  \<open>dynamic_empty_blocks\<close>, \<open>dynamic_nowait_loses_chunk\<close>, \<open>temporary_nodes_diverge\<close>, \<open>intersection_rsds_spurious\<close>,
  \<open>cyclic_step_runs_extra\<close>, \<open>team_overruns_flags\<close>, \<open>set_stride_overruns\<close>, \<open>char_sum_wraps\<close>, \<open>enum_self_diverges\<close>,
  \<open>octal_at_end_lost\<close>. The correctness theorems have the hypotheses that exclude these cases.

  \<^bold>\<open>Not modelled.\<close> Releasing memory, debug and log output, and the start and end of MPI and of operating-system threads;
  the transfer of data to other nodes (gmove, reflect, broadcast, reductions, remote coarrays, file access), which calls
  MPI, GASNet, RDMA or CUDA; the Fortran entry points, which pass arguments on; the OpenACC and trace libraries; of the C
  front end the lexer and parser, which are generated, type analysis, conversions of syntax, the output of XcodeML and the
  hash table, which is taken from Tcl; the Fortran front end; the Java translators and back ends.
\<close>

end
